(* ===== verification/Prelude.thy ===== *)
theory Prelude
  imports Main "HOL-Library.Word"
begin

unbundle bit_operations_syntax

text \<open>
  Shared vocabulary of the NanoOS development: the C integer types, the ways a kernel
  routine can fail to return, the sequencing of routines that can fail, arrays with the
  bounds check written out, and generic lemmas on lists, functions and words that the
  component theories use.  The collections \<open>kdefs\<close> and \<open>resolve\<close> hold the
  unfolding rules of small routines and the equations that evaluate a sequence of
  fallible routines.
\<close>

named_theorems kdefs \<open>unfolding rules of small kernel routines\<close>
named_theorems resolve \<open>evaluation of sequences of fallible routines\<close>

section \<open>C types\<close>

type_synonym u8 = "8 word"
type_synonym u16 = "16 word"
type_synonym u32 = "32 word"

text \<open>
  \<open>pid_t\<close>, \<open>size_t\<close> and \<open>off_t\<close> are \<open>int\<close> in \<open>include/types.h\<close>; a 32-bit
  word holds them, and \<open>sint\<close> reads it as signed where the sign matters.
\<close>

type_synonym pid_t = "32 word"

section \<open>Routines that do not return\<close>

text \<open>
  \<open>panic\<close> and a failed \<open>assert\<close> stop the machine (\<open>include/assert.h\<close>).  An access
  through a null pointer or outside an array is undefined behaviour of C; the model keeps
  it apart as an error of its own instead of giving it a value.  \<open>NoReturn\<close> says that a
  loop over a linked list was not done after as many steps as its pool has elements.
\<close>

datatype kerror =
    AssertFail string
  | Panic string
  | NullDeref string
  | OutOfBounds string
  | NoReturn string

type_synonym 'a res = "kerror + 'a"

definition bindR :: "'a res \<Rightarrow> ('a \<Rightarrow> 'b res) \<Rightarrow> 'b res" where
  "bindR m f = (case m of Inl e \<Rightarrow> Inl e | Inr x \<Rightarrow> f x)"

lemma bindR_Inl [simp, resolve]: "bindR (Inl e) f = Inl e"
  by (simp add: bindR_def)

lemma bindR_Inr [simp, resolve]: "bindR (Inr x) f = f x"
  by (simp add: bindR_def)

text \<open>The first routine is evaluated before what follows it is looked at.\<close>

lemma bindR_weak_cong [cong]: "m = m' \<Longrightarrow> bindR m f = bindR m' f"
  by simp

lemma bindR_Inr_iff: "bindR m f = Inr y \<longleftrightarrow> (\<exists>x. m = Inr x \<and> f x = Inr y)"
  by (cases m) auto

lemma bindR_InrE:
  assumes "bindR m f = Inr y"
  obtains x where "m = Inr x" and "f x = Inr y"
  using assms by (auto simp: bindR_Inr_iff)

lemma bindR_assoc: "bindR (bindR m f) g = bindR m (\<lambda>x. bindR (f x) g)"
  by (cases m) simp_all

definition assertR :: "bool \<Rightarrow> string \<Rightarrow> unit res" where
  "assertR b what = (if b then Inr () else Inl (AssertFail what))"

lemma assertR_True [simp, resolve]: "assertR True w = Inr ()"
  by (simp add: assertR_def)

lemma assertR_False [simp, resolve]: "assertR False w = Inl (AssertFail w)"
  by (simp add: assertR_def)

lemma assertR_eq_Inr [simp]: "assertR b w = Inr x \<longleftrightarrow> b"
  by (simp add: assertR_def)

text \<open>A counted loop whose body can fail: \<open>for (i in is) s = body(i, s)\<close>.\<close>

fun forR :: "('i \<Rightarrow> 's \<Rightarrow> 's res) \<Rightarrow> 'i list \<Rightarrow> 's \<Rightarrow> 's res" where
  "forR body [] s = Inr s"
| "forR body (i # is) s = bindR (body i s) (forR body is)"

lemma forR_append: "forR body (is @ js) s = bindR (forR body is s) (forR body js)"
  by (induction "is" arbitrary: s) (auto simp: bindR_assoc bindR_def split: sum.splits)

lemma forR_upt_Suc: "forR body [0..<Suc n] s = bindR (forR body [0..<n] s) (body n)"
  by (cases "forR body [0..<n] s") (simp_all add: forR_append bindR_def split: sum.splits)

lemma forR_invariant:
  assumes "P 0 s"
    and "\<And>k s. k < length is \<Longrightarrow> P k s \<Longrightarrow> \<exists>s'. body (is ! k) s = Inr s' \<and> P (Suc k) s'"
  shows "\<exists>s'. forR body is s = Inr s' \<and> P (length is) s'"
  using assms
proof (induction "is" arbitrary: s P)
  case Nil
  then show ?case by simp
next
  case (Cons i "is")
  from Cons.prems(2) [of 0 s] Cons.prems(1) obtain s1 where s1: "body i s = Inr s1" "P 1 s1"
    by auto
  have "\<exists>s'. forR body is s1 = Inr s' \<and> P (Suc (length is)) s'"
    using s1(2) Cons.prems(2) [of "Suc k" for k]
    by (intro Cons.IH [where P = "\<lambda>k. P (Suc k)"]) auto
  with s1 show ?case by auto
qed

section \<open>Integers\<close>

text \<open>Division and remainder of C truncate towards zero.\<close>

definition cdiv :: "int \<Rightarrow> int \<Rightarrow> int" where
  "cdiv a b = sgn a * sgn b * (\<bar>a\<bar> div \<bar>b\<bar>)"

definition cmod :: "int \<Rightarrow> int \<Rightarrow> int" where
  "cmod a b = a - b * cdiv a b"

lemma cdiv_nonneg: "0 \<le> a \<Longrightarrow> 0 < b \<Longrightarrow> cdiv a b = a div b"
  by (cases "a = 0") (simp_all add: cdiv_def)

lemma cmod_nonneg: "0 \<le> a \<Longrightarrow> 0 < b \<Longrightarrow> cmod a b = a mod b"
  by (simp add: cmod_def cdiv_nonneg minus_mult_div_eq_mod)

section \<open>Words\<close>

lemma unat_of_nat_u32 [simp]: "n < 4294967296 \<Longrightarrow> unat (word_of_nat n :: u32) = n"
  by (simp add: unat_of_nat take_bit_nat_eq_self)

lemma sint_of_nat_u32: "n < 2147483648 \<Longrightarrow> sint (word_of_nat n :: u32) = int n"
  by (simp add: signed_of_nat signed_take_bit_int_eq_self)

lemma word_of_nat_u32_inj:
  "m < 4294967296 \<Longrightarrow> n < 4294967296 \<Longrightarrow> (word_of_nat m :: u32) = word_of_nat n \<longleftrightarrow> m = n"
  by (metis unat_of_nat_u32)

lemma unat_plus_u32: "unat a + unat b < 4294967296 \<Longrightarrow> unat ((a :: u32) + b) = unat a + unat b"
  by (simp add: unat_add_lem [THEN iffD1])

text \<open>The addresses of a range of bytes by their distance from its start.\<close>

lemma unat_diff_u32:
  assumes "n < 4294967296"
  shows "unat ((a :: u32) - b) = n \<longleftrightarrow> a = b + word_of_nat n"
proof
  assume "unat (a - b) = n"
  then have "a - b = word_of_nat n" by (metis word_of_nat_eq_iff unat_of_nat_u32 [OF assms] unsigned_word_eqI)
  then show "a = b + word_of_nat n" by (simp add: diff_eq_eq add.commute)
next
  assume "a = b + word_of_nat n"
  then show "unat (a - b) = n" using assms by simp
qed

section \<open>Lists\<close>

lemma nth_mod_lt: "xs \<noteq> [] \<Longrightarrow> xs ! (k mod length xs) \<in> set xs"
  by (simp add: nth_mem)

lemma remove1_append_mid: "x \<notin> set ys \<Longrightarrow> remove1 x (ys @ x # zs) = ys @ zs"
  by (simp add: remove1_append)

text \<open>Removing the first element with a property.\<close>

fun drop_first :: "('a \<Rightarrow> bool) \<Rightarrow> 'a list \<Rightarrow> 'a list" where
  "drop_first p [] = []"
| "drop_first p (x # xs) = (if p x then xs else x # drop_first p xs)"

lemma map_remove1_find:
  "find (\<lambda>a. p (f a)) xs = Some a \<Longrightarrow> map f (remove1 a xs) = drop_first p (map f xs)"
proof (induction xs)
  case (Cons x xs)
  show ?case
  proof (cases "p (f x)")
    case True
    with Cons.prems show ?thesis by simp
  next
    case False
    with Cons.prems have a: "find (\<lambda>a. p (f a)) xs = Some a" by simp
    then have "p (f a)" by (auto simp: find_Some_iff)
    with False a Cons.IH show ?thesis by auto
  qed
qed simp

lemma find_map: "find p (map f xs) = map_option f (find (\<lambda>a. p (f a)) xs)"
  by (induction xs) auto

end
