(* ===== verification/Lists.thy ===== *)
theory Lists
  imports Prelude
begin

text \<open>
  The intrusive circular doubly linked list of \<open>include/adt/list.h\<close>.  A \<open>ListHead\<close> is
  named by an address of type \<open>'p\<close>; the two link fields of every \<open>ListHead\<close> are the
  functions \<open>nxt\<close> and \<open>prv\<close>, and a pointer is an optional address (\<open>None\<close> is
  \<open>NULL\<close>, the value of the links of a zero-initialised node).  The abstraction of a
  heap is a family of lists: \<open>rep h H L\<close> says that for every list head in \<open>H\<close> the
  nodes hanging off it are, in order, \<open>L\<close> of that head, and that the lists are
  pairwise disjoint.
\<close>

section \<open>The operations of list.h\<close>

record 'p links =
  nxt :: "'p \<Rightarrow> 'p option"
  prv :: "'p \<Rightarrow> 'p option"

definition list_add :: "'p option \<Rightarrow> 'p option \<Rightarrow> 'p option \<Rightarrow> 'p links \<Rightarrow> 'p links res" where
  "list_add prev next data h =
     (case data of
        None \<Rightarrow> Inl (AssertFail ''data != NULL'')
      | Some d \<Rightarrow>
          let h = h\<lparr>prv := (prv h)(d := prev)\<rparr>;
              h = h\<lparr>nxt := (nxt h)(d := next)\<rparr>;
              h = (case prev of None \<Rightarrow> h | Some p \<Rightarrow> h\<lparr>nxt := (nxt h)(p := Some d)\<rparr>);
              h = (case next of None \<Rightarrow> h | Some n \<Rightarrow> h\<lparr>prv := (prv h)(n := Some d)\<rparr>)
          in Inr h)"

definition list_add_before :: "'p option \<Rightarrow> 'p option \<Rightarrow> 'p links \<Rightarrow> 'p links res" where
  "list_add_before list data h =
     (case list of
        None \<Rightarrow> Inl (AssertFail ''list != NULL'')
      | Some l \<Rightarrow> list_add (prv h l) (Some l) data h)"

definition list_add_after :: "'p option \<Rightarrow> 'p option \<Rightarrow> 'p links \<Rightarrow> 'p links res" where
  "list_add_after list data h =
     (case list of
        None \<Rightarrow> Inl (AssertFail ''list != NULL'')
      | Some l \<Rightarrow> list_add (Some l) (nxt h l) data h)"

definition list_del :: "'p option \<Rightarrow> 'p links \<Rightarrow> 'p links res" where
  "list_del data h =
     (case data of
        None \<Rightarrow> Inl (AssertFail ''data != NULL'')
      | Some d \<Rightarrow>
          let prev = prv h d;
              next = nxt h d;
              h = (case prev of None \<Rightarrow> h | Some p \<Rightarrow> h\<lparr>nxt := (nxt h)(p := next)\<rparr>);
              h = (case next of None \<Rightarrow> h | Some n \<Rightarrow> h\<lparr>prv := (prv h)(n := prev)\<rparr>)
          in Inr h)"

definition list_init :: "'p option \<Rightarrow> 'p links \<Rightarrow> 'p links res" where
  "list_init list h =
     (case list of
        None \<Rightarrow> Inl (AssertFail ''list != NULL'')
      | Some l \<Rightarrow> Inr (h\<lparr>prv := (prv h)(l := Some l), nxt := (nxt h)(l := Some l)\<rparr>))"

definition list_empty :: "'p option \<Rightarrow> 'p links \<Rightarrow> bool res" where
  "list_empty list h =
     (case list of
        None \<Rightarrow> Inl (AssertFail ''list != NULL'')
      | Some l \<Rightarrow> Inr (Some l = nxt h l))"

text \<open>
  \<open>list_foreach(ptr, head)\<close> with a body that leaves the loop when a test on the node
  holds: the value of \<open>ptr\<close> after the loop, which is \<open>head\<close> itself when no node passed
  the test.  The fuel bounds the number of nodes visited.
\<close>

fun list_search :: "nat \<Rightarrow> 'p links \<Rightarrow> ('p \<Rightarrow> bool) \<Rightarrow> 'p \<Rightarrow> 'p option \<Rightarrow> 'p res" where
  "list_search 0 h test head ptr = Inl (NoReturn ''list_foreach'')"
| "list_search (Suc n) h test head ptr =
     (case ptr of
        None \<Rightarrow> Inl (NullDeref ''list_foreach'')
      | Some a \<Rightarrow>
          if a = head then Inr head
          else if test a then Inr a
          else list_search n h test head (nxt h a))"

definition list_foreach_until :: "nat \<Rightarrow> 'p links \<Rightarrow> ('p \<Rightarrow> bool) \<Rightarrow> 'p \<Rightarrow> 'p res" where
  "list_foreach_until fuel h test head = list_search fuel h test head (nxt h head)"

text \<open>The nodes a complete \<open>list_foreach\<close> visits, in order.\<close>

fun list_visit :: "nat \<Rightarrow> 'p links \<Rightarrow> 'p \<Rightarrow> 'p option \<Rightarrow> 'p list res" where
  "list_visit 0 h head ptr = Inl (NoReturn ''list_foreach'')"
| "list_visit (Suc n) h head ptr =
     (case ptr of
        None \<Rightarrow> Inl (NullDeref ''list_foreach'')
      | Some a \<Rightarrow>
          if a = head then Inr []
          else bindR (list_visit n h head (nxt h a)) (\<lambda>rest. Inr (a # rest)))"

definition list_foreach :: "nat \<Rightarrow> 'p links \<Rightarrow> 'p \<Rightarrow> 'p list res" where
  "list_foreach fuel h head = list_visit fuel h head (nxt h head)"

section \<open>Normal forms on non-null arguments\<close>

definition link_node :: "'p option \<Rightarrow> 'p option \<Rightarrow> 'p \<Rightarrow> 'p links \<Rightarrow> 'p links" where
  "link_node prev next d h =
     h\<lparr>nxt := (case prev of None \<Rightarrow> (nxt h)(d := next) | Some p \<Rightarrow> (nxt h)(d := next, p := Some d)),
       prv := (case next of None \<Rightarrow> (prv h)(d := prev) | Some n \<Rightarrow> (prv h)(d := prev, n := Some d))\<rparr>"

definition unlink_node :: "'p \<Rightarrow> 'p links \<Rightarrow> 'p links" where
  "unlink_node d h =
     h\<lparr>nxt := (case prv h d of None \<Rightarrow> nxt h | Some p \<Rightarrow> (nxt h)(p := nxt h d)),
       prv := (case nxt h d of None \<Rightarrow> prv h | Some n \<Rightarrow> (prv h)(n := prv h d))\<rparr>"

definition self_link :: "'p \<Rightarrow> 'p links \<Rightarrow> 'p links" where
  "self_link l h = h\<lparr>nxt := (nxt h)(l := Some l), prv := (prv h)(l := Some l)\<rparr>"

definition link_before :: "'p \<Rightarrow> 'p \<Rightarrow> 'p links \<Rightarrow> 'p links" where
  "link_before l d h = link_node (prv h l) (Some l) d h"

lemma list_add_Some [simp, resolve]: "list_add p n (Some d) h = Inr (link_node p n d h)"
  by (simp add: list_add_def link_node_def Let_def split: option.splits)

lemma list_add_before_Some [simp, resolve]:
  "list_add_before (Some l) (Some d) h = Inr (link_before l d h)"
  by (simp add: list_add_before_def link_before_def)

lemma list_add_after_Some [simp, resolve]:
  "list_add_after (Some l) (Some d) h = Inr (link_node (Some l) (nxt h l) d h)"
  by (simp add: list_add_after_def)

lemma list_del_Some [simp, resolve]: "list_del (Some d) h = Inr (unlink_node d h)"
  by (simp add: list_del_def unlink_node_def Let_def split: option.splits)

lemma list_init_Some [simp, resolve]: "list_init (Some l) h = Inr (self_link l h)"
  by (simp add: list_init_def self_link_def)

lemma list_empty_Some [simp, resolve]: "list_empty (Some l) h = Inr (nxt h l = Some l)"
  by (auto simp add: list_empty_def)

section \<open>One circular list\<close>

fun chain :: "'p links \<Rightarrow> 'p \<Rightarrow> 'p list \<Rightarrow> 'p \<Rightarrow> bool" where
  "chain h a [] b \<longleftrightarrow> nxt h a = Some b \<and> prv h b = Some a"
| "chain h a (x # xs) b \<longleftrightarrow> nxt h a = Some x \<and> prv h x = Some a \<and> chain h x xs b"

definition dl :: "'p links \<Rightarrow> 'p \<Rightarrow> 'p list \<Rightarrow> bool" where
  "dl h l xs \<longleftrightarrow> distinct (l # xs) \<and> chain h l xs l"

lemma chain_append:
  "chain h a (xs @ y # ys) b \<longleftrightarrow> chain h a xs y \<and> chain h y ys b"
  by (induction xs arbitrary: a) auto

lemma chain_cong:
  assumes "\<And>x. x \<in> set (a # xs) \<Longrightarrow> nxt h x = nxt h' x"
    and "\<And>x. x \<in> set (b # xs) \<Longrightarrow> prv h x = prv h' x"
  shows "chain h a xs b \<longleftrightarrow> chain h' a xs b"
  using assms by (induction xs arbitrary: a) auto

lemma chain_first: "chain h a xs b \<Longrightarrow> nxt h a = Some (hd (xs @ [b]))"
  by (cases xs) auto

lemma chain_last: "chain h a xs b \<Longrightarrow> prv h b = Some (last (a # xs))"
  by (induction xs arbitrary: a) auto

lemma chain_unique:
  "chain h a xs b \<Longrightarrow> chain h a ys b \<Longrightarrow> b \<notin> set xs \<Longrightarrow> b \<notin> set ys \<Longrightarrow> xs = ys"
proof (induction xs arbitrary: a ys)
  case Nil
  then show ?case by (cases ys) auto
next
  case (Cons x xs)
  then show ?case by (cases ys) auto
qed

lemma dl_unique: "dl h l xs \<Longrightarrow> dl h l ys \<Longrightarrow> xs = ys"
  by (auto simp: dl_def dest: chain_unique)

lemma dl_cong:
  assumes "\<And>x. x \<in> set (l # xs) \<Longrightarrow> nxt h x = nxt h' x \<and> prv h x = prv h' x"
  shows "dl h l xs \<longleftrightarrow> dl h' l xs"
  using chain_cong [of l xs h h' l] assms by (auto simp: dl_def)

lemma dl_empty_iff: "dl h l xs \<Longrightarrow> nxt h l = Some l \<longleftrightarrow> xs = []"
  by (cases xs) (auto simp: dl_def)

lemma dl_nxt: "dl h l xs \<Longrightarrow> nxt h l = Some (hd (xs @ [l]))"
  by (auto simp: dl_def dest: chain_first)

lemma dl_prv: "dl h l xs \<Longrightarrow> prv h l = Some (last (l # xs))"
  by (auto simp: dl_def dest: chain_last simp del: last.simps)

lemma dl_nxt_node:
  assumes "dl h l (ys @ x # zs)"
  shows "nxt h x = Some (hd (zs @ [l]))"
  using assms chain_first [of h x zs l] by (simp add: dl_def chain_append)

lemma dl_prv_node:
  assumes "dl h l (ys @ x # zs)"
  shows "prv h x = Some (last (l # ys))"
  using assms chain_last [of h l ys x] by (simp add: dl_def chain_append)

lemma dl_self_link: "dl (self_link l h) l []"
  by (simp add: dl_def self_link_def)

lemma dl_link_before:
  assumes "dl h l xs" and "d \<notin> set (l # xs)"
  shows "dl (link_before l d h) l (xs @ [d])"
proof -
  let ?h = "link_before l d h"
  have p: "prv h l = Some (last (l # xs))" by (rule dl_prv [OF assms(1)])
  show ?thesis
  proof (cases xs rule: rev_cases)
    case Nil
    with assms p show ?thesis by (auto simp: dl_def link_before_def link_node_def)
  next
    case (snoc ys y)
    then have "chain h l ys y" and ds: "distinct (l # ys @ [y])" "d \<notin> set (l # ys @ [y])"
      using assms by (auto simp: dl_def chain_append)
    moreover have "chain ?h l ys y \<longleftrightarrow> chain h l ys y"
      using ds p snoc by (intro chain_cong) (auto simp: link_before_def link_node_def)
    ultimately have "chain ?h l ys y" by simp
    then show ?thesis using snoc ds p by (auto simp: dl_def chain_append link_before_def link_node_def)
  qed
qed

lemma dl_unlink:
  assumes "dl h l (ys @ x # zs)"
  shows "dl (unlink_node x h) l (ys @ zs)"
proof -
  let ?h = "unlink_node x h"
  have ds: "distinct (l # ys @ x # zs)" and c: "chain h l ys x" "chain h x zs l"
    using assms by (auto simp: dl_def chain_append)
  have p: "prv h x = Some (last (l # ys))" and n: "nxt h x = Some (hd (zs @ [l]))"
    using assms by (rule dl_prv_node, rule dl_nxt_node)
  have "chain ?h l (ys @ zs) l"
  proof (cases ys rule: rev_cases)
    case Nil
    show ?thesis
    proof (cases zs)
      case Nil
      with \<open>ys = []\<close> p n ds show ?thesis by (auto simp: unlink_node_def)
    next
      case (Cons z zs')
      have "chain ?h z zs' l \<longleftrightarrow> chain h z zs' l"
        using ds \<open>ys = []\<close> Cons p n by (intro chain_cong) (auto simp: unlink_node_def)
      with c Cons \<open>ys = []\<close> p n ds show ?thesis by (auto simp: unlink_node_def)
    qed
  next
    case (snoc ys' y)
    have y: "chain ?h l ys' y \<longleftrightarrow> chain h l ys' y"
      using ds snoc p n by (intro chain_cong) (cases zs; auto simp: unlink_node_def)+
    show ?thesis
    proof (cases zs)
      case Nil
      with snoc c y p n ds show ?thesis by (auto simp: unlink_node_def chain_append)
    next
      case (Cons z zs')
      have "chain ?h z zs' l \<longleftrightarrow> chain h z zs' l"
        using ds snoc Cons p n by (intro chain_cong) (auto simp: unlink_node_def)
      with c Cons snoc y p n ds show ?thesis by (auto simp: unlink_node_def chain_append)
    qed
  qed
  with ds show ?thesis by (auto simp: dl_def)
qed

section \<open>A family of disjoint lists\<close>

definition rep :: "'p links \<Rightarrow> 'p set \<Rightarrow> ('p \<Rightarrow> 'p list) \<Rightarrow> bool" where
  "rep h H L \<longleftrightarrow>
     (\<forall>l\<in>H. dl h l (L l)) \<and>
     (\<forall>l\<in>H. \<forall>m\<in>H. l \<noteq> m \<longrightarrow> set (l # L l) \<inter> set (m # L m) = {})"

definition linked :: "'p set \<Rightarrow> ('p \<Rightarrow> 'p list) \<Rightarrow> 'p set" where
  "linked H L = (\<Union>l\<in>H. set (l # L l))"

lemma repD [dest]: "rep h H L \<Longrightarrow> l \<in> H \<Longrightarrow> dl h l (L l)"
  by (simp add: rep_def)

lemma rep_disjoint:
  "rep h H L \<Longrightarrow> l \<in> H \<Longrightarrow> m \<in> H \<Longrightarrow> l \<noteq> m \<Longrightarrow> set (l # L l) \<inter> set (m # L m) = {}"
  by (simp add: rep_def)

lemma rep_unique: "rep h H L \<Longrightarrow> rep h H M \<Longrightarrow> l \<in> H \<Longrightarrow> L l = M l"
  by (meson repD dl_unique)

lemma rep_cong:
  assumes "\<And>x. x \<in> linked H L \<Longrightarrow> nxt h x = nxt h' x \<and> prv h x = prv h' x"
  shows "rep h H L \<longleftrightarrow> rep h' H L"
proof -
  have "dl h l (L l) \<longleftrightarrow> dl h' l (L l)" if "l \<in> H" for l
    using that by (intro dl_cong assms) (auto simp: linked_def)
  then show ?thesis by (simp add: rep_def)
qed

text \<open>
  An operation on one list of the family leaves the others alone: the frame rule all the
  component proofs go through.
\<close>

lemma rep_frame:
  assumes r: "rep h H L" and l: "l \<in> H" and new: "dl h' l xs"
    and own: "\<And>m. m \<in> H \<Longrightarrow> m \<noteq> l \<Longrightarrow> set (m # L m) \<inter> set xs = {}"
    and same: "\<And>m x. m \<in> H \<Longrightarrow> m \<noteq> l \<Longrightarrow> x \<in> set (m # L m) \<Longrightarrow>
      nxt h x = nxt h' x \<and> prv h x = prv h' x"
  shows "rep h' H (L(l := xs))"
proof -
  have "dl h' m (L m)" if "m \<in> H" "m \<noteq> l" for m
    using dl_cong [of m "L m" h h'] same [OF that] r that(1) by (auto simp: rep_def)
  moreover have "set (l # xs) \<inter> set (m # L m) = {}" if "m \<in> H" "m \<noteq> l" for m
    using own [OF that] rep_disjoint [OF r l that(1)] that(2) by auto
  moreover have "set (m # L m) \<inter> set (n # L n) = {}" if "m \<in> H" "n \<in> H" "m \<noteq> n" for m n
    by (rule rep_disjoint [OF r that])
  ultimately show ?thesis using new unfolding rep_def by (auto simp: Int_commute)
qed

lemma rep_add_before:
  assumes r: "rep h H L" and l: "l \<in> H" and d: "d \<notin> linked H L"
  shows "rep (link_before l d h) H (L(l := L l @ [d]))"
proof (rule rep_frame [OF r l])
  from r l have dl: "dl h l (L l)" by auto
  have "d \<notin> set (l # L l)" using d l by (auto simp: linked_def)
  with dl show "dl (link_before l d h) l (L l @ [d])" by (rule dl_link_before)
next
  fix m assume m: "m \<in> H" "m \<noteq> l"
  show "set (m # L m) \<inter> set (L l @ [d]) = {}"
    using rep_disjoint [OF r l m(1)] m d by (auto simp: linked_def)
next
  fix m x assume m: "m \<in> H" "m \<noteq> l" and x: "x \<in> set (m # L m)"
  have "x \<notin> set (l # L l)" using rep_disjoint [OF r l m(1)] m(2) x by auto
  moreover have "x \<noteq> d" using x d m by (auto simp: linked_def)
  moreover have "prv h l = Some (last (l # L l))" by (rule dl_prv [OF repD [OF r l]])
  ultimately show "nxt h x = nxt (link_before l d h) x \<and>
      prv h x = prv (link_before l d h) x"
    by (auto simp: link_before_def link_node_def split: if_splits)
qed

lemma rep_del:
  assumes r: "rep h H L" and l: "l \<in> H" and d: "d \<in> set (L l)"
  shows "rep (unlink_node d h) H (L(l := remove1 d (L l)))"
proof -
  from r l have dl: "dl h l (L l)" by auto
  obtain ys zs where s: "L l = ys @ d # zs" using d by (auto simp: in_set_conv_decomp)
  with dl have ds: "distinct (l # ys @ d # zs)" by (auto simp: dl_def)
  have rm: "remove1 d (L l) = ys @ zs" using ds s by (simp add: remove1_append)
  have p: "prv h d = Some (last (l # ys))" and n: "nxt h d = Some (hd (zs @ [l]))"
    using dl s dl_prv_node dl_nxt_node by metis+
  show ?thesis
  proof (rule rep_frame [OF r l])
    show "dl (unlink_node d h) l (remove1 d (L l))"
      using dl s rm dl_unlink by metis
  next
    fix m assume m: "m \<in> H" "m \<noteq> l"
    show "set (m # L m) \<inter> set (remove1 d (L l)) = {}"
      using rep_disjoint [OF r l m(1)] m(2) s rm by auto
  next
    fix m x assume m: "m \<in> H" "m \<noteq> l" and x: "x \<in> set (m # L m)"
    have "x \<notin> set (l # L l)" using rep_disjoint [OF r l m(1)] m(2) x by auto
    with s have "x \<notin> set (l # ys)" "x \<notin> set (zs @ [l])" by auto
    then have "x \<noteq> last (l # ys)" "x \<noteq> hd (zs @ [l])"
      by (metis last_in_set list.discI, metis hd_in_set snoc_eq_iff_butlast)
    then show "nxt h x = nxt (unlink_node d h) x \<and> prv h x = prv (unlink_node d h) x"
      using p n by (auto simp: unlink_node_def)
  qed
qed

lemma rep_init:
  assumes r: "rep h H L" and l: "l \<notin> linked H L"
  shows "rep (self_link l h) (insert l H) (L(l := []))"
proof -
  have lH: "l \<notin> H" using l by (auto simp: linked_def)
  have "nxt h x = nxt (self_link l h) x \<and> prv h x = prv (self_link l h) x"
    if "x \<in> linked H L" for x
    using that l by (auto simp: self_link_def)
  then have "rep (self_link l h) H L" using r rep_cong by blast
  then have "dl (self_link l h) m (L m)" if "m \<in> H" for m using that by auto
  with lH r l dl_self_link show ?thesis
    by (fastforce simp: rep_def linked_def)
qed

lemma linked_add [simp]:
  "l \<in> H \<Longrightarrow> linked H (L(l := L l @ [d])) = insert d (linked H L)"
  by (auto simp: linked_def split: if_splits)

lemma rep_linked_del:
  assumes "rep h H L" "l \<in> H" "d \<in> set (L l)"
  shows "linked H (L(l := remove1 d (L l))) = linked H L - {d}"
proof -
  have "distinct (l # L l)" using assms by (auto simp: dl_def)
  moreover have "d \<notin> set (m # L m)" if "m \<in> H" "m \<noteq> l" for m
    using rep_disjoint [OF assms(1,2) that(1)] that(2) assms(3) by auto
  ultimately show ?thesis using assms(2,3)
    by (auto simp: linked_def split: if_splits)
qed

text \<open>
  The contract the clients of \<open>list.h\<close> rely on, for any heap of lists \<open>R\<close> with
  insertion at the tail, removal and initialisation.  Moving a node from one list to the
  tail of another is what \<open>sleep\<close>, \<open>sleep_sem\<close>, \<open>wakeup\<close>, \<open>create_kthread\<close> and
  \<open>hal_register\<close> do; threading a whole pool on one list is what \<open>init_proc\<close> and
  \<open>init_hal\<close> do.
\<close>

locale list_family =
  fixes R :: "'h \<Rightarrow> 'p set \<Rightarrow> ('p \<Rightarrow> 'p list) \<Rightarrow> bool"
    and insert_tail :: "'p \<Rightarrow> 'p \<Rightarrow> 'h \<Rightarrow> 'h"
    and remove :: "'p \<Rightarrow> 'h \<Rightarrow> 'h"
    and fresh :: "'p \<Rightarrow> 'h \<Rightarrow> 'h"
  assumes insert_tail_ok: "R h H L \<Longrightarrow> l \<in> H \<Longrightarrow> d \<notin> linked H L \<Longrightarrow>
      R (insert_tail l d h) H (L(l := L l @ [d]))"
    and remove_ok: "R h H L \<Longrightarrow> l \<in> H \<Longrightarrow> d \<in> set (L l) \<Longrightarrow>
      R (remove d h) H (L(l := remove1 d (L l)))"
    and remove_linked: "R h H L \<Longrightarrow> l \<in> H \<Longrightarrow> d \<in> set (L l) \<Longrightarrow>
      linked H (L(l := remove1 d (L l))) = linked H L - {d}"
    and fresh_ok: "R h H L \<Longrightarrow> l \<notin> linked H L \<Longrightarrow> R (fresh l h) (insert l H) (L(l := []))"
begin

lemma move_ok:
  assumes "R h H L" and "l \<in> H" and "m \<in> H" and "l \<noteq> m" and "d \<in> set (L l)"
  shows "R (insert_tail m d (remove d h)) H (L(l := remove1 d (L l), m := L m @ [d]))"
proof -
  let ?L = "L(l := remove1 d (L l))"
  have "R (remove d h) H ?L" by (rule remove_ok [OF assms(1,2,5)])
  moreover have "d \<notin> linked H ?L" by (simp add: remove_linked [OF assms(1,2,5)])
  ultimately have "R (insert_tail m d (remove d h)) H (?L(m := ?L m @ [d]))"
    using assms(3) insert_tail_ok by blast
  with assms(4) show ?thesis by simp
qed

lemma insert_all_ok:
  assumes "R h H L" and "l \<in> H" and "distinct ds" and "set ds \<inter> linked H L = {}"
  shows "R (fold (insert_tail l) ds h) H (L(l := L l @ ds))"
  using assms
proof (induction ds arbitrary: h L)
  case Nil
  then show ?case by simp
next
  case (Cons d ds)
  let ?L = "L(l := L l @ [d])"
  from Cons.prems have "R (insert_tail l d h) H ?L" by (auto intro: insert_tail_ok)
  moreover have "set ds \<inter> linked H ?L = {}" "distinct ds"
    using Cons.prems by (auto simp only: linked_add distinct.simps list.set)
  ultimately have "R (fold (insert_tail l) ds (insert_tail l d h)) H (?L(l := ?L l @ ds))"
    using Cons.prems(2) by (intro Cons.IH)
  moreover have "?L(l := ?L l @ ds) = L(l := L l @ d # ds)" by simp
  ultimately show ?case by (simp only: fold_Cons o_apply)
qed

end

interpretation lf: list_family rep link_before unlink_node self_link
  by unfold_locales (rule rep_add_before rep_del rep_linked_del rep_init; assumption)+

lemma rep_nxt: "rep h H L \<Longrightarrow> l \<in> H \<Longrightarrow> nxt h l = Some (hd (L l @ [l]))"
  by (auto intro: dl_nxt)

lemma rep_empty_iff: "rep h H L \<Longrightarrow> l \<in> H \<Longrightarrow> nxt h l = Some l \<longleftrightarrow> L l = []"
  by (auto dest: repD dl_empty_iff)

lemma rep_nxt_node:
  "rep h H L \<Longrightarrow> l \<in> H \<Longrightarrow> L l = ys @ x # zs \<Longrightarrow> nxt h x = Some (hd (zs @ [l]))"
  by (metis repD dl_nxt_node)

section \<open>Traversal\<close>

lemma list_search_chain:
  assumes "chain h a xs l" and "l \<notin> set xs" and "length xs < fuel"
  shows "list_search fuel h test l (nxt h a) =
    Inr (case find test xs of None \<Rightarrow> l | Some x \<Rightarrow> x)"
  using assms
proof (induction xs arbitrary: a fuel)
  case Nil
  then show ?case by (cases fuel) auto
next
  case (Cons x xs)
  then obtain n where "fuel = Suc n" by (cases fuel) auto
  with Cons.prems Cons.IH [of x n] show ?case by auto
qed

lemma list_foreach_until_rep:
  assumes "rep h H L" and "l \<in> H" and "length (L l) < fuel"
  shows "list_foreach_until fuel h test l =
    Inr (case find test (L l) of None \<Rightarrow> l | Some x \<Rightarrow> x)"
  unfolding list_foreach_until_def
  using repD [OF assms(1,2)] assms(3) by (intro list_search_chain) (auto simp: dl_def)

lemma list_visit_chain:
  assumes "chain h a xs l" and "l \<notin> set xs" and "length xs < fuel"
  shows "list_visit fuel h l (nxt h a) = Inr xs"
  using assms
proof (induction xs arbitrary: a fuel)
  case Nil
  then show ?case by (cases fuel) auto
next
  case (Cons x xs)
  then obtain n where "fuel = Suc n" by (cases fuel) auto
  with Cons.prems Cons.IH [of x n] show ?case by auto
qed

lemma list_foreach_rep:
  assumes "rep h H L" and "l \<in> H" and "length (L l) < fuel"
  shows "list_foreach fuel h l = Inr (L l)"
  unfolding list_foreach_def
  using repD [OF assms(1,2)] assms(3) by (intro list_visit_chain) (auto simp: dl_def)

end
