(* ===== verification/Process.thy ===== *)
theory Process
  imports Lists
begin

text \<open>
  The process core: the global variables of \<open>process.h\<close>, the lock and semaphores of
  \<open>process/lock.c\<close>, thread creation, sleeping and waking of \<open>process/util.c\<close>, and the
  round-robin scheduler of \<open>process/schedule.c\<close>.
\<close>

section \<open>State\<close>

text \<open>
  Every \<open>ListHead\<close> of the kernel has a symbolic address: the three process lists, the
  link and the message queue of the PCB with a given index, the waiting queue of a
  semaphore, the link of a slot of the message pool, and the lists of the device registry
  and of the file manager.  \<open>list\<close> is the first field of a PCB, so a \<open>PCB*\<close> and
  the \<open>ListHead*\<close> of its link are the same address, as the casts of the source assume.
\<close>

datatype sem = MsgSem nat | FmMutex | TestEmpty | TestFull | TestMutex

datatype laddr =
    Ready | Block | Free
  | PcbList nat
  | MsgList nat
  | SemBlock sem
  | MsgNode nat
  | FreeDev | Devices | DevNode nat
  | HashHead nat | FileLink nat

definition PCB_POOL_SIZE :: nat where
  "PCB_POOL_SIZE = 2048"

definition KSTACK_SIZE :: u32 where
  "KSTACK_SIZE = 4096"

definition STAT_READY :: u32 where
  "STAT_READY = 0"

definition STAT_SLEEPING :: u32 where
  "STAT_SLEEPING = 1"

text \<open>
  The fields of a PCB other than its list heads, whose links are in the list heap, and
  its semaphore, whose counter is in \<open>token\<close>.
\<close>

record PCB =
  tf :: u32
  locked :: int
  stat :: u32
  pid :: pid_t
  cr3 :: u32

record segregs =
  r_cs :: u32
  r_ds :: u32
  r_es :: u32
  r_fs :: u32
  r_gs :: u32

text \<open>
  \<open>intr\<close> is the interrupt flag of EFLAGS, \<open>cr3_reg\<close> the control register,
  \<open>stackmem\<close> the words of the kernel stacks by byte address, \<open>mem\<close> the bytes of
  buffers, \<open>pcb_pool_addr\<close> the link-time address of the pool.
\<close>

record kcore =
  heap :: "laddr links"
  pcb_pool :: "nat \<Rightarrow> PCB"
  token :: "sem \<Rightarrow> int"
  lock_count :: int
  lock_flag :: u32
  intr :: bool
  current :: laddr
  cr3_reg :: u32
  kcr3 :: u32
  stackmem :: "u32 \<Rightarrow> u32"
  mem :: "u32 \<Rightarrow> u8"
  pcb_pool_addr :: u32
  segs :: segregs

definition on_heap :: "(laddr links \<Rightarrow> laddr links res) \<Rightarrow> 'a kcore_scheme \<Rightarrow> 'a kcore_scheme res" where
  "on_heap f s = bindR (f (heap s)) (\<lambda>h. Inr (s\<lparr>heap := h\<rparr>))"

text \<open>The index of the PCB a pointer refers to; anything else is an access outside the pool.\<close>

definition pcb_index :: "laddr option \<Rightarrow> nat res" where
  "pcb_index p =
     (case p of
        None \<Rightarrow> Inl (NullDeref ''PCB'')
      | Some (PcbList i) \<Rightarrow>
          if i < PCB_POOL_SIZE then Inr i else Inl (OutOfBounds ''pcb_pool'')
      | Some _ \<Rightarrow> Inl (OutOfBounds ''PCB''))"

definition upd_pcb :: "nat \<Rightarrow> (PCB \<Rightarrow> PCB) \<Rightarrow> 'a kcore_scheme \<Rightarrow> 'a kcore_scheme" where
  "upd_pcb i f s = s\<lparr>pcb_pool := (pcb_pool s)(i := f (pcb_pool s i))\<rparr>"

section \<open>lock.c: the kernel lock and semaphores\<close>

definition cli :: "'a kcore_scheme \<Rightarrow> 'a kcore_scheme" where
  "cli s = s\<lparr>intr := False\<rparr>"

definition sti :: "'a kcore_scheme \<Rightarrow> 'a kcore_scheme" where
  "sti s = s\<lparr>intr := True\<rparr>"

definition lock :: "'a kcore_scheme \<Rightarrow> 'a kcore_scheme" where
  "lock s = (let s = cli s in s\<lparr>lock_count := lock_count s + 1\<rparr>)"

definition unlock :: "'a kcore_scheme \<Rightarrow> 'a kcore_scheme" where
  "unlock s =
     (let s = s\<lparr>lock_count := lock_count s - 1\<rparr> in
      if lock_flag s AND 1 \<noteq> 0 then s
      else
        let s = (if lock_flag s AND 2 \<noteq> 0 then sti s else s) in
        if lock_count s \<noteq> 0 then s else sti s)"

text \<open>
  \<open>sleep\<close> and \<open>sleep_sem\<close> of \<open>util.c\<close> up to the instruction \<open>int $0x80\<close> that
  ends both; the trap itself is \<open>do_irq\<close> of theory \<open>Irq\<close>.
\<close>

definition set_stat :: "laddr option \<Rightarrow> u32 \<Rightarrow> 'a kcore_scheme \<Rightarrow> 'a kcore_scheme res" where
  "set_stat p v s = bindR (pcb_index p) (\<lambda>i. Inr (upd_pcb i (\<lambda>q. q\<lparr>stat := v\<rparr>) s))"

definition sleep_on :: "laddr \<Rightarrow> 'a kcore_scheme \<Rightarrow> 'a kcore_scheme res" where
  "sleep_on l s =
     (let s = lock s in
      bindR (on_heap (list_del (Some (current s))) s) (\<lambda>s.
      bindR (on_heap (list_add_before (Some l) (Some (current s))) s) (\<lambda>s.
      bindR (set_stat (Some (current s)) STAT_SLEEPING s) (\<lambda>s.
      Inr (unlock s)))))"

definition sleep :: "'a kcore_scheme \<Rightarrow> 'a kcore_scheme res" where
  "sleep s = sleep_on Block s"

definition sleep_sem :: "sem \<Rightarrow> 'a kcore_scheme \<Rightarrow> 'a kcore_scheme res" where
  "sleep_sem x s = sleep_on (SemBlock x) s"

text \<open>
  The guard of \<open>wakeup\<close> compares addresses: a pointer to a PCB of the pool, to the
  element just past it, or to a field inside one is let through; \<open>NULL\<close> and the
  address of any other object is not.
\<close>

definition in_pcb_pool :: "laddr option \<Rightarrow> bool" where
  "in_pcb_pool p =
     (case p of
        None \<Rightarrow> False
      | Some (PcbList i) \<Rightarrow> i \<le> PCB_POOL_SIZE
      | Some (MsgList i) \<Rightarrow> i < PCB_POOL_SIZE
      | Some (SemBlock (MsgSem i)) \<Rightarrow> i < PCB_POOL_SIZE
      | Some _ \<Rightarrow> False)"

definition wakeup :: "laddr option \<Rightarrow> 'a kcore_scheme \<Rightarrow> 'a kcore_scheme res" where
  "wakeup p s =
     (if \<not> in_pcb_pool p then Inr s
      else
        bindR (pcb_index p) (\<lambda>i.
        bindR (assertR (stat (pcb_pool s i) = STAT_SLEEPING) ''p->stat == STAT_SLEEPING'') (\<lambda>_.
        let s = lock s in
        bindR (on_heap (list_del p) s) (\<lambda>s.
        bindR (on_heap (list_add_before (Some Ready) p) s) (\<lambda>s.
        bindR (set_stat p STAT_READY s) (\<lambda>s.
        Inr (unlock s)))))))"

text \<open>
  \<open>P\<close> either returns or reaches the trap inside \<open>sleep_sem\<close>.  What it does after the
  thread is scheduled again is \<open>P_resume\<close>.
\<close>

datatype 's outcome = Returned 's | Trapped 's

definition P_sem :: "sem \<Rightarrow> 'a kcore_scheme \<Rightarrow> 'a kcore_scheme outcome res" where
  "P_sem x s =
     (let s = lock s in
      if token s x > 0 then
        Inr (Returned (unlock (s\<lparr>token := (token s)(x := token s x - 1)\<rparr>)))
      else
        let s = s\<lparr>lock_flag := lock_flag s OR 2\<rparr> in
        bindR (sleep_sem x s) (\<lambda>s. Inr (Trapped s)))"

definition P_resume :: "'a kcore_scheme \<Rightarrow> 'a kcore_scheme" where
  "P_resume s =
     (let s = cli s;
          s = s\<lparr>lock_flag := lock_flag s AND 0xfffffffd\<rparr>
      in unlock s)"

definition V_sem :: "sem \<Rightarrow> 'a kcore_scheme \<Rightarrow> 'a kcore_scheme res" where
  "V_sem x s =
     (let s = lock s in
      bindR (list_empty (Some (SemBlock x)) (heap s)) (\<lambda>e.
      bindR (if \<not> e then wakeup (nxt (heap s) (SemBlock x)) s
             else Inr (s\<lparr>token := (token s)(x := token s x + 1)\<rparr>)) (\<lambda>s.
      Inr (unlock s))))"

definition create_sem :: "sem \<Rightarrow> int \<Rightarrow> 'a kcore_scheme \<Rightarrow> 'a kcore_scheme res" where
  "create_sem x value s =
     (let s = lock s in
      bindR (on_heap (list_init (Some (SemBlock x))) s) (\<lambda>s.
      let s = s\<lparr>token := (token s)(x := value)\<rparr> in
      Inr (unlock s)))"

section \<open>schedule.c\<close>

definition idle :: laddr where
  "idle = PcbList 0"

definition set_current :: "laddr option \<Rightarrow> 'a kcore_scheme \<Rightarrow> 'a kcore_scheme res" where
  "set_current p s =
     (case p of None \<Rightarrow> Inl (NullDeref ''current'') | Some a \<Rightarrow> Inr (s\<lparr>current := a\<rparr>))"

definition write_cr3 :: "u32 \<Rightarrow> 'a kcore_scheme \<Rightarrow> 'a kcore_scheme" where
  "write_cr3 v s = s\<lparr>cr3_reg := v\<rparr>"

definition schedule :: "'a kcore_scheme \<Rightarrow> 'a kcore_scheme res" where
  "schedule s =
     bindR (list_empty (Some Ready) (heap s)) (\<lambda>e.
     bindR
       (if e then Inr (s\<lparr>current := idle\<rparr>)
        else if current s = idle then set_current (nxt (heap s) Ready) s
        else
          bindR (pcb_index (Some (current s))) (\<lambda>i.
          if stat (pcb_pool s i) = STAT_SLEEPING then set_current (nxt (heap s) Ready) s
          else
            bindR (set_current (nxt (heap s) (current s)) s) (\<lambda>s.
            if current s = Ready then set_current (nxt (heap s) (current s)) s
            else Inr s)))
       (\<lambda>s.
     bindR (pcb_index (Some (current s))) (\<lambda>i.
     Inr (write_cr3 (cr3 (pcb_pool s i)) s))))"

section \<open>util.c: creation of threads\<close>

definition MAX_NUM_OF_ARGUMENTS :: nat where
  "MAX_NUM_OF_ARGUMENTS = 16"

definition pcb_addr :: "'a kcore_scheme \<Rightarrow> nat \<Rightarrow> u32" where
  "pcb_addr s i = pcb_pool_addr s + word_of_nat i * 16384"

text \<open>
  The loop \<open>*(frame--) = *(p--)\<close>: \<open>args k\<close> is the word \<open>k\<close> places above the
  parameter \<open>fun\<close> on the caller's stack.
\<close>

fun copy_args :: "nat \<Rightarrow> u32 \<Rightarrow> nat \<Rightarrow> (nat \<Rightarrow> u32) \<Rightarrow> (u32 \<Rightarrow> u32) \<Rightarrow> u32 \<times> (u32 \<Rightarrow> u32)" where
  "copy_args 0 frame p args m = (frame, m)"
| "copy_args (Suc n) frame p args m = copy_args n (frame - 4) (p - 1) args (m(frame := args p))"

definition build_frame :: "u32 \<Rightarrow> segregs \<Rightarrow> u32 \<Rightarrow> (u32 \<Rightarrow> u32) \<Rightarrow> (u32 \<Rightarrow> u32)" where
  "build_frame frame sr func m =
     m(frame - 4 := 0x202,
       frame - 8 := r_cs sr,
       frame - 12 := func,
       frame - 24 := r_ds sr,
       frame - 28 := r_es sr,
       frame - 32 := r_fs sr,
       frame - 36 := r_gs sr)"

definition create_kthread ::
    "u32 \<Rightarrow> (nat \<Rightarrow> u32) \<Rightarrow> 'a kcore_scheme \<Rightarrow> (nat \<times> 'a kcore_scheme) res" where
  "create_kthread func args s =
     (let intr_flag = intr s;
          s = cli s in
      bindR (assertR (nxt (heap s) Free \<noteq> Some Free) ''free.next != &free'') (\<lambda>_.
      let selected_free = nxt (heap s) Free in
      bindR (pcb_index selected_free) (\<lambda>i.
      bindR (on_heap (list_del selected_free) s) (\<lambda>s.
      let (frame, m) = copy_args MAX_NUM_OF_ARGUMENTS (pcb_addr s i + KSTACK_SIZE)
                         MAX_NUM_OF_ARGUMENTS args (stackmem s);
          s = s\<lparr>stackmem := build_frame frame (segs s) func m\<rparr>;
          s = upd_pcb i (\<lambda>q. q\<lparr>tf := frame - 68\<rparr>) s in
      bindR (on_heap (list_add_before (Some Block) selected_free) s) (\<lambda>s.
      let s = upd_pcb i (\<lambda>q. q\<lparr>locked := 0\<rparr>) s;
          s = upd_pcb i (\<lambda>q. q\<lparr>stat := STAT_SLEEPING\<rparr>) s in
      bindR (on_heap (list_init (Some (MsgList i))) s) (\<lambda>s.
      bindR (create_sem (MsgSem i) 0 s) (\<lambda>s.
      let s = upd_pcb i (\<lambda>q. q\<lparr>pid := word_of_nat i\<rparr>) s;
          s = upd_pcb i (\<lambda>q. q\<lparr>cr3 := kcr3 s\<rparr>) s;
          s = (if intr_flag then sti s else s) in
      Inr (i, s))))))))"

definition init_proc :: "'a kcore_scheme \<Rightarrow> 'a kcore_scheme res" where
  "init_proc s =
     bindR (on_heap (list_init (Some Ready)) s) (\<lambda>s.
     bindR (on_heap (list_init (Some Block)) s) (\<lambda>s.
     bindR (on_heap (list_init (Some Free)) s) (\<lambda>s.
     bindR (forR (\<lambda>i. on_heap (list_add_before (Some Free) (Some (PcbList i))))
              [1..<PCB_POOL_SIZE] s) (\<lambda>s.
     let s = upd_pcb 0 (\<lambda>q. q\<lparr>cr3 := kcr3 s\<rparr>) s in
     on_heap (list_init (Some (MsgList 0))) s))))"

definition fetch_pcb :: "pid_t \<Rightarrow> nat res" where
  "fetch_pcb p =
     (if unat p < PCB_POOL_SIZE then Inr (unat p) else Inl (OutOfBounds ''pcb_pool''))"

section \<open>Normal forms\<close>

text \<open>
  \<open>relock s\<close> is the interrupt flag after a balanced pair of \<open>lock\<close> and \<open>unlock\<close>
  entered in state \<open>s\<close>.
\<close>

definition relock :: "'a kcore_scheme \<Rightarrow> bool" where
  "relock s \<longleftrightarrow> lock_flag s AND 1 = 0 \<and> (lock_flag s AND 2 \<noteq> 0 \<or> lock_count s = 0)"

definition unlock_intr :: "'a kcore_scheme \<Rightarrow> bool" where
  "unlock_intr s \<longleftrightarrow>
     (if lock_flag s AND 1 \<noteq> 0 then intr s
      else lock_flag s AND 2 \<noteq> 0 \<or> lock_count s = 1 \<or> intr s)"

lemma lock_eq [kdefs]: "lock s = s\<lparr>intr := False, lock_count := lock_count s + 1\<rparr>"
  by (simp add: lock_def cli_def Let_def)

lemma unlock_eq [kdefs]:
  "unlock s = s\<lparr>lock_count := lock_count s - 1, intr := unlock_intr s\<rparr>"
  by (auto simp: unlock_def unlock_intr_def sti_def Let_def)

declare cli_def [kdefs] sti_def [kdefs] upd_pcb_def [kdefs] on_heap_def [kdefs]

lemma pcb_index_PcbList [simp, resolve]: "i < PCB_POOL_SIZE \<Longrightarrow> pcb_index (Some (PcbList i)) = Inr i"
  by (simp add: pcb_index_def)

lemma in_pcb_pool_PcbList [simp]: "i < PCB_POOL_SIZE \<Longrightarrow> in_pcb_pool (Some (PcbList i))"
  by (simp add: in_pcb_pool_def)

lemma in_pcb_pool_NULL [simp]: "\<not> in_pcb_pool None"
  by (simp add: in_pcb_pool_def)

text \<open>Moving the link of a node from wherever it is to the tail of a list.\<close>

definition requeue :: "laddr \<Rightarrow> laddr \<Rightarrow> laddr links \<Rightarrow> laddr links" where
  "requeue l d h = link_before l d (unlink_node d h)"

lemma sleep_on_eq:
  assumes "current s = PcbList i" and "i < PCB_POOL_SIZE"
  shows "sleep_on l s = Inr (s\<lparr>heap := requeue l (PcbList i) (heap s),
    pcb_pool := (pcb_pool s)(i := (pcb_pool s i)\<lparr>stat := STAT_SLEEPING\<rparr>),
    intr := relock s\<rparr>)"
  using assms
  by (simp add: sleep_on_def kdefs set_stat_def Let_def relock_def unlock_intr_def requeue_def)

lemma wakeup_eq:
  assumes "i < PCB_POOL_SIZE" and "stat (pcb_pool s i) = STAT_SLEEPING"
  shows "wakeup (Some (PcbList i)) s = Inr (s\<lparr>heap := requeue Ready (PcbList i) (heap s),
    pcb_pool := (pcb_pool s)(i := (pcb_pool s i)\<lparr>stat := STAT_READY\<rparr>),
    intr := relock s\<rparr>)"
  using assms
  by (simp add: wakeup_def kdefs set_stat_def Let_def relock_def unlock_intr_def requeue_def)

lemma wakeup_NULL [simp]: "wakeup None s = Inr s"
  by (simp add: wakeup_def)

lemma wakeup_awake:
  assumes "i < PCB_POOL_SIZE" and "stat (pcb_pool s i) \<noteq> STAT_SLEEPING"
  shows "wakeup (Some (PcbList i)) s = Inl (AssertFail ''p->stat == STAT_SLEEPING'')"
  using assms by (simp add: wakeup_def)

lemma P_sem_free:
  assumes "token s x > 0"
  shows "P_sem x s = Inr (Returned (s\<lparr>token := (token s)(x := token s x - 1), intr := relock s\<rparr>))"
  using assms by (simp add: P_sem_def kdefs Let_def relock_def unlock_intr_def)

lemma and_or_2_u32: "((f :: u32) OR 2) AND 2 \<noteq> 0"
proof -
  have "bit ((f OR 2) AND 2) 1" by (simp add: bit_simps)
  then show ?thesis by (metis bit_0_eq bot_apply bot_bool_def)
qed

lemma and_or_2_1_u32: "((f :: u32) OR 2) AND 1 = f AND 1"
  by (rule bit_eqI) (auto simp: bit_simps)

lemma P_sem_busy:
  assumes "\<not> token s x > 0" and "current s = PcbList i" and "i < PCB_POOL_SIZE"
  shows "P_sem x s = Inr (Trapped (s\<lparr>heap := requeue (SemBlock x) (PcbList i) (heap s),
    pcb_pool := (pcb_pool s)(i := (pcb_pool s i)\<lparr>stat := STAT_SLEEPING\<rparr>),
    lock_flag := lock_flag s OR 2, lock_count := lock_count s + 1,
    intr := (lock_flag s AND 1 = 0)\<rparr>))"
  using assms
  by (simp add: P_sem_def sleep_sem_def sleep_on_eq Let_def lock_eq relock_def
      and_or_2_u32 and_or_2_1_u32)

lemma V_sem_none_waiting:
  assumes "nxt (heap s) (SemBlock x) = Some (SemBlock x)"
  shows "V_sem x s = Inr (s\<lparr>token := (token s)(x := token s x + 1), intr := relock s\<rparr>)"
  using assms by (simp add: V_sem_def kdefs Let_def relock_def unlock_intr_def)

lemma V_sem_waiting:
  assumes "nxt (heap s) (SemBlock x) = Some (PcbList i)" and "i < PCB_POOL_SIZE"
    and "stat (pcb_pool s i) = STAT_SLEEPING" and "0 \<le> lock_count s"
  shows "V_sem x s = Inr (s\<lparr>heap := requeue Ready (PcbList i) (heap s),
    pcb_pool := (pcb_pool s)(i := (pcb_pool s i)\<lparr>stat := STAT_READY\<rparr>),
    intr := relock s\<rparr>)"
  using assms
  by (auto simp: V_sem_def wakeup_eq kdefs Let_def relock_def unlock_intr_def)

lemma create_sem_eq:
  "create_sem x v s = Inr (s\<lparr>heap := self_link (SemBlock x) (heap s),
     token := (token s)(x := v), intr := relock s\<rparr>)"
  by (simp add: create_sem_def kdefs Let_def relock_def unlock_intr_def)

section \<open>The invariant of the process lists\<close>

text \<open>
  \<open>proc_inv s H L\<close>: the heap of state \<open>s\<close> holds the lists \<open>L\<close> off the initialised
  heads \<open>H\<close>.  Every PCB but the idle one is on exactly one of the free list, the ready
  list, the block list and the waiting queues of the semaphores; the ready list holds the
  threads marked ready and the block list and the waiting queues the sleeping ones; a
  semaphore with waiting threads has no token left and no counter is negative; the
  current PCB is not a free one.
\<close>

fun is_pqueue :: "laddr \<Rightarrow> bool" where
  "is_pqueue Ready = True"
| "is_pqueue Block = True"
| "is_pqueue Free = True"
| "is_pqueue (SemBlock x) = True"
| "is_pqueue _ = False"

fun is_sleepq :: "laddr \<Rightarrow> bool" where
  "is_sleepq Block = True"
| "is_sleepq (SemBlock x) = True"
| "is_sleepq _ = False"

fun is_node :: "laddr \<Rightarrow> bool" where
  "is_node (PcbList i) = True"
| "is_node (MsgNode k) = True"
| "is_node (DevNode k) = True"
| "is_node (FileLink k) = True"
| "is_node _ = False"

definition threads :: "laddr set" where
  "threads = PcbList ` {1..<PCB_POOL_SIZE}"

definition lists_inv :: "laddr set \<Rightarrow> (laddr \<Rightarrow> laddr list) \<Rightarrow> bool" where
  "lists_inv H L \<longleftrightarrow>
     {Ready, Block, Free} \<subseteq> H \<and>
     (\<forall>l\<in>H. \<not> is_node l) \<and>
     (\<forall>l\<in>H. is_pqueue l \<longrightarrow> set (L l) \<subseteq> threads) \<and>
     (\<forall>l\<in>H. \<not> is_pqueue l \<longrightarrow> set (L l) \<subseteq> Collect is_node - range PcbList) \<and>
     threads \<subseteq> linked H L \<and>
     (\<forall>i. PcbList i \<in> threads \<longrightarrow>
        (MsgList i \<in> H) = (PcbList i \<notin> set (L Free)) \<and>
        (SemBlock (MsgSem i) \<in> H) = (PcbList i \<notin> set (L Free)))"

definition stat_inv :: "(nat \<Rightarrow> PCB) \<Rightarrow> laddr set \<Rightarrow> (laddr \<Rightarrow> laddr list) \<Rightarrow> bool" where
  "stat_inv pool H L \<longleftrightarrow>
     (\<forall>i. PcbList i \<in> set (L Ready) \<longrightarrow> stat (pool i) = STAT_READY) \<and>
     (\<forall>l\<in>H. is_sleepq l \<longrightarrow> (\<forall>i. PcbList i \<in> set (L l) \<longrightarrow> stat (pool i) = STAT_SLEEPING)) \<and>
     (\<forall>i. PcbList i \<in> threads \<longrightarrow> PcbList i \<notin> set (L Free) \<longrightarrow> pid (pool i) = word_of_nat i)"

definition sem_inv :: "(sem \<Rightarrow> int) \<Rightarrow> laddr set \<Rightarrow> (laddr \<Rightarrow> laddr list) \<Rightarrow> bool" where
  "sem_inv tok H L \<longleftrightarrow>
     (\<forall>x. SemBlock x \<in> H \<longrightarrow> 0 \<le> tok x \<and> (L (SemBlock x) \<noteq> [] \<longrightarrow> tok x = 0))"

definition current_inv :: "laddr \<Rightarrow> (laddr \<Rightarrow> laddr list) \<Rightarrow> bool" where
  "current_inv c L \<longleftrightarrow> (\<exists>i < PCB_POOL_SIZE. c = PcbList i) \<and> c \<notin> set (L Free)"

definition proc_inv :: "'a kcore_scheme \<Rightarrow> laddr set \<Rightarrow> (laddr \<Rightarrow> laddr list) \<Rightarrow> bool" where
  "proc_inv s H L \<longleftrightarrow>
     rep (heap s) H L \<and> lists_inv H L \<and> stat_inv (pcb_pool s) H L \<and> sem_inv (token s) H L \<and>
     current_inv (current s) L \<and> 0 \<le> lock_count s"

lemma proc_invD:
  assumes "proc_inv s H L"
  shows "rep (heap s) H L" and "lists_inv H L" and "stat_inv (pcb_pool s) H L"
    and "sem_inv (token s) H L" and "current_inv (current s) L" and "0 \<le> lock_count s"
  using assms by (auto simp: proc_inv_def)

lemma lists_invD:
  assumes "lists_inv H L"
  shows "Ready \<in> H" and "Block \<in> H" and "Free \<in> H"
    and "l \<in> H \<Longrightarrow> \<not> is_node l"
    and "l \<in> H \<Longrightarrow> is_pqueue l \<Longrightarrow> a \<in> set (L l) \<Longrightarrow> a \<in> threads"
  using assms unfolding lists_inv_def by auto

lemma threads_iff [simp]: "PcbList i \<in> threads \<longleftrightarrow> 1 \<le> i \<and> i < PCB_POOL_SIZE"
  by (auto simp: threads_def)

lemma threadsE:
  assumes "a \<in> threads"
  obtains i where "a = PcbList i" and "1 \<le> i" and "i < PCB_POOL_SIZE"
  using assms by (auto simp: threads_def)

lemma rep_once:
  "rep h H L \<Longrightarrow> l \<in> H \<Longrightarrow> m \<in> H \<Longrightarrow> d \<in> set (L l) \<Longrightarrow> d \<in> set (L m) \<Longrightarrow> l = m"
  using rep_disjoint by fastforce

lemma rep_distinct: "rep h H L \<Longrightarrow> l \<in> H \<Longrightarrow> distinct (L l)"
  by (auto simp: dl_def dest: repD)

text \<open>
  Moving a thread between two process queues keeps the list part of the invariant; what
  is left to check of an operation is the mark of the thread moved and the counter of the
  semaphore involved.
\<close>

definition moved :: "laddr \<Rightarrow> laddr \<Rightarrow> laddr \<Rightarrow> (laddr \<Rightarrow> laddr list) \<Rightarrow> laddr \<Rightarrow> laddr list" where
  "moved l m d L = L(l := remove1 d (L l), m := L m @ [d])"

lemma rep_requeue:
  assumes "rep h H L" and "l \<in> H" and "m \<in> H" and "l \<noteq> m" and "d \<in> set (L l)"
  shows "rep (requeue m d h) H (moved l m d L)"
  unfolding requeue_def moved_def by (rule lf.move_ok [OF assms])

lemma linked_moved:
  assumes "rep h H L" and "l \<in> H" and "m \<in> H" and "l \<noteq> m" and "d \<in> set (L l)"
  shows "linked H (moved l m d L) = linked H L"
proof -
  have "linked H (moved l m d L) = insert d (linked H (L(l := remove1 d (L l))))"
    using assms(3,4) linked_add [of m H "L(l := remove1 d (L l))" d] by (simp add: moved_def)
  also have "\<dots> = linked H L"
    using assms rep_linked_del [OF assms(1,2,5)] by (auto simp: linked_def)
  finally show ?thesis .
qed

lemma set_moved:
  assumes "rep h H L" and "l \<in> H" and "l \<noteq> m"
  shows "set (moved l m d L k) =
    (if k = m then insert d (set (L m)) else if k = l then set (L l) - {d} else set (L k))"
  using rep_distinct [OF assms(1,2)] assms(3) by (auto simp: moved_def)

lemma lists_inv_moved:
  assumes r: "rep h H L" and i: "lists_inv H L" and l: "l \<in> H" and m: "m \<in> H" and lm: "l \<noteq> m"
    and d: "d \<in> set (L l)" and q: "is_pqueue l" "is_pqueue m" and f: "l \<noteq> Free" "m \<noteq> Free"
  shows "lists_inv H (moved l m d L)"
proof -
  have t: "d \<in> threads" using lists_invD(5) [OF i l q(1) d] .
  have "\<forall>k\<in>H. is_pqueue k \<longrightarrow> set (moved l m d L k) \<subseteq> threads"
    using i t q m unfolding lists_inv_def set_moved [OF r l lm] by auto
  moreover have "\<forall>k\<in>H. \<not> is_pqueue k \<longrightarrow> set (moved l m d L k) \<subseteq> Collect is_node - range PcbList"
    using i q unfolding lists_inv_def set_moved [OF r l lm] by auto
  moreover have "moved l m d L Free = L Free" using f by (simp add: moved_def)
  ultimately show ?thesis
    using i linked_moved [OF r l m lm d] unfolding lists_inv_def by simp
qed

lemma pqueues_sleep [simp]: "is_sleepq l \<Longrightarrow> is_pqueue l"
  by (cases l) auto

lemma sleepq_neq [simp]:
  "is_sleepq l \<Longrightarrow> l \<noteq> Ready" "is_sleepq l \<Longrightarrow> l \<noteq> Free"
  "is_sleepq l \<Longrightarrow> Ready \<noteq> l" "is_sleepq l \<Longrightarrow> Free \<noteq> l"
  by (cases l; simp)+

lemma current_inv_moved:
  "l \<noteq> Free \<Longrightarrow> m \<noteq> Free \<Longrightarrow> current_inv c (moved l m d L) = current_inv c L"
  by (simp add: current_inv_def moved_def)

lemma stat_inv_moved:
  assumes r: "rep h H L" and si: "stat_inv pool H L" and H: "l \<in> H" "m \<in> H" "Ready \<in> H"
    and lm: "l \<noteq> m" "l \<noteq> Free" "m \<noteq> Free" and d: "PcbList i \<in> set (L l)"
    and v: "m = Ready \<Longrightarrow> v = STAT_READY" "is_sleepq m \<Longrightarrow> v = STAT_SLEEPING"
  shows "stat_inv (pool(i := (pool i)\<lparr>stat := v\<rparr>)) H (moved l m (PcbList i) L)"
proof -
  let ?L = "moved l m (PcbList i) L"
  let ?p = "pool(i := (pool i)\<lparr>stat := v\<rparr>)"
  have old: "j \<noteq> i \<and> PcbList j \<in> set (L k)" if "k \<in> H" "k \<noteq> m" "PcbList j \<in> set (?L k)" for j k
    using that rep_once [OF r H(1) that(1) d] by (auto simp: set_moved [OF r H(1) lm(1)] split: if_splits)
  have new: "j = i \<or> PcbList j \<in> set (L m)" if "PcbList j \<in> set (?L m)" for j
    using that by (auto simp: set_moved [OF r H(1) lm(1)])
  have "stat (?p j) = STAT_READY" if "PcbList j \<in> set (?L Ready)" for j
    using that old [OF H(3)] new v(1) si by (cases "m = Ready") (auto simp: stat_inv_def)
  moreover have "stat (?p j) = STAT_SLEEPING"
    if "k \<in> H" "is_sleepq k" "PcbList j \<in> set (?L k)" for j k
    using that old [OF that(1) _ that(3)] new [of j] v(2) si H(2)
    by (cases "m = k") (auto simp: stat_inv_def)
  moreover have "?L Free = L Free" using lm by (simp add: moved_def)
  ultimately show ?thesis using si by (simp add: stat_inv_def)
qed

text \<open>Waking a sleeping thread keeps the invariant and appends the thread to the ready list.\<close>

lemma wakeup_inv:
  assumes inv: "proc_inv s H L" and l: "l \<in> H" "is_sleepq l" and d: "PcbList i \<in> set (L l)"
  obtains s' where "wakeup (Some (PcbList i)) s = Inr s'"
    and "s' = s\<lparr>heap := requeue Ready (PcbList i) (heap s),
           pcb_pool := (pcb_pool s)(i := (pcb_pool s i)\<lparr>stat := STAT_READY\<rparr>), intr := relock s\<rparr>"
    and "proc_inv s' H (moved l Ready (PcbList i) L)"
proof -
  note r = proc_invD(1) [OF inv] and li = proc_invD(2) [OF inv] and si = proc_invD(3) [OF inv]
  have R: "Ready \<in> H" using li by (rule lists_invD)
  have t: "PcbList i \<in> threads" using lists_invD(5) [OF li l(1) pqueues_sleep [OF l(2)] d] .
  have sl: "stat (pcb_pool s i) = STAT_SLEEPING" using si l d by (auto simp: stat_inv_def)
  let ?L = "moved l Ready (PcbList i) L"
  let ?p = "(pcb_pool s)(i := (pcb_pool s i)\<lparr>stat := STAT_READY\<rparr>)"
  have "rep (requeue Ready (PcbList i) (heap s)) H ?L"
    using rep_requeue [OF r l(1) R _ d] l(2) by simp
  moreover have "lists_inv H ?L"
    using lists_inv_moved [OF r li l(1) R _ d] l(2) by simp
  moreover have "stat_inv ?p H ?L"
    using stat_inv_moved [OF r si l(1) R R _ _ _ d] l(2) by simp
  moreover have "sem_inv (token s) H ?L"
    using proc_invD(4) [OF inv] by (auto simp: sem_inv_def moved_def)
  moreover have "current_inv (current s) ?L"
    using proc_invD(5) [OF inv] l(2) by (simp add: current_inv_moved)
  ultimately have "proc_inv (s\<lparr>heap := requeue Ready (PcbList i) (heap s), pcb_pool := ?p,
      intr := relock s\<rparr>) H ?L"
    using proc_invD(6) [OF inv] by (simp add: proc_inv_def)
  with wakeup_eq [of i s] t sl show thesis by (intro that) auto
qed

text \<open>Putting the running thread to sleep keeps it too.\<close>

lemma sleep_on_inv:
  assumes inv: "proc_inv s H L" and l: "l \<in> H" "is_sleepq l"
    and c: "current s = PcbList i" and d: "PcbList i \<in> set (L Ready)"
    and tok: "\<And>x. l = SemBlock x \<Longrightarrow> token s x = 0"
  shows "proc_inv (s\<lparr>heap := requeue l (PcbList i) (heap s),
    pcb_pool := (pcb_pool s)(i := (pcb_pool s i)\<lparr>stat := STAT_SLEEPING\<rparr>), lock_flag := f,
    lock_count := n, intr := b\<rparr>) H (moved Ready l (PcbList i) L) \<longleftrightarrow> 0 \<le> n"
proof -
  note r = proc_invD(1) [OF inv] and li = proc_invD(2) [OF inv] and si = proc_invD(3) [OF inv]
  have R: "Ready \<in> H" using li by (rule lists_invD)
  have t: "PcbList i \<in> threads" by (rule lists_invD(5) [OF li R _ d]) simp
  let ?L = "moved Ready l (PcbList i) L"
  let ?p = "(pcb_pool s)(i := (pcb_pool s i)\<lparr>stat := STAT_SLEEPING\<rparr>)"
  have "rep (requeue l (PcbList i) (heap s)) H ?L"
    using rep_requeue [OF r R l(1) _ d] l(2) by simp
  moreover have "lists_inv H ?L"
    using lists_inv_moved [OF r li R l(1) _ d] l(2) by simp
  moreover have "stat_inv ?p H ?L"
    using stat_inv_moved [OF r si R l(1) R _ _ _ d] l(2) by simp
  moreover have "sem_inv (token s) H ?L"
    using proc_invD(4) [OF inv] tok by (auto simp: sem_inv_def moved_def)
  moreover have "current_inv (current s) ?L"
    using proc_invD(5) [OF inv] l(2) by (simp add: current_inv_moved)
  ultimately show ?thesis by (simp add: proc_inv_def)
qed

section \<open>Semaphores\<close>

text \<open>
  The abstract semaphore: a counter and the queue of waiting threads.  \<open>P\<close> takes a
  token or queues the caller; \<open>V\<close> hands the token to the first waiting thread or
  counts it.
\<close>

lemma P_sem_returns:
  assumes inv: "proc_inv s H L" and x: "SemBlock x \<in> H" "L (SemBlock x) = []" "token s x > 0"
  obtains s' where "P_sem x s = Inr (Returned s')" and "proc_inv s' H L"
    and "s' = s\<lparr>token := (token s)(x := token s x - 1), intr := relock s\<rparr>"
proof -
  have "proc_inv (s\<lparr>token := (token s)(x := token s x - 1), intr := relock s\<rparr>) H L"
    using inv x by (auto simp: proc_inv_def sem_inv_def)
  with P_sem_free [of s x] x(3) show thesis by (intro that) auto
qed

lemma P_sem_blocks:
  assumes inv: "proc_inv s H L" and x: "SemBlock x \<in> H" "\<not> token s x > 0"
    and c: "current s = PcbList i" "PcbList i \<in> set (L Ready)"
  obtains s' where "P_sem x s = Inr (Trapped s')"
    and "proc_inv s' H (moved Ready (SemBlock x) (PcbList i) L)"
    and "s' = s\<lparr>heap := requeue (SemBlock x) (PcbList i) (heap s),
      pcb_pool := (pcb_pool s)(i := (pcb_pool s i)\<lparr>stat := STAT_SLEEPING\<rparr>),
      lock_flag := lock_flag s OR 2, lock_count := lock_count s + 1,
      intr := (lock_flag s AND 1 = 0)\<rparr>"
proof -
  have "token s x = 0" using proc_invD(4) [OF inv] x by (force simp: sem_inv_def)
  then have "\<And>y. SemBlock x = SemBlock y \<Longrightarrow> token s y = 0" by simp
  note k = sleep_on_inv [OF inv x(1) _ c this]
  have "i < PCB_POOL_SIZE" using proc_invD(5) [OF inv] c(1) by (auto simp: current_inv_def)
  with P_sem_busy [of s x i] x(2) c(1) k proc_invD(6) [OF inv] show thesis
    by (intro that) auto
qed

lemma first_waiting:
  assumes inv: "proc_inv s H L" and x: "SemBlock x \<in> H" and w: "L (SemBlock x) = d # ds"
  obtains i where "d = PcbList i" and "i < PCB_POOL_SIZE" and "stat (pcb_pool s i) = STAT_SLEEPING"
    and "nxt (heap s) (SemBlock x) = Some (PcbList i)"
proof -
  have "d \<in> threads"
    by (rule lists_invD(5) [OF proc_invD(2) [OF inv] x]) (simp_all add: w)
  then obtain i where i: "d = PcbList i" "i < PCB_POOL_SIZE" by (elim threadsE)
  moreover have "stat (pcb_pool s i) = STAT_SLEEPING"
    using proc_invD(3) [OF inv] x w i by (auto simp: stat_inv_def)
  ultimately show thesis
    using that rep_nxt [OF proc_invD(1) [OF inv] x] w by simp
qed

lemma V_sem_wakes:
  assumes inv: "proc_inv s H L" and x: "SemBlock x \<in> H" and w: "L (SemBlock x) = d # ds"
  obtains s' where "V_sem x s = Inr s'" and "proc_inv s' H (moved (SemBlock x) Ready d L)"
    and "\<exists>i. d = PcbList i \<and> s' = s\<lparr>heap := requeue Ready (PcbList i) (heap s),
      pcb_pool := (pcb_pool s)(i := (pcb_pool s i)\<lparr>stat := STAT_READY\<rparr>), intr := relock s\<rparr>"
proof -
  obtain i where i: "d = PcbList i" "i < PCB_POOL_SIZE" "stat (pcb_pool s i) = STAT_SLEEPING"
    and n: "nxt (heap s) (SemBlock x) = Some (PcbList i)"
    by (rule first_waiting [OF inv x w])
  have "PcbList i \<in> set (L (SemBlock x))" using w i by simp
  from wakeup_inv [OF inv x _ this] obtain s' where
    s': "wakeup (Some (PcbList i)) s = Inr s'" and eq: "s' = s\<lparr>heap := requeue Ready (PcbList i) (heap s),
           pcb_pool := (pcb_pool s)(i := (pcb_pool s i)\<lparr>stat := STAT_READY\<rparr>), intr := relock s\<rparr>"
    and pi: "proc_inv s' H (moved (SemBlock x) Ready (PcbList i) L)" by auto
  have "V_sem x s = Inr s'"
    using V_sem_waiting [OF n i(2,3) proc_invD(6) [OF inv]] eq by simp
  moreover from pi i(1) have "proc_inv s' H (moved (SemBlock x) Ready d L)" by simp
  ultimately show thesis using eq i(1) by (intro that) blast+
qed

lemma V_sem_counts:
  assumes inv: "proc_inv s H L" and x: "SemBlock x \<in> H" and w: "L (SemBlock x) = []"
  obtains s' where "V_sem x s = Inr s'" and "proc_inv s' H L"
    and "s' = s\<lparr>token := (token s)(x := token s x + 1), intr := relock s\<rparr>"
proof -
  have "nxt (heap s) (SemBlock x) = Some (SemBlock x)"
    using rep_empty_iff [OF proc_invD(1) [OF inv] x] w by simp
  moreover have "proc_inv (s\<lparr>token := (token s)(x := token s x + 1), intr := relock s\<rparr>) H L"
    using inv w by (auto simp: proc_inv_def sem_inv_def)
  ultimately show thesis using V_sem_none_waiting [of s x] by (intro that) auto
qed

text \<open>Both cases of \<open>V\<close> together, on the lists and on the counters.\<close>

definition v_lists :: "sem \<Rightarrow> (laddr \<Rightarrow> laddr list) \<Rightarrow> laddr \<Rightarrow> laddr list" where
  "v_lists x L = (case L (SemBlock x) of [] \<Rightarrow> L | d # _ \<Rightarrow> moved (SemBlock x) Ready d L)"

definition v_token :: "sem \<Rightarrow> (laddr \<Rightarrow> laddr list) \<Rightarrow> (sem \<Rightarrow> int) \<Rightarrow> sem \<Rightarrow> int" where
  "v_token x L tok = (if L (SemBlock x) = [] then tok(x := tok x + 1) else tok)"

lemma V_sem_ok:
  assumes inv: "proc_inv s H L" and x: "SemBlock x \<in> H"
  obtains h p where
    "V_sem x s = Inr (s\<lparr>heap := h, pcb_pool := p, token := v_token x L (token s), intr := relock s\<rparr>)"
    and "proc_inv (s\<lparr>heap := h, pcb_pool := p, token := v_token x L (token s), intr := relock s\<rparr>) H
      (v_lists x L)"
proof (cases "L (SemBlock x)")
  case Nil
  show ?thesis
    using V_sem_counts [OF inv x Nil] Nil that [where h = "heap s" and p = "pcb_pool s"]
    by (auto simp: v_token_def v_lists_def)
next
  case (Cons d ds)
  obtain s' i where "V_sem x s = Inr s'" "proc_inv s' H (moved (SemBlock x) Ready d L)"
    "s' = s\<lparr>heap := requeue Ready (PcbList i) (heap s),
      pcb_pool := (pcb_pool s)(i := (pcb_pool s i)\<lparr>stat := STAT_READY\<rparr>), intr := relock s\<rparr>"
    using V_sem_wakes [OF inv x Cons] by metis
  with Cons that [where h = "requeue Ready (PcbList i) (heap s)"
      and p = "(pcb_pool s)(i := (pcb_pool s i)\<lparr>stat := STAT_READY\<rparr>)"] show ?thesis
    by (auto simp: v_token_def v_lists_def)
qed

lemma v_lists_other [simp]: "\<not> is_pqueue l \<Longrightarrow> v_lists x L l = L l"
  by (auto simp: v_lists_def moved_def split: list.splits)

section \<open>Scheduling\<close>

text \<open>The round-robin choice: the cyclic successor of the current thread on the ready list.\<close>

definition next_ready :: "'t list \<Rightarrow> 't \<Rightarrow> 't" where
  "next_ready ready c = (case dropWhile (\<lambda>d. d \<noteq> c) ready of _ # y # _ \<Rightarrow> y | _ \<Rightarrow> hd ready)"

lemma next_ready_split:
  assumes "ready = ys @ c # zs" and "c \<notin> set ys"
  shows "next_ready ready c = hd (zs @ ready)"
proof -
  have "dropWhile (\<lambda>d. d \<noteq> c) ready = c # zs"
    using assms by (induction ys arbitrary: ready) auto
  then show ?thesis using assms by (cases zs) (auto simp: next_ready_def)
qed

lemma next_ready_absent: "c \<notin> set ready \<Longrightarrow> next_ready ready c = hd ready"
proof -
  assume "c \<notin> set ready"
  then have "dropWhile (\<lambda>d. d \<noteq> c) ready = []" by (auto simp: dropWhile_eq_Nil_conv)
  then show ?thesis unfolding next_ready_def by (simp only: list.case)
qed

lemma next_ready_nth:
  assumes "distinct ready" and "k < length ready"
  shows "next_ready ready (ready ! k) = ready ! (Suc k mod length ready)"
proof -
  have s: "ready = take k ready @ ready ! k # drop (Suc k) ready"
    by (rule id_take_nth_drop [OF assms(2)])
  have "ready ! k \<notin> set (take k ready)"
    using assms by (auto simp: in_set_conv_nth nth_eq_iff_index_eq)
  from next_ready_split [OF s this] have "next_ready ready (ready ! k) = hd (drop (Suc k) ready @ ready)" .
  moreover have "hd ready = ready ! 0" using assms(2) by (cases ready) auto
  moreover have "Suc k = length ready" if "\<not> Suc k < length ready" using that assms(2) by simp
  ultimately show ?thesis
    by (cases "Suc k < length ready") (auto simp: hd_drop_conv_nth hd_append)
qed

lemma ready_iff_stat:
  assumes inv: "proc_inv s H L" and c: "current s = PcbList i" "i \<noteq> 0"
  shows "PcbList i \<in> set (L Ready) \<longleftrightarrow> stat (pcb_pool s i) \<noteq> STAT_SLEEPING"
proof -
  note li = proc_invD(2) [OF inv] and si = proc_invD(3) [OF inv]
  have ci: "i < PCB_POOL_SIZE" "PcbList i \<notin> set (L Free)"
    using proc_invD(5) [OF inv] c by (auto simp: current_inv_def)
  then have "PcbList i \<in> linked H L" using li c(2) by (auto simp: lists_inv_def)
  then obtain l where l: "l \<in> H" "PcbList i \<in> set (l # L l)" by (auto simp: linked_def)
  with lists_invD(4) [OF li l(1)] have m: "PcbList i \<in> set (L l)" by auto
  have "is_pqueue l" using li l(1) m unfolding lists_inv_def by blast
  then consider "l = Ready" | "is_sleepq l" using m ci(2) by (cases l) auto
  then show ?thesis
  proof cases
    case 1
    with m si show ?thesis by (auto simp: stat_inv_def STAT_READY_def STAT_SLEEPING_def)
  next
    case 2
    with m l si have "stat (pcb_pool s i) = STAT_SLEEPING" by (auto simp: stat_inv_def)
    with si show ?thesis by (auto simp: stat_inv_def STAT_READY_def STAT_SLEEPING_def)
  qed
qed

definition sched_choice :: "laddr list \<Rightarrow> laddr \<Rightarrow> laddr" where
  "sched_choice ready c = (if ready = [] then idle else next_ready ready c)"

lemma idle_not_ready: "proc_inv s H L \<Longrightarrow> idle \<notin> set (L Ready)"
  using lists_invD(5) [of H L Ready idle] lists_invD(1) [of H L]
  by (auto dest: proc_invD(2) simp: idle_def)

lemma next_ready_in: "ready \<noteq> [] \<Longrightarrow> next_ready ready c \<in> set ready"
proof (cases "c \<in> set ready")
  case True
  then obtain ys zs where s: "ready = ys @ c # zs" "c \<notin> set ys" by (meson split_list_first)
  show ?thesis unfolding next_ready_split [OF s] using s(1) by (cases zs; cases ys) auto
qed (simp add: next_ready_absent)

lemma ready_successor:
  assumes inv: "proc_inv s H L" and c: "c \<in> set (L Ready)"
  obtains a where "nxt (heap s) c = Some a"
    and "(if a = Ready then hd (L Ready) else a) = next_ready (L Ready) c"
proof -
  note r = proc_invD(1) [OF inv]
  have R: "Ready \<in> H" using proc_invD(2) [OF inv] by (rule lists_invD)
  obtain ys zs where s: "L Ready = ys @ c # zs" "c \<notin> set ys"
    using c by (meson split_list_first)
  have "Ready \<notin> set (L Ready)" using repD [OF r R] by (simp add: dl_def)
  then have "(if hd (zs @ [Ready]) = Ready then hd (L Ready) else hd (zs @ [Ready])) = hd (zs @ L Ready)"
    using s(1) by (cases zs) auto
  then show thesis
    using that rep_nxt_node [OF r R s(1)] next_ready_split [OF s] by simp
qed

lemma ready_thread:
  assumes "proc_inv s H L" and "a \<in> set (L Ready)"
  obtains j where "a = PcbList j" and "j < PCB_POOL_SIZE" and "j \<noteq> 0"
proof -
  note li = proc_invD(2) [OF assms(1)]
  from lists_invD(5) [OF li lists_invD(1) [OF li] _ assms(2)] that show thesis
    by (auto elim: threadsE)
qed

definition pcb_no :: "laddr \<Rightarrow> nat" where
  "pcb_no a = (case a of PcbList i \<Rightarrow> i | _ \<Rightarrow> 0)"

lemma pcb_no_PcbList [simp]: "pcb_no (PcbList i) = i"
  by (simp add: pcb_no_def)

text \<open>
  \<open>schedule\<close> never fails: it makes the cyclic successor of the current thread on the
  ready list current, or the idle process when the list is empty, and loads its CR3.
\<close>

lemma schedule_chooses:
  assumes inv: "proc_inv s H L"
  defines "c \<equiv> sched_choice (L Ready) (current s)"
  shows "schedule s = Inr (s\<lparr>current := c, cr3_reg := cr3 (pcb_pool s (pcb_no c))\<rparr>)"
proof -
  note r = proc_invD(1) [OF inv] and li = proc_invD(2) [OF inv]
  have R: "Ready \<in> H" using li by (rule lists_invD)
  obtain i where i: "current s = PcbList i" "i < PCB_POOL_SIZE"
    using proc_invD(5) [OF inv] by (auto simp: current_inv_def)
  note defs = schedule_def sched_choice_def set_current_def idle_def write_cr3_def c_def
  have empty: "nxt (heap s) Ready = Some Ready \<longleftrightarrow> L Ready = []" by (rule rep_empty_iff [OF r R])
  show ?thesis
  proof (cases "L Ready = []")
    case True
    with empty show ?thesis by (simp add: defs PCB_POOL_SIZE_def)
  next
    case False
    then have first: "nxt (heap s) Ready = Some (hd (L Ready))"
      using rep_nxt [OF r R] by (cases "L Ready") auto
    obtain k where k: "next_ready (L Ready) (PcbList i) = PcbList k" "k < PCB_POOL_SIZE"
      using ready_thread [OF inv next_ready_in [OF False]] by metis
    show ?thesis
    proof (cases "PcbList i \<in> set (L Ready)")
      case True
      have i0: "i \<noteq> 0" using True idle_not_ready [OF inv] by (metis idle_def)
      obtain a where a: "nxt (heap s) (PcbList i) = Some a"
        "(if a = Ready then hd (L Ready) else a) = PcbList k"
        using ready_successor [OF inv True] k by metis
      have "stat (pcb_pool s i) \<noteq> STAT_SLEEPING"
        using ready_iff_stat [OF inv i(1) i0] True by simp
      with False empty first i i0 a k show ?thesis by (auto simp: defs split: if_splits)
    next
      case notin: False
      then have "hd (L Ready) = PcbList k" using k(1) by (simp add: next_ready_absent)
      moreover have "i \<noteq> 0 \<Longrightarrow> stat (pcb_pool s i) = STAT_SLEEPING"
        using ready_iff_stat [OF inv i(1)] notin by simp
      ultimately show ?thesis using False empty first i k by (auto simp: defs)
    qed
  qed
qed

lemma schedule_inv:
  assumes inv: "proc_inv s H L"
  shows "proc_inv (s\<lparr>current := sched_choice (L Ready) (current s), cr3_reg := v\<rparr>) H L"
proof -
  let ?c = "sched_choice (L Ready) (current s)"
  note li = proc_invD(2) [OF inv]
  have "current_inv ?c L"
  proof (cases "L Ready = []")
    case True
    have "idle \<notin> set (L Free)"
      using lists_invD(5) [OF li lists_invD(3) [OF li], of idle] by (auto simp: idle_def)
    with True show ?thesis by (auto simp: current_inv_def sched_choice_def idle_def PCB_POOL_SIZE_def)
  next
    case False
    then have c: "?c \<in> set (L Ready)" by (simp add: sched_choice_def next_ready_in)
    then have "?c \<notin> set (L Free)"
      using rep_once [OF proc_invD(1) [OF inv] lists_invD(1) [OF li] lists_invD(3) [OF li]] by auto
    then show ?thesis using ready_thread [OF inv c] by (auto simp: current_inv_def)
  qed
  with inv show ?thesis by (simp add: proc_inv_def)
qed

text \<open>\<open>n\<close> successive calls of \<open>schedule\<close>.\<close>

fun schedule_n :: "nat \<Rightarrow> 'a kcore_scheme \<Rightarrow> 'a kcore_scheme res" where
  "schedule_n 0 s = Inr s"
| "schedule_n (Suc n) s = bindR (schedule s) (schedule_n n)"

lemma schedule_n_round_robin:
  assumes "proc_inv s H L" and "k < length (L Ready)" and "current s = L Ready ! k"
  shows "\<exists>s'. schedule_n n s = Inr s' \<and> proc_inv s' H L \<and>
    current s' = L Ready ! ((k + n) mod length (L Ready))"
  using assms
proof (induction n arbitrary: s k)
  case 0
  then show ?case by simp
next
  case (Suc n)
  let ?n = "length (L Ready)"
  have d: "distinct (L Ready)"
    using Suc.prems(1) proc_invD(1) rep_distinct lists_invD(1) proc_invD(2) by metis
  let ?c = "L Ready ! (Suc k mod ?n)"
  have c: "sched_choice (L Ready) (current s) = ?c"
    using Suc.prems(2,3) next_ready_nth [OF d Suc.prems(2)] by (auto simp: sched_choice_def)
  define t where "t = s\<lparr>current := ?c, cr3_reg := cr3 (pcb_pool s (pcb_no ?c))\<rparr>"
  have t: "schedule s = Inr t" "proc_inv t H L" "current t = ?c"
    using schedule_chooses [OF Suc.prems(1)] schedule_inv [OF Suc.prems(1)] c by (simp_all add: t_def)
  have "Suc k mod ?n < ?n" using Suc.prems(2) by (intro mod_less_divisor) linarith
  from Suc.IH [OF t(2) this t(3)] show ?case
    using t(1) by (simp add: mod_simps)
qed

section \<open>Thread creation\<close>

definition new_stack :: "nat \<Rightarrow> u32 \<Rightarrow> (nat \<Rightarrow> u32) \<Rightarrow> 'a kcore_scheme \<Rightarrow> u32 \<times> (u32 \<Rightarrow> u32)" where
  "new_stack i func args s =
     (let (frame, m) = copy_args MAX_NUM_OF_ARGUMENTS (pcb_addr s i + KSTACK_SIZE)
                         MAX_NUM_OF_ARGUMENTS args (stackmem s)
      in (frame, build_frame frame (segs s) func m))"

lemma upd_pcb_fuse:
  "upd_pcb i f (upd_pcb i g s) = upd_pcb i (\<lambda>q. f (g q)) s"
  "kcr3 (upd_pcb i f s) = kcr3 s"
  by (simp_all add: upd_pcb_def)

lemma create_kthread_eq:
  assumes "nxt (heap s) Free = Some (PcbList i)" and "i < PCB_POOL_SIZE"
  shows "create_kthread func args s = Inr (i, s\<lparr>
    heap := self_link (SemBlock (MsgSem i)) (self_link (MsgList i) (requeue Block (PcbList i) (heap s))),
    pcb_pool := (pcb_pool s)(i := (pcb_pool s i)\<lparr>tf := fst (new_stack i func args s) - 68, locked := 0,
      stat := STAT_SLEEPING, pid := word_of_nat i, cr3 := kcr3 s\<rparr>),
    token := (token s)(MsgSem i := 0),
    stackmem := snd (new_stack i func args s),
    intr := intr s \<or> relock s\<rparr>)"
proof -
  obtain fr m where f: "copy_args MAX_NUM_OF_ARGUMENTS (pcb_addr s i + KSTACK_SIZE)
      MAX_NUM_OF_ARGUMENTS args (stackmem s) = (fr, m)"
    by (cases "copy_args MAX_NUM_OF_ARGUMENTS (pcb_addr s i + KSTACK_SIZE)
      MAX_NUM_OF_ARGUMENTS args (stackmem s)")
  have a: "pcb_addr (s\<lparr>intr := b, heap := h\<rparr>) i = pcb_addr s i"
      "pcb_addr (s\<lparr>heap := h, intr := b\<rparr>) i = pcb_addr s i" for b h
    by (simp_all add: pcb_addr_def)
  from assms have "create_kthread func args s = Inr (i, let s' = upd_pcb i
      (\<lambda>q. q\<lparr>tf := fr - 68, locked := 0, stat := STAT_SLEEPING, pid := word_of_nat i, cr3 := kcr3 s\<rparr>)
      (s\<lparr>heap := self_link (SemBlock (MsgSem i)) (self_link (MsgList i) (requeue Block (PcbList i) (heap s))),
        token := (token s)(MsgSem i := 0), stackmem := build_frame fr (segs s) func m\<rparr>)
      in s'\<lparr>intr := intr s \<or> relock s\<rparr>)"
    by (simp add: create_kthread_def on_heap_def cli_def sti_def create_sem_eq Let_def a f upd_pcb_fuse)
       (simp add: upd_pcb_def relock_def requeue_def)
  then show ?thesis by (simp add: upd_pcb_def new_stack_def f)
qed

lemma create_kthread_full:
  assumes "nxt (heap s) Free = Some Free"
  shows "create_kthread func args s = Inl (AssertFail ''free.next != &free'')"
  using assms by (simp add: create_kthread_def kdefs Let_def)

text \<open>The heads of a PCB that is still free are not in use anywhere.\<close>

lemma free_heads_unlinked:
  assumes li: "lists_inv H L" and f: "PcbList i \<in> set (L Free)"
  shows "MsgList i \<notin> linked H L" and "SemBlock (MsgSem i) \<notin> linked H L"
proof -
  have t: "PcbList i \<in> threads" by (rule lists_invD(5) [OF li lists_invD(3) [OF li] _ f]) simp
  then have h: "MsgList i \<notin> H" "SemBlock (MsgSem i) \<notin> H"
    using li f unfolding lists_inv_def by blast+
  have "is_node a" if "l \<in> H" "a \<in> set (L l)" for l a
  proof (cases "is_pqueue l")
    case True
    then show ?thesis using lists_invD(5) [OF li that(1) _ that(2)] by (auto elim: threadsE)
  next
    case False
    then show ?thesis using li that unfolding lists_inv_def by blast
  qed
  then show "MsgList i \<notin> linked H L" "SemBlock (MsgSem i) \<notin> linked H L"
    using h by (fastforce simp: linked_def)+
qed

definition born :: "nat \<Rightarrow> (laddr \<Rightarrow> laddr list) \<Rightarrow> laddr \<Rightarrow> laddr list" where
  "born i L = (moved Free Block (PcbList i) L)(MsgList i := [], SemBlock (MsgSem i) := [])"

definition born_heads :: "nat \<Rightarrow> laddr set \<Rightarrow> laddr set" where
  "born_heads i H = insert (SemBlock (MsgSem i)) (insert (MsgList i) H)"

lemma born_rep:
  assumes r: "rep h H L" and li: "lists_inv H L" and f: "PcbList i \<in> set (L Free)"
  shows "rep (self_link (SemBlock (MsgSem i)) (self_link (MsgList i) (requeue Block (PcbList i) h)))
    (born_heads i H) (born i L)"
proof -
  have FB: "Free \<in> H" "Block \<in> H" using li by (auto dest: lists_invD)
  let ?L = "moved Free Block (PcbList i) L"
  have r1: "rep (requeue Block (PcbList i) h) H ?L"
    using rep_requeue [OF r FB _ f] by simp
  have lk: "linked H ?L = linked H L" using linked_moved [OF r FB _ f] by simp
  note u = free_heads_unlinked [OF li f]
  have r2: "rep (self_link (MsgList i) (requeue Block (PcbList i) h)) (insert (MsgList i) H)
      (?L(MsgList i := []))"
    by (rule rep_init [OF r1]) (simp add: lk u)
  have "linked (insert (MsgList i) H) (?L(MsgList i := [])) \<subseteq> insert (MsgList i) (linked H ?L)"
    by (auto simp: linked_def split: if_splits)
  then have "SemBlock (MsgSem i) \<notin> linked (insert (MsgList i) H) (?L(MsgList i := []))"
    using u lk by auto
  from rep_init [OF r2 this] show ?thesis by (simp add: born_def born_heads_def)
qed

lemma set_born:
  assumes "rep h H L" and "lists_inv H L" and "PcbList i \<in> set (L Free)" and "k \<in> H"
  shows "set (born i L k) = (if k = Block then insert (PcbList i) (set (L Block))
    else if k = Free then set (L Free) - {PcbList i} else set (L k))"
proof -
  have F: "Free \<in> H" using assms(2) by (rule lists_invD)
  have "k \<noteq> MsgList i" "k \<noteq> SemBlock (MsgSem i)"
    using assms(4) free_heads_unlinked [OF assms(2,3)] by (auto simp: linked_def)
  then show ?thesis using set_moved [OF assms(1) F, of Block "PcbList i" k] by (simp add: born_def)
qed

lemma born_new [simp]: "born i L (MsgList i) = []" "born i L (SemBlock (MsgSem i)) = []"
  by (simp_all add: born_def)

lemma linked_born:
  assumes "rep h H L" and "lists_inv H L" and "PcbList i \<in> set (L Free)"
  shows "linked H L \<subseteq> linked (born_heads i H) (born i L)"
proof -
  have "\<exists>l\<in>H. a = l \<or> a \<in> set (born i L l)" if "l \<in> H" "a = l \<or> a \<in> set (L l)" for l a
    using that set_born [OF assms] lists_invD(2) [OF assms(2)]
    by (cases "a = PcbList i") (fastforce split: if_splits)+
  then show ?thesis by (auto simp: linked_def born_heads_def; blast)
qed

lemma born_lists_inv:
  assumes r: "rep h H L" and li: "lists_inv H L" and f: "PcbList i \<in> set (L Free)"
  shows "lists_inv (born_heads i H) (born i L)"
proof -
  note sb = set_born [OF r li f]
  have F: "Free \<in> H" using li by (rule lists_invD)
  have t: "PcbList i \<in> threads" by (rule lists_invD(5) [OF li F _ f]) simp
  have node: "\<forall>l\<in>born_heads i H. \<not> is_node l"
    using li by (auto simp: lists_inv_def born_heads_def)
  have pq: "\<forall>l\<in>born_heads i H. is_pqueue l \<longrightarrow> set (born i L l) \<subseteq> threads"
    using li t sb by (auto simp: lists_inv_def born_heads_def split: if_splits)
  have np: "\<forall>l\<in>born_heads i H. \<not> is_pqueue l \<longrightarrow> set (born i L l) \<subseteq> Collect is_node - range PcbList"
    using li sb by (auto simp: lists_inv_def born_heads_def split: if_splits)
  have lk: "threads \<subseteq> linked (born_heads i H) (born i L)"
    using li linked_born [OF r li f] by (auto simp: lists_inv_def)
  have fr: "(MsgList j \<in> born_heads i H) = (PcbList j \<notin> set (born i L Free)) \<and>
      (SemBlock (MsgSem j) \<in> born_heads i H) = (PcbList j \<notin> set (born i L Free))"
    if "PcbList j \<in> threads" for j
  proof -
    have "(MsgList j \<in> H) = (PcbList j \<notin> set (L Free)) \<and>
        (SemBlock (MsgSem j) \<in> H) = (PcbList j \<notin> set (L Free))"
      using li that unfolding lists_inv_def by blast
    then show ?thesis using f sb [OF F] by (auto simp: born_heads_def)
  qed
  have "{Ready, Block, Free} \<subseteq> born_heads i H" using li by (auto simp: lists_inv_def born_heads_def)
  with node pq np lk fr show ?thesis unfolding lists_inv_def by blast
qed

lemma born_stat_inv:
  assumes r: "rep h H L" and li: "lists_inv H L" and f: "PcbList i \<in> set (L Free)"
    and si: "stat_inv pool H L" and q: "stat q = STAT_SLEEPING" "pid q = word_of_nat i"
  shows "stat_inv (pool(i := q)) (born_heads i H) (born i L)"
proof -
  note sb = set_born [OF r li f] and H = lists_invD(1-3) [OF li]
  have old: "j \<noteq> i" if "k \<in> H" "k \<noteq> Free" "PcbList j \<in> set (L k)" for j k
    using rep_once [OF r that(1) H(3) that(3)] that(2) f by auto
  have a: "stat ((pool(i := q)) j) = STAT_READY" if "PcbList j \<in> set (born i L Ready)" for j
    using that si old [OF H(1)] sb [OF H(1)] by (auto simp: stat_inv_def)
  have b: "stat ((pool(i := q)) j) = STAT_SLEEPING"
    if "k \<in> born_heads i H" "is_sleepq k" "PcbList j \<in> set (born i L k)" for j k
  proof (cases "k \<in> H")
    case True
    with that si q(1) old [OF True] sb [OF True] show ?thesis
      by (auto simp: stat_inv_def split: if_splits)
  next
    case False
    with that show ?thesis by (auto simp: born_heads_def)
  qed
  have c: "pid ((pool(i := q)) j) = word_of_nat j"
    if "PcbList j \<in> threads" "PcbList j \<notin> set (born i L Free)" for j
    using that si q(2) sb [OF H(3)] unfolding stat_inv_def by (cases "j = i") auto
  from a b c show ?thesis unfolding stat_inv_def by blast
qed

lemma born_sem_inv:
  assumes r: "rep h H L" and li: "lists_inv H L" and f: "PcbList i \<in> set (L Free)"
    and si: "sem_inv tok H L"
  shows "sem_inv (tok(MsgSem i := 0)) (born_heads i H) (born i L)"
proof -
  have "SemBlock (MsgSem i) \<notin> H" using free_heads_unlinked [OF li f] by (auto simp: linked_def)
  then show ?thesis using si by (auto simp: sem_inv_def born_heads_def born_def moved_def)
qed

text \<open>
  \<open>create_kthread\<close> takes the first free PCB, puts it to sleep on the block list with
  an empty message queue and an empty message semaphore, and keeps the invariant.
\<close>

lemma create_kthread_inv:
  assumes inv: "proc_inv s H L" and ne: "L Free = PcbList i # rest"
  obtains s' where "create_kthread func args s = Inr (i, s')"
    and "proc_inv s' (born_heads i H) (born i L)"
    and "s' = s\<lparr>
      heap := self_link (SemBlock (MsgSem i)) (self_link (MsgList i) (requeue Block (PcbList i) (heap s))),
      pcb_pool := (pcb_pool s)(i := (pcb_pool s i)\<lparr>tf := fst (new_stack i func args s) - 68, locked := 0,
        stat := STAT_SLEEPING, pid := word_of_nat i, cr3 := kcr3 s\<rparr>),
      token := (token s)(MsgSem i := 0),
      stackmem := snd (new_stack i func args s),
      intr := intr s \<or> relock s\<rparr>"
proof -
  note r = proc_invD(1) [OF inv] and li = proc_invD(2) [OF inv]
  have F: "Free \<in> H" using li by (rule lists_invD)
  have f: "PcbList i \<in> set (L Free)" using ne by simp
  have "nxt (heap s) Free = Some (PcbList i)" using rep_nxt [OF r F] ne by simp
  moreover have "PcbList i \<in> threads" by (rule lists_invD(5) [OF li F _ f]) simp
  ultimately have eq: "create_kthread func args s = Inr (i, s\<lparr>
      heap := self_link (SemBlock (MsgSem i)) (self_link (MsgList i) (requeue Block (PcbList i) (heap s))),
      pcb_pool := (pcb_pool s)(i := (pcb_pool s i)\<lparr>tf := fst (new_stack i func args s) - 68, locked := 0,
        stat := STAT_SLEEPING, pid := word_of_nat i, cr3 := kcr3 s\<rparr>),
      token := (token s)(MsgSem i := 0),
      stackmem := snd (new_stack i func args s),
      intr := intr s \<or> relock s\<rparr>)" (is "_ = Inr (i, ?s)")
    by (intro create_kthread_eq) simp_all
  have "current_inv (current s) (born i L)"
    using proc_invD(5) [OF inv] set_born [OF r li f F] by (auto simp: current_inv_def)
  then have "proc_inv ?s (born_heads i H) (born i L)"
    using born_rep [OF r li f] born_lists_inv [OF r li f]
      born_stat_inv [OF r li f proc_invD(3) [OF inv]]
      born_sem_inv [OF r li f proc_invD(4) [OF inv]] proc_invD(6) [OF inv]
    by (simp add: proc_inv_def)
  with eq show thesis by (intro that) auto
qed

section \<open>Boot\<close>

lemma pool_pos: "0 < PCB_POOL_SIZE"
  by (simp add: PCB_POOL_SIZE_def)

lemma forR_on_heap:
  "forR (\<lambda>i. on_heap (list_add_before (Some l) (Some (f i)))) is s =
     Inr (s\<lparr>heap := fold (link_before l) (map f is) (heap s)\<rparr>)"
  by (induction "is" arbitrary: s) (simp_all add: on_heap_def)

definition boot_heads :: "laddr set" where
  "boot_heads = {Ready, Block, Free, MsgList 0}"

definition boot_lists :: "laddr \<Rightarrow> laddr list" where
  "boot_lists = (\<lambda>_. [])(Free := map PcbList [1..<PCB_POOL_SIZE])"

lemma set_boot_free: "set (boot_lists Free) = threads"
  by (simp add: boot_lists_def threads_def)

lemma boot_rep:
  "rep (self_link (MsgList 0) (fold (link_before Free) (map PcbList [1..<PCB_POOL_SIZE])
      (self_link Free (self_link Block (self_link Ready h))))) boot_heads boot_lists"
proof -
  let ?ds = "map PcbList [1..<PCB_POOL_SIZE]"
  have "rep h {} (\<lambda>_. [])" by (simp add: rep_def)
  then have "rep (self_link Ready h) {Ready} ((\<lambda>_. [])(Ready := []))"
    by (rule rep_init) (simp add: linked_def)
  then have "rep (self_link Block (self_link Ready h)) {Block, Ready} ((\<lambda>_. [])(Ready := [], Block := []))"
    by (rule rep_init) (simp add: linked_def)
  then have "rep (self_link Free (self_link Block (self_link Ready h))) {Free, Block, Ready}
      ((\<lambda>_. [])(Ready := [], Block := [], Free := []))"
    by (rule rep_init) (simp add: linked_def)
  then have "rep (self_link Free (self_link Block (self_link Ready h))) {Free, Block, Ready} (\<lambda>_. [])"
    by (simp add: fun_upd_def)
  then have "rep (fold (link_before Free) ?ds (self_link Free (self_link Block (self_link Ready h))))
      {Free, Block, Ready} ((\<lambda>_. [])(Free := [] @ ?ds))"
    by (rule lf.insert_all_ok) (auto simp: linked_def distinct_map inj_on_def)
  then have "rep (self_link (MsgList 0) (fold (link_before Free) ?ds
      (self_link Free (self_link Block (self_link Ready h)))))
      {MsgList 0, Free, Block, Ready} ((\<lambda>_. [])(Free := [] @ ?ds, MsgList 0 := []))"
    by (rule rep_init) (auto simp: linked_def)
  moreover have "(\<lambda>_. [])(Free := [] @ ?ds, MsgList 0 := []) = boot_lists"
    by (auto simp: boot_lists_def)
  moreover have "{MsgList 0, Free, Block, Ready} = boot_heads" by (auto simp: boot_heads_def)
  ultimately show ?thesis by simp
qed

lemma boot_lists_other [simp]: "l \<noteq> Free \<Longrightarrow> boot_lists l = []"
  by (simp add: boot_lists_def)

lemma boot_lists_inv: "lists_inv boot_heads boot_lists"
  unfolding lists_inv_def boot_heads_def by (auto simp: set_boot_free linked_def)

lemma fold_link_frame:
  assumes "prv h Free = Some Free \<or> (\<exists>k. prv h Free = Some (PcbList k))"
  shows "nxt (fold (link_before Free) (map PcbList ks) h) (SemBlock x) = nxt h (SemBlock x)"
  using assms
proof (induction ks arbitrary: h)
  case (Cons k ks)
  have "nxt (link_before Free (PcbList k) h) (SemBlock x) = nxt h (SemBlock x)"
    using Cons.prems by (auto simp: link_before_def link_node_def)
  with Cons.IH [of "link_before Free (PcbList k) h"] show ?case
    by (simp add: link_before_def link_node_def)
qed simp

lemma init_proc_boots:
  assumes "current s = idle" and "lock_count s = 0"
  obtains s' where "init_proc s = Inr s'" and "proc_inv s' boot_heads boot_lists"
    and "cr3 (pcb_pool s' 0) = kcr3 s" and "token s' = token s" and "intr s' = intr s"
    and "lock_count s' = 0" and "lock_flag s' = lock_flag s" and "current s' = idle"
    and "nxt (heap s') (SemBlock (MsgSem 0)) = nxt (heap s) (SemBlock (MsgSem 0))"
    and "more s' = more s"
proof -
  let ?h = "fold (link_before Free) (map PcbList [1..<PCB_POOL_SIZE])
    (self_link Free (self_link Block (self_link Ready (heap s))))"
  define s' where "s' = s\<lparr>heap := self_link (MsgList 0) ?h,
    pcb_pool := (pcb_pool s)(0 := (pcb_pool s 0)\<lparr>cr3 := kcr3 s\<rparr>)\<rparr>"
  have "init_proc s = Inr s'"
    by (simp add: init_proc_def forR_on_heap Let_def on_heap_def upd_pcb_def s'_def)
  moreover have "sem_inv (token s) boot_heads boot_lists"
    by (simp add: sem_inv_def boot_heads_def)
  moreover have "current_inv idle boot_lists"
    by (simp add: current_inv_def idle_def set_boot_free pool_pos)
  moreover have "stat_inv pool boot_heads boot_lists" for pool
    by (simp add: stat_inv_def boot_heads_def set_boot_free)
  ultimately have "proc_inv s' boot_heads boot_lists"
    using boot_rep boot_lists_inv assms by (simp add: proc_inv_def s'_def)
  moreover have "nxt ?h (SemBlock (MsgSem 0)) = nxt (heap s) (SemBlock (MsgSem 0))"
    by (subst fold_link_frame) (simp_all add: self_link_def)
  ultimately show thesis
    using \<open>init_proc s = Inr s'\<close> assms by (intro that [of s']) (simp_all add: s'_def self_link_def)
qed

section \<open>Starting threads\<close>

text \<open>
  The drivers and services start their threads with \<open>p = create_kthread(f); wakeup(p)\<close>.
\<close>

definition spawn :: "u32 \<Rightarrow> (nat \<Rightarrow> u32) \<Rightarrow> 'a kcore_scheme \<Rightarrow> (nat \<times> 'a kcore_scheme) res" where
  "spawn func args s =
     bindR (create_kthread func args s) (\<lambda>(i, s).
     bindR (wakeup (Some (PcbList i)) s) (\<lambda>s. Inr (i, s)))"

definition spawned :: "nat \<Rightarrow> (laddr \<Rightarrow> laddr list) \<Rightarrow> laddr \<Rightarrow> laddr list" where
  "spawned i L = moved Block Ready (PcbList i) (born i L)"

lemma spawn_ok:
  assumes inv: "proc_inv s H L" and ne: "L Free = PcbList i # rest"
  obtains s' where "spawn func args s = Inr (i, s')" and "proc_inv s' (born_heads i H) (spawned i L)"
    and "current s' = current s" and "lock_count s' = lock_count s" and "lock_flag s' = lock_flag s"
    and "token s' = (token s)(MsgSem i := 0)" and "pid (pcb_pool s' i) = word_of_nat i"
    and "more s' = more s"
proof -
  obtain t where t: "create_kthread func args s = Inr (i, t)"
    "proc_inv t (born_heads i H) (born i L)"
    "t = s\<lparr>
      heap := self_link (SemBlock (MsgSem i)) (self_link (MsgList i) (requeue Block (PcbList i) (heap s))),
      pcb_pool := (pcb_pool s)(i := (pcb_pool s i)\<lparr>tf := fst (new_stack i func args s) - 68, locked := 0,
        stat := STAT_SLEEPING, pid := word_of_nat i, cr3 := kcr3 s\<rparr>),
      token := (token s)(MsgSem i := 0),
      stackmem := snd (new_stack i func args s),
      intr := intr s \<or> relock s\<rparr>"
    by (rule create_kthread_inv [OF inv ne])
  have b: "Block \<in> born_heads i H" "PcbList i \<in> set (born i L Block)"
    using lists_invD(2) [OF proc_invD(2) [OF inv]] by (simp_all add: born_heads_def born_def moved_def)
  from wakeup_inv [OF t(2) b(1) _ b(2)] obtain s' where
    "wakeup (Some (PcbList i)) t = Inr s'" "proc_inv s' (born_heads i H) (spawned i L)"
    "s' = t\<lparr>heap := requeue Ready (PcbList i) (heap t),
           pcb_pool := (pcb_pool t)(i := (pcb_pool t i)\<lparr>stat := STAT_READY\<rparr>), intr := relock t\<rparr>"
    by (auto simp: spawned_def)
  with t(1,3) show thesis by (intro that [of s']) (simp_all add: spawn_def)
qed

lemma spawned_lists [simp]:
  "spawned i L Ready = L Ready @ [PcbList i]"
  "L Free = PcbList i # rest \<Longrightarrow> spawned i L Free = rest"
  "L (MsgList j) = [] \<Longrightarrow> spawned i L (MsgList j) = []"
  "L (SemBlock (MsgSem j)) = [] \<Longrightarrow> spawned i L (SemBlock (MsgSem j)) = []"
  by (auto simp: spawned_def moved_def born_def)

text \<open>
  The data segment as the loader leaves it, and the state after the boot code has
  started two threads and the first tick has scheduled the first one: the concrete runs
  below start from it.
\<close>

definition bss_kcore :: kcore where
  "bss_kcore = \<lparr>heap = \<lparr>nxt = (\<lambda>_. None), prv = (\<lambda>_. None)\<rparr>,
     pcb_pool = (\<lambda>_. \<lparr>tf = 0, locked = 0, stat = 0, pid = 0, cr3 = 0\<rparr>),
     token = (\<lambda>_. 0), lock_count = 0, lock_flag = 0, intr = False, current = idle, cr3_reg = 0,
     kcr3 = 0x1000, stackmem = (\<lambda>_. 0), mem = (\<lambda>_. 0), pcb_pool_addr = 0xc0200000,
     segs = \<lparr>r_cs = 8, r_ds = 16, r_es = 16, r_fs = 0, r_gs = 0\<rparr>\<rparr>"

definition two_threads :: "'a kcore_scheme \<Rightarrow> 'a kcore_scheme res" where
  "two_threads s =
     bindR (init_proc s) (\<lambda>s.
     bindR (spawn 0xc0100100 (\<lambda>_. 0) s) (\<lambda>(_, s).
     bindR (spawn 0xc0100200 (\<lambda>_. 0) s) (\<lambda>(_, s).
     schedule s)))"

definition two_heads :: "laddr set" where
  "two_heads = born_heads 2 (born_heads 1 boot_heads)"

definition two_lists :: "laddr \<Rightarrow> laddr list" where
  "two_lists = spawned 2 (spawned 1 boot_lists)"

lemma boot_free: "boot_lists Free = PcbList 1 # PcbList 2 # map PcbList [3..<PCB_POOL_SIZE]"
proof -
  have "1 < PCB_POOL_SIZE" "2 < PCB_POOL_SIZE" by (simp_all add: PCB_POOL_SIZE_def)
  then have "[1..<PCB_POOL_SIZE] = 1 # [2..<PCB_POOL_SIZE]" "[2..<PCB_POOL_SIZE] = 2 # [3..<PCB_POOL_SIZE]"
    using upt_conv_Cons [of 1 PCB_POOL_SIZE] upt_conv_Cons [of 2 PCB_POOL_SIZE] by (simp_all add: numeral_2_eq_2 numeral_3_eq_3)
  then show ?thesis by (simp only: boot_lists_def fun_upd_same list.map)
qed

lemma two_lists_eq [simp]:
  "two_lists Ready = [PcbList 1, PcbList 2]" "two_lists (MsgList j) = []"
  "two_lists (SemBlock (MsgSem j)) = []" "two_lists Free = map PcbList [3..<PCB_POOL_SIZE]"
proof -
  show "two_lists Ready = [PcbList 1, PcbList 2]" "two_lists (MsgList j) = []"
    "two_lists (SemBlock (MsgSem j)) = []" by (simp_all add: two_lists_def)
  show "two_lists Free = map PcbList [3..<PCB_POOL_SIZE]"
    unfolding two_lists_def by (rule spawned_lists, rule spawned_lists, rule boot_free)
qed

lemma two_heads_in [simp]:
  "MsgList j \<in> two_heads \<longleftrightarrow> j \<le> 2" "SemBlock (MsgSem j) \<in> two_heads \<longleftrightarrow> j = 1 \<or> j = 2"
  "Ready \<in> two_heads" "Block \<in> two_heads" "Free \<in> two_heads"
  by (auto simp: two_heads_def born_heads_def boot_heads_def)

lemma thread_pid:
  assumes "proc_inv s H L" and "PcbList i \<in> threads" and "PcbList i \<notin> set (L Free)"
  shows "pid (pcb_pool s i) = word_of_nat i"
  using proc_invD(3) [OF assms(1)] assms(2,3) unfolding stat_inv_def by blast

lemma pool_two: "2 < PCB_POOL_SIZE" "Suc 0 < PCB_POOL_SIZE" "3 < PCB_POOL_SIZE"
  by (simp_all add: PCB_POOL_SIZE_def)

lemma two_threads_ok:
  assumes "current s0 = idle" and "lock_count s0 = 0"
  obtains s where "two_threads s0 = Inr s" and "proc_inv s two_heads two_lists"
    and "current s = PcbList 1" and "lock_count s = 0" and "lock_flag s = lock_flag s0"
    and "token s (MsgSem 1) = 0" and "token s (MsgSem 2) = 0" and "more s = more s0"
    and "pid (pcb_pool s 1) = 1" and "pid (pcb_pool s 2) = 2"
proof -
  obtain s1 where s1: "init_proc s0 = Inr s1" "proc_inv s1 boot_heads boot_lists" "lock_count s1 = 0"
    "lock_flag s1 = lock_flag s0" "current s1 = idle" "more s1 = more s0"
    by (rule init_proc_boots [OF assms])
  obtain s2 where s2: "spawn 0xc0100100 (\<lambda>_. 0) s1 = Inr (1, s2)"
    "proc_inv s2 (born_heads 1 boot_heads) (spawned 1 boot_lists)"
    "current s2 = idle" "lock_count s2 = 0" "lock_flag s2 = lock_flag s0" "more s2 = more s0"
    "token s2 (MsgSem 1) = 0"
    by (rule spawn_ok [OF s1(2) boot_free, where func = "0xc0100100" and args = "\<lambda>_. 0"]) (use s1 in simp)
  have f2: "spawned 1 boot_lists Free = PcbList 2 # map PcbList [3..<PCB_POOL_SIZE]"
    using boot_free by simp
  obtain s3 where s3: "spawn 0xc0100200 (\<lambda>_. 0) s2 = Inr (2, s3)"
    "proc_inv s3 two_heads two_lists"
    "current s3 = idle" "lock_count s3 = 0" "lock_flag s3 = lock_flag s0" "more s3 = more s0"
    "token s3 (MsgSem 1) = 0" "token s3 (MsgSem 2) = 0"
    by (rule spawn_ok [OF s2(2) f2, where func = "0xc0100200" and args = "\<lambda>_. 0"]) (use s2 in \<open>simp add: two_heads_def two_lists_def\<close>)
  define s where "s = s3\<lparr>current := PcbList 1, cr3_reg := cr3 (pcb_pool s3 1)\<rparr>"
  have c: "sched_choice (two_lists Ready) (current s3) = PcbList 1"
    by (simp add: s3(3) sched_choice_def next_ready_def idle_def)
  have "schedule s3 = Inr s" using schedule_chooses [OF s3(2)] c by (simp add: s_def)
  moreover have "proc_inv s two_heads two_lists" using schedule_inv [OF s3(2)] c by (simp add: s_def)
  moreover have "pid (pcb_pool s 1) = word_of_nat 1" "pid (pcb_pool s 2) = word_of_nat 2"
    by (rule thread_pid [OF calculation(2)]; use pool_two in auto)+
  ultimately show thesis
    using s1(1) s2(1) s3 by (intro that [of s]) (simp_all add: two_threads_def s_def)
qed

section \<open>What the routines leave alone\<close>

lemma wakeup_more: "wakeup p s = Inr s' \<Longrightarrow> kcore.more s' = kcore.more s \<and> current s' = current s"
  unfolding wakeup_def Let_def set_stat_def
  by (auto simp: bindR_Inr_iff kdefs split: if_splits)

lemma V_sem_more: "V_sem x s = Inr s' \<Longrightarrow> kcore.more s' = kcore.more s \<and> current s' = current s"
  unfolding V_sem_def Let_def
  by (auto simp: bindR_Inr_iff kdefs split: if_splits dest!: wakeup_more)

section \<open>Properties\<close>

text \<open>
  C6: the scheduler is fair.  Whatever process is current, every thread on the ready list
  becomes current after at most as many calls of \<open>schedule\<close> as the list is long, none of
  which fails, and the invariant of the process lists holds afterwards.
\<close>

theorem schedule_fair:
  assumes "proc_inv s H L" and "t \<in> set (L Ready)"
  shows "\<exists>n s'. 1 \<le> n \<and> n \<le> length (L Ready) \<and> schedule_n n s = Inr s' \<and>
    proc_inv s' H L \<and> current s' = t"
proof -
  let ?n = "length (L Ready)" and ?c = "sched_choice (L Ready) (current s)"
  define s1 where "s1 = s\<lparr>current := ?c, cr3_reg := cr3 (pcb_pool s (pcb_no ?c))\<rparr>"
  have s1: "schedule s = Inr s1" "proc_inv s1 H L" "current s1 = ?c"
    using schedule_chooses [OF assms(1)] schedule_inv [OF assms(1)] by (simp_all add: s1_def)
  have "?c \<in> set (L Ready)" using assms(2) by (auto simp: sched_choice_def intro: next_ready_in)
  then obtain k where k: "k < ?n" "?c = L Ready ! k" by (metis in_set_conv_nth)
  obtain j where j: "j < ?n" "t = L Ready ! j" using assms(2) by (metis in_set_conv_nth)
  let ?m = "(j + ?n - k) mod ?n"
  have "(k + ?m) mod ?n = (j + ?n) mod ?n" using k(1) by (simp add: mod_add_right_eq)
  then have m: "(k + ?m) mod ?n = j" using j(1) by simp
  have b: "Suc ?m \<le> ?n" using k(1) by (intro Suc_leI mod_less_divisor) linarith
  obtain s' where "schedule_n ?m s1 = Inr s'" "proc_inv s' H L" "current s' = t"
    using schedule_n_round_robin [OF s1(2) k(1), of ?m] s1(3) k(2) m j(2) by auto
  with s1(1) b show ?thesis by (intro exI [of _ "Suc ?m"] exI [of _ s']) simp
qed

theorem schedule_fair_witness:
  "\<exists>s s' n. two_threads bss_kcore = Inr s \<and> 1 \<le> n \<and> n \<le> 2 \<and> schedule_n n s = Inr s' \<and>
     current s' = PcbList 2"
proof -
  obtain s where s: "two_threads bss_kcore = Inr s" "proc_inv s two_heads two_lists"
    by (rule two_threads_ok [of bss_kcore]) (simp_all add: bss_kcore_def)
  show ?thesis using schedule_fair [OF s(2), of "PcbList 2"] s(1) by (auto simp: numeral_2_eq_2)
qed

text \<open>
  \<open>schedule\<close> never fails.  It makes current the cyclic successor of the current
  process on the ready list (the first ready thread when the current one is idle or asleep,
  the idle process when nothing is ready), loads that process's CR3 and changes nothing else.
\<close>

theorem schedule_correct:
  assumes "proc_inv s H L"
  shows "schedule s = Inr (s\<lparr>current := sched_choice (L Ready) (current s),
    cr3_reg := cr3 (pcb_pool s (pcb_no (sched_choice (L Ready) (current s))))\<rparr>)"
  by (rule schedule_chooses [OF assms])

theorem schedule_correct_witness:
  "\<exists>s. two_threads bss_kcore = Inr s \<and>
     schedule s = Inr (s\<lparr>current := PcbList 2, cr3_reg := cr3 (pcb_pool s 2)\<rparr>)"
proof -
  obtain s where s: "two_threads bss_kcore = Inr s" "proc_inv s two_heads two_lists" "current s = PcbList 1"
    by (rule two_threads_ok [of bss_kcore]) (simp_all add: bss_kcore_def)
  have "sched_choice (two_lists Ready) (PcbList 1) = PcbList 2"
    by (simp add: sched_choice_def next_ready_def)
  with schedule_correct [OF s(2)] s show ?thesis by simp
qed

text \<open>
  C22: \<open>P\<close> implements the abstract semaphore.  With a token it takes it and returns, the
  process lists being as before; without one it moves the running thread from the ready
  list to the tail of the semaphore's queue, marks it sleeping and traps.  The invariant
  holds in both cases.
\<close>

theorem P_sem_correct:
  assumes "proc_inv s H L" and "SemBlock x \<in> H" and "current s = PcbList i" and "PcbList i \<in> set (L Ready)"
  shows "(token s x > 0 \<longrightarrow> (\<exists>s'. P_sem x s = Inr (Returned s') \<and> proc_inv s' H L \<and>
      token s' = (token s)(x := token s x - 1) \<and> pcb_pool s' = pcb_pool s)) \<and>
    (token s x = 0 \<longrightarrow> (\<exists>s'. P_sem x s = Inr (Trapped s') \<and>
      proc_inv s' H (L(Ready := remove1 (PcbList i) (L Ready),
        SemBlock x := L (SemBlock x) @ [PcbList i])) \<and>
      token s' = token s \<and> stat (pcb_pool s' i) = STAT_SLEEPING)) \<and>
    0 \<le> token s x"
proof (intro conjI impI)
  assume t: "token s x > 0"
  then have "L (SemBlock x) = []" using proc_invD(4) [OF assms(1)] assms(2) by (force simp: sem_inv_def)
  then show "\<exists>s'. P_sem x s = Inr (Returned s') \<and> proc_inv s' H L \<and>
      token s' = (token s)(x := token s x - 1) \<and> pcb_pool s' = pcb_pool s"
    by (rule P_sem_returns [OF assms(1,2) _ t]) auto
next
  assume "token s x = 0"
  then have "\<not> token s x > 0" by simp
  then obtain s' where s': "P_sem x s = Inr (Trapped s')"
    "proc_inv s' H (moved Ready (SemBlock x) (PcbList i) L)"
    "token s' = token s" "stat (pcb_pool s' i) = STAT_SLEEPING"
    by (rule P_sem_blocks [OF assms(1,2) _ assms(3,4)]) simp
  then show "\<exists>s'. P_sem x s = Inr (Trapped s') \<and>
      proc_inv s' H (L(Ready := remove1 (PcbList i) (L Ready), SemBlock x := L (SemBlock x) @ [PcbList i])) \<and>
      token s' = token s \<and> stat (pcb_pool s' i) = STAT_SLEEPING"
    unfolding moved_def by blast
next
  show "0 \<le> token s x" using proc_invD(4) [OF assms(1)] assms(2) by (auto simp: sem_inv_def)
qed

theorem P_sem_correct_witness:
  "\<exists>s s'. two_threads bss_kcore = Inr s \<and> P_sem (MsgSem 1) s = Inr (Trapped s') \<and>
     stat (pcb_pool s' 1) = STAT_SLEEPING"
proof -
  obtain s where s: "two_threads bss_kcore = Inr s" "proc_inv s two_heads two_lists" "current s = PcbList 1"
    "token s (MsgSem 1) = 0"
    by (rule two_threads_ok [of bss_kcore]) (simp_all add: bss_kcore_def)
  show ?thesis using P_sem_correct [OF s(2) _ s(3), of "MsgSem 1"] s by auto
qed

text \<open>
  C23: \<open>V\<close> implements the abstract semaphore.  It never fails, keeps the invariant, and
  either hands the token to the thread that has waited longest, which moves from the head
  of the semaphore's queue to the tail of the ready list, or counts it when no thread waits.
\<close>

theorem V_sem_correct:
  assumes "proc_inv s H L" and "SemBlock x \<in> H"
  shows "\<exists>s'. V_sem x s = Inr s' \<and>
    (case L (SemBlock x) of
       [] \<Rightarrow> proc_inv s' H L \<and> token s' = (token s)(x := token s x + 1)
     | d # ds \<Rightarrow> proc_inv s' H (L(SemBlock x := ds, Ready := L Ready @ [d])) \<and> token s' = token s)"
proof -
  obtain h p where "V_sem x s = Inr (s\<lparr>heap := h, pcb_pool := p, token := v_token x L (token s), intr := relock s\<rparr>)"
    and "proc_inv (s\<lparr>heap := h, pcb_pool := p, token := v_token x L (token s), intr := relock s\<rparr>) H
      (v_lists x L)"
    by (rule V_sem_ok [OF assms])
  then show ?thesis by (auto simp: v_token_def v_lists_def moved_def split: list.splits)
qed

theorem V_sem_correct_witness:
  "\<exists>s s'. two_threads bss_kcore = Inr s \<and> V_sem (MsgSem 2) s = Inr s' \<and> token s' (MsgSem 2) = 1"
proof -
  obtain s where s: "two_threads bss_kcore = Inr s" "proc_inv s two_heads two_lists"
    "token s (MsgSem 2) = 0"
    by (rule two_threads_ok [of bss_kcore]) (simp_all add: bss_kcore_def)
  show ?thesis using V_sem_correct [OF s(2), of "MsgSem 2"] s by auto
qed

text \<open>
  C25: \<open>create_kthread\<close> takes the first free PCB, gives it the process id of its index,
  an empty mailbox and a message semaphore without tokens, and leaves the thread asleep at
  the tail of the block list; the invariant of the process lists holds for the enlarged
  family of lists.
\<close>

theorem create_kthread_correct:
  assumes "proc_inv s H L" and "L Free = PcbList i # rest"
  shows "\<exists>s'. create_kthread func args s = Inr (i, s') \<and>
    proc_inv s' (insert (SemBlock (MsgSem i)) (insert (MsgList i) H))
      (L(Free := rest, Block := L Block @ [PcbList i], MsgList i := [], SemBlock (MsgSem i) := [])) \<and>
    pid (pcb_pool s' i) = word_of_nat i \<and> stat (pcb_pool s' i) = STAT_SLEEPING \<and>
    cr3 (pcb_pool s' i) = kcr3 s \<and> token s' (MsgSem i) = 0 \<and> current s' = current s"
proof -
  have "born i L = L(Free := rest, Block := L Block @ [PcbList i], MsgList i := [], SemBlock (MsgSem i) := [])"
    using assms(2) by (auto simp: born_def moved_def)
  then show ?thesis
    by - (rule create_kthread_inv [OF assms, where func = func and args = args],
      simp only: born_heads_def, fastforce)
qed

theorem create_kthread_correct_witness:
  "\<exists>s s'. two_threads bss_kcore = Inr s \<and> create_kthread 0xc0100300 (\<lambda>_. 0) s = Inr (3, s') \<and>
     pid (pcb_pool s' 3) = 3"
proof -
  obtain s where s: "two_threads bss_kcore = Inr s" "proc_inv s two_heads two_lists"
    by (rule two_threads_ok [of bss_kcore]) (simp_all add: bss_kcore_def)
  have "two_lists Free = PcbList 3 # map PcbList [4..<PCB_POOL_SIZE]"
    using upt_conv_Cons [OF pool_two(3)] by simp
  from create_kthread_correct [OF s(2) this, of "0xc0100300" "\<lambda>_. 0"] s(1) show ?thesis by auto
qed

text \<open>
  with no PCB left \<open>create_kthread\<close> stops the machine in its assertion, and that
  is the only way it fails.
\<close>

theorem create_kthread_fails_iff:
  assumes "proc_inv s H L"
  shows "create_kthread func args s = Inl e \<longleftrightarrow> L Free = [] \<and> e = AssertFail ''free.next != &free''"
proof (cases "L Free")
  case Nil
  then have "nxt (heap s) Free = Some Free"
    using rep_empty_iff [OF proc_invD(1) [OF assms] lists_invD(3) [OF proc_invD(2) [OF assms]]] by simp
  with Nil create_kthread_full show ?thesis by auto
next
  case (Cons d ds)
  note li = proc_invD(2) [OF assms]
  have "d \<in> threads" by (rule lists_invD(5) [OF li lists_invD(3) [OF li]]) (simp_all add: Cons)
  then obtain i where "d = PcbList i" by (elim threadsE)
  with Cons obtain s' where "create_kthread func args s = Inr (i, s')"
    by (metis create_kthread_inv [OF assms])
  with Cons show ?thesis by simp
qed

theorem create_kthread_fails_iff_witness:
  "\<exists>s. init_proc bss_kcore = Inr s \<and> create_kthread 0 (\<lambda>_. 0) s \<noteq> Inl (NullDeref ''PCB'')"
proof -
  obtain s where s: "init_proc bss_kcore = Inr s" "proc_inv s boot_heads boot_lists"
    by (rule init_proc_boots [of bss_kcore]) (simp_all add: bss_kcore_def)
  from create_kthread_fails_iff [OF s(2), of 0 "\<lambda>_. 0" "NullDeref ''PCB''"] s(1) show ?thesis by simp
qed

text \<open>
  \<open>init_proc\<close> sets up the invariant: from any memory contents, with the idle
  process current and no lock held, the ready and block lists are empty, every PCB but the
  idle one is on the free list in index order, and the idle process has an empty mailbox.
\<close>

theorem init_proc_correct:
  assumes "current s = idle" and "lock_count s = 0"
  shows "\<exists>s'. init_proc s = Inr s' \<and>
    proc_inv s' {Ready, Block, Free, MsgList 0} ((\<lambda>_. [])(Free := map PcbList [1..<PCB_POOL_SIZE])) \<and>
    cr3 (pcb_pool s' 0) = kcr3 s"
  using init_proc_boots [OF assms] by (auto simp: boot_heads_def boot_lists_def)

theorem init_proc_correct_witness:
  "\<exists>s'. init_proc bss_kcore = Inr s' \<and> cr3 (pcb_pool s' 0) = 0x1000"
  using init_proc_correct [of bss_kcore] by (auto simp: bss_kcore_def)

text \<open>
  nested critical sections.  With no lock held and no flag set, after \<open>n\<close> calls of
  \<open>lock\<close> and \<open>k\<close> calls of \<open>unlock\<close> interrupts are disabled exactly as long as fewer
  sections have been left than entered.
\<close>

theorem lock_nesting:
  assumes "lock_flag s = 0" and "lock_count s = 0" and "0 < n" and "k \<le> n"
  shows "intr ((unlock ^^ k) ((lock ^^ n) s)) \<longleftrightarrow> k = n"
proof -
  have "(lock ^^ Suc m) s = s\<lparr>intr := False, lock_count := int (Suc m)\<rparr>" for m
    using assms(2) by (induction m) (simp_all add: lock_eq)
  then have l: "(lock ^^ n) s = s\<lparr>intr := False, lock_count := int n\<rparr>" using assms(3) by (cases n) auto
  have "(unlock ^^ k) ((lock ^^ n) s) = s\<lparr>intr := (k = n), lock_count := int n - int k\<rparr>"
    using assms(4)
  proof (induction k)
    case 0
    then show ?case using assms(3) l by simp
  next
    case (Suc k)
    then have e: "int n - int k = 1 \<longleftrightarrow> Suc k = n" "int n - (1 + int k) = int n - int k - 1" by auto
    from Suc show ?case by (simp add: unlock_eq unlock_intr_def assms(1) e)
  qed
  then show ?thesis by simp
qed

theorem lock_nesting_witness:
  "intr ((unlock ^^ 2) ((lock ^^ 2) bss_kcore)) \<and> \<not> intr ((unlock ^^ 1) ((lock ^^ 2) bss_kcore))"
  using lock_nesting [of bss_kcore 2 2] lock_nesting [of bss_kcore 2 1] by (simp add: bss_kcore_def)

end
