(* ===== verification/Message.thy ===== *)
theory Message
  imports Process
begin

text \<open>
  Message passing: \<open>process/message.c\<close> and the types of \<open>process.h\<close> it uses.  A
  message is copied into the next slot of a ring of 512 slots, the slot is linked at the
  tail of the mailbox of the receiver and the receiver's semaphore is raised; a receiver
  lowers its semaphore and unlinks a message.  The abstraction is one queue of messages
  per process.
\<close>

section \<open>Messages\<close>

text \<open>
  \<open>type\<close> and \<open>ret\<close> are one word (a union), and so are \<open>i[0..4]\<close> and the fields
  \<open>req_pid\<close>, \<open>dev_id\<close>, \<open>buf\<close>, \<open>offset\<close>, \<open>len\<close>.
\<close>

record Msg =
  src :: pid_t
  dest :: pid_t
  mtype :: u32
  req_pid :: u32
  dev_id :: u32
  buf :: u32
  offset :: u32
  mlen :: u32

definition ANY :: pid_t where
  "ANY = - 1"

definition MSG_HARD_INTR :: pid_t where
  "MSG_HARD_INTR = - 2"

definition MSG_POOL_SIZE :: nat where
  "MSG_POOL_SIZE = 512"

record kmsg = kcore +
  msg_pool :: "nat \<Rightarrow> Msg"
  p_free :: nat

section \<open>message.c\<close>

text \<open>\<open>send\<close> up to the call of \<open>lock\<close>: the message is copied to the slot \<open>p_free\<close>.\<close>

definition current_pid :: "'a kcore_scheme \<Rightarrow> pid_t res" where
  "current_pid s = bindR (pcb_index (Some (current s))) (\<lambda>i. Inr (pid (pcb_pool s i)))"

definition send_copy :: "pid_t \<Rightarrow> Msg \<Rightarrow> 'a kmsg_scheme \<Rightarrow> (Msg \<times> 'a kmsg_scheme) res" where
  "send_copy d m s =
     (let m = m\<lparr>dest := d\<rparr> in
      bindR (if src m = 0 then bindR (current_pid s) (\<lambda>p. Inr (m\<lparr>src := p\<rparr>)) else Inr m) (\<lambda>m.
      Inr (m, s\<lparr>msg_pool := (msg_pool s)(p_free s := m)\<rparr>)))"

text \<open>The critical section of \<open>send\<close>, and the \<open>V\<close> that ends it.\<close>

definition send_link :: "nat \<Rightarrow> 'a kmsg_scheme \<Rightarrow> 'a kmsg_scheme res" where
  "send_link i s =
     (let s = lock s in
      bindR (on_heap (list_add_before (Some (MsgList i)) (Some (MsgNode (p_free s)))) s) (\<lambda>s.
      let s = s\<lparr>p_free := p_free s + 1\<rparr>;
          s = (if p_free s \<ge> MSG_POOL_SIZE then s\<lparr>p_free := 0\<rparr> else s) in
      Inr (unlock s)))"

definition send :: "pid_t \<Rightarrow> Msg \<Rightarrow> 'a kmsg_scheme \<Rightarrow> (Msg \<times> 'a kmsg_scheme) res" where
  "send d m s =
     bindR (fetch_pcb d) (\<lambda>i.
     bindR (send_copy d m s) (\<lambda>(m, s).
     bindR (send_link i s) (\<lambda>s.
     bindR (V_sem (MsgSem i) s) (\<lambda>s.
     Inr (m, s)))))"

text \<open>
  \<open>receive\<close> stops at the trap of \<open>P\<close>, at the \<open>hlt\<close> of its retry loop, or returns
  the message.
\<close>

datatype 's received = Got Msg 's | Waiting 's | Retry 's

definition msg_no :: "laddr option \<Rightarrow> nat res" where
  "msg_no p =
     (case p of
        None \<Rightarrow> Inl (NullDeref ''msg_list'')
      | Some (MsgNode k) \<Rightarrow> Inr k
      | Some _ \<Rightarrow> Inl (OutOfBounds ''list_entry Msg''))"

definition take_msg :: "laddr option \<Rightarrow> 'a kmsg_scheme \<Rightarrow> 'a kmsg_scheme received res" where
  "take_msg p s =
     (let s = lock s in
      bindR (msg_no p) (\<lambda>k.
      bindR (on_heap (list_del (Some (MsgNode k))) s) (\<lambda>s.
      let s = unlock s in
      Inr (Got (msg_pool s k) s))))"

definition msg_from :: "pid_t \<Rightarrow> 'a kmsg_scheme \<Rightarrow> laddr \<Rightarrow> bool" where
  "msg_from p s a = (case a of MsgNode k \<Rightarrow> src (msg_pool s k) = p | _ \<Rightarrow> False)"

definition receive_take :: "pid_t \<Rightarrow> 'a kmsg_scheme \<Rightarrow> 'a kmsg_scheme received res" where
  "receive_take p s =
     bindR (pcb_index (Some (current s))) (\<lambda>i.
     if p = ANY then take_msg (nxt (heap s) (MsgList i)) s
     else
       bindR (list_foreach_until (MSG_POOL_SIZE + 1) (heap s) (msg_from p s) (MsgList i)) (\<lambda>a.
       if a \<noteq> MsgList i then take_msg (Some a) s
       else bindR (V_sem (MsgSem i) s) (\<lambda>s. Inr (Retry s))))"

definition receive :: "pid_t \<Rightarrow> 'a kmsg_scheme \<Rightarrow> 'a kmsg_scheme received res" where
  "receive p s =
     bindR (pcb_index (Some (current s))) (\<lambda>i.
     bindR (P_sem (MsgSem i) s) (\<lambda>r.
     case r of
       Returned s \<Rightarrow> receive_take p s
     | Trapped s \<Rightarrow> Inr (Waiting s)))"

definition receive_resume :: "pid_t \<Rightarrow> 'a kmsg_scheme \<Rightarrow> 'a kmsg_scheme received res" where
  "receive_resume p s = receive_take p (P_resume s)"

section \<open>Mailboxes\<close>

definition slot :: "'a kmsg_scheme \<Rightarrow> laddr \<Rightarrow> Msg" where
  "slot s a = (case a of MsgNode k \<Rightarrow> msg_pool s k)"

definition mbox :: "'a kmsg_scheme \<Rightarrow> (laddr \<Rightarrow> laddr list) \<Rightarrow> nat \<Rightarrow> Msg list" where
  "mbox s L i = map (slot s) (L (MsgList i))"

definition slots :: "laddr set" where
  "slots = MsgNode ` {..<MSG_POOL_SIZE}"

definition msg_inv :: "'a kmsg_scheme \<Rightarrow> laddr set \<Rightarrow> (laddr \<Rightarrow> laddr list) \<Rightarrow> bool" where
  "msg_inv s H L \<longleftrightarrow>
     proc_inv s H L \<and> p_free s < MSG_POOL_SIZE \<and>
     (\<forall>i. MsgList i \<in> H \<longrightarrow> set (L (MsgList i)) \<subseteq> slots)"

lemma msg_invD:
  assumes "msg_inv s H L"
  shows "proc_inv s H L" and "p_free s < MSG_POOL_SIZE"
    and "MsgList i \<in> H \<Longrightarrow> set (L (MsgList i)) \<subseteq> slots"
  using assms by (auto simp: msg_inv_def)

lemma mbox_length:
  assumes "msg_inv s H L" and "MsgList i \<in> H"
  shows "length (L (MsgList i)) \<le> MSG_POOL_SIZE"
proof -
  have "distinct (L (MsgList i))"
    using rep_distinct [OF proc_invD(1) [OF msg_invD(1) [OF assms(1)]] assms(2)] .
  then have "length (L (MsgList i)) = card (set (L (MsgList i)))" by (rule distinct_card [symmetric])
  also have "\<dots> \<le> card slots"
    using msg_invD(3) [OF assms] by (intro card_mono) (auto simp: slots_def)
  also have "\<dots> \<le> MSG_POOL_SIZE" unfolding slots_def using card_image_le [of "{..<MSG_POOL_SIZE}" MsgNode] by simp
  finally show ?thesis .
qed

text \<open>Appending a slot to a mailbox and dropping one keep the list part of the invariant.\<close>

lemma lists_inv_msg_append:
  assumes "lists_inv H L" and "MsgList i \<in> H"
  shows "lists_inv H (L(MsgList i := L (MsgList i) @ [MsgNode k]))"
  using assms linked_add [OF assms(2), of L "MsgNode k"] unfolding lists_inv_def by auto

lemma msg_node:
  assumes "lists_inv H L" and "MsgList i \<in> H" and "d \<in> set (L (MsgList i))"
  shows "d \<notin> range PcbList"
proof -
  have "\<not> is_pqueue (MsgList i)" by simp
  then have "set (L (MsgList i)) \<subseteq> Collect is_node - range PcbList"
    using assms(1,2) unfolding lists_inv_def by blast
  with assms(3) show ?thesis by blast
qed

lemma lists_inv_subset:
  assumes li: "lists_inv H L" and sub: "\<And>l. set (M l) \<subseteq> set (L l)"
    and thr: "threads \<subseteq> linked H M" and fr: "M Free = L Free"
  shows "lists_inv H M"
proof -
  have a: "\<forall>l\<in>H. is_pqueue l \<longrightarrow> set (M l) \<subseteq> threads"
    and b: "\<forall>l\<in>H. \<not> is_pqueue l \<longrightarrow> set (M l) \<subseteq> Collect is_node - range PcbList"
    using li sub unfolding lists_inv_def by (blast intro: subset_trans)+
  from li have c: "{Ready, Block, Free} \<subseteq> H" "\<forall>l\<in>H. \<not> is_node l"
    "\<forall>i. PcbList i \<in> threads \<longrightarrow> (MsgList i \<in> H) = (PcbList i \<notin> set (L Free)) \<and>
      (SemBlock (MsgSem i) \<in> H) = (PcbList i \<notin> set (L Free))"
    unfolding lists_inv_def by blast+
  show ?thesis unfolding lists_inv_def fr by (intro conjI a b c thr)
qed

lemma lists_inv_msg_drop:
  assumes r: "rep h H L" and li: "lists_inv H L" and i: "MsgList i \<in> H" and d: "d \<in> set (L (MsgList i))"
  shows "lists_inv H (L(MsgList i := remove1 d (L (MsgList i))))"
proof (rule lists_inv_subset [OF li])
  have "threads \<subseteq> linked H L" using li unfolding lists_inv_def by blast
  then show "threads \<subseteq> linked H (L(MsgList i := remove1 d (L (MsgList i))))"
    using rep_linked_del [OF r i d] msg_node [OF li i d] by (auto simp: threads_def)
qed (use set_remove1_subset [of d "L (MsgList i)"] in simp_all)

lemma proc_inv_msg_list:
  assumes "proc_inv s H L" and "rep h H (L(MsgList i := xs))" and "lists_inv H (L(MsgList i := xs))"
    and "heap t = h" and "pcb_pool t = pcb_pool s" and "token t = token s" and "current t = current s"
    and "lock_count t = lock_count s"
  shows "proc_inv t H (L(MsgList i := xs))"
  using assms
  by (auto simp: proc_inv_def stat_inv_def sem_inv_def current_inv_def split: if_splits)

section \<open>Sending\<close>

definition next_slot :: "nat \<Rightarrow> nat" where
  "next_slot k = (if k + 1 \<ge> MSG_POOL_SIZE then 0 else k + 1)"

definition posted :: "nat \<Rightarrow> nat \<Rightarrow> (laddr \<Rightarrow> laddr list) \<Rightarrow> laddr \<Rightarrow> laddr list" where
  "posted i k L = L(MsgList i := L (MsgList i) @ [MsgNode k])"

definition addressed :: "pid_t \<Rightarrow> pid_t \<Rightarrow> Msg \<Rightarrow> Msg" where
  "addressed self d m = m\<lparr>dest := d, src := (if src m = 0 then self else src m)\<rparr>"

lemma send_copy_eq:
  assumes "current s = PcbList c" and "c < PCB_POOL_SIZE"
  shows "send_copy d m s = Inr (addressed (pid (pcb_pool s c)) d m,
    s\<lparr>msg_pool := (msg_pool s)(p_free s := addressed (pid (pcb_pool s c)) d m)\<rparr>)"
  using assms by (simp add: send_copy_def current_pid_def addressed_def Let_def)

lemma send_link_eq:
  "send_link i s = Inr (s\<lparr>heap := link_before (MsgList i) (MsgNode (p_free s)) (heap s),
     p_free := next_slot (p_free s), intr := relock s\<rparr>)"
  by (simp add: send_link_def kdefs Let_def next_slot_def relock_def unlock_intr_def)

lemma next_slot_bound: "next_slot k < MSG_POOL_SIZE"
  by (simp add: next_slot_def MSG_POOL_SIZE_def)

lemma slots_iff [simp]: "MsgNode k \<in> slots \<longleftrightarrow> k < MSG_POOL_SIZE"
  by (auto simp: slots_def)

lemma posted_inv:
  assumes inv: "msg_inv s H L" and i: "MsgList i \<in> H" and fr: "MsgNode (p_free s) \<notin> linked H L"
  shows "msg_inv (s\<lparr>heap := link_before (MsgList i) (MsgNode (p_free s)) (heap s), msg_pool := q,
     p_free := next_slot (p_free s), intr := b\<rparr>) H (posted i (p_free s) L)"
proof -
  note pi = msg_invD(1) [OF inv]
  have "rep (link_before (MsgList i) (MsgNode (p_free s)) (heap s)) H (posted i (p_free s) L)"
    unfolding posted_def by (rule rep_add_before [OF proc_invD(1) [OF pi] i fr])
  moreover have "lists_inv H (posted i (p_free s) L)"
    unfolding posted_def by (rule lists_inv_msg_append [OF proc_invD(2) [OF pi] i])
  ultimately have "proc_inv (s\<lparr>heap := link_before (MsgList i) (MsgNode (p_free s)) (heap s),
      msg_pool := q, p_free := next_slot (p_free s), intr := b\<rparr>) H (posted i (p_free s) L)"
    unfolding posted_def by (intro proc_inv_msg_list [OF pi]) simp_all
  then show ?thesis
    using inv next_slot_bound unfolding msg_inv_def posted_def by (auto simp: subset_iff)
qed

lemma mbox_posted:
  assumes inv: "msg_inv s H L" and fr: "MsgNode (p_free s) \<notin> linked H L" and j: "MsgList j \<in> H"
    and t: "msg_pool t = (msg_pool s)(p_free s := m)"
  shows "mbox t (posted i (p_free s) L) j = mbox s L j @ (if j = i then [m] else [])"
proof -
  have "slot t a = slot s a" if "a \<in> set (L (MsgList j))" for a
  proof -
    have "a \<in> slots" using that msg_invD(3) [OF inv j] by blast
    moreover have "a \<noteq> MsgNode (p_free s)" using that fr j by (auto simp: linked_def)
    ultimately show ?thesis using t by (auto simp: slot_def slots_def split: if_splits)
  qed
  then show ?thesis by (simp add: mbox_def posted_def slot_def t)
qed

lemma msg_inv_v:
  assumes "msg_inv s H L" and "proc_inv t H (v_lists x L)" and "p_free t = p_free s"
  shows "msg_inv t H (v_lists x L)"
  using assms by (simp add: msg_inv_def)

lemma mbox_v [simp]: "mbox s (v_lists x L) i = mbox s L i"
  by (simp add: mbox_def)

lemma send_delivers:
  assumes inv: "msg_inv s H L" and d: "unat d = i" "i < PCB_POOL_SIZE"
    and H: "MsgList i \<in> H" "SemBlock (MsgSem i) \<in> H" and fr: "MsgNode (p_free s) \<notin> linked H L"
    and c: "current s = PcbList c"
  obtains s' where "send d m s = Inr (addressed (pid (pcb_pool s c)) d m, s')"
    and "msg_inv s' H (v_lists (MsgSem i) (posted i (p_free s) L))"
    and "\<And>j. MsgList j \<in> H \<Longrightarrow> mbox s' (v_lists (MsgSem i) (posted i (p_free s) L)) j =
      mbox s L j @ (if j = i then [addressed (pid (pcb_pool s c)) d m] else [])"
    and "token s' = v_token (MsgSem i) L (token s)" and "current s' = current s"
    and "lock_count s' = lock_count s" and "lock_flag s' = lock_flag s"
proof -
  have c': "c < PCB_POOL_SIZE"
    using proc_invD(5) [OF msg_invD(1) [OF inv]] c by (auto simp: current_inv_def)
  let ?m = "addressed (pid (pcb_pool s c)) d m"
  define t where "t = s\<lparr>heap := link_before (MsgList i) (MsgNode (p_free s)) (heap s),
    msg_pool := (msg_pool s)(p_free s := ?m), p_free := next_slot (p_free s), intr := relock s\<rparr>"
  let ?L = "posted i (p_free s) L"
  have t: "msg_inv t H ?L" unfolding t_def by (rule posted_inv [OF inv H(1) fr])
  have linked: "send_link i (s\<lparr>msg_pool := (msg_pool s)(p_free s := ?m)\<rparr>) = Inr t"
    by (simp add: send_link_eq t_def relock_def)
  have same: "?L (SemBlock (MsgSem i)) = L (SemBlock (MsgSem i))" by (simp add: posted_def)
  obtain h p where v: "V_sem (MsgSem i) t = Inr (t\<lparr>heap := h, pcb_pool := p,
      token := v_token (MsgSem i) ?L (token t), intr := relock t\<rparr>)"
    and pi: "proc_inv (t\<lparr>heap := h, pcb_pool := p, token := v_token (MsgSem i) ?L (token t),
      intr := relock t\<rparr>) H (v_lists (MsgSem i) ?L)"
    by (rule V_sem_ok [OF msg_invD(1) [OF t] H(2)])
  let ?s = "t\<lparr>heap := h, pcb_pool := p, token := v_token (MsgSem i) ?L (token t), intr := relock t\<rparr>"
  have "send d m s = Inr (?m, ?s)"
    using d v linked by (simp add: send_def fetch_pcb_def send_copy_eq [OF c c'])
  moreover have "msg_inv ?s H (v_lists (MsgSem i) ?L)" by (rule msg_inv_v [OF t pi]) simp
  moreover have "mbox ?s (v_lists (MsgSem i) ?L) j = mbox s L j @ (if j = i then [?m] else [])"
    if "MsgList j \<in> H" for j
    unfolding mbox_v by (rule mbox_posted [OF inv fr that]) (simp add: t_def)
  ultimately show thesis
    using that [of ?s] same by (simp add: t_def v_token_def)
qed

section \<open>Receiving\<close>

definition dropped :: "nat \<Rightarrow> laddr \<Rightarrow> (laddr \<Rightarrow> laddr list) \<Rightarrow> laddr \<Rightarrow> laddr list" where
  "dropped i a L = L(MsgList i := remove1 a (L (MsgList i)))"

lemma take_msg_eq:
  "take_msg (Some (MsgNode k)) s = Inr (Got (msg_pool s k)
     (s\<lparr>heap := unlink_node (MsgNode k) (heap s), intr := relock s\<rparr>))"
  by (simp add: take_msg_def msg_no_def kdefs Let_def relock_def unlock_intr_def)

lemma dropped_inv:
  assumes inv: "msg_inv s H L" and i: "MsgList i \<in> H" and a: "a \<in> set (L (MsgList i))"
  shows "msg_inv (s\<lparr>heap := unlink_node a (heap s), intr := b\<rparr>) H (dropped i a L)"
proof -
  note pi = msg_invD(1) [OF inv]
  note r = proc_invD(1) [OF pi] and li = proc_invD(2) [OF pi]
  have "rep (unlink_node a (heap s)) H (dropped i a L)"
    unfolding dropped_def by (rule rep_del [OF r i a])
  moreover have "lists_inv H (dropped i a L)"
    unfolding dropped_def by (rule lists_inv_msg_drop [OF r li i a])
  ultimately have "proc_inv (s\<lparr>heap := unlink_node a (heap s), intr := b\<rparr>) H (dropped i a L)"
    unfolding dropped_def by (intro proc_inv_msg_list [OF pi]) simp_all
  moreover have "set (dropped i a L (MsgList j)) \<subseteq> slots" if "MsgList j \<in> H" for j
    using msg_invD(3) [OF inv that] set_remove1_subset [of a "L (MsgList i)"]
    by (auto simp: dropped_def split: if_splits)
  ultimately show ?thesis using msg_invD(2) [OF inv] by (simp add: msg_inv_def)
qed

lemma mbox_dropped:
  assumes "find (\<lambda>a. q (slot s a)) (L (MsgList i)) = Some a"
    and "msg_pool t = msg_pool s"
  shows "mbox t (dropped i a L) j = (if j = i then drop_first q (mbox s L i) else mbox s L j)"
proof -
  have "slot t = slot s" using assms(2) by (simp add: slot_def fun_eq_iff split: laddr.splits)
  then show ?thesis
    using map_remove1_find [of q "slot s", OF assms(1)] by (simp add: mbox_def dropped_def)
qed

lemma in_slots:
  assumes "msg_inv s H L" and "MsgList i \<in> H" and "a \<in> set (L (MsgList i))"
  obtains k where "a = MsgNode k" and "slot s a = msg_pool s k"
  using msg_invD(3) [OF assms(1,2)] assms(3) by (auto simp: slots_def slot_def)

text \<open>
  The whole function of \<open>receive\<close> after its \<open>P\<close>: which message it takes is given by a
  test on messages, \<open>wanted\<close>, that every message passes for \<open>ANY\<close>.
\<close>

definition wanted :: "pid_t \<Rightarrow> Msg \<Rightarrow> bool" where
  "wanted p m \<longleftrightarrow> p = ANY \<or> src m = p"

lemma receive_scan:
  assumes inv: "msg_inv s H L" and c: "current s = PcbList i" and H: "MsgList i \<in> H"
    and ne: "p = ANY \<Longrightarrow> L (MsgList i) \<noteq> []"
  shows "receive_take p s =
    (case find (\<lambda>a. wanted p (slot s a)) (L (MsgList i)) of
       Some a \<Rightarrow> take_msg (Some a) s
     | None \<Rightarrow> bindR (V_sem (MsgSem i) s) (\<lambda>s. Inr (Retry s)))"
proof -
  note pi = msg_invD(1) [OF inv]
  note r = proc_invD(1) [OF pi]
  have i: "i < PCB_POOL_SIZE" using proc_invD(5) [OF pi] c by (auto simp: current_inv_def)
  show ?thesis
  proof (cases "p = ANY")
    case True
    then obtain a as where "L (MsgList i) = a # as" using ne by (cases "L (MsgList i)") auto
    with True c i rep_nxt [OF r H] show ?thesis
      by (simp add: receive_take_def wanted_def)
  next
    case False
    have "length (L (MsgList i)) < MSG_POOL_SIZE + 1" using mbox_length [OF inv H] by simp
    note scan = list_foreach_until_rep [OF r H this, of "msg_from p s"]
    have same: "find (msg_from p s) (L (MsgList i)) = find (\<lambda>a. wanted p (slot s a)) (L (MsgList i))"
    proof (rule find_cong [OF refl])
      fix a assume "a \<in> set (L (MsgList i))"
      then obtain k where "a = MsgNode k" by (rule in_slots [OF inv H])
      then show "msg_from p s a \<longleftrightarrow> wanted p (slot s a)"
        using False by (simp add: msg_from_def wanted_def slot_def)
    qed
    have "a \<noteq> MsgList i" if "find (msg_from p s) (L (MsgList i)) = Some a" for a
    proof -
      from that have "msg_from p s a" by (auto simp: find_Some_iff)
      then show ?thesis by (auto simp: msg_from_def)
    qed
    with False c i scan same show ?thesis
      by (auto simp: receive_take_def split: option.splits)
  qed
qed

text \<open>A message that is wanted is taken: the first such one, and the others keep their order.\<close>

lemma receive_takes:
  assumes inv: "msg_inv s H L" and c: "current s = PcbList i" and H: "MsgList i \<in> H"
    and m: "find (wanted p) (mbox s L i) = Some m"
  obtains s' a where "receive_take p s = Inr (Got m s')" and "msg_inv s' H (dropped i a L)"
    and "\<forall>j. mbox s' (dropped i a L) j = (if j = i then drop_first (wanted p) (mbox s L i) else mbox s L j)"
    and "s' = s\<lparr>heap := unlink_node a (heap s), intr := relock s\<rparr>"
proof -
  obtain a where a: "find (\<lambda>a. wanted p (slot s a)) (L (MsgList i)) = Some a" "m = slot s a"
    using m by (auto simp: mbox_def find_map)
  then have mem: "a \<in> set (L (MsgList i))" by (auto simp: find_Some_iff)
  then obtain k where k: "a = MsgNode k" "slot s a = msg_pool s k" by (rule in_slots [OF inv H])
  let ?s = "s\<lparr>heap := unlink_node a (heap s), intr := relock s\<rparr>"
  have "receive_take p s = Inr (Got m ?s)"
    using receive_scan [OF inv c H, of p] length_pos_if_in_set [OF mem] a k by (simp add: take_msg_eq)
  moreover have "msg_inv ?s H (dropped i a L)" by (rule dropped_inv [OF inv H mem])
  moreover have "mbox ?s (dropped i a L) j =
      (if j = i then drop_first (wanted p) (mbox s L i) else mbox s L j)" for j
    using mbox_dropped [where q = "wanted p" and s = s and L = L and i = i and a = a and t = ?s] a(1)
    by simp
  ultimately show thesis by (intro that) auto
qed

text \<open>When no message is wanted the token is given back and every mailbox is as before.\<close>

lemma receive_retries:
  assumes inv: "msg_inv s H L" and c: "current s = PcbList i"
    and H: "MsgList i \<in> H" "SemBlock (MsgSem i) \<in> H" and p: "p \<noteq> ANY"
    and none: "find (wanted p) (mbox s L i) = None"
  obtains s' where "receive_take p s = Inr (Retry s')" and "msg_inv s' H (v_lists (MsgSem i) L)"
    and "token s' = v_token (MsgSem i) L (token s)"
    and "\<And>j. mbox s' (v_lists (MsgSem i) L) j = mbox s L j"
    and "current s' = current s" and "msg_pool s' = msg_pool s" and "p_free s' = p_free s"
proof -
  obtain h q where v: "V_sem (MsgSem i) s = Inr (s\<lparr>heap := h, pcb_pool := q,
      token := v_token (MsgSem i) L (token s), intr := relock s\<rparr>)"
    and pi: "proc_inv (s\<lparr>heap := h, pcb_pool := q, token := v_token (MsgSem i) L (token s),
      intr := relock s\<rparr>) H (v_lists (MsgSem i) L)"
    by (rule V_sem_ok [OF msg_invD(1) [OF inv] H(2)])
  have none': "find (\<lambda>a. wanted p (slot s a)) (L (MsgList i)) = None"
    using none by (simp add: mbox_def find_map)
  let ?s = "s\<lparr>heap := h, pcb_pool := q, token := v_token (MsgSem i) L (token s), intr := relock s\<rparr>"
  have "receive_take p s = Inr (Retry ?s)"
    using receive_scan [OF inv c H(1), of p] p none' v by simp
  moreover have "msg_inv ?s H (v_lists (MsgSem i) L)" by (rule msg_inv_v [OF inv pi]) simp
  moreover have "slot ?s = slot s" by (simp add: slot_def fun_eq_iff split: laddr.splits)
  ultimately show thesis by (intro that [of ?s]) (simp_all add: mbox_def)
qed

section \<open>What the routines leave alone\<close>

lemma kcore_more_kmsg:
  fixes s t :: "'a kmsg_scheme"
  shows "kcore.more s = kcore.more t \<Longrightarrow> msg_pool s = msg_pool t \<and> p_free s = p_free t \<and> kmsg.more s = kmsg.more t"
  by (cases s, cases t) simp

lemma send_more: "send d m s = Inr (m', s') \<Longrightarrow> kmsg.more s' = kmsg.more s \<and> current s' = current s"
  unfolding send_def
  by (auto simp: bindR_Inr_iff send_copy_def Let_def current_pid_def send_link_eq split: if_splits
      dest!: V_sem_more kcore_more_kmsg)

section \<open>Properties\<close>

definition bss_kmsg :: kmsg where
  "bss_kmsg = kcore.extend bss_kcore
     \<lparr>msg_pool = (\<lambda>_. \<lparr>src = 0, dest = 0, mtype = 0, req_pid = 0, dev_id = 0, buf = 0, offset = 0, mlen = 0\<rparr>),
      p_free = 0\<rparr>"

lemma bss_kmsg_start [simp]:
  "current bss_kmsg = idle" "lock_count bss_kmsg = 0" "p_free bss_kmsg = 0" "lock_flag bss_kmsg = 0"
  by (simp_all add: bss_kmsg_def kcore.defs bss_kcore_def)

lemma two_threads_msg:
  fixes s0 :: "'a kmsg_scheme"
  assumes "current s0 = idle" and "lock_count s0 = 0" and "p_free s0 = 0"
  obtains s where "two_threads s0 = Inr s" and "msg_inv s two_heads two_lists"
    and "current s = PcbList 1" and "p_free s = 0" and "token s (MsgSem 1) = 0" and "token s (MsgSem 2) = 0"
    and "pid (pcb_pool s 1) = 1" and "pid (pcb_pool s 2) = 2" and "lock_flag s = lock_flag s0"
    and "lock_count s = 0" and "kcore.more s = kcore.more s0"
proof -
  obtain s where s: "two_threads s0 = Inr s" "proc_inv s two_heads two_lists" "current s = PcbList 1"
    "kcore.more s = kcore.more s0" "token s (MsgSem 1) = 0" "token s (MsgSem 2) = 0"
    "pid (pcb_pool s 1) = 1" "pid (pcb_pool s 2) = 2" "lock_flag s = lock_flag s0" "lock_count s = 0"
    by (rule two_threads_ok [OF assms(1,2)])
  have f: "p_free s = p_free s0" using s(4) by (cases s, cases s0) simp
  then have "msg_inv s two_heads two_lists" using s(2) assms(3) by (simp add: msg_inv_def MSG_POOL_SIZE_def)
  with s f assms(3) show thesis by (intro that [of s]) simp_all
qed

lemma two_slot_free: "MsgNode k \<notin> linked two_heads two_lists"
proof -
  have "two_lists l = [] \<or> set (two_lists l) \<subseteq> range PcbList" if "l \<in> two_heads" for l
    using that by (auto simp: two_heads_def born_heads_def boot_heads_def) 
      (auto simp: two_lists_def spawned_def moved_def born_def)
  then show ?thesis unfolding linked_def by (fastforce simp: two_heads_def born_heads_def boot_heads_def)
qed

text \<open>
  C7: \<open>send\<close> delivers.  A message sent to an initialised mailbox through an unused slot
  of the pool is appended to that mailbox, with the destination and the source filled in,
  every other mailbox keeps its contents, the receiver's semaphore is raised (or a waiting
  receiver is woken), and no routine on the way fails.
\<close>

theorem send_appends:
  assumes "msg_inv s H L" and "i < PCB_POOL_SIZE" and "MsgList i \<in> H" and "SemBlock (MsgSem i) \<in> H"
    and "MsgNode (p_free s) \<notin> linked H L" and "current s = PcbList c"
  shows "\<exists>s' L'. send (word_of_nat i) m s = Inr (addressed (pid (pcb_pool s c)) (word_of_nat i) m, s') \<and>
    msg_inv s' H L' \<and>
    mbox s' L' i = mbox s L i @ [addressed (pid (pcb_pool s c)) (word_of_nat i) m] \<and>
    (\<forall>j. MsgList j \<in> H \<longrightarrow> j \<noteq> i \<longrightarrow> mbox s' L' j = mbox s L j) \<and>
    (if L (SemBlock (MsgSem i)) = [] then token s' (MsgSem i) = token s (MsgSem i) + 1
     else L' Ready = L Ready @ [hd (L (SemBlock (MsgSem i)))])"
proof -
  let ?d = "word_of_nat i :: pid_t" and ?L = "v_lists (MsgSem i) (posted i (p_free s) L)"
  have d: "unat ?d = i" using assms(2) by (simp add: PCB_POOL_SIZE_def)
  obtain s' where s': "send ?d m s = Inr (addressed (pid (pcb_pool s c)) ?d m, s')" "msg_inv s' H ?L"
    and mb: "\<forall>j. MsgList j \<in> H \<longrightarrow> mbox s' ?L j =
      mbox s L j @ (if j = i then [addressed (pid (pcb_pool s c)) ?d m] else [])"
    and t: "token s' = v_token (MsgSem i) L (token s)"
    by (rule send_delivers [OF assms(1) d assms(2-6)]) blast
  have "L (SemBlock (MsgSem i)) \<noteq> [] \<longrightarrow> ?L Ready = L Ready @ [hd (L (SemBlock (MsgSem i)))]"
    by (auto simp: v_lists_def posted_def moved_def split: list.splits)
  with s' mb t assms(3) show ?thesis
    by (intro exI [of _ s'] exI [of _ ?L]) (auto simp: v_token_def)
qed

theorem send_appends_witness:
  "\<exists>s s' L'. two_threads bss_kmsg = Inr s \<and>
     send 2 (msg_pool bss_kmsg 0) s = Inr (addressed 1 2 (msg_pool bss_kmsg 0), s') \<and>
     mbox s' L' 2 = [addressed 1 2 (msg_pool bss_kmsg 0)] \<and> token s' (MsgSem 2) = 1"
proof -
  obtain s where s: "two_threads bss_kmsg = Inr s" "msg_inv s two_heads two_lists"
    "current s = PcbList 1" "p_free s = 0" "token s (MsgSem 1) = 0" "token s (MsgSem 2) = 0"
    "pid (pcb_pool s 1) = 1"
    by (rule two_threads_msg [of bss_kmsg]) simp_all
  have "mbox s two_lists 2 = []" by (simp add: mbox_def)
  with send_appends [OF s(2) pool_two(1) _ _ two_slot_free s(3), of "msg_pool bss_kmsg 0"] s
  show ?thesis by auto
qed

text \<open>
  C8: \<open>receive\<close> takes the oldest message it wants.  After its \<open>P\<close>, in a process whose
  mailbox holds a message of the wanted sender (any message for \<open>ANY\<close>), it returns the first
  such message, removes that one only, and keeps the order of the rest and every other
  mailbox.
\<close>

theorem receive_takes_first:
  assumes "msg_inv s H L" and "current s = PcbList i" and "MsgList i \<in> H"
    and "find (wanted p) (mbox s L i) = Some m"
  shows "\<exists>s' L'. receive_take p s = Inr (Got m s') \<and> msg_inv s' H L' \<and>
    mbox s' L' i = drop_first (wanted p) (mbox s L i) \<and>
    (\<forall>j. j \<noteq> i \<longrightarrow> mbox s' L' j = mbox s L j) \<and> token s' = token s"
proof -
  obtain s' a where "receive_take p s = Inr (Got m s')" "msg_inv s' H (dropped i a L)"
    "\<forall>j. mbox s' (dropped i a L) j = (if j = i then drop_first (wanted p) (mbox s L i) else mbox s L j)"
    "s' = s\<lparr>heap := unlink_node a (heap s), intr := relock s\<rparr>"
    by (rule receive_takes [OF assms])
  then show ?thesis by (intro exI [of _ s'] exI [of _ "dropped i a L"]) simp
qed

theorem receive_takes_first_witness:
  "\<exists>s m s' s''. two_threads bss_kmsg = Inr s \<and> send 1 (msg_pool bss_kmsg 0) s = Inr (m, s') \<and>
     receive_take 1 s' = Inr (Got m s'')"
proof -
  obtain s where s: "two_threads bss_kmsg = Inr s" "msg_inv s two_heads two_lists"
    "current s = PcbList 1" "p_free s = 0" "pid (pcb_pool s 1) = 1"
    by (rule two_threads_msg [of bss_kmsg]) simp_all
  let ?m = "addressed 1 1 (msg_pool bss_kmsg 0)"
  have u: "unat (1 :: pid_t) = 1" by simp
  obtain s' where s': "send 1 (msg_pool bss_kmsg 0) s = Inr (?m, s')"
    "msg_inv s' two_heads (v_lists (MsgSem 1) (posted 1 (p_free s) two_lists))"
    "mbox s' (v_lists (MsgSem 1) (posted 1 (p_free s) two_lists)) 1 = mbox s two_lists 1 @ [?m]"
    "current s' = PcbList 1"
    by (rule send_delivers [OF s(2) u _ _ _ two_slot_free s(3), where m = "msg_pool bss_kmsg 0"])
      (use s pool_two in auto)
  have "wanted 1 ?m"
    by (simp add: wanted_def addressed_def bss_kmsg_def kcore.defs)
  then have "find (wanted 1) (mbox s' (v_lists (MsgSem 1) (posted 1 (p_free s) two_lists)) 1) = Some ?m"
    unfolding s'(3) by (simp add: mbox_def)
  from receive_takes_first [OF s'(2,4) _ this] s(1) s'(1) show ?thesis by auto
qed

text \<open>
  a \<open>receive\<close> from a given sender that finds no message of it gives its token back,
  leaves every mailbox as it was, and waits for an interrupt to try again.
\<close>

theorem receive_retry_harmless:
  assumes "msg_inv s H L" and "current s = PcbList i" and "MsgList i \<in> H" and "SemBlock (MsgSem i) \<in> H"
    and "p \<noteq> ANY" and "\<forall>m \<in> set (mbox s L i). src m \<noteq> p" and "L (SemBlock (MsgSem i)) = []"
  shows "\<exists>s'. receive_take p s = Inr (Retry s') \<and> msg_inv s' H L \<and>
    (\<forall>j. mbox s' L j = mbox s L j) \<and>
    token s' = (token s)(MsgSem i := token s (MsgSem i) + 1)"
proof -
  have n: "find (wanted p) (mbox s L i) = None"
    using assms(5,6) by (auto simp: find_None_iff wanted_def)
  have v: "v_lists (MsgSem i) L = L" using assms(7) by (simp add: v_lists_def)
  show ?thesis
    by (rule receive_retries [OF assms(1-5) n]) (use assms(7) v in \<open>auto simp: v_token_def\<close>)
qed

theorem receive_retry_harmless_witness:
  "\<exists>s s'. two_threads bss_kmsg = Inr s \<and> receive_take 2 s = Inr (Retry s') \<and> token s' (MsgSem 1) = 1"
proof -
  obtain s where s: "two_threads bss_kmsg = Inr s" "msg_inv s two_heads two_lists"
    "current s = PcbList 1" "token s (MsgSem 1) = 0"
    by (rule two_threads_msg [of bss_kmsg]) simp_all
  have "(2 :: pid_t) \<noteq> ANY" by (simp add: ANY_def)
  with receive_retry_harmless [OF s(2,3), of 2] s show ?thesis by (auto simp: mbox_def)
qed

end
