(* ===== verification/Ipc.thy ===== *)
theory Ipc
  imports Message
begin

text \<open>
  The kernel threads and interrupt handlers as one transition system over the routines of
  \<open>process/\<close>.  A step is one critical section of the code: the interrupt-free parts of
  \<open>send\<close> (copy, link, \<open>V\<close>), of \<open>receive\<close> (\<open>P\<close>, removal or retry), thread
  creation, wake-up, sleep and a call of the scheduler, in any order the interrupts and
  the scheduler can bring about.  Counters that the code does not have make the
  accounting visible: \<open>pend i\<close> is the number of messages linked into the mailbox of
  \<open>i\<close> whose \<open>V\<close> is still to come, and \<open>held i\<close> the number of tokens of the
  mailbox's semaphore handed out for which no message has been removed yet;
  \<open>inited\<close> is the set of list heads initialised so far.

  The pool of \<open>message.c\<close> has 512 slots, used in turn, and \<open>send\<close> does not look whether
  the next one still holds an undelivered message.  The step \<open>link\<close> does not look either;
  it only records in \<open>overrun\<close> that the slot was still in a mailbox, and in \<open>stray\<close> that the
  mailbox was never initialised.  The properties say where they need a run without an
  overrun or without a stray message, and \<open>send_overruns\<close> shows what an overrun does to a
  mailbox.
\<close>

section \<open>The transition system\<close>

record ipc =
  kst :: kmsg
  held :: "nat \<Rightarrow> nat"
  pend :: "nat \<Rightarrow> nat"
  inited :: "laddr set"
  overrun :: bool
  stray :: bool







section \<open>The invariant\<close>







lemma moved_msg [simp]: "\<not> is_pqueue k \<Longrightarrow> is_pqueue l \<Longrightarrow> is_pqueue m \<Longrightarrow> moved l m d L k = L k"
  by (auto simp: moved_def)


section \<open>Every step keeps it\<close>






















section \<open>The process lists when the message pool overruns\<close>






















lemma relock_heap [simp]: "relock (k\<lparr>heap := h\<rparr>) = relock k"
  by (simp add: relock_def)
















section \<open>Properties\<close>





text \<open>
  What the pool does when it overruns.  When the next slot is still the first of the mailbox,
  with other messages behind it, the slot is linked a second time and the list that starts
  at the head of the mailbox holds this one slot only: all the messages behind it are out of
  reach, while their tokens remain.  Taking the message does not take the slot off the list.
\<close>

lemma send_overruns:
  assumes inv: "msg_inv (kst s) H L" and "MsgList i \<in> H"
    and L: "L (MsgList i) = MsgNode (p_free (kst s)) # b # rest"
  shows "\<exists>k. send_link i (kst s) = Inr k \<and> nxt (heap k) (MsgList i) = Some (MsgNode (p_free (kst s))) \<and>
    nxt (heap k) (MsgNode (p_free (kst s))) = Some (MsgList i) \<and>
    nxt (unlink_node (MsgNode (p_free (kst s))) (heap k)) (MsgList i) = Some (MsgNode (p_free (kst s)))"
proof -
  let ?n = "MsgNode (p_free (kst s))"
  have d: "dl (heap (kst s)) (MsgList i) (?n # b # rest)"
    using repD [OF proc_invD(1) [OF msg_invD(1) [OF inv]] assms(2)] L by simp
  have p: "prv (heap (kst s)) (MsgList i) = Some (last (b # rest))" using dl_prv [OF d] by simp
  have n: "nxt (heap (kst s)) (MsgList i) = Some ?n" using dl_nxt [OF d] by simp
  have "distinct (MsgList i # ?n # b # rest)" using d by (simp add: dl_def)
  then have "last (b # rest) \<noteq> MsgList i" "last (b # rest) \<noteq> ?n" using last_in_set [of "b # rest"] by auto
  then show ?thesis
    unfolding send_link_eq using p n by (auto simp: link_before_def link_node_def unlink_node_def)
qed







end
