(* ===== verification/Bounded.thy ===== *)
theory Bounded
  imports Prelude
begin

text \<open>
  The specification of the producer and consumer threads at the end of
  \<open>process/util.c\<close>, a bounded buffer that exercises the semaphores.  Every thread is a
  program counter and every interleaving of the statements of three producers and four
  consumers is a run.  The semaphores are counters, a thread that finds none is not enabled,
  and the items are numbered by unbounded integers.  The theory \<open>Prodcons\<close> models the code
  itself, on the kernel's own \<open>P\<close> and \<open>V\<close> and with 32-bit integers, and proves that
  every run of it is one of these.
\<close>

section \<open>The specification\<close>

definition NBUF :: int where
  "NBUF = 5"

definition NR_PROD :: nat where
  "NR_PROD = 3"

definition NR_CONS :: nat where
  "NR_CONS = 4"

text \<open>The statement a thread is about to execute.\<close>

datatype ppc = P_empty | P_mutex | Put | Wrap_f | V_mutex | V_full

datatype cpc = C_full | C_mutex | Get | Check | Set_last | Wrap_r | CV_mutex | CV_empty

record bb =
  buffer :: "int list"
  in_f :: int
  out_r :: int
  next_g :: int
  last_v :: int
  n_empty :: int
  n_full :: int
  n_mutex :: int
  prod :: "nat \<Rightarrow> ppc"
  cons :: "nat \<Rightarrow> cpc"
  get_v :: "nat \<Rightarrow> int"

text \<open>One statement of a producer; \<open>None\<close> when it is blocked in \<open>P\<close>.\<close>

definition spec_producer :: "nat \<Rightarrow> bb \<Rightarrow> bb res option" where
  "spec_producer t s =
     (case prod s t of
        P_empty \<Rightarrow> if 0 < n_empty s
          then Some (Inr (s\<lparr>n_empty := n_empty s - 1, prod := (prod s)(t := P_mutex)\<rparr>)) else None
      | P_mutex \<Rightarrow> if 0 < n_mutex s
          then Some (Inr (s\<lparr>n_mutex := n_mutex s - 1, prod := (prod s)(t := Put)\<rparr>)) else None
      | Put \<Rightarrow> Some (if 0 \<le> in_f s \<and> in_f s < int (length (buffer s))
          then Inr (s\<lparr>buffer := (buffer s)[nat (in_f s) := next_g s], in_f := in_f s + 1, next_g := next_g s + 1,
                 prod := (prod s)(t := Wrap_f)\<rparr>)
          else Inl (OutOfBounds ''buf''))
      | Wrap_f \<Rightarrow> Some (Inr (s\<lparr>in_f := cmod (in_f s) NBUF, prod := (prod s)(t := V_mutex)\<rparr>))
      | V_mutex \<Rightarrow> Some (Inr (s\<lparr>n_mutex := n_mutex s + 1, prod := (prod s)(t := V_full)\<rparr>))
      | V_full \<Rightarrow> Some (Inr (s\<lparr>n_full := n_full s + 1, prod := (prod s)(t := P_empty)\<rparr>)))"

text \<open>One statement of a consumer.\<close>

definition spec_consumer :: "nat \<Rightarrow> bb \<Rightarrow> bb res option" where
  "spec_consumer t s =
     (case cons s t of
        C_full \<Rightarrow> if 0 < n_full s
          then Some (Inr (s\<lparr>n_full := n_full s - 1, cons := (cons s)(t := C_mutex)\<rparr>)) else None
      | C_mutex \<Rightarrow> if 0 < n_mutex s
          then Some (Inr (s\<lparr>n_mutex := n_mutex s - 1, cons := (cons s)(t := Get)\<rparr>)) else None
      | Get \<Rightarrow> Some (if 0 \<le> out_r s \<and> out_r s < int (length (buffer s))
          then Inr (s\<lparr>get_v := (get_v s)(t := buffer s ! nat (out_r s)), out_r := out_r s + 1, cons := (cons s)(t := Check)\<rparr>)
          else Inl (OutOfBounds ''buf''))
      | Check \<Rightarrow> Some (bindR (assertR (last_v s = get_v s t - 1) ''last == get - 1'') (\<lambda>_.
          Inr (s\<lparr>cons := (cons s)(t := Set_last)\<rparr>)))
      | Set_last \<Rightarrow> Some (Inr (s\<lparr>last_v := get_v s t, cons := (cons s)(t := Wrap_r)\<rparr>))
      | Wrap_r \<Rightarrow> Some (Inr (s\<lparr>out_r := cmod (out_r s) NBUF, cons := (cons s)(t := CV_mutex)\<rparr>))
      | CV_mutex \<Rightarrow> Some (Inr (s\<lparr>n_mutex := n_mutex s + 1, cons := (cons s)(t := CV_empty)\<rparr>))
      | CV_empty \<Rightarrow> Some (Inr (s\<lparr>n_empty := n_empty s + 1, cons := (cons s)(t := C_full)\<rparr>)))"

text \<open>The buffer is empty and every thread is at the start of its loop.\<close>

definition spec_start :: bb where
  "spec_start = \<lparr>buffer = replicate (nat NBUF) 0, in_f = 0, out_r = 0, next_g = 1, last_v = 0,
     n_empty = NBUF, n_full = 0, n_mutex = 1, prod = (\<lambda>_. P_empty), cons = (\<lambda>_. C_full), get_v = (\<lambda>_. 0)\<rparr>"

inductive bb_reach :: "bb \<Rightarrow> bool" where
  start: "bb_reach spec_start"
| producer: "bb_reach s \<Longrightarrow> t < NR_PROD \<Longrightarrow> spec_producer t s = Some (Inr s') \<Longrightarrow> bb_reach s'"
| consumer: "bb_reach s \<Longrightarrow> t < NR_CONS \<Longrightarrow> spec_consumer t s = Some (Inr s') \<Longrightarrow> bb_reach s'"

section \<open>The invariant\<close>

text \<open>How many of the first \<open>n\<close> threads are at one of some statements.\<close>

definition at :: "nat \<Rightarrow> (nat \<Rightarrow> 'c) \<Rightarrow> 'c set \<Rightarrow> int" where
  "at n pc S = (\<Sum>t<n. if pc t \<in> S then 1 else 0)"

lemma at_upd: "t < n \<Longrightarrow> at n (pc(t := x)) S = at n pc S - (if pc t \<in> S then 1 else 0) + (if x \<in> S then 1 else 0)"
proof -
  assume t: "t < n"
  have "at n f S = (if f t \<in> S then 1 else 0) + (\<Sum>u\<in>{..<n} - {t}. if f u \<in> S then 1 else 0)" for f :: "nat \<Rightarrow> 'a"
    unfolding at_def using t by (intro sum.remove) auto
  moreover have "(\<Sum>u\<in>{..<n} - {t}. if (pc(t := x)) u \<in> S then 1 else 0 :: int) = (\<Sum>u\<in>{..<n} - {t}. if pc u \<in> S then 1 else 0)"
    by (intro sum.cong) auto
  ultimately show ?thesis by simp
qed

lemma at_nonneg: "0 \<le> at n pc S"
  by (simp add: at_def sum_nonneg)

lemma at_member: "t < n \<Longrightarrow> pc t \<in> S \<Longrightarrow> 1 \<le> at n pc S"
  unfolding at_def by (rule order_trans [OF _ member_le_sum [of t]]) auto

lemma at_zero: "at n pc S = 0 \<Longrightarrow> t < n \<Longrightarrow> pc t \<notin> S"
  using at_member by fastforce

lemma at_mono: "S \<subseteq> S' \<Longrightarrow> at n pc S \<le> at n pc S'"
  unfolding at_def by (intro sum_mono) auto

lemma at_two:
  assumes "t < n" and "u < n" and "t \<noteq> u" and "pc t \<in> S" and "pc u \<in> S"
  shows "2 \<le> at n pc S"
proof -
  have "(\<Sum>v\<in>{t, u}. if pc v \<in> S then 1 else 0 :: int) \<le> at n pc S"
    unfolding at_def using assms(1,2) by (intro sum_mono2) auto
  then show ?thesis using assms by simp
qed

abbreviation "pat s S \<equiv> at NR_PROD (prod s) S"
abbreviation "cat s S \<equiv> at NR_CONS (cons s) S"

text \<open>The values taken out of the buffer so far; \<open>next_g s - 1\<close> is the number put in.\<close>

definition taken :: "bb \<Rightarrow> int" where
  "taken s = last_v s + cat s {Check, Set_last}"

definition bb_inv :: "bb \<Rightarrow> bool" where
  "bb_inv s \<longleftrightarrow>
     length (buffer s) = 5 \<and> 0 \<le> n_empty s \<and> 0 \<le> n_full s \<and> 0 \<le> n_mutex s \<and> 0 \<le> taken s \<and>
     n_mutex s + pat s {Put, Wrap_f, V_mutex} + cat s {Get, Check, Set_last, Wrap_r, CV_mutex} = 1 \<and>
     next_g s - 1 - taken s = n_full s + pat s {Wrap_f, V_mutex, V_full} + cat s {C_mutex, Get} \<and>
     5 - (next_g s - 1 - taken s) = n_empty s + pat s {P_mutex, Put} + cat s {Check, Set_last, Wrap_r, CV_mutex, CV_empty} \<and>
     (\<forall>k. taken s < k \<and> k < next_g s \<longrightarrow> buffer s ! nat ((k - 1) mod 5) = k) \<and>
     in_f s = (if pat s {Wrap_f} = 0 then (next_g s - 1) mod 5 else (next_g s - 2) mod 5 + 1) \<and>
     out_r s = (if cat s {Check, Set_last, Wrap_r} = 0 then taken s mod 5 else (taken s - 1) mod 5 + 1) \<and>
     (\<forall>t<NR_CONS. cons s t = Check \<or> cons s t = Set_last \<longrightarrow> get_v s t = last_v s + 1)"

lemma bb_inv_start: "bb_inv spec_start"
  by (simp add: bb_inv_def spec_start_def taken_def at_def NBUF_def eval_nat_numeral)

text \<open>Counts of sets are sums of the counts of their elements.\<close>

lemma at_insert: "x \<notin> S \<Longrightarrow> S \<noteq> {} \<Longrightarrow> at n pc (insert x S) = at n pc {x} + at n pc S"
proof -
  assume x: "x \<notin> S"
  have "(if pc t \<in> insert x S then 1 else 0 :: int) = (if pc t \<in> {x} then 1 else 0) + (if pc t \<in> S then 1 else 0)" for t
    using x by auto
  then show "at n pc (insert x S) = at n pc {x} + at n pc S" unfolding at_def by (simp only: sum.distrib)
qed

lemma at_upd1: "t < n \<Longrightarrow> at n (pc(t := y)) {x} = at n pc {x} - (if pc t = x then 1 else 0) + (if y = x then 1 else 0)"
  by (simp add: at_upd)

text \<open>The invariant over the counts of single statements.\<close>

lemma bb_inv_counts:
  "bb_inv s \<longleftrightarrow>
     length (buffer s) = 5 \<and> 0 \<le> n_empty s \<and> 0 \<le> n_full s \<and> 0 \<le> n_mutex s \<and> 0 \<le> taken s \<and>
     taken s = last_v s + cat s {Check} + cat s {Set_last} \<and>
     n_mutex s + pat s {Put} + pat s {Wrap_f} + pat s {V_mutex} + cat s {Get} + cat s {Check} + cat s {Set_last} +
       cat s {Wrap_r} + cat s {CV_mutex} = 1 \<and>
     next_g s - 1 - taken s = n_full s + pat s {Wrap_f} + pat s {V_mutex} + pat s {V_full} + cat s {C_mutex} + cat s {Get} \<and>
     5 - (next_g s - 1 - taken s) = n_empty s + pat s {P_mutex} + pat s {Put} + cat s {Check} + cat s {Set_last} +
       cat s {Wrap_r} + cat s {CV_mutex} + cat s {CV_empty} \<and>
     (\<forall>k. taken s < k \<and> k < next_g s \<longrightarrow> buffer s ! nat ((k - 1) mod 5) = k) \<and>
     in_f s = (if pat s {Wrap_f} = 0 then (next_g s - 1) mod 5 else (next_g s - 2) mod 5 + 1) \<and>
     out_r s = (if cat s {Check} + cat s {Set_last} + cat s {Wrap_r} = 0 then taken s mod 5 else (taken s - 1) mod 5 + 1) \<and>
     (\<forall>t<NR_CONS. cons s t = Check \<or> cons s t = Set_last \<longrightarrow> get_v s t = last_v s + 1)"
  unfolding bb_inv_def taken_def by (simp add: at_insert add.assoc cong: conj_cong)

lemma taken_upd:
  "taken (s\<lparr>prod := p\<rparr>) = taken s" "taken (s\<lparr>n_empty := i\<rparr>) = taken s" "taken (s\<lparr>n_full := i\<rparr>) = taken s"
  "taken (s\<lparr>n_mutex := i\<rparr>) = taken s" "taken (s\<lparr>buffer := b\<rparr>) = taken s" "taken (s\<lparr>in_f := i\<rparr>) = taken s"
  "taken (s\<lparr>next_g := i\<rparr>) = taken s" "taken (s\<lparr>out_r := i\<rparr>) = taken s" "taken (s\<lparr>get_v := q\<rparr>) = taken s"
  by (simp_all add: taken_def)

lemma mod5_neq: "0 < d \<Longrightarrow> d < 5 \<Longrightarrow> (a + d) mod 5 \<noteq> a mod (5 :: int)"
  by presburger

lemma cmod5: "cmod (x mod 5 + 1) NBUF = (x + 1) mod 5"
  by (simp add: cmod_nonneg NBUF_def mod_add_left_eq)

lemma bb_invD:
  assumes "bb_inv s"
  shows bb_len: "length (buffer s) = 5"
    and bb_counts: "0 \<le> n_empty s" "0 \<le> n_full s" "0 \<le> n_mutex s" "0 \<le> taken s"
      "taken s = last_v s + cat s {Check} + cat s {Set_last}"
      "n_mutex s + pat s {Put} + pat s {Wrap_f} + pat s {V_mutex} + cat s {Get} + cat s {Check} + cat s {Set_last} +
        cat s {Wrap_r} + cat s {CV_mutex} = 1"
      "next_g s - 1 - taken s = n_full s + pat s {Wrap_f} + pat s {V_mutex} + pat s {V_full} + cat s {C_mutex} + cat s {Get}"
      "5 - (next_g s - 1 - taken s) = n_empty s + pat s {P_mutex} + pat s {Put} + cat s {Check} + cat s {Set_last} +
        cat s {Wrap_r} + cat s {CV_mutex} + cat s {CV_empty}"
    and bb_buffer: "\<And>k. taken s < k \<Longrightarrow> k < next_g s \<Longrightarrow> buffer s ! nat ((k - 1) mod 5) = k"
    and bb_in: "in_f s = (if pat s {Wrap_f} = 0 then (next_g s - 1) mod 5 else (next_g s - 2) mod 5 + 1)"
    and bb_out: "out_r s = (if cat s {Check} + cat s {Set_last} + cat s {Wrap_r} = 0 then taken s mod 5 else (taken s - 1) mod 5 + 1)"
    and bb_got: "\<And>t. t < NR_CONS \<Longrightarrow> cons s t = Check \<or> cons s t = Set_last \<Longrightarrow> get_v s t = last_v s + 1"
  using assms unfolding bb_inv_counts by blast+

lemma counts_nonneg:
  "0 \<le> pat s {P_mutex}" "0 \<le> pat s {Put}" "0 \<le> pat s {Wrap_f}" "0 \<le> pat s {V_mutex}" "0 \<le> pat s {V_full}"
  "0 \<le> cat s {C_mutex}" "0 \<le> cat s {Get}" "0 \<le> cat s {Check}" "0 \<le> cat s {Set_last}" "0 \<le> cat s {Wrap_r}"
  "0 \<le> cat s {CV_mutex}" "0 \<le> cat s {CV_empty}"
  by (rule at_nonneg)+

text \<open>Moves of a producer that touch only a semaphore.\<close>

lemma producer_moves:
  assumes inv: "bb_inv s" and t: "t < NR_PROD"
    and "prod s t \<noteq> Wrap_f" and "y \<noteq> Wrap_f" and "0 \<le> e" and "0 \<le> f" and "0 \<le> m"
    and "m - n_mutex s = of_bool (prod s t \<in> {Put, Wrap_f, V_mutex}) - of_bool (y \<in> {Put, Wrap_f, V_mutex})"
    and "f - n_full s = of_bool (prod s t \<in> {Wrap_f, V_mutex, V_full}) - of_bool (y \<in> {Wrap_f, V_mutex, V_full})"
    and "e - n_empty s = of_bool (prod s t \<in> {P_mutex, Put}) - of_bool (y \<in> {P_mutex, Put})"
  shows "bb_inv (s\<lparr>n_empty := e, n_full := f, n_mutex := m, prod := (prod s)(t := y)\<rparr>)"
proof -
  note c = bb_counts [OF inv] and u = at_upd1 [OF t]
  show ?thesis
    unfolding bb_inv_counts
  proof (intro conjI)
    let ?s = "s\<lparr>n_empty := e, n_full := f, n_mutex := m, prod := (prod s)(t := y)\<rparr>"
    show "n_mutex ?s + pat ?s {Put} + pat ?s {Wrap_f} + pat ?s {V_mutex} + cat ?s {Get} + cat ?s {Check} + cat ?s {Set_last} +
        cat ?s {Wrap_r} + cat ?s {CV_mutex} = 1"
      using c(6) assms(8) by (cases "prod s t"; cases y; simp add: u)
    show "next_g ?s - 1 - taken ?s =
        n_full ?s + pat ?s {Wrap_f} + pat ?s {V_mutex} + pat ?s {V_full} + cat ?s {C_mutex} + cat ?s {Get}"
      using c(7) assms(9) by (cases "prod s t"; cases y; simp add: u taken_upd)
    show "5 - (next_g ?s - 1 - taken ?s) = n_empty ?s + pat ?s {P_mutex} + pat ?s {Put} + cat ?s {Check} + cat ?s {Set_last} +
        cat ?s {Wrap_r} + cat ?s {CV_mutex} + cat ?s {CV_empty}"
      using c(8) assms(10) by (cases "prod s t"; cases y; simp add: u taken_upd)
    show "in_f ?s = (if pat ?s {Wrap_f} = 0 then (next_g ?s - 1) mod 5 else (next_g ?s - 2) mod 5 + 1)"
      using bb_in [OF inv] assms(3,4) by (simp add: u)
    show "\<forall>k. taken ?s < k \<and> k < next_g ?s \<longrightarrow> buffer ?s ! nat ((k - 1) mod 5) = k"
      using bb_buffer [OF inv] by (simp add: taken_upd)
    show "\<forall>t<NR_CONS. cons ?s t = Check \<or> cons ?s t = Set_last \<longrightarrow> get_v ?s t = last_v ?s + 1"
      using bb_got [OF inv] by simp
    show "out_r ?s = (if cat ?s {Check} + cat ?s {Set_last} + cat ?s {Wrap_r} = 0 then taken ?s mod 5 else (taken ?s - 1) mod 5 + 1)"
      using bb_out [OF inv] by (simp add: taken_upd)
    show "taken ?s = last_v ?s + cat ?s {Check} + cat ?s {Set_last}" using c(5) by (simp add: taken_upd)
    show "0 \<le> taken ?s" using c(4) by (simp add: taken_upd)
  qed (use bb_len [OF inv] assms(5-7) in simp_all)
qed

lemma consumer_moves:
  assumes inv: "bb_inv s" and t: "t < NR_CONS"
    and q: "cons s t \<notin> {Check, Set_last, Wrap_r}" "y \<notin> {Check, Set_last, Wrap_r}" and "0 \<le> e" and "0 \<le> f" and "0 \<le> m"
    and "m - n_mutex s = of_bool (cons s t \<in> {Get, CV_mutex}) - of_bool (y \<in> {Get, CV_mutex})"
    and "f - n_full s = of_bool (cons s t \<in> {C_mutex, Get}) - of_bool (y \<in> {C_mutex, Get})"
    and "e - n_empty s = of_bool (cons s t \<in> {CV_mutex, CV_empty}) - of_bool (y \<in> {CV_mutex, CV_empty})"
  shows "bb_inv (s\<lparr>n_empty := e, n_full := f, n_mutex := m, cons := (cons s)(t := y)\<rparr>)"
proof -
  note c = bb_counts [OF inv] and u = at_upd1 [OF t]
  show ?thesis
    unfolding bb_inv_counts
  proof (intro conjI)
    let ?s = "s\<lparr>n_empty := e, n_full := f, n_mutex := m, cons := (cons s)(t := y)\<rparr>"
    have tk: "taken ?s = taken s" using q by (simp add: taken_def at_insert u)
    show "n_mutex ?s + pat ?s {Put} + pat ?s {Wrap_f} + pat ?s {V_mutex} + cat ?s {Get} + cat ?s {Check} + cat ?s {Set_last} +
        cat ?s {Wrap_r} + cat ?s {CV_mutex} = 1"
      using c(6) assms(8) q by (cases "cons s t"; cases y; simp add: u)
    have "n_full s + cat s {C_mutex} + cat s {Get} = f + cat ?s {C_mutex} + cat ?s {Get}"
      using assms(9) q by (cases "cons s t"; cases y; simp add: u)
    then show "next_g ?s - 1 - taken ?s =
        n_full ?s + pat ?s {Wrap_f} + pat ?s {V_mutex} + pat ?s {V_full} + cat ?s {C_mutex} + cat ?s {Get}"
      using c(7) unfolding tk by simp
    have "n_empty s + cat s {CV_mutex} + cat s {CV_empty} = e + cat ?s {CV_mutex} + cat ?s {CV_empty}"
      "cat ?s {Check} = cat s {Check}" "cat ?s {Set_last} = cat s {Set_last}" "cat ?s {Wrap_r} = cat s {Wrap_r}"
      using assms(10) q by (cases "cons s t"; cases y; simp add: u)+
    then show "5 - (next_g ?s - 1 - taken ?s) = n_empty ?s + pat ?s {P_mutex} + pat ?s {Put} + cat ?s {Check} + cat ?s {Set_last} +
        cat ?s {Wrap_r} + cat ?s {CV_mutex} + cat ?s {CV_empty}"
      and "out_r ?s = (if cat ?s {Check} + cat ?s {Set_last} + cat ?s {Wrap_r} = 0 then taken ?s mod 5 else (taken ?s - 1) mod 5 + 1)"
      and "taken ?s = last_v ?s + cat ?s {Check} + cat ?s {Set_last}"
      using c(5,8) bb_out [OF inv] unfolding tk by simp_all
    show "in_f ?s = (if pat ?s {Wrap_f} = 0 then (next_g ?s - 1) mod 5 else (next_g ?s - 2) mod 5 + 1)"
      using bb_in [OF inv] by simp
    show "\<forall>k. taken ?s < k \<and> k < next_g ?s \<longrightarrow> buffer ?s ! nat ((k - 1) mod 5) = k"
      using bb_buffer [OF inv] unfolding tk by simp
    show "\<forall>t<NR_CONS. cons ?s t = Check \<or> cons ?s t = Set_last \<longrightarrow> get_v ?s t = last_v ?s + 1"
      using bb_got [OF inv] q by auto
    show "0 \<le> taken ?s" using c(4) unfolding tk .
  qed (use bb_len [OF inv] assms(5-7) in simp_all)
qed

text \<open>The thread in the critical section is alone there.\<close>

lemma alone:
  assumes inv: "bb_inv s"
  shows "t < NR_PROD \<Longrightarrow> prod s t = Put \<Longrightarrow> pat s {Put} = 1 \<and> pat s {Wrap_f} = 0"
    and "t < NR_PROD \<Longrightarrow> prod s t = Wrap_f \<Longrightarrow> pat s {Wrap_f} = 1"
    and "t < NR_CONS \<Longrightarrow> cons s t = Get \<Longrightarrow> cat s {Check} = 0 \<and> cat s {Set_last} = 0 \<and> cat s {Wrap_r} = 0 \<and> cat s {Get} = 1"
    and "t < NR_CONS \<Longrightarrow> cons s t = Check \<Longrightarrow> cat s {Check} = 1 \<and> cat s {Set_last} = 0 \<and> cat s {Wrap_r} = 0"
    and "t < NR_CONS \<Longrightarrow> cons s t = Set_last \<Longrightarrow> cat s {Check} = 0 \<and> cat s {Set_last} = 1 \<and> cat s {Wrap_r} = 0"
    and "t < NR_CONS \<Longrightarrow> cons s t = Wrap_r \<Longrightarrow> cat s {Check} = 0 \<and> cat s {Set_last} = 0 \<and> cat s {Wrap_r} = 1"
proof -
  note c = bb_counts(3,6) [OF inv] counts_nonneg [of s]
  have p: "1 \<le> pat s {x}" if "t < NR_PROD" "prod s t = x" for t x
    using at_member [OF that(1), of "prod s" "{x}"] that(2) by simp
  have k: "1 \<le> cat s {x}" if "t < NR_CONS" "cons s t = x" for t x
    using at_member [OF that(1), of "cons s" "{x}"] that(2) by simp
  show "t < NR_PROD \<Longrightarrow> prod s t = Put \<Longrightarrow> pat s {Put} = 1 \<and> pat s {Wrap_f} = 0"
    "t < NR_PROD \<Longrightarrow> prod s t = Wrap_f \<Longrightarrow> pat s {Wrap_f} = 1"
    using p [of t] c by force+
  show "t < NR_CONS \<Longrightarrow> cons s t = Get \<Longrightarrow> cat s {Check} = 0 \<and> cat s {Set_last} = 0 \<and> cat s {Wrap_r} = 0 \<and> cat s {Get} = 1"
    "t < NR_CONS \<Longrightarrow> cons s t = Check \<Longrightarrow> cat s {Check} = 1 \<and> cat s {Set_last} = 0 \<and> cat s {Wrap_r} = 0"
    "t < NR_CONS \<Longrightarrow> cons s t = Set_last \<Longrightarrow> cat s {Check} = 0 \<and> cat s {Set_last} = 1 \<and> cat s {Wrap_r} = 0"
    "t < NR_CONS \<Longrightarrow> cons s t = Wrap_r \<Longrightarrow> cat s {Check} = 0 \<and> cat s {Set_last} = 0 \<and> cat s {Wrap_r} = 1"
    using k [of t] c by force+
qed

text \<open>The statements of the critical sections.\<close>

lemma put_inv:
  assumes inv: "bb_inv s" and t: "t < NR_PROD" and p: "prod s t = Put"
  shows "0 \<le> in_f s" "in_f s < 5"
    "bb_inv (s\<lparr>buffer := (buffer s)[nat (in_f s) := next_g s], in_f := in_f s + 1, next_g := next_g s + 1,
       prod := (prod s)(t := Wrap_f)\<rparr>)" (is "bb_inv ?s")
proof -
  note c = bb_counts [OF inv] and u = at_upd1 [OF t] and n = counts_nonneg [of s]
  have z: "pat s {Put} = 1" "pat s {Wrap_f} = 0" using alone(1) [OF inv t p] by auto
  have f: "in_f s = (next_g s - 1) mod 5" using bb_in [OF inv] z by simp
  show "0 \<le> in_f s" "in_f s < 5" using f by simp_all
  have room: "next_g s - 1 - taken s < 5" using c(1,8) z n by linarith
  have pt: "pat ?s {Put} = 0" "pat ?s {Wrap_f} = 1" "pat ?s {V_mutex} = pat s {V_mutex}" "pat ?s {V_full} = pat s {V_full}"
    "pat ?s {P_mutex} = pat s {P_mutex}" using z p by (simp_all add: u)
  have buf: "buffer ?s ! nat ((k - 1) mod 5) = k" if "taken s < k" "k < next_g s + 1" for k
  proof (cases "k = next_g s")
    case False
    then have "(k - 1) mod 5 \<noteq> (next_g s - 1) mod 5"
      using mod5_neq [of "next_g s - k" "k - 1"] that room by simp
    then have "nat ((k - 1) mod 5) \<noteq> nat ((next_g s - 1) mod 5)" by (simp add: eq_nat_nat_iff)
    then show ?thesis using bb_buffer [OF inv, of k] that False by (simp add: f)
  qed (use bb_len [OF inv] in \<open>simp add: f nat_less_iff\<close>)
  show "bb_inv ?s" unfolding bb_inv_counts
  proof (intro conjI)
    show "n_mutex ?s + pat ?s {Put} + pat ?s {Wrap_f} + pat ?s {V_mutex} + cat ?s {Get} + cat ?s {Check} + cat ?s {Set_last} +
        cat ?s {Wrap_r} + cat ?s {CV_mutex} = 1" unfolding pt using c(6) z by simp
    show "next_g ?s - 1 - taken ?s =
        n_full ?s + pat ?s {Wrap_f} + pat ?s {V_mutex} + pat ?s {V_full} + cat ?s {C_mutex} + cat ?s {Get}"
      unfolding pt using c(7) z by (simp add: taken_upd)
    show "5 - (next_g ?s - 1 - taken ?s) = n_empty ?s + pat ?s {P_mutex} + pat ?s {Put} + cat ?s {Check} + cat ?s {Set_last} +
        cat ?s {Wrap_r} + cat ?s {CV_mutex} + cat ?s {CV_empty}" unfolding pt using c(8) z by (simp add: taken_upd)
    show "\<forall>k. taken ?s < k \<and> k < next_g ?s \<longrightarrow> buffer ?s ! nat ((k - 1) mod 5) = k"
      using buf by (simp add: taken_upd)
    show "in_f ?s = (if pat ?s {Wrap_f} = 0 then (next_g ?s - 1) mod 5 else (next_g ?s - 2) mod 5 + 1)"
      unfolding pt using f by simp
    show "out_r ?s = (if cat ?s {Check} + cat ?s {Set_last} + cat ?s {Wrap_r} = 0 then taken ?s mod 5 else (taken ?s - 1) mod 5 + 1)"
      using bb_out [OF inv] by (simp add: taken_upd)
  qed (use c bb_len [OF inv] bb_got [OF inv] in \<open>simp_all add: taken_upd\<close>)
qed

lemma wrap_f_inv:
  assumes inv: "bb_inv s" and t: "t < NR_PROD" and p: "prod s t = Wrap_f"
  shows "bb_inv (s\<lparr>in_f := cmod (in_f s) NBUF, prod := (prod s)(t := V_mutex)\<rparr>)" (is "bb_inv ?s")
proof -
  note c = bb_counts [OF inv] and u = at_upd1 [OF t]
  have z: "pat s {Wrap_f} = 1" using alone(2) [OF inv t p] .
  have f: "cmod (in_f s) NBUF = (next_g s - 1) mod 5" using bb_in [OF inv] z cmod5 [of "next_g s - 2"] by simp
  have pt: "pat ?s {Put} = pat s {Put}" "pat ?s {Wrap_f} = 0" "pat ?s {V_mutex} = pat s {V_mutex} + 1"
    "pat ?s {V_full} = pat s {V_full}" "pat ?s {P_mutex} = pat s {P_mutex}" using z p by (simp_all add: u)
  show ?thesis unfolding bb_inv_counts pt
    using c z bb_len [OF inv] bb_buffer [OF inv] bb_got [OF inv] bb_out [OF inv] by (simp add: taken_upd f)
qed

lemma get_inv:
  assumes inv: "bb_inv s" and t: "t < NR_CONS" and p: "cons s t = Get"
  shows "0 \<le> out_r s" "out_r s < 5"
    "bb_inv (s\<lparr>get_v := (get_v s)(t := buffer s ! nat (out_r s)), out_r := out_r s + 1, cons := (cons s)(t := Check)\<rparr>)"
      (is "bb_inv ?s")
proof -
  note c = bb_counts [OF inv] and u = at_upd1 [OF t] and n = counts_nonneg [of s]
  have z: "cat s {Check} = 0" "cat s {Set_last} = 0" "cat s {Wrap_r} = 0" "cat s {Get} = 1" using alone(3) [OF inv t p] by auto
  have r: "out_r s = taken s mod 5" using bb_out [OF inv] z by simp
  show "0 \<le> out_r s" "out_r s < 5" using r by simp_all
  have some: "1 \<le> next_g s - 1 - taken s" using c(2,7) z n by linarith
  have v: "buffer s ! nat (out_r s) = taken s + 1" using bb_buffer [OF inv, of "taken s + 1"] some by (simp add: r)
  have pt: "cat ?s {Check} = 1" "cat ?s {Set_last} = 0" "cat ?s {Wrap_r} = 0" "cat ?s {Get} = 0"
    "cat ?s {CV_mutex} = cat s {CV_mutex}" "cat ?s {CV_empty} = cat s {CV_empty}" "cat ?s {C_mutex} = cat s {C_mutex}"
    using z p by (simp_all add: u)
  have tk: "taken ?s = taken s + 1" using c(5) z by (simp add: taken_def at_insert pt [simplified])
  have none: "cons s k \<noteq> Check \<and> cons s k \<noteq> Set_last" if "k < NR_CONS" for k
    using at_zero [OF z(1) that] at_zero [OF z(2) that] by simp
  show "bb_inv ?s" unfolding bb_inv_counts pt tk
    using c z bb_len [OF inv] bb_buffer [OF inv] bb_in [OF inv] none v by (simp add: r)
qed

lemma check_inv:
  assumes inv: "bb_inv s" and t: "t < NR_CONS" and p: "cons s t = Check"
  shows "last_v s = get_v s t - 1" "bb_inv (s\<lparr>cons := (cons s)(t := Set_last)\<rparr>)" (is "bb_inv ?s")
proof -
  note c = bb_counts [OF inv] and u = at_upd1 [OF t]
  show "last_v s = get_v s t - 1" using bb_got [OF inv t] p by simp
  have z: "cat s {Check} = 1" "cat s {Set_last} = 0" "cat s {Wrap_r} = 0" using alone(4) [OF inv t p] by auto
  have pt: "cat ?s {Check} = 0" "cat ?s {Set_last} = 1" "cat ?s {Wrap_r} = 0" "cat ?s {Get} = cat s {Get}"
    "cat ?s {CV_mutex} = cat s {CV_mutex}" "cat ?s {CV_empty} = cat s {CV_empty}" "cat ?s {C_mutex} = cat s {C_mutex}"
    using z p by (simp_all add: u)
  have tk: "taken ?s = taken s" using c(5) z by (simp add: taken_def at_insert pt [simplified])
  show "bb_inv ?s" unfolding bb_inv_counts pt tk
    using c z bb_len [OF inv] bb_buffer [OF inv] bb_in [OF inv] bb_out [OF inv] bb_got [OF inv] p by auto
qed

lemma set_last_inv:
  assumes inv: "bb_inv s" and t: "t < NR_CONS" and p: "cons s t = Set_last"
  shows "bb_inv (s\<lparr>last_v := get_v s t, cons := (cons s)(t := Wrap_r)\<rparr>)" (is "bb_inv ?s")
proof -
  note c = bb_counts [OF inv] and u = at_upd1 [OF t]
  have z: "cat s {Check} = 0" "cat s {Set_last} = 1" "cat s {Wrap_r} = 0" using alone(5) [OF inv t p] by auto
  have g: "get_v s t = last_v s + 1" using bb_got [OF inv t] p by simp
  have pt: "cat ?s {Check} = 0" "cat ?s {Set_last} = 0" "cat ?s {Wrap_r} = 1" "cat ?s {Get} = cat s {Get}"
    "cat ?s {CV_mutex} = cat s {CV_mutex}" "cat ?s {CV_empty} = cat s {CV_empty}" "cat ?s {C_mutex} = cat s {C_mutex}"
    using z p by (simp_all add: u)
  have tk: "taken ?s = taken s" using c(5) z g by (simp add: taken_def at_insert pt [simplified])
  have none: "cons ?s k \<noteq> Check \<and> cons ?s k \<noteq> Set_last" if "k < NR_CONS" for k
    using at_zero [OF pt(1) that] at_zero [OF pt(2) that] by simp
  show ?thesis unfolding bb_inv_counts pt tk
    using c z g bb_len [OF inv] bb_buffer [OF inv] bb_in [OF inv] bb_out [OF inv] none by auto
qed

lemma wrap_r_inv:
  assumes inv: "bb_inv s" and t: "t < NR_CONS" and p: "cons s t = Wrap_r"
  shows "bb_inv (s\<lparr>out_r := cmod (out_r s) NBUF, cons := (cons s)(t := CV_mutex)\<rparr>)" (is "bb_inv ?s")
proof -
  note c = bb_counts [OF inv] and u = at_upd1 [OF t]
  have z: "cat s {Check} = 0" "cat s {Set_last} = 0" "cat s {Wrap_r} = 1" using alone(6) [OF inv t p] by auto
  have r: "cmod (out_r s) NBUF = taken s mod 5" using bb_out [OF inv] z cmod5 [of "taken s - 1"] by simp
  have pt: "cat ?s {Check} = 0" "cat ?s {Set_last} = 0" "cat ?s {Wrap_r} = 0" "cat ?s {Get} = cat s {Get}"
    "cat ?s {CV_mutex} = cat s {CV_mutex} + 1" "cat ?s {CV_empty} = cat s {CV_empty}" "cat ?s {C_mutex} = cat s {C_mutex}"
    using z p by (simp_all add: u)
  have tk: "taken ?s = taken s" using c(5) z by (simp add: taken_def at_insert pt [simplified])
  show ?thesis unfolding bb_inv_counts pt tk
    using c z r bb_len [OF inv] bb_buffer [OF inv] bb_in [OF inv] bb_got [OF inv] by auto
qed

lemma producer_step:
  assumes inv: "bb_inv s" and t: "t < NR_PROD" and st: "spec_producer t s = Some r"
  shows "\<exists>s'. r = Inr s' \<and> bb_inv s'"
proof (cases "prod s t")
  case P_empty
  then show ?thesis using st bb_counts [OF inv] producer_moves [OF inv t, of P_mutex "n_empty s - 1" "n_full s" "n_mutex s"]
    by (auto simp: spec_producer_def split: if_splits)
next
  case P_mutex
  then show ?thesis using st bb_counts [OF inv] producer_moves [OF inv t, of Put "n_empty s" "n_full s" "n_mutex s - 1"]
    by (auto simp: spec_producer_def split: if_splits)
next
  case Put
  then show ?thesis using st put_inv [OF inv t Put] bb_len [OF inv] by (auto simp: spec_producer_def)
next
  case Wrap_f
  then show ?thesis using st wrap_f_inv [OF inv t Wrap_f] by (auto simp: spec_producer_def)
next
  case V_mutex
  then show ?thesis using st bb_counts [OF inv] producer_moves [OF inv t, of V_full "n_empty s" "n_full s" "n_mutex s + 1"]
    by (auto simp: spec_producer_def)
next
  case V_full
  then show ?thesis using st bb_counts [OF inv] producer_moves [OF inv t, of P_empty "n_empty s" "n_full s + 1" "n_mutex s"]
    by (auto simp: spec_producer_def)
qed

lemma consumer_step:
  assumes inv: "bb_inv s" and t: "t < NR_CONS" and st: "spec_consumer t s = Some r"
  shows "\<exists>s'. r = Inr s' \<and> bb_inv s'"
proof (cases "cons s t")
  case C_full
  then show ?thesis using st bb_counts [OF inv] consumer_moves [OF inv t, of C_mutex "n_empty s" "n_full s - 1" "n_mutex s"]
    by (auto simp: spec_consumer_def split: if_splits)
next
  case C_mutex
  then show ?thesis using st bb_counts [OF inv] consumer_moves [OF inv t, of Get "n_empty s" "n_full s" "n_mutex s - 1"]
    by (auto simp: spec_consumer_def split: if_splits)
next
  case Get
  then show ?thesis using st get_inv [OF inv t Get] bb_len [OF inv] by (auto simp: spec_consumer_def)
next
  case Check
  then show ?thesis using st check_inv [OF inv t Check] by (auto simp: spec_consumer_def)
next
  case Set_last
  then show ?thesis using st set_last_inv [OF inv t Set_last] by (auto simp: spec_consumer_def)
next
  case Wrap_r
  then show ?thesis using st wrap_r_inv [OF inv t Wrap_r] by (auto simp: spec_consumer_def)
next
  case CV_mutex
  then show ?thesis using st bb_counts [OF inv] consumer_moves [OF inv t, of CV_empty "n_empty s" "n_full s" "n_mutex s + 1"]
    by (auto simp: spec_consumer_def)
next
  case CV_empty
  then show ?thesis using st bb_counts [OF inv] consumer_moves [OF inv t, of C_full "n_empty s + 1" "n_full s" "n_mutex s"]
    by (auto simp: spec_consumer_def)
qed

lemma bb_reach_inv: "bb_reach s \<Longrightarrow> bb_inv s"
proof (induction rule: bb_reach.induct)
  case start
  show ?case by (rule bb_inv_start)
next
  case (producer s t s')
  then show ?case using producer_step by blast
next
  case (consumer s t s')
  then show ?case using consumer_step by blast
qed

section \<open>The specification does not deadlock\<close>

lemma spec_progress:
  assumes "bb_reach s"
  shows "(\<exists>t<NR_PROD. spec_producer t s \<noteq> None) \<or> (\<exists>t<NR_CONS. spec_consumer t s \<noteq> None)"
proof (rule ccontr)
  assume "\<not> ?thesis"
  then have np: "spec_producer t s = None" if "t < NR_PROD" for t using that by blast
  from \<open>\<not> ?thesis\<close> have nc: "spec_consumer t s = None" if "t < NR_CONS" for t using that by blast
  have inv: "bb_inv s" using bb_reach_inv [OF assms] .
  note c = bb_counts [OF inv]
  have p: "prod s t = P_empty \<and> n_empty s \<le> 0 \<or> prod s t = P_mutex \<and> n_mutex s \<le> 0" if "t < NR_PROD" for t
    using np [OF that] by (cases "prod s t") (auto simp: spec_producer_def split: if_splits)
  have k: "cons s t = C_full \<and> n_full s \<le> 0 \<or> cons s t = C_mutex \<and> n_mutex s \<le> 0" if "t < NR_CONS" for t
    using nc [OF that] by (cases "cons s t") (auto simp: spec_consumer_def split: if_splits)
  have zp: "pat s {x} = 0" if "x \<noteq> P_empty" "x \<noteq> P_mutex" for x
    unfolding at_def using p that by (intro sum.neutral) force
  have zc: "cat s {x} = 0" if "x \<noteq> C_full" "x \<noteq> C_mutex" for x
    unfolding at_def using k that by (intro sum.neutral) force
  have m: "n_mutex s = 1" using c(6) by (simp add: zp zc)
  have "prod s t = P_empty" if "t < NR_PROD" for t using p [OF that] m by auto
  then have p1: "pat s {P_mutex} = 0" unfolding at_def by (intro sum.neutral) simp
  have "cons s t = C_full" if "t < NR_CONS" for t using k [OF that] m by auto
  then have c1: "cat s {C_mutex} = 0" unfolding at_def by (intro sum.neutral) simp
  have "n_empty s + n_full s = 5" using c(7,8) p1 c1 by (simp add: zp zc)
  moreover have "n_empty s \<le> 0" using p [of 0] m by (simp add: NR_PROD_def)
  moreover have "n_full s \<le> 0" using k [of 0] m by (simp add: NR_CONS_def)
  ultimately show False by simp
qed

lemma spec_room:
  assumes "bb_reach s"
  shows "0 \<le> next_g s - 1 - last_v s" and "next_g s - 1 - last_v s \<le> NBUF"
  using bb_counts [OF bb_reach_inv [OF assms]] counts_nonneg [of s] unfolding NBUF_def by linarith+

end
