(* ===== verification/Irq.thy ===== *)
theory Irq
  imports Message
begin

text \<open>
  Interrupts: the trap frame of \<open>x86/memory.h\<close>, the entry and exit path of
  \<open>irq/do_irq.S\<close>, and the dispatcher and handler lists of \<open>irq/irq_handle.c\<close>.
\<close>

section \<open>Trap frames\<close>

record TrapFrame =
  edi :: u32
  esi :: u32
  ebp :: u32
  xxx :: u32
  ebx :: u32
  edx :: u32
  ecx :: u32
  eax :: u32
  gs :: u32
  fs :: u32
  es :: u32
  ds :: u32
  irq :: u32
  error_code :: u32
  eip :: u32
  cs :: u32
  eflags :: u32

definition write_frame :: "u32 \<Rightarrow> TrapFrame \<Rightarrow> (u32 \<Rightarrow> u32) \<Rightarrow> (u32 \<Rightarrow> u32)" where
  "write_frame a f m =
     m(a := edi f, a + 4 := esi f, a + 8 := ebp f, a + 12 := xxx f,
       a + 16 := ebx f, a + 20 := edx f, a + 24 := ecx f, a + 28 := eax f,
       a + 32 := gs f, a + 36 := fs f, a + 40 := es f, a + 44 := ds f,
       a + 48 := irq f, a + 52 := error_code f,
       a + 56 := eip f, a + 60 := cs f, a + 64 := eflags f)"

definition read_frame :: "(u32 \<Rightarrow> u32) \<Rightarrow> u32 \<Rightarrow> TrapFrame" where
  "read_frame m a =
     \<lparr>edi = m a, esi = m (a + 4), ebp = m (a + 8), xxx = m (a + 12),
      ebx = m (a + 16), edx = m (a + 20), ecx = m (a + 24), eax = m (a + 28),
      gs = m (a + 32), fs = m (a + 36), es = m (a + 40), ds = m (a + 44),
      irq = m (a + 48), error_code = m (a + 52),
      eip = m (a + 56), cs = m (a + 60), eflags = m (a + 64)\<rparr>"

lemma read_write_frame: "read_frame (write_frame a f m) a = f"
  by (simp add: read_frame_def write_frame_def)

section \<open>irq_handle.c\<close>

text \<open>
  The routines the drivers attach to interrupts; what each does is a parameter of the
  dispatcher, given by the drivers.
\<close>

datatype routine = Update_jiffy | Send_keymsg | Send_updatemsg | Ide_intr | Time_intr

record IRQ_t =
  routine_of :: routine
  hnext :: "nat option"

definition NR_IRQ_HANDLE :: nat where
  "NR_IRQ_HANDLE = 32"

definition NR_HARD_INTR :: int where
  "NR_HARD_INTR = 16"

record kirq = kmsg +
  handle_pool :: "nat \<Rightarrow> IRQ_t"
  handles :: "nat \<Rightarrow> nat option"
  handle_count :: nat

definition add_irq_handle :: "int \<Rightarrow> routine \<Rightarrow> 'a kirq_scheme \<Rightarrow> 'a kirq_scheme res" where
  "add_irq_handle n func s =
     bindR (assertR (n < NR_HARD_INTR) ''irq < NR_HARD_INTR'') (\<lambda>_.
     if handle_count s > NR_IRQ_HANDLE then Inl (Panic ''Too many irq registrations!'')
     else
       let ptr = handle_count s;
           s = s\<lparr>handle_count := handle_count s + 1\<rparr> in
       if \<not> ptr < NR_IRQ_HANDLE then Inl (OutOfBounds ''handle_pool'')
       else if n < 0 then Inl (OutOfBounds ''handles'')
       else
         Inr (s\<lparr>handle_pool := (handle_pool s)(ptr := \<lparr>routine_of = func, hnext = handles s (nat n)\<rparr>),
                handles := (handles s)(nat n := Some ptr)\<rparr>))"

text \<open>The loop over the handlers of one interrupt.  The pool bounds the number of its steps.\<close>

fun run_handles ::
    "nat \<Rightarrow> (routine \<Rightarrow> 'a kirq_scheme \<Rightarrow> 'a kirq_scheme res) \<Rightarrow> nat option \<Rightarrow>
     'a kirq_scheme \<Rightarrow> 'a kirq_scheme res" where
  "run_handles 0 call f s = Inl (NoReturn ''irq_handle'')"
| "run_handles (Suc n) call f s =
     (case f of
        None \<Rightarrow> Inr s
      | Some k \<Rightarrow>
          bindR (call (routine_of (handle_pool s k)) s) (\<lambda>s.
          run_handles n call (hnext (handle_pool s k)) s))"

text \<open>The part of \<open>irq_handle\<close> after the label \<open>PROC\<close>.\<close>

definition switch_process :: "u32 \<Rightarrow> 'a kcore_scheme \<Rightarrow> 'a kcore_scheme res" where
  "switch_process frame s =
     bindR (pcb_index (Some (current s))) (\<lambda>i.
     let s = upd_pcb i (\<lambda>q. q\<lparr>tf := frame\<rparr>) s;
         s = upd_pcb i (\<lambda>q. q\<lparr>locked := lock_count s\<rparr>) s in
     bindR (schedule s) (\<lambda>s.
     bindR (pcb_index (Some (current s))) (\<lambda>j.
     let s = s\<lparr>lock_count := locked (pcb_pool s j)\<rparr>;
         s = s\<lparr>lock_flag := lock_flag s AND 0xfffffffe\<rparr> in
     Inr s)))"

definition irq_handle ::
    "(routine \<Rightarrow> 'a kirq_scheme \<Rightarrow> 'a kirq_scheme res) \<Rightarrow> u32 \<Rightarrow> 'a kirq_scheme \<Rightarrow> 'a kirq_scheme res" where
  "irq_handle call frame s =
     (let n = sint (irq (read_frame (stackmem s) frame));
          s = s\<lparr>lock_flag := lock_flag s OR 1\<rparr> in
      if n < 0 then Inl (Panic ''Unhandled exception!'')
      else if n = 0x80 then switch_process frame s
      else if n < 1000 then Inl (Panic ''Unexpected exception'')
      else
        let irq_id = n - 1000 in
        bindR (assertR (irq_id < NR_HARD_INTR) ''irq_id < NR_HARD_INTR'') (\<lambda>_.
        bindR (run_handles (NR_IRQ_HANDLE + 1) call (handles s (nat irq_id)) s) (\<lambda>s.
        switch_process frame s)))"

section \<open>do_irq.S\<close>

text \<open>
  The processor and the stubs push the frame \<open>f\<close> at the address \<open>frame\<close> with
  interrupts off; on the way out the frame that \<open>current->tf\<close> points to is popped, and
  \<open>iret\<close> restores the interrupt flag, bit 9 of EFLAGS.
\<close>

definition asm_do_irq ::
    "(routine \<Rightarrow> 'a kirq_scheme \<Rightarrow> 'a kirq_scheme res) \<Rightarrow> u32 \<Rightarrow> TrapFrame \<Rightarrow> 'a kirq_scheme \<Rightarrow>
     (TrapFrame \<times> 'a kirq_scheme) res" where
  "asm_do_irq call frame f s =
     (let s = cli s;
          s = s\<lparr>stackmem := write_frame frame f (stackmem s)\<rparr> in
      bindR (irq_handle call frame s) (\<lambda>s.
      bindR (pcb_index (Some (current s))) (\<lambda>i.
      let g = read_frame (stackmem s) (tf (pcb_pool s i)) in
      Inr (g, s\<lparr>intr := bit (eflags g) 9\<rparr>))))"

section \<open>Handler lists\<close>

text \<open>The routines attached to an interrupt, in the order the dispatcher calls them.\<close>

fun handler_chain :: "nat \<Rightarrow> (nat \<Rightarrow> IRQ_t) \<Rightarrow> nat option \<Rightarrow> routine list option" where
  "handler_chain 0 pool f = None"
| "handler_chain (Suc n) pool f =
     (case f of
        None \<Rightarrow> Some []
      | Some k \<Rightarrow> map_option (\<lambda>rs. routine_of (pool k) # rs) (handler_chain n pool (hnext (pool k))))"

text \<open>A node of the pool is linked only to older nodes.\<close>

definition irq_inv :: "'a kirq_scheme \<Rightarrow> bool" where
  "irq_inv s \<longleftrightarrow>
     handle_count s \<le> NR_IRQ_HANDLE \<and>
     (\<forall>n k. handles s n = Some k \<longrightarrow> k < handle_count s) \<and>
     (\<forall>j k. j < handle_count s \<longrightarrow> hnext (handle_pool s j) = Some k \<longrightarrow> k < j)"

definition attached :: "'a kirq_scheme \<Rightarrow> nat \<Rightarrow> routine list" where
  "attached s n = the (handler_chain (NR_IRQ_HANDLE + 1) (handle_pool s) (handles s n))"

lemma handler_chain_enough:
  assumes "\<forall>j k. j < c \<longrightarrow> hnext (pool j) = Some k \<longrightarrow> k < j"
    and "\<forall>k. f = Some k \<longrightarrow> k < c \<and> k < n"
  shows "\<exists>rs. handler_chain (Suc n) pool f = Some rs"
  using assms(2)
proof (induction n arbitrary: f)
  case 0
  then show ?case by (cases f) auto
next
  case (Suc n)
  show ?case
  proof (cases f)
    case (Some k)
    have "\<forall>j. hnext (pool k) = Some j \<longrightarrow> j < c \<and> j < n"
      using Suc.prems assms(1) Some by fastforce
    from Suc.IH [OF this] Some show ?thesis by auto
  qed simp
qed

lemma handler_chain_mono:
  "handler_chain n pool f = Some rs \<Longrightarrow> handler_chain (Suc n) pool f = Some rs"
proof (induction n arbitrary: f rs)
  case (Suc n)
  then show ?case by (cases f) (auto simp del: handler_chain.simps(2) simp: handler_chain.simps(2) [of n]
    handler_chain.simps(2) [of "Suc n"])
qed simp

lemma handler_chain_mono_le:
  "m \<le> n \<Longrightarrow> handler_chain m pool f = Some rs \<Longrightarrow> handler_chain n pool f = Some rs"
  by (induction rule: dec_induct) (auto intro: handler_chain_mono simp del: handler_chain.simps(2))

lemma handler_chain_frame:
  assumes "\<forall>j k. j < c \<longrightarrow> hnext (pool j) = Some k \<longrightarrow> k < j" and "\<forall>k. f = Some k \<longrightarrow> k < c"
  shows "handler_chain n (pool(c := q)) f = handler_chain n pool f"
  using assms(2)
proof (induction n arbitrary: f)
  case (Suc n)
  show ?case
  proof (cases f)
    case (Some k)
    have "\<forall>j. hnext (pool k) = Some j \<longrightarrow> j < c" using Suc.prems assms(1) Some by fastforce
    with Suc.IH Suc.prems Some show ?thesis by auto
  qed simp
qed simp

lemma chain_of:
  assumes "irq_inv s"
  shows "handler_chain (NR_IRQ_HANDLE + 1) (handle_pool s) (handles s n) = Some (attached s n)"
proof -
  have "\<exists>rs. handler_chain (Suc NR_IRQ_HANDLE) (handle_pool s) (handles s n) = Some rs"
    by (rule handler_chain_enough [of "handle_count s"]) (use assms in \<open>auto simp: irq_inv_def dest: less_le_trans\<close>)
  then show ?thesis by (auto simp: attached_def)
qed

lemma add_irq_handle_ok:
  assumes "irq_inv s" and "handle_count s < NR_IRQ_HANDLE" and "0 \<le> n" and "n < NR_HARD_INTR"
  obtains s' where "add_irq_handle n func s = Inr s'" and "irq_inv s'"
    and "\<And>m. attached s' m = (if m = nat n then func # attached s m else attached s m)"
    and "handle_count s' = handle_count s + 1"
proof -
  let ?c = "handle_count s"
  define s' where "s' = s\<lparr>handle_count := ?c + 1,
    handle_pool := (handle_pool s)(?c := \<lparr>routine_of = func, hnext = handles s (nat n)\<rparr>),
    handles := (handles s)(nat n := Some ?c)\<rparr>"
  have eq: "add_irq_handle n func s = Inr s'"
    using assms by (simp add: add_irq_handle_def s'_def Let_def)
  have inv: "irq_inv s'"
    using assms unfolding irq_inv_def s'_def by (auto simp: less_Suc_eq)
  have old: "\<forall>j k. j < ?c \<longrightarrow> hnext (handle_pool s j) = Some k \<longrightarrow> k < j"
    and hs: "\<forall>k. handles s m = Some k \<longrightarrow> k < ?c" for m
    using assms(1) by (auto simp: irq_inv_def)
  have fr: "handler_chain k (handle_pool s') (handles s m) = handler_chain k (handle_pool s) (handles s m)" for k m
    unfolding s'_def using handler_chain_frame [OF old hs] by simp
  have "attached s' m = (if m = nat n then func # attached s m else attached s m)" for m
  proof (cases "m = nat n")
    case True
    have "\<exists>rs. handler_chain (Suc ?c) (handle_pool s) (handles s m) = Some rs"
      by (rule handler_chain_enough [OF old]) (use hs in auto)
    then obtain rs where rs: "handler_chain (Suc ?c) (handle_pool s) (handles s m) = Some rs" by blast
    with handler_chain_mono_le [OF _ rs, of "NR_IRQ_HANDLE + 1"] handler_chain_mono_le [OF _ rs, of NR_IRQ_HANDLE]
    have "handler_chain NR_IRQ_HANDLE (handle_pool s) (handles s m) = Some (attached s m)"
      using assms(2) chain_of [OF assms(1)] by simp
    then show ?thesis using True chain_of [OF inv, of m] fr [of NR_IRQ_HANDLE m] by (simp add: s'_def)
  next
    case False
    then show ?thesis using fr [of "NR_IRQ_HANDLE + 1" m] by (simp add: attached_def s'_def)
  qed
  with eq inv show thesis by (intro that [of s']) (auto simp: s'_def)
qed

lemma run_handles_forR:
  assumes keeps: "\<And>r s s'. call r s = Inr s' \<Longrightarrow> handle_pool s' = handle_pool s"
    and "handler_chain n (handle_pool s) f = Some rs"
  shows "run_handles n call f s = forR call rs s"
  using assms(2)
proof (induction n arbitrary: f rs s)
  case (Suc n)
  show ?case
  proof (cases f)
    case None
    with Suc.prems show ?thesis by simp
  next
    case (Some k)
    then obtain rs' where rs: "rs = routine_of (handle_pool s k) # rs'"
      "handler_chain n (handle_pool s) (hnext (handle_pool s k)) = Some rs'"
      using Suc.prems by auto
    show ?thesis
    proof (cases "call (routine_of (handle_pool s k)) s")
      case (Inr s1)
      with Suc.IH [of s1 "hnext (handle_pool s1 k)" rs'] rs Some keeps [OF Inr] show ?thesis by simp
    qed (simp add: Some rs)
  qed
qed simp

section \<open>Context switch\<close>

lemma switch_process_ok:
  fixes frame :: u32
  assumes inv: "proc_inv s H L" and c: "current s = PcbList i"
  defines "n \<equiv> sched_choice (L Ready) (current s)"
  defines "p \<equiv> (pcb_pool s)(i := (pcb_pool s i)\<lparr>tf := frame, locked := lock_count s\<rparr>)"
  shows "switch_process frame s = Inr (s\<lparr>pcb_pool := p, current := n,
    cr3_reg := cr3 (pcb_pool s (pcb_no n)), lock_count := locked (p (pcb_no n)),
    lock_flag := lock_flag s AND 0xfffffffe\<rparr>)"
proof -
  have i: "i < PCB_POOL_SIZE" using proc_invD(5) [OF inv] c by (auto simp: current_inv_def)
  let ?s = "s\<lparr>pcb_pool := p\<rparr>"
  have "stat_inv p H L" using proc_invD(3) [OF inv] by (auto simp: stat_inv_def p_def)
  then have inv': "proc_inv ?s H L" using inv by (simp add: proc_inv_def)
  have sched: "schedule ?s = Inr (?s\<lparr>current := n, cr3_reg := cr3 (p (pcb_no n))\<rparr>)"
    using schedule_chooses [OF inv'] by (simp add: n_def)
  obtain j where j: "n = PcbList j" "j < PCB_POOL_SIZE"
    using proc_invD(5) [OF schedule_inv [OF inv]] by (auto simp: n_def current_inv_def)
  have "cr3 (p k) = cr3 (pcb_pool s k)" for k by (simp add: p_def)
  with i c sched j show ?thesis
    by (simp add: switch_process_def Let_def upd_pcb_fuse) (simp add: upd_pcb_def p_def)
qed

text \<open>
  A thread that traps with \<open>int $0x80\<close>: its frame and its lock count are saved in its
  PCB, and the frame popped is the one of the thread the scheduler chose.
\<close>

lemma int80_switches:
  fixes frame :: u32
  assumes inv: "proc_inv s H L" and c: "current s = PcbList i" and f: "irq f = 0x80"
  defines "n \<equiv> sched_choice (L Ready) (current s)"
  defines "p \<equiv> (pcb_pool s)(i := (pcb_pool s i)\<lparr>tf := frame, locked := lock_count s\<rparr>)"
  defines "m \<equiv> write_frame frame f (stackmem s)"
  defines "g \<equiv> read_frame m (tf (p (pcb_no n)))"
  shows "asm_do_irq call frame f s = Inr (g, s\<lparr>stackmem := m, pcb_pool := p, current := n,
    cr3_reg := cr3 (pcb_pool s (pcb_no n)), lock_count := locked (p (pcb_no n)),
    lock_flag := (lock_flag s OR 1) AND 0xfffffffe, intr := bit (eflags g) 9\<rparr>)"
proof -
  let ?s = "s\<lparr>intr := False, stackmem := m, lock_flag := lock_flag s OR 1\<rparr>"
  have "proc_inv ?s H L" using inv by (simp add: proc_inv_def)
  note sw = switch_process_ok [OF this, of i frame]
  have n: "\<exists>j. n = PcbList j \<and> j < PCB_POOL_SIZE"
    using proc_invD(5) [OF schedule_inv [OF inv]] by (auto simp: n_def current_inv_def)
  have i: "irq (read_frame m frame) = 0x80" by (simp add: m_def read_write_frame f)
  have "irq_handle call frame (s\<lparr>intr := False, stackmem := m\<rparr>) =
    Inr (s\<lparr>intr := False, stackmem := m, lock_flag := (lock_flag s OR 1) AND 0xfffffffe, pcb_pool := p,
      current := n, cr3_reg := cr3 (pcb_pool s (pcb_no n)), lock_count := locked (p (pcb_no n))\<rparr>)"
    using sw c i by (simp add: irq_handle_def Let_def p_def n_def)
  with n show ?thesis by (auto simp: asm_do_irq_def cli_def Let_def m_def g_def)
qed

section \<open>The first run of a thread\<close>

lemma word4_inj:
  assumes "j < 1073741824" and "k < 1073741824"
  shows "(4 * word_of_nat j :: u32) = 4 * word_of_nat k \<longleftrightarrow> j = k"
proof -
  have "(4 * word_of_nat j :: u32) = word_of_nat (4 * j)" "(4 * word_of_nat k :: u32) = word_of_nat (4 * k)"
    by simp_all
  then show ?thesis using word_of_nat_u32_inj [of "4 * j" "4 * k"] assms by simp
qed

lemma copy_args_fst: "fst (copy_args n frame p args m) = frame - 4 * word_of_nat n"
  by (induction n arbitrary: frame p m) (simp_all add: algebra_simps)

lemma copy_args_other:
  "(\<And>j. j < n \<Longrightarrow> a \<noteq> frame - 4 * word_of_nat j) \<Longrightarrow> snd (copy_args n frame p args m) a = m a"
proof (induction n arbitrary: frame p m)
  case (Suc n)
  have "a \<noteq> frame - 4 - 4 * word_of_nat j" if "j < n" for j
    using Suc.prems [of "Suc j"] that by (simp add: algebra_simps)
  from Suc.IH [OF this] Suc.prems [of 0] show ?case by simp
qed simp

lemma copy_args_get:
  "k < n \<Longrightarrow> n < 1073741824 \<Longrightarrow>
     snd (copy_args n frame p args m) (frame - 4 * word_of_nat k) = args (p - k)"
proof (induction n arbitrary: frame p m k)
  case (Suc n)
  show ?case
  proof (cases k)
    case 0
    have "frame \<noteq> frame - 4 - 4 * word_of_nat j" if "j < n" for j
      using word4_inj [of 0 "Suc j"] that Suc.prems(2) by (simp add: algebra_simps)
    then have "snd (copy_args n (frame - 4) (p - 1) args (m(frame := args p))) frame = args p"
      by (subst copy_args_other) auto
    with 0 show ?thesis by simp
  next
    case (Suc j)
    with Suc.IH [of j "frame - 4" "p - 1"] Suc.prems show ?thesis by (simp add: algebra_simps)
  qed
qed simp
lemma new_stack_fst: "fst (new_stack i func args s) = pcb_addr s i + 4032"
  using copy_args_fst [of 16 "pcb_addr s i + 4096" 16 args "stackmem s"]
  by (auto simp: new_stack_def MAX_NUM_OF_ARGUMENTS_def KSTACK_SIZE_def add.commute split: prod.splits)

lemma new_stack_args:
  assumes "1 \<le> k" and "k \<le> 16"
  shows "snd (new_stack i func args s) (pcb_addr s i + 4032 + 4 * word_of_nat k) = args k"
proof -
  let ?f = "pcb_addr s i + 4096"
  have e: "word_of_nat k = (16 :: u32) - word_of_nat (16 - k)" using assms by (simp add: of_nat_diff)
  have a: "pcb_addr s i + 4032 + 4 * word_of_nat k = ?f - 4 * word_of_nat (16 - k)"
    by (subst e) (simp add: algebra_simps)
  obtain fr m where c: "copy_args 16 ?f 16 args (stackmem s) = (fr, m)" by fastforce
  have fr: "fr = pcb_addr s i + 4032" using copy_args_fst [of 16 ?f 16 args "stackmem s"] c by simp
  have "m (pcb_addr s i + 4032 + 4 * word_of_nat k) = args k"
    unfolding a using copy_args_get [of "16 - k" 16 ?f 16 args "stackmem s"] assms c by simp
  moreover have "pcb_addr s i + 4032 + 4 * word_of_nat k \<noteq> fr - d" if d: "d \<in> {4, 8, 12, 24, 28, 32, 36}" for d
  proof -
    have "unat (4 * word_of_nat k + d) = 4 * k + unat d" 
      using assms d by (auto simp: unat_word_ariths)
    then have "4 * word_of_nat k + d \<noteq> 0" using assms by auto
    then show ?thesis by (auto simp: fr algebra_simps)
  qed
  ultimately show ?thesis
    using c by (simp add: new_stack_def build_frame_def MAX_NUM_OF_ARGUMENTS_def KSTACK_SIZE_def)
qed

lemma new_stack_frame:
  assumes "g = read_frame (snd (new_stack i func args s)) (pcb_addr s i + 4032 - 68)"
  shows "eip g = func" and "cs g = r_cs (segs s)" and "eflags g = 0x202" and "ds g = r_ds (segs s)"
    and "es g = r_es (segs s)" and "fs g = r_fs (segs s)" and "gs g = r_gs (segs s)"
proof -
  obtain fr m where c: "copy_args 16 (pcb_addr s i + 4096) 16 args (stackmem s) = (fr, m)" by fastforce
  have fr: "fr = pcb_addr s i + 4032" using copy_args_fst [of 16 "pcb_addr s i + 4096" 16 args "stackmem s"] c by simp
  show "eip g = func" and "cs g = r_cs (segs s)" and "eflags g = 0x202" and "ds g = r_ds (segs s)"
    and "es g = r_es (segs s)" and "fs g = r_fs (segs s)" and "gs g = r_gs (segs s)"
    unfolding assms
    using c by (simp_all add: new_stack_def build_frame_def read_frame_def MAX_NUM_OF_ARGUMENTS_def KSTACK_SIZE_def fr)
qed

section \<open>Properties\<close>

definition bss_kirq :: kirq where
  "bss_kirq = kmsg.extend bss_kmsg
     \<lparr>handle_pool = (\<lambda>_. \<lparr>routine_of = Update_jiffy, hnext = None\<rparr>), handles = (\<lambda>_. None), handle_count = 0\<rparr>"

lemma bss_kirq_start [simp]:
  "current bss_kirq = idle" "lock_count bss_kirq = 0" "p_free bss_kirq = 0" "lock_flag bss_kirq = 0"
  "handle_count bss_kirq = 0" "handles bss_kirq = (\<lambda>_. None)"
  by (simp_all add: bss_kirq_def kmsg.defs bss_kmsg_def kcore.defs bss_kcore_def)

lemma bss_kirq_inv: "irq_inv bss_kirq"
  by (simp add: irq_inv_def)

text \<open>
  \<open>add_irq_handle\<close> attaches a routine in front of the ones already attached to the
  interrupt, leaves the other interrupts alone and keeps the pool well formed, as long as the
  pool has room and the interrupt number is a valid one.
\<close>

theorem add_irq_handle_attaches:
  assumes "irq_inv s" and "handle_count s < NR_IRQ_HANDLE" and "0 \<le> n" and "n < NR_HARD_INTR"
  shows "\<exists>s'. add_irq_handle n func s = Inr s' \<and> irq_inv s' \<and>
    attached s' (nat n) = func # attached s (nat n) \<and>
    (\<forall>m. m \<noteq> nat n \<longrightarrow> attached s' m = attached s m)"
  by (rule add_irq_handle_ok [OF assms, where func = func]) auto

theorem add_irq_handle_attaches_witness:
  "\<exists>s'. add_irq_handle 14 Ide_intr bss_kirq = Inr s' \<and> attached s' 14 = [Ide_intr]"
proof -
  have "attached bss_kirq 14 = []" by (simp add: attached_def)
  with add_irq_handle_attaches [OF bss_kirq_inv, of 14 Ide_intr] show ?thesis
    by (auto simp: NR_IRQ_HANDLE_def NR_HARD_INTR_def)
qed

text \<open>
  the guard of \<open>add_irq_handle\<close> is off by one.  With all 32 slots in use it does not
  panic but writes past the end of \<open>handle_pool\<close>; only the call after that one would.
\<close>

theorem add_irq_handle_overrun:
  assumes "handle_count s = NR_IRQ_HANDLE" and "0 \<le> n" and "n < NR_HARD_INTR"
  shows "add_irq_handle n func s = Inl (OutOfBounds ''handle_pool'') \<and>
    add_irq_handle n func (s\<lparr>handle_count := NR_IRQ_HANDLE + 1\<rparr>) = Inl (Panic ''Too many irq registrations!'')"
  using assms by (simp add: add_irq_handle_def Let_def)

theorem add_irq_handle_overrun_witness:
  "add_irq_handle 0 Update_jiffy (bss_kirq\<lparr>handle_count := 32\<rparr>) = Inl (OutOfBounds ''handle_pool'')"
  using add_irq_handle_overrun [of "bss_kirq\<lparr>handle_count := 32\<rparr>" 0 Update_jiffy]
  by (simp add: NR_IRQ_HANDLE_def NR_HARD_INTR_def)

text \<open>
  an external interrupt calls exactly the routines attached to it, the one attached last
  first, each on the state the previous one left, and then switches process; the routines
  run with the flag of the interrupt handler set.
\<close>

theorem irq_handle_dispatches:
  assumes "irq_inv s" and "irq (read_frame (stackmem s) frame) = word_of_nat (1000 + n)" and "n < 16"
    and "\<And>r s s'. call r s = Inr s' \<Longrightarrow> handle_pool s' = handle_pool s"
  shows "irq_handle call frame s =
    bindR (forR call (attached s n) (s\<lparr>lock_flag := lock_flag s OR 1\<rparr>)) (switch_process frame)"
proof -
  let ?s = "s\<lparr>lock_flag := lock_flag s OR 1\<rparr>"
  have "sint (word_of_nat (1000 + n) :: u32) = 1000 + int n"
    using assms(3) sint_of_nat_u32 [of "1000 + n"] by simp
  then have i: "sint (irq (read_frame (stackmem s) frame)) = 1000 + int n" using assms(2) by simp
  have "handler_chain (NR_IRQ_HANDLE + 1) (handle_pool ?s) (handles ?s n) = Some (attached s n)"
    using chain_of [OF assms(1)] by simp
  from run_handles_forR [OF assms(4) this] i assms(3) show ?thesis
    by (simp add: irq_handle_def Let_def NR_HARD_INTR_def)
qed

theorem irq_handle_dispatches_witness:
  "\<exists>s'. add_irq_handle 0 Update_jiffy bss_kirq = Inr s' \<and>
     irq_handle (\<lambda>r s. Inl (Panic ''called'')) 0 (s'\<lparr>stackmem := (\<lambda>_. 1000)\<rparr>) = Inl (Panic ''called'')"
proof -
  obtain s' where s': "add_irq_handle 0 Update_jiffy bss_kirq = Inr s'" "irq_inv s'"
    "\<forall>m. attached s' m = (if m = nat 0 then Update_jiffy # attached bss_kirq m else attached bss_kirq m)"
    by (rule add_irq_handle_ok [OF bss_kirq_inv, where n = 0 and func = Update_jiffy])
      (auto simp: NR_IRQ_HANDLE_def NR_HARD_INTR_def)
  let ?s = "s'\<lparr>stackmem := (\<lambda>_. 1000)\<rparr>"
  have "irq_inv ?s" using s'(2) by (simp add: irq_inv_def)
  moreover have "attached ?s 0 = Update_jiffy # attached bss_kirq 0" using s'(3) by (simp add: attached_def)
  ultimately show ?thesis
    using irq_handle_dispatches [of ?s 0 0 "\<lambda>r s. Inl (Panic ''called'')"] s'(1)
    by (simp add: read_frame_def)
qed

text \<open>
  C9: the trap \<open>int $0x80\<close> switches context.  The frame and the lock count of the trapping
  process are saved in its PCB, and the registers restored and the lock count are those of
  the process the scheduler chooses; the interrupt flag becomes the one saved in its frame.
\<close>

theorem trap_switches_context:
  assumes "proc_inv s H L" and "current s = PcbList i" and "irq f = 0x80"
    and "sched_choice (L Ready) (current s) = PcbList j" and "j \<noteq> i"
  shows "\<exists>s'. asm_do_irq call frame f s =
      Inr (read_frame (stackmem s') (tf (pcb_pool s j)), s') \<and>
    current s' = PcbList j \<and> lock_count s' = locked (pcb_pool s j) \<and> cr3_reg s' = cr3 (pcb_pool s j) \<and>
    read_frame (stackmem s') (tf (pcb_pool s' i)) = f \<and> locked (pcb_pool s' i) = lock_count s \<and>
    intr s' = bit (eflags (read_frame (stackmem s') (tf (pcb_pool s j)))) 9"
  using int80_switches [OF assms(1-3), where call = call and frame = frame] assms(4,5)
  by (simp add: read_write_frame)

theorem trap_switches_context_witness:
  "\<exists>s s' f. two_threads bss_kirq = Inr s \<and>
     asm_do_irq (\<lambda>r. Inr) 0xc0208000 (f\<lparr>irq := 0x80\<rparr>) s =
       Inr (read_frame (stackmem s') (tf (pcb_pool s 2)), s') \<and>
     current s' = PcbList 2"
proof -
  obtain s where s: "two_threads bss_kirq = Inr s" "msg_inv s two_heads two_lists" "current s = PcbList 1"
    by (rule two_threads_msg [of bss_kirq]) simp_all
  have "sched_choice (two_lists Ready) (current s) = PcbList 2"
    by (simp add: s(3) sched_choice_def next_ready_def)
  with trap_switches_context [OF msg_invD(1) [OF s(2)] s(3), of "f\<lparr>irq := 0x80\<rparr>" 2 "\<lambda>r. Inr" "0xc0208000" for f] s(1)
  show ?thesis by fastforce
qed

text \<open>The frame of a trap does not touch a stack it does not overlap.\<close>

definition disjoint_words :: "u32 \<Rightarrow> nat \<Rightarrow> u32 \<Rightarrow> nat \<Rightarrow> bool" where
  "disjoint_words a m b n \<longleftrightarrow>
     (\<forall>j<m. \<forall>k<n. a + 4 * word_of_nat j \<noteq> b + 4 * word_of_nat k)"

lemma frame_word:
  assumes "disjoint_words frame 17 b n" and "k < n"
  shows "write_frame frame f m (b + 4 * word_of_nat k) = m (b + 4 * word_of_nat k)"
proof -
  have "b + 4 * word_of_nat k \<noteq> frame + 4 * word_of_nat j" if "j < 17" for j
    using assms that unfolding disjoint_words_def by metis
  from this [of 0] this [of 1] this [of 2] this [of 3] this [of 4] this [of 5] this [of 6] this [of 7]
    this [of 8] this [of 9] this [of 10] this [of 11] this [of 12] this [of 13] this [of 14]
    this [of 15] this [of 16]
  show ?thesis by (simp add: write_frame_def)
qed

text \<open>
  C21: a new thread starts at its entry point.  When the scheduler first chooses a thread
  made by \<open>create_kthread\<close>, the registers popped are those the creator built: the
  instruction pointer is the thread's function, the segment registers are the kernel's,
  interrupts are enabled, and the 16 words above the return address are the arguments.
\<close>

theorem thread_first_run:
  assumes inv: "proc_inv s H L" and fr: "L Free = PcbList j # rest" and c: "current s = PcbList i"
    and n: "sched_choice (L Ready @ [PcbList j]) (current s) = PcbList j" and f: "irq f = 0x80"
    and d: "disjoint_words frame 17 (pcb_addr s j) 1025"
  shows "\<exists>s1 s2 g. spawn func args s = Inr (j, s1) \<and> asm_do_irq call frame f s1 = Inr (g, s2) \<and>
    current s2 = PcbList j \<and> eip g = func \<and> cs g = r_cs (segs s) \<and> ds g = r_ds (segs s) \<and> intr s2 \<and>
    lock_count s2 = 0 \<and>
    (\<forall>k. 1 \<le> k \<longrightarrow> k \<le> 16 \<longrightarrow> stackmem s2 (tf (pcb_pool s1 j) + 68 + 4 * word_of_nat k) = args k)"
proof -
  let ?a = "pcb_addr s j" and ?m = "snd (new_stack j func args s)"
  obtain t where t: "create_kthread func args s = Inr (j, t)" "proc_inv t (born_heads j H) (born j L)"
    "t = s\<lparr>
      heap := self_link (SemBlock (MsgSem j)) (self_link (MsgList j) (requeue Block (PcbList j) (heap s))),
      pcb_pool := (pcb_pool s)(j := (pcb_pool s j)\<lparr>tf := fst (new_stack j func args s) - 68, locked := 0,
        stat := STAT_SLEEPING, pid := word_of_nat j, cr3 := kcr3 s\<rparr>),
      token := (token s)(MsgSem j := 0), stackmem := ?m, intr := intr s \<or> relock s\<rparr>"
    by (rule create_kthread_inv [OF inv fr])
  have b: "Block \<in> born_heads j H" "PcbList j \<in> set (born j L Block)"
    using lists_invD(2) [OF proc_invD(2) [OF inv]] by (simp_all add: born_heads_def born_def moved_def)
  obtain s1 where s1: "wakeup (Some (PcbList j)) t = Inr s1" "proc_inv s1 (born_heads j H) (spawned j L)"
    "s1 = t\<lparr>heap := requeue Ready (PcbList j) (heap t),
           pcb_pool := (pcb_pool t)(j := (pcb_pool t j)\<lparr>stat := STAT_READY\<rparr>), intr := relock t\<rparr>"
    using wakeup_inv [OF t(2) b(1) _ b(2)] unfolding spawned_def is_sleepq.simps by blast
  have ij: "j \<noteq> i" using proc_invD(5) [OF inv] c fr by (auto simp: current_inv_def)
  have ch: "sched_choice (spawned j L Ready) (current s1) = PcbList j" "current s1 = PcbList i"
    using n c s1(3) t(3) by simp_all
  let ?g = "read_frame (write_frame frame f ?m) (?a + 3964)"
  have tf: "tf (pcb_pool s1 j) = ?a + 3964" by (simp add: s1(3) t(3) new_stack_fst)
  have sm: "stackmem s1 = ?m" "locked (pcb_pool s1 j) = 0" by (simp_all add: s1(3) t(3))
  obtain s2 where s2: "asm_do_irq call frame f s1 = Inr (?g, s2)" "current s2 = PcbList j"
    "stackmem s2 = write_frame frame f ?m" "intr s2 = bit (eflags ?g) 9" "lock_count s2 = 0"
    using int80_switches [OF s1(2) ch(2) f, where call = call and frame = frame] ch ij tf sm by simp
  have w: "write_frame frame f ?m (?a + 4 * word_of_nat k) = ?m (?a + 4 * word_of_nat k)" if "k < 1025" for k
    by (rule frame_word [OF d that])
  have "?g = read_frame ?m (?a + 4032 - 68)"
    using w [of 991] w [of 992] w [of 993] w [of 994] w [of 995] w [of 996] w [of 997] w [of 998] w [of 999]
      w [of 1000] w [of 1001] w [of 1002] w [of 1003] w [of 1004] w [of 1005] w [of 1006] w [of 1007]
    by (simp add: read_frame_def add.commute)
  note g = new_stack_frame [OF this]
  have args: "stackmem s2 (tf (pcb_pool s1 j) + 68 + 4 * word_of_nat k) = args k" if "1 \<le> k" "k \<le> 16" for k
    using new_stack_args [OF that, of j func args s] w [of "1008 + k"] that
    by (simp add: s2(3) tf algebra_simps)
  have "spawn func args s = Inr (j, s1)" using t(1) s1(1) by (simp add: spawn_def)
  moreover have "bit (0x202 :: u32) 9" by simp
  then have "bit (eflags ?g) 9" by (simp only: g(3))
  ultimately show ?thesis using s2 g args by (intro exI [of _ s1] exI [of _ s2] exI [of _ ?g]) simp
qed

theorem thread_first_run_witness:
  "\<exists>s1 s2 g s. init_proc bss_kirq = Inr s \<and> spawn 0xc0100100 (\<lambda>k. word_of_nat k) s = Inr (1, s1) \<and>
     asm_do_irq (\<lambda>r. Inr) 0x7000 (\<lparr>edi = 0, esi = 0, ebp = 0, xxx = 0, ebx = 0, edx = 0, ecx = 0, eax = 0,
       gs = 0, fs = 0, es = 0, ds = 0, irq = 0x80, error_code = 0, eip = 0, cs = 0, eflags = 0\<rparr>) s1 = Inr (g, s2) \<and>
     eip g = 0xc0100100"
proof -
  obtain s where s: "init_proc bss_kirq = Inr s" "proc_inv s boot_heads boot_lists" "current s = idle"
    "pcb_pool_addr s = 0xc0200000"
    by (rule init_proc_boots [of bss_kirq])
      (auto simp: init_proc_def forR_on_heap on_heap_def upd_pcb_def Let_def bss_kirq_def kmsg.defs bss_kmsg_def
        kcore.defs bss_kcore_def)
  have "0x7000 + 4 * word_of_nat j \<noteq> (0xc0204000 + 4 * word_of_nat k :: u32)" if "j < 17" "k < 1025" for j k
  proof -
    have "unat (0x7000 + 4 * word_of_nat j :: u32) = 0x7000 + 4 * j" "unat (0xc0204000 + 4 * word_of_nat k :: u32) = 0xc0204000 + 4 * k"
      using that by (simp_all add: unat_word_ariths)
    then show ?thesis using that by auto
  qed
  then have "disjoint_words 0x7000 17 (pcb_addr s 1) 1025" by (simp add: disjoint_words_def pcb_addr_def s(4))
  moreover have "sched_choice (boot_lists Ready @ [PcbList 1]) (current s) = PcbList 1"
    by (simp add: sched_choice_def next_ready_def s(3) idle_def)
  ultimately show ?thesis
    using thread_first_run [OF s(2) boot_free, where i = 0 and frame = "0x7000" and func = "0xc0100100" and
        args = "\<lambda>k. word_of_nat k" and call = "\<lambda>r. Inr" and
        f = "\<lparr>edi = 0, esi = 0, ebp = 0, xxx = 0, ebx = 0, edx = 0, ecx = 0, eax = 0,
          gs = 0, fs = 0, es = 0, ds = 0, irq = 0x80, error_code = 0, eip = 0, cs = 0, eflags = 0\<rparr>"] s(1,3)
    by (simp add: idle_def) blast
qed

end
