(* ===== verification/Prodcons.thy ===== *)
theory Prodcons
  imports Bounded Irq
begin

text \<open>
  The producer and consumer threads at the end of \<open>process/util.c\<close> on the kernel's own
  semaphores.  The state is the state of the kernel, the globals of the test, 32-bit
  integers that wrap around (\<open>g\<close> is counted up for ever), and for every thread, by the
  number of its PCB, the statement it is about to execute.  A step is a statement of the
  thread that has the processor, \<open>P\<close> and \<open>V\<close> being the routines of \<open>lock.c\<close>, or a switch
  of processes by \<open>irq_handle\<close>, which an interrupt or the trap of a blocked thread can
  bring about between any two statements.  The simulation shows that every run is a run of
  the specification in \<open>Bounded\<close>, in which a thread has passed \<open>P\<close> as soon as \<open>V\<close>
  has handed it a token.
\<close>

section \<open>The threads\<close>

text \<open>
  The statement a thread is about to execute.  A thread at \<open>In_P_empty\<close> is inside
  \<open>P(&empty)\<close>, at the trap of \<open>sleep_sem\<close>.
\<close>

datatype pstmt = At_P_empty | In_P_empty | At_P_mutex | In_P_mutex | At_print | At_put | At_wrap_f | At_V_mutex | At_V_full

datatype cstmt = At_P_full | In_P_full | At_CP_mutex | In_CP_mutex | At_get | At_assert | At_last | At_wrap_r | At_CV_mutex | At_V_empty

record testsys =
  ker :: kcore
  g_buf :: "u32 list"
  g_f :: u32
  g_r :: u32
  g_g :: u32
  g_last :: u32
  screen :: string
  ppc :: "nat \<Rightarrow> pstmt"
  cpc :: "nat \<Rightarrow> cstmt"
  g_get :: "nat \<Rightarrow> u32"

text \<open>A thread calls \<open>P\<close>: it goes on, or it is inside and asleep.\<close>

definition P_stmt :: "sem \<Rightarrow> (bool \<Rightarrow> testsys \<Rightarrow> testsys) \<Rightarrow> testsys \<Rightarrow> testsys res" where
  "P_stmt x jump s =
     bindR (P_sem x (ker s)) (\<lambda>r.
     Inr (case r of Returned k \<Rightarrow> jump True (s\<lparr>ker := k\<rparr>) | Trapped k \<Rightarrow> jump False (s\<lparr>ker := k\<rparr>)))"

definition goto_p :: "nat \<Rightarrow> pstmt \<Rightarrow> testsys \<Rightarrow> testsys" where
  "goto_p i c s = s\<lparr>ppc := (ppc s)(i := c)\<rparr>"

definition goto_c :: "nat \<Rightarrow> cstmt \<Rightarrow> testsys \<Rightarrow> testsys" where
  "goto_c i c s = s\<lparr>cpc := (cpc s)(i := c)\<rparr>"

text \<open>The index of an element of \<open>buf\<close>.\<close>

definition buf_index :: "u32 \<Rightarrow> testsys \<Rightarrow> nat res" where
  "buf_index n s =
     (if 0 \<le> sint n \<and> sint n < int (length (g_buf s)) then Inr (nat (sint n)) else Inl (OutOfBounds ''buf''))"

text \<open>One statement of the producer with PCB \<open>i\<close>.\<close>

definition test_producer :: "nat \<Rightarrow> testsys \<Rightarrow> testsys res" where
  "test_producer i s =
     (case ppc s i of
        At_P_empty \<Rightarrow> P_stmt TestEmpty (\<lambda>on. goto_p i (if on then At_P_mutex else In_P_empty)) s
      | In_P_empty \<Rightarrow> Inr (goto_p i At_P_mutex (s\<lparr>ker := P_resume (ker s)\<rparr>))
      | At_P_mutex \<Rightarrow> P_stmt TestMutex (\<lambda>on. goto_p i (if on then At_print else In_P_mutex)) s
      | In_P_mutex \<Rightarrow> Inr (goto_p i At_print (s\<lparr>ker := P_resume (ker s)\<rparr>))
      | At_print \<Rightarrow> Inr (goto_p i At_put
          (if cmod (sint (g_g s)) 10000 = 0 then s\<lparr>screen := screen s @ ''.''\<rparr> else s))
      | At_put \<Rightarrow>
          bindR (buf_index (g_f s) s) (\<lambda>n.
          Inr (goto_p i At_wrap_f (s\<lparr>g_buf := (g_buf s)[n := g_g s], g_f := g_f s + 1, g_g := g_g s + 1\<rparr>)))
      | At_wrap_f \<Rightarrow> Inr (goto_p i At_V_mutex (s\<lparr>g_f := word_of_int (cmod (sint (g_f s)) NBUF)\<rparr>))
      | At_V_mutex \<Rightarrow> bindR (V_sem TestMutex (ker s)) (\<lambda>k. Inr (goto_p i At_V_full (s\<lparr>ker := k\<rparr>)))
      | At_V_full \<Rightarrow> bindR (V_sem TestFull (ker s)) (\<lambda>k. Inr (goto_p i At_P_empty (s\<lparr>ker := k\<rparr>))))"

text \<open>One statement of the consumer with PCB \<open>i\<close>.\<close>

definition test_consumer :: "nat \<Rightarrow> testsys \<Rightarrow> testsys res" where
  "test_consumer i s =
     (case cpc s i of
        At_P_full \<Rightarrow> P_stmt TestFull (\<lambda>on. goto_c i (if on then At_CP_mutex else In_P_full)) s
      | In_P_full \<Rightarrow> Inr (goto_c i At_CP_mutex (s\<lparr>ker := P_resume (ker s)\<rparr>))
      | At_CP_mutex \<Rightarrow> P_stmt TestMutex (\<lambda>on. goto_c i (if on then At_get else In_CP_mutex)) s
      | In_CP_mutex \<Rightarrow> Inr (goto_c i At_get (s\<lparr>ker := P_resume (ker s)\<rparr>))
      | At_get \<Rightarrow>
          bindR (buf_index (g_r s) s) (\<lambda>n.
          Inr (goto_c i At_assert (s\<lparr>g_get := (g_get s)(i := g_buf s ! n), g_r := g_r s + 1\<rparr>)))
      | At_assert \<Rightarrow>
          bindR (assertR (g_last s = g_get s i - 1) ''last == get - 1'') (\<lambda>_. Inr (goto_c i At_last s))
      | At_last \<Rightarrow> Inr (goto_c i At_wrap_r (s\<lparr>g_last := g_get s i\<rparr>))
      | At_wrap_r \<Rightarrow> Inr (goto_c i At_CV_mutex (s\<lparr>g_r := word_of_int (cmod (sint (g_r s)) NBUF)\<rparr>))
      | At_CV_mutex \<Rightarrow> bindR (V_sem TestMutex (ker s)) (\<lambda>k. Inr (goto_c i At_V_empty (s\<lparr>ker := k\<rparr>)))
      | At_V_empty \<Rightarrow> bindR (V_sem TestEmpty (ker s)) (\<lambda>k. Inr (goto_c i At_P_full (s\<lparr>ker := k\<rparr>))))"

text \<open>
  \<open>test_setup\<close>: the semaphores, and the threads at \<open>pfun\<close> and \<open>cfun\<close>, the addresses
  of the two functions.  \<open>create_kthread\<close> copies whatever words follow its argument.
\<close>

definition start_thread :: "u32 \<Rightarrow> (nat \<Rightarrow> u32) \<Rightarrow> nat \<Rightarrow> kcore \<Rightarrow> kcore res" where
  "start_thread func args i k = bindR (spawn func args k) (\<lambda>(_, k). Inr k)"

definition test_setup :: "u32 \<Rightarrow> u32 \<Rightarrow> (nat \<Rightarrow> u32) \<Rightarrow> kcore \<Rightarrow> kcore res" where
  "test_setup pfun cfun args k =
     bindR (create_sem TestFull 0 k) (\<lambda>k.
     bindR (create_sem TestEmpty NBUF k) (\<lambda>k.
     bindR (create_sem TestMutex 1 k) (\<lambda>k.
     bindR (forR (start_thread pfun args) [0..<NR_PROD] k)
       (forR (start_thread cfun args) [0..<NR_CONS]))))"

text \<open>The globals as the loader leaves them.\<close>

definition test_data :: "kcore \<Rightarrow> testsys" where
  "test_data k = \<lparr>ker = k, g_buf = replicate (nat NBUF) 0, g_f = 0, g_r = 0, g_g = 1, g_last = 0, screen = '''',
     ppc = (\<lambda>_. At_P_empty), cpc = (\<lambda>_. At_P_full), g_get = (\<lambda>_. 0)\<rparr>"

section \<open>The runs\<close>

definition is_producer :: "nat \<Rightarrow> bool" where
  "is_producer i \<longleftrightarrow> 1 \<le> i \<and> i \<le> NR_PROD"

definition is_consumer :: "nat \<Rightarrow> bool" where
  "is_consumer i \<longleftrightarrow> NR_PROD < i \<and> i \<le> NR_PROD + NR_CONS"

definition has_cpu :: "nat \<Rightarrow> testsys \<Rightarrow> bool" where
  "has_cpu i s \<longleftrightarrow> current (ker s) = PcbList i \<and> stat (pcb_pool (ker s) i) \<noteq> STAT_SLEEPING"

text \<open>The processor is given to the next process: \<open>irq_handle\<close> from its entry on.\<close>

definition preempt :: "u32 \<Rightarrow> testsys \<Rightarrow> testsys res" where
  "preempt frame s =
     bindR (switch_process frame ((ker s)\<lparr>lock_flag := lock_flag (ker s) OR 1\<rparr>)) (\<lambda>k. Inr (s\<lparr>ker := k\<rparr>))"

inductive test_reach :: "testsys \<Rightarrow> bool" where
  start: "current k0 = idle \<Longrightarrow> lock_count k0 = 0 \<Longrightarrow> init_proc k0 = Inr k1 \<Longrightarrow>
    test_setup pfun cfun args k1 = Inr k \<Longrightarrow> test_reach (test_data k)"
| producer: "test_reach s \<Longrightarrow> is_producer i \<Longrightarrow> has_cpu i s \<Longrightarrow> test_producer i s = Inr t \<Longrightarrow> test_reach t"
| consumer: "test_reach s \<Longrightarrow> is_consumer i \<Longrightarrow> has_cpu i s \<Longrightarrow> test_consumer i s = Inr t \<Longrightarrow> test_reach t"
| switch: "test_reach s \<Longrightarrow> preempt frame s = Inr t \<Longrightarrow> test_reach t"

section \<open>The kernel under the threads\<close>

text \<open>
  \<open>w i\<close> is the semaphore in whose \<open>P\<close> the thread \<open>i\<close> is.  A test thread is ready, or it
  waits in the queue of that semaphore; a thread inside \<open>P\<close> has the lock count one.
\<close>

definition tests :: "sem set" where
  "tests = {TestEmpty, TestFull, TestMutex}"

abbreviation rdy :: "(laddr \<Rightarrow> laddr list) \<Rightarrow> nat \<Rightarrow> bool" where
  "rdy L i \<equiv> PcbList i \<in> set (L Ready)"

definition count_of :: "kcore \<Rightarrow> nat \<Rightarrow> int" where
  "count_of k i = (if current k = PcbList i then lock_count k else locked (pcb_pool k i))"

definition kinv :: "kcore \<Rightarrow> (nat \<Rightarrow> sem option) \<Rightarrow> laddr set \<Rightarrow> (laddr \<Rightarrow> laddr list) \<Rightarrow> bool" where
  "kinv k w H L \<longleftrightarrow>
     proc_inv k H L \<and> SemBlock ` tests \<subseteq> H \<and> set (L Ready) \<subseteq> PcbList ` {1..7} \<and>
     (\<forall>i. 1 \<le> i \<and> i \<le> 7 \<longrightarrow> rdy L i \<or> (\<exists>x\<in>tests. w i = Some x \<and> PcbList i \<in> set (L (SemBlock x)))) \<and>
     (\<forall>x\<in>tests. \<forall>d\<in>set (L (SemBlock x)). \<exists>i. 1 \<le> i \<and> i \<le> 7 \<and> d = PcbList i \<and> w i = Some x) \<and>
     (\<forall>i\<le>7. count_of k i = of_bool (w i \<noteq> None)) \<and> (\<exists>i\<le>7. current k = PcbList i) \<and> w 0 = None"

lemma kinvD:
  assumes "kinv k w H L"
  shows "proc_inv k H L" and "x \<in> tests \<Longrightarrow> SemBlock x \<in> H" and "set (L Ready) \<subseteq> PcbList ` {1..7}"
    and "1 \<le> i \<Longrightarrow> i \<le> 7 \<Longrightarrow> rdy L i \<or> (\<exists>x\<in>tests. w i = Some x \<and> PcbList i \<in> set (L (SemBlock x)))"
    and "x \<in> tests \<Longrightarrow> d \<in> set (L (SemBlock x)) \<Longrightarrow> \<exists>i. 1 \<le> i \<and> i \<le> 7 \<and> d = PcbList i \<and> w i = Some x"
    and "i \<le> 7 \<Longrightarrow> count_of k i = of_bool (w i \<noteq> None)" and "\<exists>i\<le>7. current k = PcbList i" and "w 0 = None"
  using assms unfolding kinv_def by blast+

lemma queued_not_ready:
  assumes "kinv k w H L" and "x \<in> tests" and "PcbList i \<in> set (L (SemBlock x))"
  shows "\<not> rdy L i"
  using rep_once [OF proc_invD(1) [OF kinvD(1) [OF assms(1)]] kinvD(2) [OF assms(1,2)]]
    lists_invD(1) [OF proc_invD(2) [OF kinvD(1) [OF assms(1)]]] assms(3) by blast

lemma cpu_ready:
  assumes "kinv (ker s) w H L" and "has_cpu i s" and "1 \<le> i"
  shows "rdy L i" and "current (ker s) = PcbList i"
  using assms ready_iff_stat [OF kinvD(1) [OF assms(1)], of i] by (auto simp: has_cpu_def)

lemma count_of_frame [simp]: "count_of (k\<lparr>token := t, intr := b\<rparr>) = count_of k"
  by (simp add: count_of_def fun_eq_iff)

lemma kinv_cong:
  assumes "kinv k w H L" and "proc_inv k' H L" and "count_of k' = count_of k" and "current k' = current k"
  shows "kinv k' w H L"
  using assms by (simp add: kinv_def)

lemma kinv_P_returns:
  assumes k: "kinv k w H L" and x: "x \<in> tests" and t: "token k x > 0"
  obtains k' where "P_sem x k = Inr (Returned k')" and "kinv k' w H L" and "token k' = (token k)(x := token k x - 1)"
    and "k' = k\<lparr>token := (token k)(x := token k x - 1), intr := relock k\<rparr>"
proof -
  have q: "L (SemBlock x) = []"
    using proc_invD(4) [OF kinvD(1) [OF k]] kinvD(2) [OF k x] t by (force simp: sem_inv_def)
  obtain k' where "P_sem x k = Inr (Returned k')" "proc_inv k' H L"
    "k' = k\<lparr>token := (token k)(x := token k x - 1), intr := relock k\<rparr>"
    by (rule P_sem_returns [OF kinvD(1) [OF k] kinvD(2) [OF k x] q t])
  moreover from this have "kinv k' w H L" by (intro kinv_cong [OF k]) simp_all
  ultimately show thesis by (intro that [of k']) simp_all
qed

lemma kinv_P_blocks:
  assumes k: "kinv k w H L" and x: "x \<in> tests" and t: "\<not> token k x > 0"
    and c: "current k = PcbList i" "rdy L i" and i: "1 \<le> i" "i \<le> 7" "w i = None"
  obtains k' where "P_sem x k = Inr (Trapped k')"
    and "kinv k' (w(i := Some x)) H (moved Ready (SemBlock x) (PcbList i) L)" and "token k' = token k"
proof -
  obtain k' where p: "P_sem x k = Inr (Trapped k')" "proc_inv k' H (moved Ready (SemBlock x) (PcbList i) L)"
    and eq: "k' = k\<lparr>heap := requeue (SemBlock x) (PcbList i) (heap k),
      pcb_pool := (pcb_pool k)(i := (pcb_pool k i)\<lparr>stat := STAT_SLEEPING\<rparr>),
      lock_flag := lock_flag k OR 2, lock_count := lock_count k + 1, intr := (lock_flag k AND 1 = 0)\<rparr>"
    by (rule P_sem_blocks [OF kinvD(1) [OF k] kinvD(2) [OF k x] t c])
  let ?L = "moved Ready (SemBlock x) (PcbList i) L"
  have R: "set (?L Ready) = set (L Ready) - {PcbList i}"
    using rep_distinct [OF proc_invD(1) [OF kinvD(1) [OF k]] lists_invD(1) [OF proc_invD(2) [OF kinvD(1) [OF k]]]]
    by (simp add: moved_def)
  have S: "set (?L (SemBlock y)) = set (L (SemBlock y)) \<union> (if y = x then {PcbList i} else {})" for y
    by (simp add: moved_def)
  have "count_of k' j = of_bool ((w(i := Some x)) j \<noteq> None)" if "j \<le> 7" for j
    using kinvD(6) [OF k that] c(1) i(3) by (auto simp: count_of_def eq)
  moreover have "set (?L Ready) \<subseteq> PcbList ` {1..7}" using kinvD(3) [OF k] R by blast
  moreover have "rdy ?L j \<or> (\<exists>y\<in>tests. (w(i := Some x)) j = Some y \<and> PcbList j \<in> set (?L (SemBlock y)))"
    if "1 \<le> j" "j \<le> 7" for j
    using kinvD(4) [OF k that] x i(3) by (auto simp: R S)
  moreover have "\<exists>j. 1 \<le> j \<and> j \<le> 7 \<and> d = PcbList j \<and> (w(i := Some x)) j = Some y"
    if y: "y \<in> tests" "d \<in> set (?L (SemBlock y))" for y d
  proof (cases "d = PcbList i")
    case True
    with y queued_not_ready [OF k y(1), of i] c(2) i show ?thesis by (auto simp: S split: if_splits)
  next
    case False
    with y kinvD(5) [OF k y(1), of d] i(3) show ?thesis by (auto simp: S split: if_splits)
  qed
  ultimately have "kinv k' (w(i := Some x)) H ?L"
    using p(2) k i(1) unfolding kinv_def by (simp add: eq)
  then show thesis using p(1) by (intro that [of k']) (simp_all add: eq)
qed

lemma kinv_P_resumes:
  assumes k: "kinv k w H L" and c: "current k = PcbList i" "rdy L i" and i: "1 \<le> i" "i \<le> 7" "w i \<noteq> None"
  shows "kinv (P_resume k) (w(i := None)) H L" and "token (P_resume k) = token k"
proof -
  have r: "P_resume k = k\<lparr>lock_count := 0, lock_flag := lock_flag k AND 0xfffffffd, intr := intr (P_resume k)\<rparr>"
    using kinvD(6) [OF k, of i] c(1) i by (simp add: P_resume_def kdefs Let_def count_of_def)
  have nq: "x \<in> tests \<Longrightarrow> PcbList i \<notin> set (L (SemBlock x))" for x using queued_not_ready [OF k] c(2) by blast
  have "proc_inv (P_resume k) H L" using kinvD(1) [OF k] by (subst r) (simp add: proc_inv_def)
  moreover have "count_of (P_resume k) j = of_bool ((w(i := None)) j \<noteq> None)" if "j \<le> 7" for j
    using kinvD(6) [OF k that] c(1) by (subst r) (auto simp: count_of_def)
  moreover have "current (P_resume k) = current k" by (subst r) simp
  moreover have "\<exists>j. 1 \<le> j \<and> j \<le> 7 \<and> d = PcbList j \<and> (w(i := None)) j = Some y"
    if y: "y \<in> tests" "d \<in> set (L (SemBlock y))" for y d
    using kinvD(5) [OF k y] nq [OF y(1)] y(2) by auto
  moreover have "rdy L j \<or> (\<exists>x\<in>tests. (w(i := None)) j = Some x \<and> PcbList j \<in> set (L (SemBlock x)))"
    if "1 \<le> j" "j \<le> 7" for j using kinvD(4) [OF k that] c(2) by auto
  ultimately show "kinv (P_resume k) (w(i := None)) H L" using k unfolding kinv_def by simp
  show "token (P_resume k) = token k" by (subst r) simp
qed

lemma kinv_V:
  assumes k: "kinv k w H L" and x: "x \<in> tests"
  obtains k' where "V_sem x k = Inr k'" and "kinv k' w H (v_lists x L)" and "token k' = v_token x L (token k)"
    and "current k' = current k"
proof (cases "L (SemBlock x)")
  case Nil
  obtain k' where "V_sem x k = Inr k'" "proc_inv k' H L"
    "k' = k\<lparr>token := (token k)(x := token k x + 1), intr := relock k\<rparr>"
    by (rule V_sem_counts [OF kinvD(1) [OF k] kinvD(2) [OF k x] Nil])
  moreover from this have "kinv k' w H L" by (intro kinv_cong [OF k]) simp_all
  ultimately show thesis by (intro that [of k']) (simp_all add: v_lists_def v_token_def Nil)
next
  case (Cons d ds)
  let ?L = "moved (SemBlock x) Ready d L"
  obtain k' where v: "V_sem x k = Inr k'" "proc_inv k' H ?L"
    and "\<exists>i. d = PcbList i \<and> k' = k\<lparr>heap := requeue Ready (PcbList i) (heap k),
      pcb_pool := (pcb_pool k)(i := (pcb_pool k i)\<lparr>stat := STAT_READY\<rparr>), intr := relock k\<rparr>"
    by (rule V_sem_wakes [OF kinvD(1) [OF k] kinvD(2) [OF k x] Cons])
  then obtain i where d: "d = PcbList i" and eq: "k' = k\<lparr>heap := requeue Ready (PcbList i) (heap k),
      pcb_pool := (pcb_pool k)(i := (pcb_pool k i)\<lparr>stat := STAT_READY\<rparr>), intr := relock k\<rparr>" by blast
  have w: "1 \<le> i" "i \<le> 7" "w i = Some x" using kinvD(5) [OF k x, of d] by (auto simp: Cons d)
  have R: "set (?L Ready) = insert d (set (L Ready))" by (simp add: moved_def)
  have S: "set (?L (SemBlock y)) = (if y = x then set ds else set (L (SemBlock y)))" for y
    by (simp add: moved_def Cons)
  have "count_of k' j = of_bool (w j \<noteq> None)" if "j \<le> 7" for j
    using kinvD(6) [OF k that] by (auto simp: count_of_def eq)
  moreover have "set (?L Ready) \<subseteq> PcbList ` {1..7}" using kinvD(3) [OF k] w R d by auto
  moreover have "rdy ?L j \<or> (\<exists>y\<in>tests. w j = Some y \<and> PcbList j \<in> set (?L (SemBlock y)))" if "1 \<le> j" "j \<le> 7" for j
    using kinvD(4) [OF k that] by (auto simp: R S Cons)
  moreover have "\<exists>j. 1 \<le> j \<and> j \<le> 7 \<and> e = PcbList j \<and> w j = Some y" if "y \<in> tests" "e \<in> set (?L (SemBlock y))" for y e
    using kinvD(5) [OF k that(1), of e] that(2) by (auto simp: S Cons split: if_splits)
  ultimately have "kinv k' w H ?L" using v(2) k unfolding kinv_def by (simp add: eq)
  then show thesis using v(1) by (intro that [of k']) (simp_all add: v_lists_def v_token_def Cons eq)
qed

lemma kinv_preempt:
  assumes k: "kinv (ker s) w H L"
  obtains k' where "preempt frame s = Inr (s\<lparr>ker := k'\<rparr>)" and "kinv k' w H L" and "token k' = token (ker s)"
    and "current k' = sched_choice (L Ready) (current (ker s))"
proof -
  let ?k = "(ker s)\<lparr>lock_flag := lock_flag (ker s) OR 1\<rparr>" and ?n = "sched_choice (L Ready) (current (ker s))"
  obtain i where c: "current (ker s) = PcbList i" "i \<le> 7" using kinvD(7) [OF k] by blast
  have pi: "proc_inv ?k H L" using kinvD(1) [OF k] by (simp add: proc_inv_def)
  let ?p = "(pcb_pool (ker s))(i := (pcb_pool (ker s) i)\<lparr>tf := frame, locked := lock_count (ker s)\<rparr>)"
  obtain k' where sw: "switch_process frame ?k = Inr k'"
    and eq: "k' = ?k\<lparr>pcb_pool := ?p, current := ?n, cr3_reg := cr3 (pcb_pool (ker s) (pcb_no ?n)),
      lock_count := locked (?p (pcb_no ?n)), lock_flag := lock_flag ?k AND 0xfffffffe\<rparr>"
    using switch_process_ok [OF pi, of i frame] c(1) by simp
  have "?n = idle \<or> ?n \<in> set (L Ready)" by (simp add: sched_choice_def next_ready_in)
  then obtain j where j: "?n = PcbList j" "j \<le> 7" using kinvD(3) [OF k] by (auto simp: idle_def)
  have old: "locked (?p m) = of_bool (w m \<noteq> None)" if "m \<le> 7" for m
    using kinvD(6) [OF k that] c(1) by (auto simp: count_of_def)
  have "stat_inv ?p H L" using proc_invD(3) [OF kinvD(1) [OF k]] by (auto simp: stat_inv_def)
  then have "proc_inv k' H L"
    using kinvD(1) [OF k] proc_invD(5) [OF schedule_inv [OF kinvD(1) [OF k]]] old [OF j(2)] j(1)
    by (simp add: proc_inv_def eq)
  moreover have "count_of k' m = of_bool (w m \<noteq> None)" if "m \<le> 7" for m
    using old [OF that] j(1) by (auto simp: count_of_def eq)
  ultimately have "kinv k' w H L" using k j unfolding kinv_def by (simp add: eq)
  then show thesis using sw by (intro that [of k']) (simp_all add: preempt_def eq)
qed

section \<open>The simulation\<close>

text \<open>The semaphore in whose \<open>P\<close> a thread is.\<close>

fun pwait :: "pstmt \<Rightarrow> sem option" where
  "pwait In_P_empty = Some TestEmpty"
| "pwait In_P_mutex = Some TestMutex"
| "pwait _ = None"

fun cwait :: "cstmt \<Rightarrow> sem option" where
  "cwait In_P_full = Some TestFull"
| "cwait In_CP_mutex = Some TestMutex"
| "cwait _ = None"

definition waits :: "(nat \<Rightarrow> pstmt) \<Rightarrow> (nat \<Rightarrow> cstmt) \<Rightarrow> nat \<Rightarrow> sem option" where
  "waits pp cp i = (if is_producer i then pwait (pp i) else if is_consumer i then cwait (cp i) else None)"

text \<open>
  The statement of the specification: a thread inside \<open>P\<close> that is ready has its token.
\<close>

fun pabs :: "bool \<Rightarrow> pstmt \<Rightarrow> ppc" where
  "pabs r At_P_empty = P_empty"
| "pabs r In_P_empty = (if r then P_mutex else P_empty)"
| "pabs r At_P_mutex = P_mutex"
| "pabs r In_P_mutex = (if r then Put else P_mutex)"
| "pabs r At_print = Put"
| "pabs r At_put = Put"
| "pabs r At_wrap_f = Wrap_f"
| "pabs r At_V_mutex = V_mutex"
| "pabs r At_V_full = V_full"

fun cabs :: "bool \<Rightarrow> cstmt \<Rightarrow> cpc" where
  "cabs r At_P_full = C_full"
| "cabs r In_P_full = (if r then C_mutex else C_full)"
| "cabs r At_CP_mutex = C_mutex"
| "cabs r In_CP_mutex = (if r then Get else C_mutex)"
| "cabs r At_get = Get"
| "cabs r At_assert = Check"
| "cabs r At_last = Set_last"
| "cabs r At_wrap_r = Wrap_r"
| "cabs r At_CV_mutex = CV_mutex"
| "cabs r At_V_empty = CV_empty"

fun tok :: "bb \<Rightarrow> sem \<Rightarrow> int" where
  "tok a TestEmpty = n_empty a"
| "tok a TestFull = n_full a"
| "tok a TestMutex = n_mutex a"
| "tok a _ = 0"

lemma tok_cases:
  "tok a x = (if x = TestEmpty then n_empty a else if x = TestFull then n_full a else if x = TestMutex then n_mutex a else 0)"
  by (cases x) simp_all

definition pcs_rel :: "(nat \<Rightarrow> bool) \<Rightarrow> (nat \<Rightarrow> pstmt) \<Rightarrow> (nat \<Rightarrow> cstmt) \<Rightarrow> bb \<Rightarrow> bool" where
  "pcs_rel r pp cp a \<longleftrightarrow>
     (\<forall>i. is_producer i \<longrightarrow> prod a (i - 1) = pabs (r i) (pp i)) \<and>
     (\<forall>i. is_consumer i \<longrightarrow> cons a (i - 4) = cabs (r i) (cp i))"

definition data_rel :: "testsys \<Rightarrow> bb \<Rightarrow> bool" where
  "data_rel s a \<longleftrightarrow>
     g_buf s = map word_of_int (buffer a) \<and> g_f s = word_of_int (in_f a) \<and> g_r s = word_of_int (out_r a) \<and>
     g_g s = word_of_int (next_g a) \<and> g_last s = word_of_int (last_v a) \<and>
     (\<forall>i. is_consumer i \<longrightarrow> g_get s i = word_of_int (get_v a (i - 4)))"

definition sim :: "testsys \<Rightarrow> laddr set \<Rightarrow> (laddr \<Rightarrow> laddr list) \<Rightarrow> bb \<Rightarrow> bool" where
  "sim s H L a \<longleftrightarrow>
     kinv (ker s) (waits (ppc s) (cpc s)) H L \<and> bb_reach a \<and> (\<forall>x\<in>tests. token (ker s) x = tok a x) \<and>
     pcs_rel (rdy L) (ppc s) (cpc s) a \<and> data_rel s a"

lemmas thread_defs = is_producer_def is_consumer_def NR_PROD_def NR_CONS_def

lemma is_producerD: "is_producer i \<Longrightarrow> 1 \<le> i \<and> i \<le> 7 \<and> \<not> is_consumer i \<and> i - 1 < NR_PROD"
  by (auto simp: thread_defs)

lemma is_consumerD: "is_consumer i \<Longrightarrow> 1 \<le> i \<and> i \<le> 7 \<and> \<not> is_producer i \<and> i - 4 < NR_CONS"
  by (auto simp: thread_defs)

lemma test_thread: "1 \<le> i \<Longrightarrow> i \<le> 7 \<Longrightarrow> is_producer i \<or> is_consumer i"
  by (auto simp: thread_defs)

lemma simD:
  assumes "sim s H L a"
  shows "kinv (ker s) (waits (ppc s) (cpc s)) H L" and "bb_reach a" and "x \<in> tests \<Longrightarrow> token (ker s) x = tok a x"
    and "pcs_rel (rdy L) (ppc s) (cpc s) a" and "data_rel s a"
  using assms unfolding sim_def by blast+

lemma tests_in [simp]: "TestEmpty \<in> tests" "TestFull \<in> tests" "TestMutex \<in> tests"
  by (simp_all add: tests_def)

lemma pcs_rel_p:
  assumes "pcs_rel r pp cp a" and "is_producer i"
    and "prod a' = (prod a)(i - 1 := pabs (r' i) c)" and "cons a' = cons a"
    and "\<And>j. j \<noteq> i \<Longrightarrow> r' j = r j"
  shows "pcs_rel r' (pp(i := c)) cp a'"
  unfolding pcs_rel_def
proof (intro conjI allI impI)
  fix j assume j: "is_producer j"
  then have "j - 1 = i - 1 \<longleftrightarrow> j = i" using assms(2) by (auto simp: thread_defs)
  then show "prod a' (j - 1) = pabs (r' j) ((pp(i := c)) j)"
    using assms j by (auto simp: pcs_rel_def)
next
  fix j assume j: "is_consumer j"
  then have "j \<noteq> i" using assms(2) is_producerD by blast
  then show "cons a' (j - 4) = cabs (r' j) (cp j)" using assms j by (auto simp: pcs_rel_def)
qed

lemma pcs_rel_c:
  assumes "pcs_rel r pp cp a" and "is_consumer i"
    and "cons a' = (cons a)(i - 4 := cabs (r' i) c)" and "prod a' = prod a"
    and "\<And>j. j \<noteq> i \<Longrightarrow> r' j = r j"
  shows "pcs_rel r' pp (cp(i := c)) a'"
  unfolding pcs_rel_def
proof (intro conjI allI impI)
  fix j assume j: "is_consumer j"
  then have "j - 4 = i - 4 \<longleftrightarrow> j = i" using assms(2) by (auto simp: thread_defs)
  then show "cons a' (j - 4) = cabs (r' j) ((cp(i := c)) j)"
    using assms j by (auto simp: pcs_rel_def)
next
  fix j assume j: "is_producer j"
  then have "j \<noteq> i" using assms(2) is_consumerD by blast
  then show "prod a' (j - 1) = pabs (r' j) (pp j)" using assms j by (auto simp: pcs_rel_def)
qed

text \<open>A thread that \<open>V\<close> hands its token passes \<open>P\<close> in the specification.\<close>

definition same_data :: "bb \<Rightarrow> bb \<Rightarrow> bool" where
  "same_data a b \<longleftrightarrow> buffer b = buffer a \<and> in_f b = in_f a \<and> out_r b = out_r a \<and> next_g b = next_g a \<and>
     last_v b = last_v a \<and> get_v b = get_v a"

lemma data_rel_same: "data_rel s a \<Longrightarrow> same_data a b \<Longrightarrow> data_rel s b"
  by (simp add: data_rel_def same_data_def)

lemma grant:
  assumes a: "bb_reach a" "pcs_rel r pp cp a" and j: "1 \<le> j" "j \<le> 7" "\<not> r j" "waits pp cp j = Some x"
    and t: "0 < tok a x"
  shows "\<exists>b. bb_reach b \<and> pcs_rel (r(j := True)) pp cp b \<and> same_data a b \<and> (\<forall>y. tok b y = tok a y - of_bool (y = x))"
proof (cases "is_producer j")
  case True
  note p = is_producerD [OF True]
  have pc: "prod a (j - 1) = pabs False (pp j)" using a(2) True j(3) by (simp add: pcs_rel_def)
  let ?b = "if x = TestEmpty then a\<lparr>n_empty := n_empty a - 1, prod := (prod a)(j - 1 := P_mutex)\<rparr>
     else a\<lparr>n_mutex := n_mutex a - 1, prod := (prod a)(j - 1 := Put)\<rparr>"
  have st: "spec_producer (j - 1) a = Some (Inr ?b) \<and> same_data a ?b \<and> (\<forall>y. tok ?b y = tok a y - of_bool (y = x)) \<and>
      prod ?b = (prod a)(j - 1 := pabs True (pp j)) \<and> cons ?b = cons a"
    using j(4) True pc t by (cases "pp j") (auto simp: waits_def spec_producer_def same_data_def tok_cases)
  then have "bb_reach ?b" using bb_reach.producer [OF a(1)] p by blast
  moreover have "pcs_rel (r(j := True)) (pp(j := pp j)) cp ?b"
    by (rule pcs_rel_p [OF a(2) True]) (use st in auto)
  ultimately show ?thesis using st by (metis fun_upd_triv)
next
  case False
  then have c: "is_consumer j" using test_thread j(1,2) by blast
  note p = is_consumerD [OF c]
  have pc: "cons a (j - 4) = cabs False (cp j)" using a(2) c j(3) by (simp add: pcs_rel_def)
  let ?b = "if x = TestFull then a\<lparr>n_full := n_full a - 1, cons := (cons a)(j - 4 := C_mutex)\<rparr>
     else a\<lparr>n_mutex := n_mutex a - 1, cons := (cons a)(j - 4 := Get)\<rparr>"
  have st: "spec_consumer (j - 4) a = Some (Inr ?b) \<and> same_data a ?b \<and> (\<forall>y. tok ?b y = tok a y - of_bool (y = x)) \<and>
      cons ?b = (cons a)(j - 4 := cabs True (cp j)) \<and> prod ?b = prod a"
    using j(4) False c pc t by (cases "cp j") (auto simp: waits_def spec_consumer_def same_data_def tok_cases)
  then have "bb_reach ?b" using bb_reach.consumer [OF a(1)] p by blast
  moreover have "pcs_rel (r(j := True)) pp (cp(j := cp j)) ?b"
    by (rule pcs_rel_c [OF a(2) c]) (use st in auto)
  ultimately show ?thesis using st by (metis fun_upd_triv)
qed

text \<open>
  \<open>V\<close>, when the specification has made its own step to \<open>a\<close>: a token more for \<open>x\<close>.
\<close>

lemma sim_V:
  assumes k: "kinv k (waits pp cp) H L" and x: "x \<in> tests" and a: "bb_reach a" "pcs_rel (rdy L) pp cp a"
    and t: "\<And>y. y \<in> tests \<Longrightarrow> tok a y = token k y + of_bool (y = x)"
  obtains k' L' b where "V_sem x k = Inr k'" and "kinv k' (waits pp cp) H L'" and "bb_reach b"
    and "pcs_rel (rdy L') pp cp b" and "\<And>y. y \<in> tests \<Longrightarrow> token k' y = tok b y" and "same_data a b"
proof -
  obtain k' where v: "V_sem x k = Inr k'" "kinv k' (waits pp cp) H (v_lists x L)" "token k' = v_token x L (token k)"
    by (rule kinv_V [OF k x])
  show thesis
  proof (cases "L (SemBlock x)")
    case Nil
    then show thesis using v a t
      by (intro that [of k' L a]) (auto simp: v_lists_def v_token_def same_data_def)
  next
    case (Cons d ds)
    obtain j where j: "1 \<le> j" "j \<le> 7" "d = PcbList j" "waits pp cp j = Some x"
      using kinvD(5) [OF k x, of d] by (auto simp: Cons)
    have nr: "\<not> rdy L j" using queued_not_ready [OF k x, of j] by (simp add: Cons j(3))
    have z: "token k x = 0"
      using proc_invD(4) [OF kinvD(1) [OF k]] kinvD(2) [OF k x] by (simp add: sem_inv_def Cons)
    then have "0 < tok a x" using t [OF x] by simp
    from grant [OF a j(1,2) nr j(4) this] obtain b where b: "bb_reach b" "pcs_rel ((rdy L)(j := True)) pp cp b"
      "same_data a b" "\<forall>y. tok b y = tok a y - of_bool (y = x)" by blast
    have "(rdy L)(j := True) = rdy (v_lists x L)" by (auto simp: v_lists_def moved_def Cons j(3) fun_eq_iff)
    with b v t Cons show thesis by (intro that [of k' "v_lists x L" b]) (auto simp: v_token_def)
  qed
qed

lemma rdy_blocked:
  assumes "kinv k w H L"
  shows "rdy (moved Ready (SemBlock x) (PcbList i) L) j \<longleftrightarrow> j \<noteq> i \<and> rdy L j"
  using rep_distinct [OF proc_invD(1) [OF kinvD(1) [OF assms]] lists_invD(1) [OF proc_invD(2) [OF kinvD(1) [OF assms]]]]
  by (auto simp: moved_def)

text \<open>\<open>P\<close> of a producer and of a consumer.\<close>

lemma waits_p: "is_producer i \<Longrightarrow> waits (pp(i := c)) cp = (waits pp cp)(i := pwait c)"
  by (auto simp: waits_def fun_eq_iff)

lemma waits_c: "is_consumer i \<Longrightarrow> waits pp (cp(i := c)) = (waits pp cp)(i := cwait c)"
  by (auto simp: waits_def fun_eq_iff dest: is_consumerD)

lemma waits_at:
  "is_producer i \<Longrightarrow> waits pp cp i = pwait (pp i)" "is_consumer i \<Longrightarrow> waits pp cp i = cwait (cp i)"
  by (auto simp: waits_def dest: is_consumerD)

lemma sim_P_producer:
  assumes s: "sim s H L a" and i: "is_producer i" "rdy L i" "current (ker s) = PcbList i"
    and pc: "(x, ppc s i, inside, after) \<in> {(TestEmpty, At_P_empty, In_P_empty, At_P_mutex), (TestMutex, At_P_mutex, In_P_mutex, At_print)}"
  shows "\<exists>t L a. P_stmt x (\<lambda>on. goto_p i (if on then after else inside)) s = Inr t \<and> sim t H L a"
proof (cases "token (ker s) x > 0")
  case True
  have x: "x \<in> tests" using pc by auto
  note p = is_producerD [OF i(1)]
  have ap: "prod a (i - 1) = pabs True (ppc s i)" using simD(4) [OF s] i(1,2) by (simp add: pcs_rel_def)
  obtain k where k: "P_sem x (ker s) = Inr (Returned k)" "kinv k (waits (ppc s) (cpc s)) H L"
    "token k = (token (ker s))(x := token (ker s) x - 1)"
    by (rule kinv_P_returns [OF simD(1) [OF s] x True])
  let ?b = "if x = TestEmpty then a\<lparr>n_empty := n_empty a - 1, prod := (prod a)(i - 1 := P_mutex)\<rparr>
     else a\<lparr>n_mutex := n_mutex a - 1, prod := (prod a)(i - 1 := Put)\<rparr>"
  have "spec_producer (i - 1) a = Some (Inr ?b)"
    using pc ap True simD(3) [OF s x] by (auto simp: spec_producer_def)
  then have "bb_reach ?b" using bb_reach.producer [OF simD(2) [OF s]] p by blast
  moreover have "pcs_rel (rdy L) ((ppc s)(i := after)) (cpc s) ?b"
    by (rule pcs_rel_p [OF simD(4) [OF s] i(1)]) (use pc in auto)
  moreover have "waits ((ppc s)(i := after)) (cpc s) = waits (ppc s) (cpc s)"
    using pc waits_at(1) [OF i(1), of "ppc s" "cpc s"] by (auto simp: waits_p [OF i(1)] fun_upd_idem_iff)
  moreover have "\<forall>y\<in>tests. token k y = tok ?b y" using k(3) simD(3) [OF s] pc by (auto simp: tok_cases)
  ultimately have "sim (s\<lparr>ker := k, ppc := (ppc s)(i := after)\<rparr>) H L ?b"
    using k(2) simD(5) [OF s] by (simp add: sim_def data_rel_def)
  with k(1) show ?thesis by (auto simp: P_stmt_def goto_p_def)
next
  case False
  have x: "x \<in> tests" using pc by auto
  note p = is_producerD [OF i(1)]
  have w: "waits (ppc s) (cpc s) i = None" using pc waits_at(1) [OF i(1)] by auto
  obtain k where k: "P_sem x (ker s) = Inr (Trapped k)" "token k = token (ker s)"
    "kinv k ((waits (ppc s) (cpc s))(i := Some x)) H (moved Ready (SemBlock x) (PcbList i) L)"
    using kinv_P_blocks [OF simD(1) [OF s] x False i(3,2) _ _ w] p by metis
  have "pcs_rel (rdy (moved Ready (SemBlock x) (PcbList i) L)) ((ppc s)(i := inside)) (cpc s) a"
    by (rule pcs_rel_p [OF simD(4) [OF s] i(1)])
      (use pc i(1,2) simD(4) [OF s] rdy_blocked [OF simD(1) [OF s]] in \<open>auto simp: pcs_rel_def fun_upd_idem_iff\<close>)
  moreover have "waits ((ppc s)(i := inside)) (cpc s) = (waits (ppc s) (cpc s))(i := Some x)"
    using pc by (auto simp: waits_p [OF i(1)])
  ultimately have "sim (s\<lparr>ker := k, ppc := (ppc s)(i := inside)\<rparr>) H (moved Ready (SemBlock x) (PcbList i) L) a"
    using k(2,3) simD(2,3,5) [OF s] by (simp add: sim_def data_rel_def)
  with k(1) show ?thesis by (auto simp: P_stmt_def goto_p_def)
qed

lemma sim_P_consumer:
  assumes s: "sim s H L a" and i: "is_consumer i" "rdy L i" "current (ker s) = PcbList i"
    and pc: "(x, cpc s i, inside, after) \<in> {(TestFull, At_P_full, In_P_full, At_CP_mutex), (TestMutex, At_CP_mutex, In_CP_mutex, At_get)}"
  shows "\<exists>t L a. P_stmt x (\<lambda>on. goto_c i (if on then after else inside)) s = Inr t \<and> sim t H L a"
proof (cases "token (ker s) x > 0")
  case True
  have x: "x \<in> tests" using pc by auto
  note p = is_consumerD [OF i(1)]
  have ap: "cons a (i - 4) = cabs True (cpc s i)" using simD(4) [OF s] i(1,2) by (simp add: pcs_rel_def)
  obtain k where k: "P_sem x (ker s) = Inr (Returned k)" "kinv k (waits (ppc s) (cpc s)) H L"
    "token k = (token (ker s))(x := token (ker s) x - 1)"
    by (rule kinv_P_returns [OF simD(1) [OF s] x True])
  let ?b = "if x = TestFull then a\<lparr>n_full := n_full a - 1, cons := (cons a)(i - 4 := C_mutex)\<rparr>
     else a\<lparr>n_mutex := n_mutex a - 1, cons := (cons a)(i - 4 := Get)\<rparr>"
  have "spec_consumer (i - 4) a = Some (Inr ?b)"
    using pc ap True simD(3) [OF s x] by (auto simp: spec_consumer_def)
  then have "bb_reach ?b" using bb_reach.consumer [OF simD(2) [OF s]] p by blast
  moreover have "pcs_rel (rdy L) (ppc s) ((cpc s)(i := after)) ?b"
    by (rule pcs_rel_c [OF simD(4) [OF s] i(1)]) (use pc in auto)
  moreover have "waits (ppc s) ((cpc s)(i := after)) = waits (ppc s) (cpc s)"
    using pc waits_at(2) [OF i(1), of "ppc s" "cpc s"] by (auto simp: waits_c [OF i(1)] fun_upd_idem_iff)
  moreover have "\<forall>y\<in>tests. token k y = tok ?b y" using k(3) simD(3) [OF s] pc by (auto simp: tok_cases)
  ultimately have "sim (s\<lparr>ker := k, cpc := (cpc s)(i := after)\<rparr>) H L ?b"
    using k(2) simD(5) [OF s] by (simp add: sim_def data_rel_def)
  with k(1) show ?thesis by (auto simp: P_stmt_def goto_c_def)
next
  case False
  have x: "x \<in> tests" using pc by auto
  note p = is_consumerD [OF i(1)]
  have w: "waits (ppc s) (cpc s) i = None" using pc waits_at(2) [OF i(1)] by auto
  obtain k where k: "P_sem x (ker s) = Inr (Trapped k)" "token k = token (ker s)"
    "kinv k ((waits (ppc s) (cpc s))(i := Some x)) H (moved Ready (SemBlock x) (PcbList i) L)"
    using kinv_P_blocks [OF simD(1) [OF s] x False i(3,2) _ _ w] p by metis
  have "pcs_rel (rdy (moved Ready (SemBlock x) (PcbList i) L)) (ppc s) ((cpc s)(i := inside)) a"
    by (rule pcs_rel_c [OF simD(4) [OF s] i(1)])
      (use pc i(1,2) simD(4) [OF s] rdy_blocked [OF simD(1) [OF s]] in \<open>auto simp: pcs_rel_def fun_upd_idem_iff\<close>)
  moreover have "waits (ppc s) ((cpc s)(i := inside)) = (waits (ppc s) (cpc s))(i := Some x)"
    using pc by (auto simp: waits_c [OF i(1)])
  ultimately have "sim (s\<lparr>ker := k, cpc := (cpc s)(i := inside)\<rparr>) H (moved Ready (SemBlock x) (PcbList i) L) a"
    using k(2,3) simD(2,3,5) [OF s] by (simp add: sim_def data_rel_def)
  with k(1) show ?thesis by (auto simp: P_stmt_def goto_c_def)
qed

lemma sim_resume_producer:
  assumes s: "sim s H L a" and i: "is_producer i" "rdy L i" "current (ker s) = PcbList i"
    and pc: "(ppc s i, after) \<in> {(In_P_empty, At_P_mutex), (In_P_mutex, At_print)}"
  shows "sim (goto_p i after (s\<lparr>ker := P_resume (ker s)\<rparr>)) H L a"
proof -
  have "waits (ppc s) (cpc s) i \<noteq> None" using pc waits_at(1) [OF i(1)] by auto
  note r = kinv_P_resumes [OF simD(1) [OF s] i(3,2) _ _ this]
  have "pcs_rel (rdy L) ((ppc s)(i := after)) (cpc s) a"
    by (rule pcs_rel_p [OF simD(4) [OF s] i(1)])
      (use pc i(1,2) simD(4) [OF s] in \<open>auto simp: pcs_rel_def fun_upd_idem_iff\<close>)
  moreover have "waits ((ppc s)(i := after)) (cpc s) = (waits (ppc s) (cpc s))(i := None)"
    using pc by (auto simp: waits_p [OF i(1)])
  ultimately show ?thesis
    using r is_producerD [OF i(1)] simD(2,3,5) [OF s] by (simp add: sim_def data_rel_def goto_p_def)
qed

lemma sim_resume_consumer:
  assumes s: "sim s H L a" and i: "is_consumer i" "rdy L i" "current (ker s) = PcbList i"
    and pc: "(cpc s i, after) \<in> {(In_P_full, At_CP_mutex), (In_CP_mutex, At_get)}"
  shows "sim (goto_c i after (s\<lparr>ker := P_resume (ker s)\<rparr>)) H L a"
proof -
  have "waits (ppc s) (cpc s) i \<noteq> None" using pc waits_at(2) [OF i(1)] by auto
  note r = kinv_P_resumes [OF simD(1) [OF s] i(3,2) _ _ this]
  have "pcs_rel (rdy L) (ppc s) ((cpc s)(i := after)) a"
    by (rule pcs_rel_c [OF simD(4) [OF s] i(1)])
      (use pc i(1,2) simD(4) [OF s] in \<open>auto simp: pcs_rel_def fun_upd_idem_iff\<close>)
  moreover have "waits (ppc s) ((cpc s)(i := after)) = (waits (ppc s) (cpc s))(i := None)"
    using pc by (auto simp: waits_c [OF i(1)])
  ultimately show ?thesis
    using r is_consumerD [OF i(1)] simD(2,3,5) [OF s] by (simp add: sim_def data_rel_def goto_c_def)
qed

text \<open>
  The steps that the specification takes at the same time: \<open>V\<close> and the statements that
  work on the buffer.
\<close>

lemma sim_V_producer:
  assumes s: "sim s H L a" and i: "is_producer i" "rdy L i"
    and pc: "(x, ppc s i, after) \<in> {(TestMutex, At_V_mutex, At_V_full), (TestFull, At_V_full, At_P_empty)}"
  shows "\<exists>k L b. V_sem x (ker s) = Inr k \<and> sim (goto_p i after (s\<lparr>ker := k\<rparr>)) H L b"
proof -
  have ap: "prod a (i - 1) = pabs True (ppc s i)" using simD(4) [OF s] i by (simp add: pcs_rel_def)
  let ?b = "if x = TestMutex then a\<lparr>n_mutex := n_mutex a + 1, prod := (prod a)(i - 1 := V_full)\<rparr>
     else a\<lparr>n_full := n_full a + 1, prod := (prod a)(i - 1 := P_empty)\<rparr>"
  have "spec_producer (i - 1) a = Some (Inr ?b)" using pc ap by (auto simp: spec_producer_def)
  then have b: "bb_reach ?b" using bb_reach.producer [OF simD(2) [OF s]] is_producerD [OF i(1)] by blast
  have q: "pcs_rel (rdy L) ((ppc s)(i := after)) (cpc s) ?b"
    by (rule pcs_rel_p [OF simD(4) [OF s] i(1)]) (use pc in auto)
  have w: "waits ((ppc s)(i := after)) (cpc s) = waits (ppc s) (cpc s)"
    using pc waits_at(1) [OF i(1), of "ppc s" "cpc s"] by (auto simp: waits_p [OF i(1)] fun_upd_idem_iff)
  have x: "x \<in> tests" and t: "\<And>y. y \<in> tests \<Longrightarrow> tok ?b y = token (ker s) y + of_bool (y = x)"
    using pc simD(3) [OF s] by (auto simp: tok_cases)
  obtain k L' c where v: "V_sem x (ker s) = Inr k" "kinv k (waits ((ppc s)(i := after)) (cpc s)) H L'" "bb_reach c"
    "pcs_rel (rdy L') ((ppc s)(i := after)) (cpc s) c" "\<And>y. y \<in> tests \<Longrightarrow> token k y = tok c y" "same_data ?b c"
    using sim_V [OF simD(1) [OF s, folded w] x b q t] by metis
  have "same_data a c" using v(6) by (auto simp: same_data_def split: if_splits)
  then have "data_rel (goto_p i after (s\<lparr>ker := k\<rparr>)) c"
    using simD(5) [OF s] by (simp add: goto_p_def data_rel_def same_data_def)
  with v show ?thesis by (auto simp: sim_def goto_p_def)
qed

lemma sim_V_consumer:
  assumes s: "sim s H L a" and i: "is_consumer i" "rdy L i"
    and pc: "(x, cpc s i, after) \<in> {(TestMutex, At_CV_mutex, At_V_empty), (TestEmpty, At_V_empty, At_P_full)}"
  shows "\<exists>k L b. V_sem x (ker s) = Inr k \<and> sim (goto_c i after (s\<lparr>ker := k\<rparr>)) H L b"
proof -
  have ap: "cons a (i - 4) = cabs True (cpc s i)" using simD(4) [OF s] i by (simp add: pcs_rel_def)
  let ?b = "if x = TestMutex then a\<lparr>n_mutex := n_mutex a + 1, cons := (cons a)(i - 4 := CV_empty)\<rparr>
     else a\<lparr>n_empty := n_empty a + 1, cons := (cons a)(i - 4 := C_full)\<rparr>"
  have "spec_consumer (i - 4) a = Some (Inr ?b)" using pc ap by (auto simp: spec_consumer_def)
  then have b: "bb_reach ?b" using bb_reach.consumer [OF simD(2) [OF s]] is_consumerD [OF i(1)] by blast
  have q: "pcs_rel (rdy L) (ppc s) ((cpc s)(i := after)) ?b"
    by (rule pcs_rel_c [OF simD(4) [OF s] i(1)]) (use pc in auto)
  have w: "waits (ppc s) ((cpc s)(i := after)) = waits (ppc s) (cpc s)"
    using pc waits_at(2) [OF i(1), of "ppc s" "cpc s"] by (auto simp: waits_c [OF i(1)] fun_upd_idem_iff)
  have x: "x \<in> tests" and t: "\<And>y. y \<in> tests \<Longrightarrow> tok ?b y = token (ker s) y + of_bool (y = x)"
    using pc simD(3) [OF s] by (auto simp: tok_cases)
  obtain k L' c where v: "V_sem x (ker s) = Inr k" "kinv k (waits (ppc s) ((cpc s)(i := after))) H L'" "bb_reach c"
    "pcs_rel (rdy L') (ppc s) ((cpc s)(i := after)) c" "\<And>y. y \<in> tests \<Longrightarrow> token k y = tok c y" "same_data ?b c"
    using sim_V [OF simD(1) [OF s, folded w] x b q t] by metis
  have "same_data a c" using v(6) by (auto simp: same_data_def split: if_splits)
  then have "data_rel (goto_c i after (s\<lparr>ker := k\<rparr>)) c"
    using simD(5) [OF s] by (simp add: goto_c_def data_rel_def same_data_def)
  with v show ?thesis by (auto simp: sim_def goto_c_def)
qed

lemma sim_local_producer:
  assumes s: "sim s H L a" and i: "is_producer i" "rdy L i" and w: "pwait (ppc s i) = None" "pwait c = None"
    and b: "bb_reach b" "prod b = (prod a)(i - 1 := pabs True c)" "cons b = cons a" "tok b = tok a"
    and t: "ker t = ker s" "ppc t = (ppc s)(i := c)" "cpc t = cpc s" "data_rel t b"
  shows "sim t H L b"
proof -
  have "waits ((ppc s)(i := c)) (cpc s) = waits (ppc s) (cpc s)"
    using w waits_at(1) [OF i(1), of "ppc s" "cpc s"] by (simp add: waits_p [OF i(1)] fun_upd_idem_iff)
  moreover have "pcs_rel (rdy L) ((ppc s)(i := c)) (cpc s) b"
    by (rule pcs_rel_p [OF simD(4) [OF s] i(1)]) (use b i(2) in auto)
  ultimately show ?thesis using simD(1,3) [OF s] b t by (simp add: sim_def)
qed

lemma sim_local_consumer:
  assumes s: "sim s H L a" and i: "is_consumer i" "rdy L i" and w: "cwait (cpc s i) = None" "cwait c = None"
    and b: "bb_reach b" "cons b = (cons a)(i - 4 := cabs True c)" "prod b = prod a" "tok b = tok a"
    and t: "ker t = ker s" "cpc t = (cpc s)(i := c)" "ppc t = ppc s" "data_rel t b"
  shows "sim t H L b"
proof -
  have "waits (ppc s) ((cpc s)(i := c)) = waits (ppc s) (cpc s)"
    using w waits_at(2) [OF i(1), of "ppc s" "cpc s"] by (simp add: waits_c [OF i(1)] fun_upd_idem_iff)
  moreover have "pcs_rel (rdy L) (ppc s) ((cpc s)(i := c)) b"
    by (rule pcs_rel_c [OF simD(4) [OF s] i(1)]) (use b i(2) in auto)
  ultimately show ?thesis using simD(1,3) [OF s] b t by (simp add: sim_def)
qed

lemma index_range:
  assumes "bb_reach a"
  shows "0 \<le> in_f a" "in_f a \<le> 5" "0 \<le> out_r a" "out_r a \<le> 5" "length (buffer a) = 5"
  using bb_in [OF bb_reach_inv [OF assms]] bb_out [OF bb_reach_inv [OF assms]] bb_len [OF bb_reach_inv [OF assms]]
    pos_mod_bound [of 5 "next_g a - 1"] pos_mod_bound [of 5 "next_g a - 2"] pos_mod_bound [of 5 "taken a"]
    pos_mod_bound [of 5 "taken a - 1"] pos_mod_sign [of 5 "next_g a - 1"] pos_mod_sign [of 5 "next_g a - 2"]
    pos_mod_sign [of 5 "taken a"] pos_mod_sign [of 5 "taken a - 1"]
  by (auto simp del: pos_mod_bound pos_mod_sign split: if_splits)

lemma sint_index: "0 \<le> x \<Longrightarrow> x \<le> 5 \<Longrightarrow> sint (word_of_int x :: u32) = x"
  by (simp add: sint_sbintrunc' signed_take_bit_int_eq_self)

lemma tok_same: "n_empty b = n_empty a \<Longrightarrow> n_full b = n_full a \<Longrightarrow> n_mutex b = n_mutex a \<Longrightarrow> tok b = tok a"
  by (simp add: tok_cases fun_eq_iff)

lemma sim_buffer_producer:
  assumes s: "sim s H L a" and i: "is_producer i" "rdy L i"
    and pc: "ppc s i \<in> {At_print, At_put, At_wrap_f}"
  shows "\<exists>t a. test_producer i s = Inr t \<and> sim t H L a"
proof -
  note p = is_producerD [OF i(1)] and r = index_range [OF simD(2) [OF s]] and d = simD(5) [OF s, unfolded data_rel_def]
  have ap: "prod a (i - 1) = pabs True (ppc s i)" using simD(4) [OF s] i by (simp add: pcs_rel_def)
  have step: "\<exists>t b. test_producer i s = Inr t \<and> sim t H L b"
    if "spec_producer (i - 1) a = Some (Inr b)" "test_producer i s = Inr t" "prod b = (prod a)(i - 1 := pabs True c)"
      "cons b = cons a" "tok b = tok a" "ker t = ker s" "ppc t = (ppc s)(i := c)" "cpc t = cpc s" "data_rel t b" "pwait c = None" for b t c
    using that pc p bb_reach.producer [OF simD(2) [OF s]]
    by (intro exI [of _ t] exI [of _ b] conjI sim_local_producer [OF s i, of c]) auto
  consider "ppc s i = At_print" | "ppc s i = At_put" | "ppc s i = At_wrap_f" using pc by blast
  then show ?thesis
  proof cases
    case 1
    let ?t = "goto_p i At_put (if cmod (sint (g_g s)) 10000 = 0 then s\<lparr>screen := screen s @ ''.''\<rparr> else s)"
    have "sim ?t H L a"
      by (rule sim_local_producer [OF s i, of At_put])
        (use 1 ap simD(2,5) [OF s] in \<open>auto simp: goto_p_def data_rel_def fun_upd_idem_iff\<close>)
    then show ?thesis using 1 by (auto simp: test_producer_def)
  next
    case 2
    then have sp: "in_f a < 5" using put_inv(2) [OF bb_reach_inv [OF simD(2) [OF s]], of "i - 1"] ap p by simp
    have ix: "buf_index (g_f s) s = Inr (nat (in_f a))" using d r sp by (simp add: buf_index_def sint_index)
    let ?t = "goto_p i At_wrap_f (s\<lparr>g_buf := (g_buf s)[nat (in_f a) := g_g s], g_f := g_f s + 1, g_g := g_g s + 1\<rparr>)"
    let ?b = "a\<lparr>buffer := (buffer a)[nat (in_f a) := next_g a], in_f := in_f a + 1, next_g := next_g a + 1, prod := (prod a)(i - 1 := Wrap_f)\<rparr>"
    show ?thesis
      by (rule step [of ?b ?t At_wrap_f])
        (use 2 ap d r sp ix in \<open>auto simp: spec_producer_def test_producer_def goto_p_def data_rel_def map_update intro: tok_same\<close>)
  next
    case 3
    let ?t = "goto_p i At_V_mutex (s\<lparr>g_f := word_of_int (cmod (in_f a) NBUF)\<rparr>)"
    let ?b = "a\<lparr>in_f := cmod (in_f a) NBUF, prod := (prod a)(i - 1 := V_mutex)\<rparr>"
    show ?thesis
      by (rule step [of ?b ?t At_V_mutex])
        (use 3 ap d r in \<open>auto simp: spec_producer_def test_producer_def goto_p_def data_rel_def sint_index intro: tok_same\<close>)
  qed
qed

lemma sim_buffer_consumer:
  assumes s: "sim s H L a" and i: "is_consumer i" "rdy L i"
    and pc: "cpc s i \<in> {At_get, At_assert, At_last, At_wrap_r}"
  shows "\<exists>t a. test_consumer i s = Inr t \<and> sim t H L a"
proof -
  note p = is_consumerD [OF i(1)] and r = index_range [OF simD(2) [OF s]] and d = simD(5) [OF s, unfolded data_rel_def]
  note inv = bb_reach_inv [OF simD(2) [OF s]]
  have ap: "cons a (i - 4) = cabs True (cpc s i)" using simD(4) [OF s] i by (simp add: pcs_rel_def)
  have step: "\<exists>t b. test_consumer i s = Inr t \<and> sim t H L b"
    if "spec_consumer (i - 4) a = Some (Inr b)" "test_consumer i s = Inr t" "cons b = (cons a)(i - 4 := cabs True c)"
      "prod b = prod a" "tok b = tok a" "ker t = ker s" "cpc t = (cpc s)(i := c)" "ppc t = ppc s" "data_rel t b" "cwait c = None" for b t c
    using that pc p bb_reach.consumer [OF simD(2) [OF s]]
    by (intro exI [of _ t] exI [of _ b] conjI sim_local_consumer [OF s i, of c]) auto
  have inj: "j - 4 = i - 4 \<longleftrightarrow> j = i" if "is_consumer j" for j using that i(1) by (auto simp: thread_defs)
  consider "cpc s i = At_get" | "cpc s i = At_assert" | "cpc s i = At_last" | "cpc s i = At_wrap_r" using pc by blast
  then show ?thesis
  proof cases
    case 1
    then have sp: "out_r a < 5" using get_inv(2) [OF inv, of "i - 4"] ap p by simp
    have ix: "buf_index (g_r s) s = Inr (nat (out_r a))" using d r sp by (simp add: buf_index_def sint_index)
    let ?t = "goto_c i At_assert (s\<lparr>g_get := (g_get s)(i := g_buf s ! nat (out_r a)), g_r := g_r s + 1\<rparr>)"
    let ?b = "a\<lparr>get_v := (get_v a)(i - 4 := buffer a ! nat (out_r a)), out_r := out_r a + 1, cons := (cons a)(i - 4 := Check)\<rparr>"
    show ?thesis
      by (rule step [of ?b ?t At_assert])
        (use 1 ap d r sp ix inj in \<open>auto simp: spec_consumer_def test_consumer_def goto_c_def data_rel_def intro: tok_same\<close>)
  next
    case 2
    then have l: "last_v a = get_v a (i - 4) - 1" using check_inv(1) [OF inv, of "i - 4"] ap p by simp
    then have "g_last s = g_get s i - 1" using d i(1) by simp
    then show ?thesis using 2 ap d l
      by (intro step [of "a\<lparr>cons := (cons a)(i - 4 := Set_last)\<rparr>" "goto_c i At_last s" At_last])
        (auto simp: spec_consumer_def test_consumer_def goto_c_def data_rel_def intro: tok_same)
  next
    case 3
    show ?thesis
      by (rule step [of "a\<lparr>last_v := get_v a (i - 4), cons := (cons a)(i - 4 := Wrap_r)\<rparr>"
            "goto_c i At_wrap_r (s\<lparr>g_last := g_get s i\<rparr>)" At_wrap_r])
        (use 3 ap d i(1) in \<open>auto simp: spec_consumer_def test_consumer_def goto_c_def data_rel_def intro: tok_same\<close>)
  next
    case 4
    show ?thesis
      by (rule step [of "a\<lparr>out_r := cmod (out_r a) NBUF, cons := (cons a)(i - 4 := CV_mutex)\<rparr>"
            "goto_c i At_CV_mutex (s\<lparr>g_r := word_of_int (cmod (out_r a) NBUF)\<rparr>)" At_CV_mutex])
        (use 4 ap d r in \<open>auto simp: spec_consumer_def test_consumer_def goto_c_def data_rel_def sint_index intro: tok_same\<close>)
  qed
qed

lemma sim_producer:
  assumes s: "sim s H L a" and i: "is_producer i" "has_cpu i s"
  shows "\<exists>t L a. test_producer i s = Inr t \<and> sim t H L a"
proof -
  have r: "rdy L i" "current (ker s) = PcbList i"
    using cpu_ready [OF simD(1) [OF s] i(2)] is_producerD [OF i(1)] by simp_all
  note P = sim_P_producer [OF s i(1) r] and R = sim_resume_producer [OF s i(1) r]
    and V = sim_V_producer [OF s i(1) r(1)] and B = sim_buffer_producer [OF s i(1) r(1)]
  show ?thesis
  proof (cases "ppc s i")
    case At_P_empty
    then show ?thesis using P [of TestEmpty In_P_empty At_P_mutex] by (simp add: test_producer_def)
  next
    case In_P_empty
    then show ?thesis using R [of At_P_mutex] by (auto simp: test_producer_def)
  next
    case At_P_mutex
    then show ?thesis using P [of TestMutex In_P_mutex At_print] by (simp add: test_producer_def)
  next
    case In_P_mutex
    then show ?thesis using R [of At_print] by (auto simp: test_producer_def)
  next
    case At_V_mutex
    then show ?thesis using V [of TestMutex At_V_full] by (fastforce simp: test_producer_def)
  next
    case At_V_full
    then show ?thesis using V [of TestFull At_P_empty] by (fastforce simp: test_producer_def)
  qed (use B in blast)+
qed

lemma sim_consumer:
  assumes s: "sim s H L a" and i: "is_consumer i" "has_cpu i s"
  shows "\<exists>t L a. test_consumer i s = Inr t \<and> sim t H L a"
proof -
  have r: "rdy L i" "current (ker s) = PcbList i"
    using cpu_ready [OF simD(1) [OF s] i(2)] is_consumerD [OF i(1)] by simp_all
  note P = sim_P_consumer [OF s i(1) r] and R = sim_resume_consumer [OF s i(1) r]
    and V = sim_V_consumer [OF s i(1) r(1)] and B = sim_buffer_consumer [OF s i(1) r(1)]
  show ?thesis
  proof (cases "cpc s i")
    case At_P_full
    then show ?thesis using P [of TestFull In_P_full At_CP_mutex] by (simp add: test_consumer_def)
  next
    case In_P_full
    then show ?thesis using R [of At_CP_mutex] by (auto simp: test_consumer_def)
  next
    case At_CP_mutex
    then show ?thesis using P [of TestMutex In_CP_mutex At_get] by (simp add: test_consumer_def)
  next
    case In_CP_mutex
    then show ?thesis using R [of At_get] by (auto simp: test_consumer_def)
  next
    case At_CV_mutex
    then show ?thesis using V [of TestMutex At_V_empty] by (fastforce simp: test_consumer_def)
  next
    case At_V_empty
    then show ?thesis using V [of TestEmpty At_P_full] by (fastforce simp: test_consumer_def)
  qed (use B in blast)+
qed

lemma sim_preempt:
  assumes s: "sim s H L a"
  shows "\<exists>k. preempt frame s = Inr (s\<lparr>ker := k\<rparr>) \<and> sim (s\<lparr>ker := k\<rparr>) H L a \<and>
    current k = sched_choice (L Ready) (current (ker s))"
proof -
  obtain k where k: "preempt frame s = Inr (s\<lparr>ker := k\<rparr>)" "kinv k (waits (ppc s) (cpc s)) H L" "token k = token (ker s)"
    "current k = sched_choice (L Ready) (current (ker s))" by (rule kinv_preempt [OF simD(1) [OF s]])
  then show ?thesis using simD(2-5) [OF s] by (intro exI [of _ k]) (simp add: sim_def data_rel_def)
qed

section \<open>The start\<close>

lemma wakeup_locked: "wakeup p k = Inr k' \<Longrightarrow> locked (pcb_pool k' j) = locked (pcb_pool k j)"
  unfolding wakeup_def Let_def set_stat_def
  by (auto simp: bindR_Inr_iff kdefs split: if_splits)

lemma create_test_sem:
  assumes inv: "proc_inv k H L" and x: "x \<in> tests" "SemBlock x \<notin> H" and v: "0 \<le> v"
  obtains k' where "create_sem x v k = Inr k'" and "proc_inv k' (insert (SemBlock x) H) (L(SemBlock x := []))"
    and "k' = k\<lparr>heap := self_link (SemBlock x) (heap k), token := (token k)(x := v), intr := relock k\<rparr>"
proof -
  note li = proc_invD(2) [OF inv]
  have nm: "\<And>i. x \<noteq> MsgSem i" using x(1) by (auto simp: tests_def)
  have "is_node d" if "l \<in> H" "d \<in> set (L l)" for l d
  proof (cases "is_pqueue l")
    case True
    then show ?thesis using lists_invD(5) [OF li that(1) _ that(2)] by (auto elim: threadsE)
  next
    case False
    then have "set (L l) \<subseteq> Collect is_node - range PcbList" using li that(1) unfolding lists_inv_def by blast
    then show ?thesis using that(2) by blast
  qed
  then have "SemBlock x \<notin> linked H L" using x(2) by (fastforce simp: linked_def)
  from rep_init [OF proc_invD(1) [OF inv] this]
  have "rep (self_link (SemBlock x) (heap k)) (insert (SemBlock x) H) (L(SemBlock x := []))" .
  moreover have "linked H (L(SemBlock x := [])) = linked H L"
    unfolding linked_def using x(2) by (intro SUP_cong) auto
  then have "linked (insert (SemBlock x) H) (L(SemBlock x := [])) = insert (SemBlock x) (linked H L)"
    by (simp add: linked_def)
  then have "lists_inv (insert (SemBlock x) H) (L(SemBlock x := []))"
    using li nm unfolding lists_inv_def by auto
  ultimately have "proc_inv (k\<lparr>heap := self_link (SemBlock x) (heap k), token := (token k)(x := v), intr := relock k\<rparr>)
      (insert (SemBlock x) H) (L(SemBlock x := []))"
    using inv v x(2) by (auto simp: proc_inv_def stat_inv_def sem_inv_def current_inv_def)
  then show thesis by (intro that) (simp_all add: create_sem_eq)
qed

text \<open>The kernel when \<open>n\<close> of the test threads have been started.\<close>

definition started :: "nat \<Rightarrow> kcore \<Rightarrow> bool" where
  "started n k \<longleftrightarrow> (\<exists>H L. proc_inv k H L \<and> SemBlock ` tests \<subseteq> H \<and> (\<forall>x\<in>tests. L (SemBlock x) = []) \<and>
     L Ready = map PcbList [1..<Suc n] \<and> L Free = map PcbList [Suc n..<PCB_POOL_SIZE] \<and>
     current k = idle \<and> lock_count k = 0 \<and> (\<forall>i. 1 \<le> i \<and> i \<le> n \<longrightarrow> locked (pcb_pool k i) = 0) \<and>
     token k TestEmpty = NBUF \<and> token k TestFull = 0 \<and> token k TestMutex = 1)"

lemma started_sems:
  assumes "proc_inv k boot_heads boot_lists" and "current k = idle" and "lock_count k = 0"
  shows "\<exists>k'. bindR (create_sem TestFull 0 k) (\<lambda>k. bindR (create_sem TestEmpty NBUF k) (create_sem TestMutex 1)) = Inr k' \<and>
    started 0 k'"
proof -
  obtain k1 where k1: "create_sem TestFull 0 k = Inr k1"
    "proc_inv k1 (insert (SemBlock TestFull) boot_heads) (boot_lists(SemBlock TestFull := []))"
    "k1 = k\<lparr>heap := self_link (SemBlock TestFull) (heap k), token := (token k)(TestFull := 0), intr := relock k\<rparr>"
    by (rule create_test_sem [OF assms(1), of TestFull 0]) (simp_all add: boot_heads_def)
  obtain k2 where k2: "create_sem TestEmpty NBUF k1 = Inr k2"
    "proc_inv k2 (insert (SemBlock TestEmpty) (insert (SemBlock TestFull) boot_heads))
       (boot_lists(SemBlock TestFull := [], SemBlock TestEmpty := []))"
    "k2 = k1\<lparr>heap := self_link (SemBlock TestEmpty) (heap k1), token := (token k1)(TestEmpty := NBUF), intr := relock k1\<rparr>"
    by (rule create_test_sem [OF k1(2), of TestEmpty NBUF]) (simp_all add: boot_heads_def NBUF_def)
  obtain k3 where k3: "create_sem TestMutex 1 k2 = Inr k3"
    "proc_inv k3 (insert (SemBlock TestMutex) (insert (SemBlock TestEmpty) (insert (SemBlock TestFull) boot_heads)))
       (boot_lists(SemBlock TestFull := [], SemBlock TestEmpty := [], SemBlock TestMutex := []))"
    "k3 = k2\<lparr>heap := self_link (SemBlock TestMutex) (heap k2), token := (token k2)(TestMutex := 1), intr := relock k2\<rparr>"
    by (rule create_test_sem [OF k2(2), of TestMutex 1]) (simp_all add: boot_heads_def)
  let ?H = "insert (SemBlock TestMutex) (insert (SemBlock TestEmpty) (insert (SemBlock TestFull) boot_heads))"
    and ?L = "boot_lists(SemBlock TestFull := [], SemBlock TestEmpty := [], SemBlock TestMutex := [])"
  have "SemBlock ` tests \<subseteq> ?H" "\<forall>x\<in>tests. ?L (SemBlock x) = []" by (auto simp: tests_def)
  moreover have "?L Free = map PcbList [Suc 0..<PCB_POOL_SIZE]" by (simp add: boot_lists_def)
  moreover have "current k3 = idle" "lock_count k3 = 0" "token k3 TestEmpty = NBUF" "token k3 TestFull = 0" "token k3 TestMutex = 1"
    using assms(2,3) by (simp_all add: k3(3) k2(3) k1(3))
  ultimately have "started 0 k3" unfolding started_def
    using k3(2) by (intro exI [of _ ?H] exI [of _ ?L]) simp
  then show ?thesis using k1(1) k2(1) k3(1) by simp
qed

lemma started_thread:
  assumes "started n k" and n: "n < 7"
  shows "\<exists>k'. start_thread f args j k = Inr k' \<and> started (Suc n) k'"
proof -
  obtain H L where inv: "proc_inv k H L" and H: "SemBlock ` tests \<subseteq> H" "\<forall>x\<in>tests. L (SemBlock x) = []"
    and L: "L Ready = map PcbList [1..<Suc n]" "L Free = map PcbList [Suc n..<PCB_POOL_SIZE]"
    and c: "current k = idle" "lock_count k = 0" "\<forall>i. 1 \<le> i \<and> i \<le> n \<longrightarrow> locked (pcb_pool k i) = 0"
    and tk: "token k TestEmpty = NBUF" "token k TestFull = 0" "token k TestMutex = 1"
    using assms(1) unfolding started_def by blast
  have fr: "L Free = PcbList (Suc n) # map PcbList [Suc (Suc n)..<PCB_POOL_SIZE]"
  proof -
    have "Suc n < PCB_POOL_SIZE" using n by (simp add: PCB_POOL_SIZE_def)
    then show ?thesis unfolding L(2) by (simp only: upt_conv_Cons list.map)
  qed
  obtain k1 where k1: "create_kthread f args k = Inr (Suc n, k1)"
    and "k1 = k\<lparr>
      heap := self_link (SemBlock (MsgSem (Suc n))) (self_link (MsgList (Suc n)) (requeue Block (PcbList (Suc n)) (heap k))),
      pcb_pool := (pcb_pool k)(Suc n := (pcb_pool k (Suc n))\<lparr>tf := fst (new_stack (Suc n) f args k) - 68, locked := 0,
        stat := STAT_SLEEPING, pid := word_of_nat (Suc n), cr3 := kcr3 k\<rparr>),
      token := (token k)(MsgSem (Suc n) := 0), stackmem := snd (new_stack (Suc n) f args k), intr := intr k \<or> relock k\<rparr>"
    by (rule create_kthread_inv [OF inv fr])
  then have lk: "locked (pcb_pool k1 i) = (if i = Suc n then 0 else locked (pcb_pool k i))" for i by simp
  obtain k2 where k2: "spawn f args k = Inr (Suc n, k2)" "proc_inv k2 (born_heads (Suc n) H) (spawned (Suc n) L)"
    "current k2 = current k" "lock_count k2 = lock_count k" "token k2 = (token k)(MsgSem (Suc n) := 0)"
    by (rule spawn_ok [OF inv fr, where func = f and args = args])
  have "wakeup (Some (PcbList (Suc n))) k1 = Inr k2" using k1 k2(1) by (auto simp: spawn_def bindR_Inr_iff)
  from wakeup_locked [OF this] lk have "\<forall>i. 1 \<le> i \<and> i \<le> Suc n \<longrightarrow> locked (pcb_pool k2 i) = 0" using c(3) by auto
  moreover have "spawned (Suc n) L (SemBlock x) = []" if "x \<in> tests" for x
    using that H(2) by (auto simp: spawned_def moved_def born_def tests_def)
  moreover have "spawned (Suc n) L Ready = map PcbList [1..<Suc (Suc n)]" using L(1) by simp
  moreover have "spawned (Suc n) L Free = map PcbList [Suc (Suc n)..<PCB_POOL_SIZE]" using fr by simp
  moreover have "SemBlock ` tests \<subseteq> born_heads (Suc n) H" using H(1) by (auto simp: born_heads_def)
  ultimately have "started (Suc n) k2" unfolding started_def
    using k2(2-5) c(1,2) tk by (intro exI [of _ "born_heads (Suc n) H"] exI [of _ "spawned (Suc n) L"]) simp
  then show ?thesis using k2(1) by (simp add: start_thread_def)
qed

lemma started_all:
  assumes "current k0 = idle" and "lock_count k0 = 0" and "init_proc k0 = Inr k1"
  shows "\<exists>k. test_setup pfun cfun args k1 = Inr k \<and> started 7 k"
proof -
  have "proc_inv k1 boot_heads boot_lists" "current k1 = idle" "lock_count k1 = 0"
    using init_proc_boots [OF assms(1,2)] assms(3) by (metis sum.inject(2))+
  from started_sems [OF this] obtain k2 where k2: "started 0 k2"
    "bindR (create_sem TestFull 0 k1) (\<lambda>k. bindR (create_sem TestEmpty NBUF k) (create_sem TestMutex 1)) = Inr k2" by blast
  have "\<exists>k. forR (start_thread pfun args) [0..<NR_PROD] k2 = Inr k \<and> started (0 + length [0..<NR_PROD]) k"
    by (rule forR_invariant) (use k2(1) started_thread in \<open>auto simp: NR_PROD_def\<close>)
  then obtain k3 where k3: "forR (start_thread pfun args) [0..<NR_PROD] k2 = Inr k3" "started 3 k3"
    by (auto simp: NR_PROD_def)
  have "\<exists>k. forR (start_thread cfun args) [0..<NR_CONS] k3 = Inr k \<and> started (3 + length [0..<NR_CONS]) k"
  proof (rule forR_invariant)
    fix n k assume "n < length [0..<NR_CONS]" and "started (3 + n) k"
    then show "\<exists>k'. start_thread cfun args ([0..<NR_CONS] ! n) k = Inr k' \<and> started (3 + Suc n) k'"
      using started_thread [of "3 + n" k cfun args] by (simp add: NR_CONS_def)
  qed (use k3(2) in simp)
  then obtain k4 where "forR (start_thread cfun args) [0..<NR_CONS] k3 = Inr k4" "started 7 k4" by (auto simp: NR_CONS_def)
  then show ?thesis using k2(2) k3(1) by (auto simp: test_setup_def bindR_Inr_iff)
qed

lemma started_kinv:
  assumes "started 7 k"
  obtains H L where "kinv k (\<lambda>_. None) H L" and "L Ready = map PcbList [1..<8]"
proof -
  obtain H L where inv: "proc_inv k H L" and H: "SemBlock ` tests \<subseteq> H" "\<forall>x\<in>tests. L (SemBlock x) = []"
    and L: "L Ready = map PcbList [1..<8]" and c: "current k = idle" "lock_count k = 0"
    and lk: "\<forall>i. 1 \<le> i \<and> i \<le> 7 \<longrightarrow> locked (pcb_pool k i) = 0"
    using assms unfolding started_def by auto
  have "count_of k i = 0" if "i \<le> 7" for i
    using that c lk by (cases "i = 0") (auto simp: count_of_def idle_def)
  moreover have "rdy L i" if "1 \<le> i" "i \<le> 7" for i using that by (simp add: L image_iff)
  moreover have "set (L Ready) \<subseteq> PcbList ` {1..7}" by (auto simp: L)
  moreover have "\<exists>i\<le>7. current k = PcbList i" using c(1) by (auto simp: idle_def)
  ultimately have "kinv k (\<lambda>_. None) H L" using inv H by (simp add: kinv_def)
  with L show thesis by (rule that [rotated])
qed

lemma waits_start: "waits (\<lambda>_. At_P_empty) (\<lambda>_. At_P_full) = (\<lambda>_. None)"
  by (simp add: waits_def fun_eq_iff)

lemma sim_start:
  assumes "started 7 k"
  shows "\<exists>H L. sim (test_data k) H L spec_start"
proof -
  obtain H L where "kinv k (\<lambda>_. None) H L" by (rule started_kinv [OF assms])
  moreover have "\<forall>x\<in>tests. token k x = tok spec_start x"
    using assms by (auto simp: started_def tests_def spec_start_def)
  ultimately have "sim (test_data k) H L spec_start"
    using bb_reach.start
    by (simp add: sim_def test_data_def waits_start pcs_rel_def data_rel_def) (simp add: spec_start_def)
  then show ?thesis by blast
qed

lemma test_reach_sim: "test_reach s \<Longrightarrow> \<exists>H L a. sim s H L a"
proof (induction rule: test_reach.induct)
  case (start k0 k1 pfun cfun args k)
  then show ?case using started_all [OF start(1-3)] sim_start by (metis sum.inject(2))
next
  case (producer s i t)
  then show ?case using sim_producer by (metis sum.inject(2))
next
  case (consumer s i t)
  then show ?case using sim_consumer by (metis sum.inject(2))
next
  case (switch s frame t)
  then show ?case using sim_preempt by (metis sum.inject(2))
qed

text \<open>Were all threads asleep, the specification would be deadlocked.\<close>

lemma asleep_blocked:
  assumes s: "sim s H L a" and i: "1 \<le> i" "i \<le> 7" "\<not> rdy L i"
  shows "is_producer i \<Longrightarrow> spec_producer (i - 1) a = None" and "is_consumer i \<Longrightarrow> spec_consumer (i - 4) a = None"
proof -
  obtain x where x: "x \<in> tests" "waits (ppc s) (cpc s) i = Some x" "PcbList i \<in> set (L (SemBlock x))"
    using kinvD(4) [OF simD(1) [OF s] i(1,2)] i(3) by blast
  have "token (ker s) x = 0"
    using proc_invD(4) [OF kinvD(1) [OF simD(1) [OF s]]] kinvD(2) [OF simD(1) [OF s] x(1)] x(3) by (auto simp: sem_inv_def)
  then have z: "tok a x = 0" using simD(3) [OF s x(1)] by simp
  show "spec_producer (i - 1) a = None" if p: "is_producer i"
  proof -
    have "prod a (i - 1) = pabs False (ppc s i)" using simD(4) [OF s] p i(3) by (simp add: pcs_rel_def)
    then show ?thesis using x(2) z waits_at(1) [OF p, of "ppc s" "cpc s"]
      by (cases "ppc s i") (auto simp: spec_producer_def)
  qed
  show "spec_consumer (i - 4) a = None" if c: "is_consumer i"
  proof -
    have "cons a (i - 4) = cabs False (cpc s i)" using simD(4) [OF s] c i(3) by (simp add: pcs_rel_def)
    then show ?thesis using x(2) z waits_at(2) [OF c, of "ppc s" "cpc s"]
      by (cases "cpc s i") (auto simp: spec_consumer_def)
  qed
qed

lemma some_ready:
  assumes s: "sim s H L a"
  shows "L Ready \<noteq> []"
proof
  assume e: "L Ready = []"
  have "spec_producer t a = None" if "t < NR_PROD" for t
    using asleep_blocked(1) [OF s, of "t + 1"] that e by (simp add: thread_defs)
  moreover have "spec_consumer t a = None" if "t < NR_CONS" for t
    using asleep_blocked(2) [OF s, of "t + 4"] that e by (simp add: thread_defs)
  ultimately show False using spec_progress [OF simD(2) [OF s]] by auto
qed

lemma ready_has_cpu:
  assumes "kinv (ker s) w H L" and "current (ker s) = PcbList i" and "rdy L i"
  shows "has_cpu i s" and "is_producer i \<or> is_consumer i"
proof -
  have i: "1 \<le> i" "i \<le> 7" using kinvD(3) [OF assms(1)] assms(3) by auto
  then show "has_cpu i s" using ready_iff_stat [OF kinvD(1) [OF assms(1)] assms(2)] assms(2,3) by (simp add: has_cpu_def)
  show "is_producer i \<or> is_consumer i" using test_thread i by blast
qed

text \<open>
  A concrete run: the first producer puts a value, and the first consumer takes it and comes
  to the assertion.  As long as no thread waits, the kernel is described by the process that
  runs and the tokens.
\<close>

definition calm :: "kcore \<Rightarrow> nat \<Rightarrow> (sem \<Rightarrow> int) \<Rightarrow> bool" where
  "calm k i T \<longleftrightarrow> (\<exists>H L. kinv k (\<lambda>_. None) H L \<and> L Ready = map PcbList [1..<8] \<and> current k = PcbList i \<and>
     (\<forall>x\<in>tests. token k x = T x))"

lemma calm_P:
  assumes "calm k i T" and x: "x \<in> tests" "0 < T x"
  shows "\<exists>k'. P_sem x k = Inr (Returned k') \<and> calm k' i (T(x := T x - 1))"
proof -
  obtain H L where k: "kinv k (\<lambda>_. None) H L" "L Ready = map PcbList [1..<8]" "current k = PcbList i"
    "\<forall>x\<in>tests. token k x = T x" using assms(1) unfolding calm_def by blast
  then have "token k x > 0" using x by simp
  then obtain k' where "P_sem x k = Inr (Returned k')" "kinv k' (\<lambda>_. None) H L"
    "k' = k\<lparr>token := (token k)(x := token k x - 1), intr := relock k\<rparr>"
    by (rule kinv_P_returns [OF k(1) x(1)])
  with k x show ?thesis unfolding calm_def by (intro exI [of _ k'] conjI exI [of _ H] exI [of _ L]) auto
qed

lemma calm_V:
  assumes "calm k i T" and x: "x \<in> tests"
  shows "\<exists>k'. V_sem x k = Inr k' \<and> calm k' i (T(x := T x + 1))"
proof -
  obtain H L where k: "kinv k (\<lambda>_. None) H L" "L Ready = map PcbList [1..<8]" "current k = PcbList i"
    "\<forall>x\<in>tests. token k x = T x" using assms(1) unfolding calm_def by blast
  have "L (SemBlock x) = []" using kinvD(5) [OF k(1) x] by (cases "L (SemBlock x)") auto
  then have v: "v_lists x L = L" "v_token x L (token k) = (token k)(x := token k x + 1)"
    by (simp_all add: v_lists_def v_token_def)
  obtain k' where "V_sem x k = Inr k'" "kinv k' (\<lambda>_. None) H (v_lists x L)" "token k' = v_token x L (token k)"
    "current k' = current k" by (rule kinv_V [OF k(1) x])
  with v k x show ?thesis unfolding calm_def by (intro exI [of _ k'] conjI exI [of _ H] exI [of _ L]) auto
qed

lemma calm_preempt:
  assumes "calm (ker s) i T" and i: "i < 7"
  shows "\<exists>k'. preempt frame s = Inr (s\<lparr>ker := k'\<rparr>) \<and> calm k' (Suc i) T"
proof -
  obtain H L where k: "kinv (ker s) (\<lambda>_. None) H L" "L Ready = map PcbList [1..<8]" "current (ker s) = PcbList i"
    "\<forall>x\<in>tests. token (ker s) x = T x" using assms(1) unfolding calm_def by blast
  have "i \<in> {0, 1, 2, 3, 4, 5, 6}" using i by auto
  then have "sched_choice (L Ready) (PcbList i) = PcbList (Suc i)"
    unfolding k(2) by (auto simp: sched_choice_def next_ready_def upt_rec)
  moreover obtain k' where "preempt frame s = Inr (s\<lparr>ker := k'\<rparr>)" "kinv k' (\<lambda>_. None) H L" "token k' = token (ker s)"
    "current k' = sched_choice (L Ready) (current (ker s))" by (rule kinv_preempt [OF k(1)])
  ultimately show ?thesis using k unfolding calm_def by (intro exI [of _ k'] conjI exI [of _ H] exI [of _ L]) auto
qed

lemma calm_cpu: "calm (ker s) i T \<Longrightarrow> 1 \<le> i \<Longrightarrow> i \<le> 7 \<Longrightarrow> has_cpu i s"
  unfolding calm_def by (elim exE conjE, rule ready_has_cpu) (auto simp: image_iff)

lemma calm_producer:
  assumes "test_reach s" and "calm (ker s) i T" and "is_producer i" and "test_producer i s = Inr t"
  shows "test_reach t"
  using test_reach.producer [OF assms(1,3) _ assms(4)] calm_cpu [OF assms(2)] is_producerD [OF assms(3)] by blast

lemma calm_consumer:
  assumes "test_reach s" and "calm (ker s) i T" and "is_consumer i" and "test_consumer i s = Inr t"
  shows "test_reach t"
  using test_reach.consumer [OF assms(1,3) _ assms(4)] calm_cpu [OF assms(2)] is_consumerD [OF assms(3)] by blast

lemma test_started:
  obtains k T where "test_reach (test_data k)" and "calm k 0 T" and "T TestEmpty = 5" "T TestFull = 0" "T TestMutex = 1"
proof -
  obtain k1 where k1: "init_proc bss_kcore = Inr k1" by (rule init_proc_boots [of bss_kcore]) (simp_all add: bss_kcore_def)
  have b: "current bss_kcore = idle" "lock_count bss_kcore = 0" by (simp_all add: bss_kcore_def)
  obtain k where k: "test_setup 0xc0101000 0xc0102000 (\<lambda>_. 0) k1 = Inr k" "started 7 k"
    using started_all [OF b k1] by blast
  have "test_reach (test_data k)" by (rule test_reach.start [OF b k1 k(1)])
  moreover have "current k = PcbList 0" using k(2) by (auto simp: started_def idle_def)
  then have "calm k 0 (token k)"
    using started_kinv [OF k(2)] unfolding calm_def by blast
  moreover have "token k TestEmpty = 5" "token k TestFull = 0" "token k TestMutex = 1"
    using k(2) by (auto simp: started_def NBUF_def)
  ultimately show thesis by (rule that)
qed

text \<open>One round of the producer with PCB 1.\<close>

lemma test_produced:
  obtains s T where "test_reach s" and "calm (ker s) 1 T" and "T TestFull = 1" and "T TestMutex = 1" and "g_r s = 0"
    and "length (g_buf s) = 5" and "cpc s = (\<lambda>_. At_P_full)"
proof -
  obtain k T where k: "test_reach (test_data k)" "calm k 0 T" "T TestEmpty = 5" "T TestFull = 0" "T TestMutex = 1"
    by (rule test_started)
  have p1: "is_producer 1" by (simp add: thread_defs)
  obtain k1 where k1: "preempt 0 (test_data k) = Inr ((test_data k)\<lparr>ker := k1\<rparr>)" "calm k1 1 T"
    using calm_preempt [of "test_data k" 0 T 0] k(2) by (auto simp: test_data_def)
  define s1 where "s1 = (test_data k)\<lparr>ker := k1\<rparr>"
  have s1: "test_reach s1" "calm (ker s1) 1 T" using test_reach.switch [OF k(1) k1(1)] k1(2) by (simp_all add: s1_def)
  obtain k2 where k2: "P_sem TestEmpty k1 = Inr (Returned k2)" "calm k2 1 (T(TestEmpty := 4))"
    using calm_P [OF k1(2), of TestEmpty] k by auto
  define s2 where "s2 = goto_p 1 At_P_mutex (s1\<lparr>ker := k2\<rparr>)"
  have s2: "test_reach s2"
    using calm_producer [OF s1 p1, of s2] k2(1) by (simp add: test_producer_def P_stmt_def s2_def s1_def test_data_def)
  obtain k3 where k3: "P_sem TestMutex k2 = Inr (Returned k3)" "calm k3 1 (T(TestEmpty := 4, TestMutex := 0))"
    using calm_P [OF k2(2), of TestMutex] k by auto
  define s3 where "s3 = goto_p 1 At_print (s2\<lparr>ker := k3\<rparr>)"
  have s3: "test_reach s3"
    using calm_producer [OF s2 _ p1, of _ s3] k2(2) k3(1) by (simp add: test_producer_def P_stmt_def s3_def s2_def goto_p_def)
  have g: "g_g s3 = 1" "g_f s3 = 0" "g_buf s3 = replicate 5 0" "g_r s3 = 0" "cpc s3 = (\<lambda>_. At_P_full)" "ppc s3 1 = At_print" "ker s3 = k3"
    by (simp_all add: s3_def s2_def s1_def goto_p_def test_data_def NBUF_def)
  define s4 where "s4 = goto_p 1 At_put s3"
  have s4: "test_reach s4"
    using calm_producer [OF s3 _ p1, of _ s4] k3(2) g by (simp add: test_producer_def s4_def cmod_nonneg)
  define s5 where "s5 = goto_p 1 At_wrap_f (s4\<lparr>g_buf := (g_buf s4)[0 := g_g s4], g_f := g_f s4 + 1, g_g := g_g s4 + 1\<rparr>)"
  have s5: "test_reach s5"
    using calm_producer [OF s4 _ p1, of _ s5] k3(2) g by (simp add: test_producer_def s5_def s4_def goto_p_def buf_index_def)
  define s6 where "s6 = goto_p 1 At_V_mutex (s5\<lparr>g_f := word_of_int (cmod (sint (g_f s5)) NBUF)\<rparr>)"
  have s6: "test_reach s6"
    using calm_producer [OF s5 _ p1, of _ s6] k3(2) g by (simp add: test_producer_def s6_def s5_def s4_def goto_p_def)
  obtain k4 where k4: "V_sem TestMutex k3 = Inr k4" "calm k4 1 (T(TestEmpty := 4, TestMutex := 1))"
    using calm_V [OF k3(2), of TestMutex] by auto
  define s7 where "s7 = goto_p 1 At_V_full (s6\<lparr>ker := k4\<rparr>)"
  have s7: "test_reach s7"
    using calm_producer [OF s6 _ p1, of _ s7] k3(2) k4(1) g by (simp add: test_producer_def s7_def s6_def s5_def s4_def goto_p_def)
  obtain k5 where k5: "V_sem TestFull k4 = Inr k5" "calm k5 1 (T(TestEmpty := 4, TestMutex := 1, TestFull := 1))"
    using calm_V [OF k4(2), of TestFull] k(4) by auto
  define s8 where "s8 = goto_p 1 At_P_empty (s7\<lparr>ker := k5\<rparr>)"
  have "test_reach s8"
    using calm_producer [OF s7 _ p1, of _ s8] k4(2) k5(1) by (simp add: test_producer_def s8_def s7_def goto_p_def)
  then show thesis using k5(2) g
    by (intro that [of s8 "T(TestEmpty := 4, TestMutex := 1, TestFull := 1)"])
      (simp_all add: s8_def s7_def s6_def s5_def s4_def goto_p_def)
qed

text \<open>The consumer with PCB 4 takes the value.\<close>

lemma test_consumed:
  obtains s where "test_reach s" and "has_cpu 4 s" and "cpc s 4 = At_assert"
proof -
  obtain s T where s: "test_reach s" "calm (ker s) 1 T" "T TestFull = 1" "T TestMutex = 1" "g_r s = 0"
    "length (g_buf s) = 5" "cpc s = (\<lambda>_. At_P_full)" by (rule test_produced)
  have c4: "is_consumer 4" by (simp add: thread_defs)
  obtain k1 where k1: "preempt 0 s = Inr (s\<lparr>ker := k1\<rparr>)" "calm k1 2 T"
    using calm_preempt [OF s(2), of 0] by (auto simp: numeral_2_eq_2)
  obtain k2 where k2: "preempt 0 (s\<lparr>ker := k1\<rparr>) = Inr (s\<lparr>ker := k2\<rparr>)" "calm k2 3 T"
    using calm_preempt [of "s\<lparr>ker := k1\<rparr>" 2 T 0] k1(2) by auto
  obtain k3 where k3: "preempt 0 (s\<lparr>ker := k2\<rparr>) = Inr (s\<lparr>ker := k3\<rparr>)" "calm k3 4 T"
    using calm_preempt [of "s\<lparr>ker := k2\<rparr>" 3 T 0] k2(2) by auto
  define s1 where "s1 = s\<lparr>ker := k3\<rparr>"
  have s1: "test_reach s1"
    unfolding s1_def by (rule test_reach.switch [OF test_reach.switch [OF test_reach.switch [OF s(1) k1(1)] k2(1)] k3(1)])
  obtain k4 where k4: "P_sem TestFull k3 = Inr (Returned k4)" "calm k4 4 (T(TestFull := 0))"
    using calm_P [OF k3(2), of TestFull] s(3) by auto
  define s2 where "s2 = goto_c 4 At_CP_mutex (s1\<lparr>ker := k4\<rparr>)"
  have s2: "test_reach s2"
    using calm_consumer [OF s1 _ c4, of T s2] k3(2) k4(1) s(7) by (simp add: test_consumer_def P_stmt_def s2_def s1_def)
  obtain k5 where k5: "P_sem TestMutex k4 = Inr (Returned k5)" "calm k5 4 (T(TestFull := 0, TestMutex := 0))"
    using calm_P [OF k4(2), of TestMutex] s(4) by auto
  define s3 where "s3 = goto_c 4 At_get (s2\<lparr>ker := k5\<rparr>)"
  have s3: "test_reach s3"
    using calm_consumer [OF s2 _ c4, of _ s3] k4(2) k5(1) by (simp add: test_consumer_def P_stmt_def s3_def s2_def goto_c_def)
  define s4 where "s4 = goto_c 4 At_assert (s3\<lparr>g_get := (g_get s3)(4 := g_buf s3 ! 0), g_r := g_r s3 + 1\<rparr>)"
  have "test_reach s4"
    using calm_consumer [OF s3 _ c4, of _ s4] k5(2) s(5,6) by (simp add: test_consumer_def s4_def s3_def s2_def s1_def goto_c_def buf_index_def)
  moreover have "has_cpu 4 s4" using calm_cpu [of s4 4] k5(2) by (simp add: s4_def s3_def goto_c_def)
  ultimately show thesis by (intro that [of s4]) (simp_all add: s4_def goto_c_def)
qed

section \<open>Properties\<close>

text \<open>
  C15: the bounded buffer is safe.  In every state the three producers and four consumers
  reach from \<open>test_setup\<close>, whatever the interleaving, the next statement of the thread that
  has the processor succeeds: the assertion that the values come out of the buffer in the
  order in which they were put holds at every consumer, also when the 32-bit counter wraps
  around, no thread indexes outside the buffer, and the assertions of the kernel in \<open>P\<close> and
  \<open>V\<close> hold.  Never are more values put and not yet consumed than the five places.
\<close>

theorem bounded_buffer_safe:
  assumes "test_reach s"
  shows "(\<forall>i. is_producer i \<and> has_cpu i s \<longrightarrow> (\<exists>t. test_producer i s = Inr t)) \<and>
    (\<forall>i. is_consumer i \<and> has_cpu i s \<longrightarrow> (\<exists>t. test_consumer i s = Inr t)) \<and>
    int (unat (g_g s - 1 - g_last s)) \<le> NBUF"
proof -
  obtain H L a where s: "sim s H L a" using test_reach_sim [OF assms] by blast
  note r = spec_room [OF simD(2) [OF s]]
  have eq: "g_g s - 1 - g_last s = word_of_int (next_g a - 1 - last_v a)"
    using simD(5) [OF s] by (simp add: data_rel_def)
  have "int (unat (g_g s - 1 - g_last s)) = next_g a - 1 - last_v a"
    unfolding eq using r by (simp only: NBUF_def uint_word_of_int_eq uint_nat [symmetric]) (simp add: take_bit_int_eq_self)
  then have "int (unat (g_g s - 1 - g_last s)) \<le> NBUF" using r(2) by simp
  with sim_producer [OF s] sim_consumer [OF s] show ?thesis by blast
qed

theorem bounded_buffer_safe_witness:
  "\<exists>s t. test_reach s \<and> has_cpu 4 s \<and> cpc s 4 = At_assert \<and> test_consumer 4 s = Inr t \<and> g_last s = g_get s 4 - 1"
proof -
  obtain s where s: "test_reach s" "has_cpu 4 s" "cpc s 4 = At_assert" by (rule test_consumed)
  have "is_consumer 4" by (simp add: thread_defs)
  then obtain t where t: "test_consumer 4 s = Inr t" using bounded_buffer_safe [OF s(1)] s(2) by blast
  then have "g_last s = g_get s 4 - 1" using s(3) by (auto simp: test_consumer_def bindR_Inr_iff assertR_def split: if_splits)
  with s t show ?thesis by blast
qed

text \<open>
  C34: the bounded buffer never deadlocks.  In every reachable state one of the seven
  threads is ready: the next switch of processes gives the processor to a producer or a
  consumer, and the thread executes its next statement.
\<close>

theorem bounded_buffer_progress:
  assumes "test_reach s"
  shows "\<exists>t i u. preempt frame s = Inr t \<and> has_cpu i t \<and>
    (is_producer i \<and> test_producer i t = Inr u \<or> is_consumer i \<and> test_consumer i t = Inr u)"
proof -
  obtain H L a where s: "sim s H L a" using test_reach_sim [OF assms] by blast
  obtain k where k: "preempt frame s = Inr (s\<lparr>ker := k\<rparr>)" "sim (s\<lparr>ker := k\<rparr>) H L a"
    "current k = sched_choice (L Ready) (current (ker s))" using sim_preempt [OF s] by blast
  have "current k \<in> set (L Ready)" using some_ready [OF s] k(3) by (simp add: sched_choice_def next_ready_in)
  then obtain i where i: "current k = PcbList i" "rdy L i" using kinvD(3) [OF simD(1) [OF s]] by auto
  note c = ready_has_cpu [OF simD(1) [OF k(2)], of i, simplified, OF i]
  show ?thesis using sim_producer [OF k(2) _ c(1)] sim_consumer [OF k(2) _ c(1)] k(1) c by blast
qed

theorem bounded_buffer_progress_witness:
  "\<exists>s t i u. test_reach s \<and> cpc s 4 = At_assert \<and> preempt 0xc0208000 s = Inr t \<and> has_cpu i t \<and>
    (is_producer i \<and> test_producer i t = Inr u \<or> is_consumer i \<and> test_consumer i t = Inr u)"
proof -
  obtain s where s: "test_reach s" "cpc s 4 = At_assert" by (rule test_consumed)
  with bounded_buffer_progress [OF s(1), of "0xc0208000"] show ?thesis by blast
qed

end
