(* ===== verification/Strings.thy ===== *)
theory Strings
  imports Prelude
begin

text \<open>
  \<open>lib/string.c\<close> and the copy wrappers of \<open>lib/kcpy.c\<close>.  Memory is a function from
  addresses to bytes; \<open>rep movsb\<close> and \<open>rep stosb\<close> work one byte after the other, so
  overlapping copies behave as on the machine.
\<close>

section \<open>Memory routines\<close>

type_synonym memory = "u32 \<Rightarrow> u8"

fun rep_movsb :: "nat \<Rightarrow> u32 \<Rightarrow> u32 \<Rightarrow> memory \<Rightarrow> memory" where
  "rep_movsb 0 d s m = m"
| "rep_movsb (Suc n) d s m = rep_movsb n (d + 1) (s + 1) (m(d := m s))"

fun rep_stosb :: "nat \<Rightarrow> u32 \<Rightarrow> u8 \<Rightarrow> memory \<Rightarrow> memory" where
  "rep_stosb 0 d v m = m"
| "rep_stosb (Suc n) d v m = rep_stosb n (d + 1) v (m(d := v))"

definition memcpy :: "u32 \<Rightarrow> u32 \<Rightarrow> u32 \<Rightarrow> memory \<Rightarrow> memory" where
  "memcpy d s sz m = rep_movsb (unat sz) d s m"

definition memset :: "u32 \<Rightarrow> u8 \<Rightarrow> u32 \<Rightarrow> memory \<Rightarrow> memory" where
  "memset d data sz m = rep_stosb (unat sz) d data m"

text \<open>\<open>strlen\<close> returns only when it meets a zero byte.\<close>

partial_function (option) strlen_from :: "memory \<Rightarrow> u32 \<Rightarrow> u32 \<Rightarrow> u32 option" where
  "strlen_from m str len = (if m str = 0 then Some len else strlen_from m (str + 1) (len + 1))"

definition strlen :: "memory \<Rightarrow> u32 \<Rightarrow> u32 option" where
  "strlen m str = strlen_from m str 0"

definition strcpy :: "u32 \<Rightarrow> u32 \<Rightarrow> memory \<Rightarrow> memory option" where
  "strcpy d s m = map_option (\<lambda>n. memcpy d s (n + 1) m) (strlen m s)"

text \<open>The kernel shares its address space with its threads, so the wrappers ignore the PCB.\<close>

definition copy_from_kernel :: "nat \<Rightarrow> u32 \<Rightarrow> u32 \<Rightarrow> u32 \<Rightarrow> memory \<Rightarrow> memory" where
  "copy_from_kernel pcb d s len m = memcpy d s len m"

definition copy_to_kernel :: "nat \<Rightarrow> u32 \<Rightarrow> u32 \<Rightarrow> u32 \<Rightarrow> memory \<Rightarrow> memory" where
  "copy_to_kernel pcb d s len m = memcpy d s len m"

definition strcpy_to_kernel :: "nat \<Rightarrow> u32 \<Rightarrow> u32 \<Rightarrow> memory \<Rightarrow> memory option" where
  "strcpy_to_kernel pcb d s m = strcpy d s m"

definition strcpy_from_kernel :: "nat \<Rightarrow> u32 \<Rightarrow> u32 \<Rightarrow> memory \<Rightarrow> memory option" where
  "strcpy_from_kernel pcb d s m = strcpy d s m"

text \<open>
  \<open>strcmp\<close> reads the two strings from memory; \<open>char\<close> is signed for the target compiler.
  Clients that hold their names as HOL strings use \<open>strcmp\<close>, the same loop over the
  characters before the terminating zero; \<open>strcmp_at_cstring\<close> relates the two.
\<close>

partial_function (option) strcmp_at :: "memory \<Rightarrow> u32 \<Rightarrow> u32 \<Rightarrow> int option" where
  "strcmp_at m p1 p2 =
     (if m p1 \<noteq> 0 then
        if m p2 = 0 then Some 1
        else if sint (m p2) > sint (m p1) then Some (- 1)
        else if sint (m p1) > sint (m p2) then Some 1
        else strcmp_at m (p1 + 1) (p2 + 1)
      else if m p2 \<noteq> 0 then Some (- 1)
      else Some 0)"

definition char_byte :: "char \<Rightarrow> u8" where
  "char_byte c = word_of_nat (of_char c)"

definition schar :: "char \<Rightarrow> int" where
  "schar c = sint (char_byte c)"

fun strcmp :: "string \<Rightarrow> string \<Rightarrow> int" where
  "strcmp (a # p1) p2 =
     (case p2 of
        [] \<Rightarrow> 1
      | b # p2 \<Rightarrow>
          if schar b > schar a then - 1
          else if schar a > schar b then 1
          else strcmp p1 p2)"
| "strcmp [] p2 = (if p2 \<noteq> [] then - 1 else 0)"

text \<open>
  \<open>itoa\<close> writes the digits from the end of a static buffer of 30 zero bytes and returns
  the index of the first; the buffer is returned with it.  \<open>a % 10\<close> of C is negative
  for negative \<open>a\<close>, and the character arithmetic wraps at 8 bits.
\<close>

function itoa_loop :: "int \<Rightarrow> nat \<Rightarrow> (nat \<Rightarrow> u8) \<Rightarrow> nat \<times> (nat \<Rightarrow> u8)" where
  "itoa_loop a p b =
     (let p = p - 1;
          b = b(p := word_of_int (48 + cmod a 10));
          a = cdiv a 10
      in if a \<noteq> 0 then itoa_loop a p b else (p, b))"
  by pat_completeness auto

lemma cdiv10_smaller: "cdiv a 10 \<noteq> 0 \<Longrightarrow> nat \<bar>cdiv a 10\<bar> < nat \<bar>a\<bar>"
proof -
  assume "cdiv a 10 \<noteq> 0"
  then have a: "a \<noteq> 0" by (auto simp: cdiv_def)
  have "\<bar>cdiv a 10\<bar> = \<bar>a\<bar> div 10" by (cases "a = 0") (simp_all add: cdiv_def abs_mult)
  moreover have "\<bar>a\<bar> div 10 < \<bar>a\<bar>" using a by (intro int_div_less_self) auto
  ultimately show ?thesis by linarith
qed

termination itoa_loop
  by (relation "measure (\<lambda>(a, p, b). nat \<bar>a\<bar>)") (auto dest: cdiv10_smaller)

declare itoa_loop.simps [simp del]

definition itoa :: "int \<Rightarrow> nat \<times> (nat \<Rightarrow> u8)" where
  "itoa a = itoa_loop a 29 (\<lambda>_. 0)"

section \<open>Copying and filling\<close>

lemma addr_off_inj:
  assumes "i < 4294967296" and "j < 4294967296"
  shows "(d :: u32) + word_of_nat i = d + word_of_nat j \<longleftrightarrow> i = j"
  using word_of_nat_u32_inj [OF assms] by simp

text \<open>The bytes of a list at consecutive addresses.\<close>

fun store_bytes :: "u32 \<Rightarrow> u8 list \<Rightarrow> memory \<Rightarrow> memory" where
  "store_bytes b [] m = m"
| "store_bytes b (x # xs) m = store_bytes (b + 1) xs (m(b := x))"

lemma store_bytes_eq:
  "length bs \<le> 4294967295 \<Longrightarrow> store_bytes b bs m x = (if unat (x - b) < length bs then bs ! unat (x - b) else m x)"
proof (induction bs arbitrary: b m)
  case (Cons y bs)
  have IH: "store_bytes (b + 1) bs (m(b := y)) x =
      (if unat (x - (b + 1)) < length bs then bs ! unat (x - (b + 1)) else (m(b := y)) x)"
    using Cons by simp
  show ?case
  proof (cases "x = b")
    case True
    have "unat (- 1 :: u32) = 4294967295" by (simp add: unsigned_minus_1_eq_mask mask_eq_exp_minus_1)
    then show ?thesis using IH True Cons.prems by simp
  next
    case False
    then have "unat (x - b) \<noteq> 0" using unat_diff_u32 [of 0 x b] by simp
    then obtain k where k: "unat (x - b) = Suc k" using not0_implies_Suc by blast
    then have "Suc k < 4294967296" using unsigned_less [where ?'a = nat and w = "x - b"] by simp
    then have "unat (x - (b + 1)) = k" using k unat_diff_u32 [of "Suc k" x b] unat_diff_u32 [of k x "b + 1"] by (simp add: add.assoc)
    then show ?thesis using IH False k by simp
  qed
qed simp

lemma rep_movsb_outside:
  "(\<And>i. i < n \<Longrightarrow> a \<noteq> d + word_of_nat i) \<Longrightarrow> rep_movsb n d s m a = m a"
proof (induction n arbitrary: d s m)
  case (Suc n)
  have "a \<noteq> d + 1 + word_of_nat i" if "i < n" for i
    using Suc.prems [of "Suc i"] that by (simp add: add.assoc)
  from Suc.IH [OF this] Suc.prems [of 0] show ?case by simp
qed simp

text \<open>
  A copy to a region that does not start inside the rest of the source moves the bytes
  the source held before the call.
\<close>

lemma rep_movsb_inside:
  assumes "n \<le> 4294967295" and "\<And>i j. i < n \<Longrightarrow> j < n \<Longrightarrow> i < j \<Longrightarrow> d + word_of_nat i \<noteq> s + word_of_nat j"
    and "k < n"
  shows "rep_movsb n d s m (d + word_of_nat k) = m (s + word_of_nat k)"
  using assms
proof (induction n arbitrary: d s m k)
  case (Suc n)
  have sh: "\<And>i j. i < n \<Longrightarrow> j < n \<Longrightarrow> i < j \<Longrightarrow> d + 1 + word_of_nat i \<noteq> s + 1 + word_of_nat j"
    using Suc.prems(2) [of "Suc i" "Suc j" for i j] by (simp add: add.assoc)
  show ?case
  proof (cases k)
    case 0
    have "d \<noteq> d + 1 + word_of_nat i" if "i < n" for i
      using addr_off_inj [of 0 "Suc i" d] that Suc.prems(1) by (simp add: add.assoc)
    then have "rep_movsb n (d + 1) (s + 1) (m(d := m s)) d = m s"
      by (subst rep_movsb_outside) auto
    with 0 show ?thesis by simp
  next
    case k: (Suc j)
    have "d \<noteq> s + 1 + word_of_nat j"
      using Suc.prems(2) [of 0 "Suc j"] Suc.prems(3) k by (simp add: add.assoc)
    then have "(m(d := m s)) (s + 1 + word_of_nat j) = m (s + word_of_nat k)"
      using k by (simp add: add.assoc)
    with Suc.IH [OF _ sh, of j "m(d := m s)"] Suc.prems(1,3) k show ?thesis
      by (simp add: add.assoc del: fun_upd_apply)
  qed
qed simp

lemma rep_stosb_outside:
  "(\<And>i. i < n \<Longrightarrow> a \<noteq> d + word_of_nat i) \<Longrightarrow> rep_stosb n d v m a = m a"
proof (induction n arbitrary: d m)
  case (Suc n)
  have "a \<noteq> d + 1 + word_of_nat i" if "i < n" for i
    using Suc.prems [of "Suc i"] that by (simp add: add.assoc)
  from Suc.IH [OF this] Suc.prems [of 0] show ?case by simp
qed simp

lemma rep_stosb_inside: "k < n \<Longrightarrow> n \<le> 4294967295 \<Longrightarrow> rep_stosb n d v m (d + word_of_nat k) = v"
proof (induction n arbitrary: d m k)
  case (Suc n)
  show ?case
  proof (cases k)
    case 0
    have "d \<noteq> d + 1 + word_of_nat i" if "i < n" for i
      using addr_off_inj [of 0 "Suc i" d] that Suc.prems(2) by (simp add: add.assoc)
    then have "rep_stosb n (d + 1) v (m(d := v)) d = v" by (subst rep_stosb_outside) auto
    with 0 show ?thesis by simp
  next
    case (Suc j)
    with Suc.IH [of j "d + 1" "m(d := v)"] Suc.prems show ?thesis
      by (simp add: add.assoc del: fun_upd_apply)
  qed
qed simp

section \<open>Strings\<close>

definition cstring :: "memory \<Rightarrow> u32 \<Rightarrow> u8 list \<Rightarrow> bool" where
  "cstring m a bs \<longleftrightarrow>
     (\<forall>i < length bs. m (a + word_of_nat i) = bs ! i \<and> bs ! i \<noteq> 0) \<and> m (a + word_of_nat (length bs)) = 0"

lemma cstring_Nil: "cstring m a [] \<longleftrightarrow> m a = 0"
  by (simp add: cstring_def)

lemma cstring_Cons:
  "cstring m a (b # bs) \<longleftrightarrow> m a = b \<and> b \<noteq> 0 \<and> cstring m (a + 1) bs"
  unfolding cstring_def by (auto simp: nth_Cons' less_Suc_eq_0_disj add.assoc)

lemma strlen_from_cstring: "cstring m a bs \<Longrightarrow> strlen_from m a n = Some (n + word_of_nat (length bs))"
proof (induction bs arbitrary: a n)
  case Nil
  then show ?case by (subst strlen_from.simps) (simp add: cstring_def)
next
  case (Cons b bs)
  then have "strlen_from m (a + 1) (n + 1) = Some (n + 1 + word_of_nat (length bs))"
    by (simp add: cstring_Cons)
  with Cons.prems show ?case by (subst strlen_from.simps) (simp add: cstring_Cons add.assoc)
qed

lemma strlen_cstring: "cstring m a bs \<Longrightarrow> strlen m a = Some (word_of_nat (length bs))"
  by (simp add: strlen_def strlen_from_cstring)

lemma of_char_less: "(of_char c :: nat) < 256"
  by (metis of_char_eq_iff of_char_of of_char_mod_256 mod_less_divisor zero_less_numeral)

lemma unat_char_byte: "unat (char_byte c) = of_char c"
  using of_char_less [of c] by (simp add: char_byte_def unsigned_of_nat take_bit_eq_mod)

lemma char_byte_inject: "char_byte a = char_byte b \<longleftrightarrow> a = b"
proof
  assume "char_byte a = char_byte b"
  then have "unat (char_byte a) = unat (char_byte b)" by simp
  then show "a = b" by (simp add: unat_char_byte)
qed simp

lemma schar_inject: "schar a = schar b \<longleftrightarrow> a = b"
  unfolding schar_def by (metis char_byte_inject word_eq_iff_signed)

lemma strcmp_eq_0: "strcmp s t = 0 \<longleftrightarrow> s = t"
proof (induction s arbitrary: t)
  case Nil
  then show ?case by (cases t) auto
next
  case (Cons a s)
  show ?case
  proof (cases t)
    case (Cons b u)
    with Cons.IH [of u] schar_inject [of a b] show ?thesis by auto
  qed simp
qed

lemma strcmp_antisym: "strcmp t s = - strcmp s t"
proof (induction s t rule: strcmp.induct)
  case (2 t)
  then show ?case by (cases t) auto
qed (auto split: list.splits)

lemma strcmp_at_cstring:
  "cstring m a (map char_byte s) \<Longrightarrow> cstring m b (map char_byte t) \<Longrightarrow> strcmp_at m a b = Some (strcmp s t)"
proof (induction s t arbitrary: a b rule: strcmp.induct)
  case (1 c s t)
  then show ?case
    by (subst strcmp_at.simps) (cases t; simp add: cstring_Cons cstring_Nil schar_def)
next
  case (2 t)
  then show ?case
    by (subst strcmp_at.simps) (cases t; simp add: cstring_Cons cstring_Nil)
qed

section \<open>Properties\<close>

lemma cstring_bytes:
  assumes "cstring m s bs" and "i \<le> length bs"
  shows "m (s + word_of_nat i) = (bs @ [0]) ! i"
  using assms by (cases "i = length bs") (auto simp: cstring_def nth_append)

text \<open>
  \<open>memcpy\<close> copies.  When the destination does not start inside the part of the source
  still to be read, every byte of the destination gets the byte the source held before the
  call, and memory outside the destination is unchanged.
\<close>

theorem memcpy_copies:
  assumes "\<forall>i j. i < j \<longrightarrow> j < unat n \<longrightarrow> d + word_of_nat i \<noteq> s + word_of_nat j"
  shows "(\<forall>k < unat n. memcpy d s n m (d + word_of_nat k) = m (s + word_of_nat k)) \<and>
    (\<forall>a. (\<forall>k < unat n. a \<noteq> d + word_of_nat k) \<longrightarrow> memcpy d s n m a = m a)"
proof -
  have "unat n < 2 ^ 32" using unsigned_less [where ?'a = nat and w = n] by simp
  then have "unat n \<le> 4294967295" by simp
  then show ?thesis
    unfolding memcpy_def using assms rep_movsb_inside [of "unat n" d s _ m] rep_movsb_outside [of "unat n" _ d s m]
    by (metis (no_types, lifting))
qed

theorem memcpy_copies_witness:
  "memcpy 200 100 2 (\<lambda>a. if a = 101 then 7 else 0) 201 = 7"
proof -
  have "\<forall>i j. i < j \<longrightarrow> j < unat (2 :: u32) \<longrightarrow> (200 :: u32) + word_of_nat i \<noteq> 100 + word_of_nat j"
    by (auto simp: less_2_cases_iff)
  from memcpy_copies [OF this, of "\<lambda>a. if a = 101 then 7 else 0"] show ?thesis
    by (auto dest!: conjunct1 spec [of _ 1])
qed

text \<open>
  \<open>strcpy\<close> returns for every terminated source string that does not overlap the
  destination, leaves the same string at the destination and changes nothing else.
\<close>

theorem strcpy_copies:
  assumes "cstring m s bs" and "length bs < 4294967295"
    and "\<forall>i j. i \<le> length bs \<longrightarrow> j \<le> length bs \<longrightarrow> d + word_of_nat i \<noteq> s + word_of_nat j"
  shows "\<exists>m'. strcpy d s m = Some m' \<and> cstring m' d bs \<and> cstring m' s bs \<and>
    (\<forall>a. (\<forall>k \<le> length bs. a \<noteq> d + word_of_nat k) \<longrightarrow> m' a = m a)"
proof -
  let ?n = "Suc (length bs)" and ?m = "rep_movsb (Suc (length bs)) d s m"
  have "word_of_nat (length bs) + 1 = (word_of_nat ?n :: u32)" by simp
  then have "unat (word_of_nat (length bs) + 1 :: u32) = ?n" using assms(2) by (simp only: unat_of_nat_u32)
  then have eq: "strcpy d s m = Some ?m"
    by (simp add: strcpy_def strlen_cstring [OF assms(1)] memcpy_def)
  have cp: "?m (d + word_of_nat k) = (bs @ [0]) ! k" if "k \<le> length bs" for k
    using that assms by (subst rep_movsb_inside) (auto simp: cstring_bytes)
  have out: "?m a = m a" if "\<forall>k \<le> length bs. a \<noteq> d + word_of_nat k" for a
    using that by (intro rep_movsb_outside) auto
  have "cstring ?m d bs"
    unfolding cstring_def using cp assms(1) by (auto simp: nth_append cstring_def)
  moreover have "?m (s + word_of_nat k) = m (s + word_of_nat k)" if "k \<le> length bs" for k
    using assms(3) that by (intro out) metis
  then have "cstring ?m s bs" using assms(1) by (simp add: cstring_def)
  ultimately show ?thesis using eq out by blast
qed

theorem strcpy_copies_witness:
  "\<exists>m'. strcpy 200 100 ((\<lambda>_. 0)(100 := 65)) = Some m' \<and> cstring m' 200 [65]"
proof -
  have "cstring ((\<lambda>_. 0)(100 := 65)) 100 [65]" by (simp add: cstring_def)
  moreover have "\<forall>i j. i \<le> length [65 :: u8] \<longrightarrow> j \<le> length [65 :: u8] \<longrightarrow>
      (200 :: u32) + word_of_nat i \<noteq> 100 + word_of_nat j"
    by (auto simp: le_Suc_eq)
  ultimately show ?thesis using strcpy_copies [of "(\<lambda>_. 0)(100 := 65)" 100 "[65]" 200] by auto
qed

text \<open>
  \<open>strcmp\<close> on two terminated strings in memory returns, its result is 0 exactly when
  the strings are equal, and swapping the arguments negates it.
\<close>

theorem strcmp_decides:
  assumes "cstring m a (map char_byte s)" and "cstring m b (map char_byte t)"
  shows "strcmp_at m a b = Some (strcmp s t) \<and> (strcmp s t = 0 \<longleftrightarrow> s = t) \<and>
    strcmp_at m b a = Some (- strcmp s t)"
  using strcmp_at_cstring [OF assms] strcmp_at_cstring [OF assms(2,1)] strcmp_antisym [of t s]
  by (simp add: strcmp_eq_0)

theorem strcmp_decides_witness:
  "strcmp_at ((\<lambda>_. 0)(100 := 65)) 100 200 = Some (strcmp ''A'' '''')"
proof -
  have "cstring ((\<lambda>_. 0)(100 := 65)) 100 (map char_byte ''A'')"
    "cstring ((\<lambda>_. 0)(100 := 65)) 200 (map char_byte '''')"
    by (simp_all add: cstring_def char_byte_def)
  from strcmp_decides [OF this] show ?thesis by simp
qed

end
