(* ===== verification/Disk.thy ===== *)
theory Disk
  imports Prelude
begin

text \<open>
  The disk below the IDE driver: the programmed-I/O access to one sector of
  \<open>drivers/ide/disk.c\<close> and the direct-mapped sector cache of \<open>drivers/ide/cache.c\<close>.  The
  drive is hardware: its ports are a parameter of the definitions, and what the code relies
  on of it is the locale \<open>ata_drive\<close>.  The cache offers the contract of a sector store
  (locale \<open>sector_store\<close>) as a flat array of bytes.
\<close>

section \<open>disk.c\<close>

definition IDE_READY :: u32 where
  "IDE_READY = 1"

definition IDE_WRITEBACK :: u32 where
  "IDE_WRITEBACK = 2"

definition IDE_PORT_CTRL :: u16 where
  "IDE_PORT_CTRL = 0x3F6"

definition IDE_PORT_BASE :: u16 where
  "IDE_PORT_BASE = 0x1F0"

text \<open>
  The port instructions of \<open>x86/io.h\<close> on a drive in state \<open>'d\<close>.  \<open>irqs\<close> are the types
  of the messages that come in from interrupt handlers while the driver waits in
  \<open>receive(MSG_HARD_INTR)\<close> for a command to finish.
\<close>

record 'd ports =
  inb :: "u16 \<Rightarrow> 'd \<Rightarrow> u8 \<times> 'd"
  outb :: "u16 \<Rightarrow> u8 \<Rightarrow> 'd \<Rightarrow> 'd"
  inl :: "u16 \<Rightarrow> 'd \<Rightarrow> u32 \<times> 'd"
  outl :: "u16 \<Rightarrow> u32 \<Rightarrow> 'd \<Rightarrow> 'd"
  irqs :: "'d \<Rightarrow> u32 list \<times> 'd"

partial_function (option) ide_poll :: "'d ports \<Rightarrow> 'd \<Rightarrow> 'd option" where
  "ide_poll io d =
     (let (v, d) = inb io (IDE_PORT_BASE + 7) d in
      if v AND (0x80 OR 0x40) \<noteq> 0x40 then ide_poll io d else Some d)"

definition ide_prepare :: "'d ports \<Rightarrow> u32 \<Rightarrow> 'd \<Rightarrow> 'd res" where
  "ide_prepare io sect d =
     (case ide_poll io d of
        None \<Rightarrow> Inl (NoReturn ''ide_prepare'')
      | Some d \<Rightarrow>
          let d = outb io IDE_PORT_CTRL 0 d;
              d = outb io (IDE_PORT_BASE + 2) 1 d;
              d = outb io (IDE_PORT_BASE + 3) (ucast (sect AND 0xFF)) d;
              d = outb io (IDE_PORT_BASE + 4) (ucast (drop_bit 8 sect AND 0xFF)) d;
              d = outb io (IDE_PORT_BASE + 5) (ucast (drop_bit 16 sect AND 0xFF)) d;
              d = outb io (IDE_PORT_BASE + 6) (ucast (0xE0 OR (drop_bit 24 sect AND 0xFF))) d
          in Inr d)"

definition issue_read :: "'d ports \<Rightarrow> 'd \<Rightarrow> 'd" where
  "issue_read io d = outb io (IDE_PORT_BASE + 7) 0x20 d"

definition issue_write :: "'d ports \<Rightarrow> 'd \<Rightarrow> 'd" where
  "issue_write io d = outb io (IDE_PORT_BASE + 7) 0x30 d"

text \<open>\<open>do receive(MSG_HARD_INTR, &m); while (m.type != IDE_READY)\<close> on the messages that come.\<close>

fun wait_ready :: "u32 list \<Rightarrow> unit res" where
  "wait_ready [] = Inl (NoReturn ''receive'')"
| "wait_ready (t # ts) = (if t \<noteq> IDE_READY then wait_ready ts else Inr ())"

fun in_longs :: "'d ports \<Rightarrow> nat \<Rightarrow> 'd \<Rightarrow> u32 list \<times> 'd" where
  "in_longs io 0 d = ([], d)"
| "in_longs io (Suc n) d =
     (let (w, d) = inl io IDE_PORT_BASE d;
          (ws, d) = in_longs io n d
      in (w # ws, d))"

fun out_longs :: "'d ports \<Rightarrow> u32 list \<Rightarrow> 'd \<Rightarrow> 'd" where
  "out_longs io [] d = d"
| "out_longs io (w # ws) d = out_longs io ws (outl io IDE_PORT_BASE w d)"

text \<open>A buffer of bytes seen as an array of little-endian words, and back.\<close>

definition le_bytes :: "u32 \<Rightarrow> u8 list" where
  "le_bytes w = [ucast w, ucast (drop_bit 8 w), ucast (drop_bit 16 w), ucast (drop_bit 24 w)]"

definition le_word :: "u8 \<Rightarrow> u8 \<Rightarrow> u8 \<Rightarrow> u8 \<Rightarrow> u32" where
  "le_word a b c e = ucast a OR push_bit 8 (ucast b) OR push_bit 16 (ucast c) OR push_bit 24 (ucast e)"

definition bytes_of :: "u32 list \<Rightarrow> u8 list" where
  "bytes_of ws = concat (map le_bytes ws)"

fun longs_of :: "u8 list \<Rightarrow> u32 list" where
  "longs_of (a # b # c # e # bs) = le_word a b c e # longs_of bs"
| "longs_of _ = []"

definition disk_do_read :: "'d ports \<Rightarrow> u32 \<Rightarrow> 'd \<Rightarrow> (u8 list \<times> 'd) res" where
  "disk_do_read io sect d =
     bindR (ide_prepare io sect d) (\<lambda>d.
     let d = issue_read io d;
         (ts, d) = irqs io d in
     bindR (wait_ready ts) (\<lambda>_.
     let (ws, d) = in_longs io 128 d in
     Inr (bytes_of ws, d)))"

definition disk_do_write :: "'d ports \<Rightarrow> u8 list \<Rightarrow> u32 \<Rightarrow> 'd \<Rightarrow> 'd res" where
  "disk_do_write io content sect d =
     bindR (ide_prepare io sect d) (\<lambda>d.
     let d = issue_write io d;
         d = out_longs io (longs_of content) d;
         (ts, d) = irqs io d in
     bindR (wait_ready ts) (\<lambda>_.
     Inr d))"

section \<open>cache.c\<close>

definition NR_SEC_CACHE :: nat where
  "NR_SEC_CACHE = 128"

record SectorCache =
  sector :: u32
  used :: bool
  dirty :: bool
  content :: "u8 list"

text \<open>The cache works on any two routines that read and write a sector of a disk in state \<open>'d\<close>.\<close>

record 'd sector_ops =
  do_read :: "u32 \<Rightarrow> 'd \<Rightarrow> (u8 list \<times> 'd) res"
  do_write :: "u8 list \<Rightarrow> u32 \<Rightarrow> 'd \<Rightarrow> 'd res"

record 'd cdisk =
  cache :: "nat \<Rightarrow> SectorCache"
  drive :: 'd

definition cache_init :: "'d cdisk \<Rightarrow> 'd cdisk" where
  "cache_init st = fold (\<lambda>i st. st\<lparr>cache := (cache st)(i := (cache st i)\<lparr>used := False\<rparr>)\<rparr>) [0..<NR_SEC_CACHE] st"

definition writeback_slot :: "'d sector_ops \<Rightarrow> nat \<Rightarrow> 'd cdisk \<Rightarrow> 'd cdisk res" where
  "writeback_slot ops i st =
     (if dirty (cache st i) then
        bindR (do_write ops (content (cache st i)) (sector (cache st i)) (drive st)) (\<lambda>d.
        Inr (st\<lparr>drive := d, cache := (cache st)(i := (cache st i)\<lparr>dirty := False\<rparr>)\<rparr>))
      else Inr st)"

definition cache_writeback :: "'d sector_ops \<Rightarrow> 'd cdisk \<Rightarrow> 'd cdisk res" where
  "cache_writeback ops st = forR (writeback_slot ops) [0..<NR_SEC_CACHE] st"

text \<open>The index of the slot is returned for the pointer to it.\<close>

definition cache_fetch :: "'d sector_ops \<Rightarrow> u32 \<Rightarrow> 'd cdisk \<Rightarrow> (nat \<times> 'd cdisk) res" where
  "cache_fetch ops sect st =
     (let ptr = unat (sect mod word_of_nat NR_SEC_CACHE) in
      if used (cache st ptr) \<and> sector (cache st ptr) = sect then Inr (ptr, st)
      else
        bindR (if used (cache st ptr) \<and> dirty (cache st ptr)
               then bindR (do_write ops (content (cache st ptr)) (sector (cache st ptr)) (drive st)) (\<lambda>d.
                    Inr (st\<lparr>drive := d\<rparr>))
               else Inr st) (\<lambda>st.
        bindR (do_read ops sect (drive st)) (\<lambda>(bs, d).
        Inr (ptr, st\<lparr>drive := d,
          cache := (cache st)(ptr := (cache st ptr)\<lparr>content := bs, used := True, sector := sect, dirty := False\<rparr>)\<rparr>))))"

definition read_byte :: "'d sector_ops \<Rightarrow> u32 \<Rightarrow> 'd cdisk \<Rightarrow> (u8 \<times> 'd cdisk) res" where
  "read_byte ops off st =
     (let sect = drop_bit 9 off in
      bindR (cache_fetch ops sect st) (\<lambda>(ptr, st).
      Inr (content (cache st ptr) ! unat (off AND 511), st)))"

definition write_byte :: "'d sector_ops \<Rightarrow> u32 \<Rightarrow> u8 \<Rightarrow> 'd cdisk \<Rightarrow> 'd cdisk res" where
  "write_byte ops off data st =
     (let sect = drop_bit 9 off in
      bindR (cache_fetch ops sect st) (\<lambda>(ptr, st).
      let c = cache st ptr in
      Inr (st\<lparr>cache := (cache st)(ptr := c\<lparr>content := (content c)[unat (off AND 511) := data], dirty := True\<rparr>)\<rparr>)))"

section \<open>The cache as a flat array of bytes\<close>

definition valid_sector :: "u32 \<Rightarrow> bool" where
  "valid_sector k \<longleftrightarrow> unat k < 2 ^ 23"

text \<open>
  \<open>sectors d k\<close> are the bytes of sector \<open>k\<close> on the disk.  A slot in use holds a sector that
  maps to it; unless it is dirty it agrees with the disk; a slot not in use is not dirty.
  \<open>logical\<close> is what the cache and the disk together hold, \<open>byte_at\<close> the same by bytes.
\<close>

definition slot_ok :: "(u32 \<Rightarrow> u8 list) \<Rightarrow> nat \<Rightarrow> SectorCache \<Rightarrow> bool" where
  "slot_ok sects i c \<longleftrightarrow>
     (used c \<longrightarrow> valid_sector (sector c) \<and> unat (sector c) mod NR_SEC_CACHE = i \<and> length (content c) = 512 \<and>
        (\<not> dirty c \<longrightarrow> content c = sects (sector c))) \<and>
     (\<not> used c \<longrightarrow> \<not> dirty c)"

definition cache_inv :: "('d \<Rightarrow> u32 \<Rightarrow> u8 list) \<Rightarrow> ('d \<Rightarrow> bool) \<Rightarrow> 'd cdisk \<Rightarrow> bool" where
  "cache_inv sectors idle_drive st \<longleftrightarrow>
     idle_drive (drive st) \<and> (\<forall>i < NR_SEC_CACHE. slot_ok (sectors (drive st)) i (cache st i))"

definition logical :: "('d \<Rightarrow> u32 \<Rightarrow> u8 list) \<Rightarrow> 'd cdisk \<Rightarrow> u32 \<Rightarrow> u8 list" where
  "logical sectors st k =
     (let c = cache st (unat k mod NR_SEC_CACHE) in
      if used c \<and> sector c = k then content c else sectors (drive st) k)"

definition byte_at :: "('d \<Rightarrow> u32 \<Rightarrow> u8 list) \<Rightarrow> 'd cdisk \<Rightarrow> u32 \<Rightarrow> u8" where
  "byte_at sectors st off = logical sectors st (drop_bit 9 off) ! unat (off AND 511)"

lemma drive_upd_inj: "st\<lparr>drive := x\<rparr> = st\<lparr>drive := y\<rparr> \<longleftrightarrow> x = y"
  by (cases st) simp

lemma slot_index: "unat ((k :: u32) mod word_of_nat NR_SEC_CACHE) = unat k mod NR_SEC_CACHE"
  by (simp add: NR_SEC_CACHE_def unat_mod_distrib)

lemma valid_offset: "valid_sector (drop_bit 9 off)"
proof -
  have "unat off < 2 ^ 32" using unsigned_less [where ?'a = nat and w = off] by simp
  then show ?thesis by (simp add: valid_sector_def drop_bit_eq_div unat_div_distrib)
qed

lemma offset_in_sector: "unat ((off :: u32) AND 511) < 512"
proof -
  have "off AND 511 = take_bit 9 off" by (simp add: take_bit_eq_mask mask_eq_exp_minus_1)
  then show ?thesis by (simp add: take_bit_eq_mod unat_mod_distrib)
qed

lemma offset_inj:
  assumes "drop_bit 9 a = drop_bit 9 b" and "a AND 511 = b AND 511"
  shows "(a :: u32) = b"
proof (rule bit_word_eqI)
  fix n assume "n < LENGTH(32)"
  have t: "take_bit 9 a = take_bit 9 b" using assms(2) by (simp add: take_bit_eq_mask mask_eq_exp_minus_1)
  show "bit a n \<longleftrightarrow> bit b n"
  proof (cases "n < 9")
    case True
    then show ?thesis using arg_cong [OF t, of "\<lambda>w. bit w n"] by (simp add: bit_take_bit_iff)
  next
    case False
    then show ?thesis using arg_cong [OF assms(1), of "\<lambda>w. bit w (n - 9)"] by (simp add: bit_drop_bit_eq)
  qed
qed

text \<open>
  A sector store: reading gives the 512 bytes of the sector and changes no sector, writing
  changes exactly the sector written.  \<open>idle_drive\<close> says the store takes a command.
\<close>

locale sector_store =
  fixes ops :: "'d sector_ops"
    and sectors :: "'d \<Rightarrow> u32 \<Rightarrow> u8 list"
    and idle_drive :: "'d \<Rightarrow> bool"
  assumes read_ok: "idle_drive d \<Longrightarrow> valid_sector k \<Longrightarrow>
      \<exists>d'. do_read ops k d = Inr (sectors d k, d') \<and> idle_drive d' \<and> sectors d' = sectors d"
    and write_ok: "idle_drive d \<Longrightarrow> valid_sector k \<Longrightarrow> length bs = 512 \<Longrightarrow>
      \<exists>d'. do_write ops bs k d = Inr d' \<and> idle_drive d' \<and> sectors d' = (sectors d)(k := bs)"
    and sector_size: "idle_drive d \<Longrightarrow> length (sectors d k) = 512"
begin

lemma cache_invD:
  assumes "cache_inv sectors idle_drive st"
  shows "idle_drive (drive st)" and "i < NR_SEC_CACHE \<Longrightarrow> slot_ok (sectors (drive st)) i (cache st i)"
  using assms by (auto simp: cache_inv_def)

lemma logical_size:
  assumes "cache_inv sectors idle_drive st"
  shows "length (logical sectors st k) = 512"
proof -
  let ?i = "unat k mod NR_SEC_CACHE"
  have "slot_ok (sectors (drive st)) ?i (cache st ?i)"
    by (rule cache_invD(2) [OF assms]) (simp add: NR_SEC_CACHE_def)
  then show ?thesis using sector_size [OF cache_invD(1) [OF assms]] by (auto simp: logical_def Let_def slot_ok_def)
qed

text \<open>Writing a dirty slot back puts on the disk what the cache held, for every sector of the slot.\<close>

lemma flush_ok:
  assumes inv: "cache_inv sectors idle_drive st" and i: "i < NR_SEC_CACHE"
  shows "\<exists>d. (if used (cache st i) \<and> dirty (cache st i)
      then bindR (do_write ops (content (cache st i)) (sector (cache st i)) (drive st)) (\<lambda>d. Inr (st\<lparr>drive := d\<rparr>))
      else Inr st) = Inr (st\<lparr>drive := d\<rparr>) \<and> idle_drive d \<and>
    (\<forall>k. sectors d k = (if unat k mod NR_SEC_CACHE = i then logical sectors st k else sectors (drive st) k))"
proof (cases "used (cache st i) \<and> dirty (cache st i)")
  case True
  let ?c = "cache st i"
  have ok: "valid_sector (sector ?c)" "unat (sector ?c) mod NR_SEC_CACHE = i" "length (content ?c) = 512"
    using cache_invD(2) [OF inv i] True by (auto simp: slot_ok_def)
  obtain d where "do_write ops (content ?c) (sector ?c) (drive st) = Inr d" "idle_drive d"
    "sectors d = (sectors (drive st))(sector ?c := content ?c)"
    using write_ok [OF cache_invD(1) [OF inv] ok(1,3)] by blast
  with True ok(2) show ?thesis by (intro exI [of _ d]) (auto simp: logical_def Let_def)
next
  case False
  have "sectors (drive st) k = logical sectors st k" if "unat k mod NR_SEC_CACHE = i" for k
    using cache_invD(2) [OF inv i] False that by (auto simp: logical_def Let_def slot_ok_def)
  with False cache_invD(1) [OF inv] show ?thesis by (intro exI [of _ "drive st"]) auto
qed

lemma fetch_ok:
  assumes inv: "cache_inv sectors idle_drive st" and k: "valid_sector k"
  shows "\<exists>st'. cache_fetch ops k st = Inr (unat k mod NR_SEC_CACHE, st') \<and> cache_inv sectors idle_drive st' \<and>
    logical sectors st' = logical sectors st \<and> used (cache st' (unat k mod NR_SEC_CACHE)) \<and>
    sector (cache st' (unat k mod NR_SEC_CACHE)) = k \<and>
    content (cache st' (unat k mod NR_SEC_CACHE)) = logical sectors st k"
proof -
  let ?i = "unat k mod NR_SEC_CACHE"
  have i: "?i < NR_SEC_CACHE" by (simp add: NR_SEC_CACHE_def)
  show ?thesis
  proof (cases "used (cache st ?i) \<and> sector (cache st ?i) = k")
    case True
    then show ?thesis using inv by (auto simp: cache_fetch_def slot_index logical_def Let_def)
  next
    case False
    obtain d where d: "(if used (cache st ?i) \<and> dirty (cache st ?i)
      then bindR (do_write ops (content (cache st ?i)) (sector (cache st ?i)) (drive st)) (\<lambda>d. Inr (st\<lparr>drive := d\<rparr>))
      else Inr st) = Inr (st\<lparr>drive := d\<rparr>)" "idle_drive d"
      "\<forall>k. sectors d k = (if unat k mod NR_SEC_CACHE = ?i then logical sectors st k else sectors (drive st) k)"
      using flush_ok [OF inv i] by blast
    obtain d' where d': "do_read ops k d = Inr (sectors d k, d')" "idle_drive d'" "sectors d' = sectors d"
      using read_ok [OF d(2) k] by blast
    define st' where "st' = st\<lparr>drive := d', cache := (cache st)(?i := (cache st ?i)\<lparr>content := sectors d k,
      used := True, sector := k, dirty := False\<rparr>)\<rparr>"
    have eq: "cache_fetch ops k st = Inr (?i, st')"
      unfolding cache_fetch_def Let_def slot_index if_not_P [OF False] d(1) using d'(1) by (simp add: st'_def)
    have "slot_ok (sectors d) j (cache st j)" if "j < NR_SEC_CACHE" "j \<noteq> ?i" for j
      using cache_invD(2) [OF inv that(1)] d(3) that(2) by (auto simp: slot_ok_def)
    then have inv': "cache_inv sectors idle_drive st'"
      using d'(2,3) k sector_size [OF d(2)] by (auto simp: cache_inv_def st'_def slot_ok_def)
    have "logical sectors st' j = (if unat j mod NR_SEC_CACHE = ?i then sectors d j else logical sectors (st\<lparr>drive := d\<rparr>) j)" for j
      using d'(3) by (simp add: logical_def Let_def st'_def)
    moreover have "logical sectors (st\<lparr>drive := d\<rparr>) j = logical sectors st j" if "unat j mod NR_SEC_CACHE \<noteq> ?i" for j
    proof -
      have "sectors d j = sectors (drive st) j" using d(3) that by simp
      then show ?thesis by (simp add: logical_def Let_def)
    qed
    ultimately have "logical sectors st' j = logical sectors st j" for j using d(3) by simp
    then have "logical sectors st' = logical sectors st" by blast
    moreover have "content (cache st' ?i) = logical sectors st k" using d(3) by (simp add: st'_def)
    ultimately show ?thesis using eq inv' by (auto simp: st'_def)
  qed
qed

lemma read_byte_ok:
  assumes "cache_inv sectors idle_drive st"
  shows "\<exists>st'. read_byte ops off st = Inr (byte_at sectors st off, st') \<and> cache_inv sectors idle_drive st' \<and>
    byte_at sectors st' = byte_at sectors st"
proof -
  from fetch_ok [OF assms valid_offset] obtain st' where
    "cache_fetch ops (drop_bit 9 off) st = Inr (unat (drop_bit 9 off) mod NR_SEC_CACHE, st')"
    "cache_inv sectors idle_drive st'" "logical sectors st' = logical sectors st"
    "content (cache st' (unat (drop_bit 9 off) mod NR_SEC_CACHE)) = logical sectors st (drop_bit 9 off)"
    by blast
  then show ?thesis by (auto simp: read_byte_def byte_at_def Let_def fun_eq_iff)
qed

lemma write_byte_ok:
  assumes inv: "cache_inv sectors idle_drive st"
  shows "\<exists>st'. write_byte ops off v st = Inr st' \<and> cache_inv sectors idle_drive st' \<and>
    byte_at sectors st' = (byte_at sectors st)(off := v)"
proof -
  let ?k = "drop_bit 9 off" and ?i = "unat (drop_bit 9 off) mod NR_SEC_CACHE" and ?o = "unat (off AND 511)"
  from fetch_ok [OF inv valid_offset] obtain st1 where
    f: "cache_fetch ops ?k st = Inr (?i, st1)" and inv1: "cache_inv sectors idle_drive st1"
    and l1: "logical sectors st1 = logical sectors st"
    and c1: "used (cache st1 ?i)" "sector (cache st1 ?i) = ?k" "content (cache st1 ?i) = logical sectors st ?k"
    by blast
  define st' where "st' = st1\<lparr>cache := (cache st1)(?i := (cache st1 ?i)\<lparr>
    content := (content (cache st1 ?i))[?o := v], dirty := True\<rparr>)\<rparr>"
  have eq: "write_byte ops off v st = Inr st'" by (simp add: write_byte_def f Let_def st'_def)
  have i: "?i < NR_SEC_CACHE" by (simp add: NR_SEC_CACHE_def)
  have inv': "cache_inv sectors idle_drive st'"
    using inv1 cache_invD(2) [OF inv1 i] c1 by (auto simp: cache_inv_def st'_def slot_ok_def)
  have l': "logical sectors st' = (logical sectors st)(?k := (logical sectors st ?k)[?o := v])"
  proof
    fix j
    have "logical sectors st' j = (if j = ?k then (logical sectors st1 ?k)[?o := v] else logical sectors st1 j)"
      using c1(1,2) by (cases "unat j mod NR_SEC_CACHE = ?i") (auto simp: logical_def Let_def st'_def)
    then show "logical sectors st' j = ((logical sectors st)(?k := (logical sectors st ?k)[?o := v])) j"
      by (simp add: l1)
  qed
  have len: "?o < length (logical sectors st ?k)" by (simp add: logical_size [OF inv] offset_in_sector)
  have "byte_at sectors st' a = ((byte_at sectors st)(off := v)) a" for a
  proof (cases "a = off")
    case True
    then show ?thesis using l' len by (simp add: byte_at_def)
  next
    case False
    then have "drop_bit 9 a \<noteq> ?k \<or> unat (a AND 511) \<noteq> ?o" 
      using offset_inj [of a off] by (metis unsigned_word_eqI)
    then show ?thesis using l' False by (auto simp: byte_at_def)
  qed
  with eq inv' show ?thesis by (auto simp: fun_eq_iff)
qed

lemma writeback_slot_ok:
  assumes inv: "cache_inv sectors idle_drive st" and i: "i < NR_SEC_CACHE"
  shows "\<exists>st'. writeback_slot ops i st = Inr st' \<and> cache_inv sectors idle_drive st' \<and>
    logical sectors st' = logical sectors st \<and> \<not> dirty (cache st' i) \<and>
    (\<forall>j. \<not> dirty (cache st j) \<longrightarrow> \<not> dirty (cache st' j))"
proof (cases "dirty (cache st i)")
  case True
  have u: "used (cache st i)" using cache_invD(2) [OF inv i] True by (auto simp: slot_ok_def)
  obtain d where d: "do_write ops (content (cache st i)) (sector (cache st i)) (drive st) = Inr d" "idle_drive d"
    "\<forall>k. sectors d k = (if unat k mod NR_SEC_CACHE = i then logical sectors st k else sectors (drive st) k)"
    using flush_ok [OF inv i] True u by (auto simp: bindR_Inr_iff drive_upd_inj)
  define st' where "st' = st\<lparr>drive := d, cache := (cache st)(i := (cache st i)\<lparr>dirty := False\<rparr>)\<rparr>"
  have ok: "slot_ok (sectors (drive st)) j (cache st j)" if "j < NR_SEC_CACHE" for j
    by (rule cache_invD(2) [OF inv that])
  have "slot_ok (sectors d) i ((cache st i)\<lparr>dirty := False\<rparr>)"
    using ok [OF i] d(3) u by (auto simp: slot_ok_def logical_def Let_def)
  moreover have "slot_ok (sectors d) j (cache st j)" if "j < NR_SEC_CACHE" "j \<noteq> i" for j
    using ok [OF that(1)] d(3) that(2) by (auto simp: slot_ok_def)
  ultimately have "cache_inv sectors idle_drive st'" using d(2) by (auto simp: cache_inv_def st'_def)
  moreover have "logical sectors st' j = logical sectors st j" for j
    using d(3) by (cases "unat j mod NR_SEC_CACHE = i") (auto simp: logical_def Let_def st'_def)
  ultimately show ?thesis
    using True d(1) by (intro exI [of _ st']) (auto simp: writeback_slot_def st'_def)
next
  case False
  with inv show ?thesis by (auto simp: writeback_slot_def)
qed

lemma cache_writeback_ok:
  assumes "cache_inv sectors idle_drive st"
  shows "\<exists>st'. cache_writeback ops st = Inr st' \<and> cache_inv sectors idle_drive st' \<and>
    logical sectors st' = logical sectors st \<and> sectors (drive st') = logical sectors st"
proof -
  let ?P = "\<lambda>n st'. cache_inv sectors idle_drive st' \<and> logical sectors st' = logical sectors st \<and>
    (\<forall>j < n. \<not> dirty (cache st' j))"
  have "\<exists>st'. forR (writeback_slot ops) [0..<NR_SEC_CACHE] st = Inr st' \<and> ?P (length [0..<NR_SEC_CACHE]) st'"
  proof (rule forR_invariant)
    show "?P 0 st" using assms by simp
  next
    fix k t assume k: "k < length [0..<NR_SEC_CACHE]" and t: "?P k t"
    then obtain t' where "writeback_slot ops k t = Inr t'" "cache_inv sectors idle_drive t'"
      "logical sectors t' = logical sectors t" "\<not> dirty (cache t' k)"
      "\<forall>j. \<not> dirty (cache t j) \<longrightarrow> \<not> dirty (cache t' j)"
      using writeback_slot_ok [of t k] by auto
    with k t show "\<exists>t'. writeback_slot ops ([0..<NR_SEC_CACHE] ! k) t = Inr t' \<and> ?P (Suc k) t'"
      by (auto simp: less_Suc_eq)
  qed
  then obtain st' where st': "cache_writeback ops st = Inr st'" "?P NR_SEC_CACHE st'"
    by (auto simp: cache_writeback_def)
  have "sectors (drive st') k = logical sectors st' k" for k
  proof -
    have i: "unat k mod NR_SEC_CACHE < NR_SEC_CACHE" by (simp add: NR_SEC_CACHE_def)
    have "slot_ok (sectors (drive st')) (unat k mod NR_SEC_CACHE) (cache st' (unat k mod NR_SEC_CACHE))"
      using st'(2) by (intro cache_invD(2) i) simp
    moreover have "\<not> dirty (cache st' (unat k mod NR_SEC_CACHE))" using st'(2) i by blast
    ultimately show ?thesis by (auto simp: logical_def Let_def slot_ok_def)
  qed
  then have "sectors (drive st') = logical sectors st'" by blast
  with st' show ?thesis by auto
qed

end

section \<open>The drive\<close>

text \<open>
  The task-file writes of one command: sector count 1, the four bytes of the sector number,
  the last with the LBA and master bits, and the command itself.
\<close>

definition outs :: "'d ports \<Rightarrow> (u16 \<times> u8) list \<Rightarrow> 'd \<Rightarrow> 'd" where
  "outs io ws d = fold (\<lambda>(p, v). outb io p v) ws d"

definition task_file :: "u8 \<Rightarrow> u8 \<Rightarrow> u8 \<Rightarrow> u8 \<Rightarrow> u8 \<Rightarrow> (u16 \<times> u8) list" where
  "task_file b0 b1 b2 h cmd =
     [(0x3F6, 0), (0x1F2, 1), (0x1F3, b0), (0x1F4, b1), (0x1F5, b2), (0x1F6, 0xE0 OR h), (0x1F7, cmd)]"

text \<open>
  What the driver relies on of an ATA drive.  \<open>words d k\<close> are the 128 words of sector \<open>k\<close>.
  An idle drive reports that it is ready; it answers a read command with an interrupt and
  then the words of the sector on the data port, and takes a write command, the 128 words and
  answers with an interrupt.  Messages from other interrupts may come in between.
\<close>

locale ata_drive =
  fixes io :: "'d ports"
    and words :: "'d \<Rightarrow> u32 \<Rightarrow> u32 list"
    and idle_drive :: "'d \<Rightarrow> bool"
  assumes status_ready: "idle_drive d \<Longrightarrow>
      \<exists>v d'. inb io 0x1F7 d = (v, d') \<and> v AND 0xC0 = 0x40 \<and> idle_drive d' \<and> words d' = words d"
    and read_command: "idle_drive d \<Longrightarrow> h < 16 \<Longrightarrow>
      \<exists>ts d1 d2. irqs io (outs io (task_file b0 b1 b2 h 0x20) d) = (ts, d1) \<and> IDE_READY \<in> set ts \<and>
        in_longs io 128 d1 = (words d (le_word b0 b1 b2 h), d2) \<and> idle_drive d2 \<and> words d2 = words d"
    and write_command: "idle_drive d \<Longrightarrow> h < 16 \<Longrightarrow> length ws = 128 \<Longrightarrow>
      \<exists>ts d1. irqs io (out_longs io ws (outs io (task_file b0 b1 b2 h 0x30) d)) = (ts, d1) \<and>
        IDE_READY \<in> set ts \<and> idle_drive d1 \<and> words d1 = (words d)(le_word b0 b1 b2 h := ws)"
    and word_count: "idle_drive d \<Longrightarrow> length (words d k) = 128"

lemma wait_ready_returns: "IDE_READY \<in> set ts \<Longrightarrow> wait_ready ts = Inr ()"
  by (induction ts) auto

lemma le_word_bytes: "le_word (ucast w) (ucast (drop_bit 8 w)) (ucast (drop_bit 16 w)) (ucast (drop_bit 24 w)) = w"
  (is "?l = w")
proof (rule bit_word_eqI)
  fix n assume "n < LENGTH(32)"
  then consider "n < 8" | "8 \<le> n" "n < 16" | "16 \<le> n" "n < 24" | "24 \<le> n" "n < 32" by fastforce
  then show "bit ?l n \<longleftrightarrow> bit w n" unfolding le_word_def by cases (auto simp: bit_simps)
qed

lemma u8_high_bits: "8 \<le> m \<Longrightarrow> \<not> bit (a :: u8) m"
  by (auto dest: bit_imp_le_length)

lemma le_bytes_word: "le_bytes (le_word a b c e) = [a, b, c, e]"
  unfolding le_word_def le_bytes_def by (auto intro!: bit_word_eqI simp: bit_simps u8_high_bits)

lemma longs_of_bytes_of: "longs_of (bytes_of ws) = ws"
  by (induction ws) (simp_all add: bytes_of_def le_bytes_def le_word_bytes)

lemma bytes_of_longs_of: "4 dvd length bs \<Longrightarrow> bytes_of (longs_of bs) = bs"
proof (induction bs rule: longs_of.induct)
  case (1 a b c e bs)
  then have "4 dvd length bs" by simp presburger
  with 1 show ?case by (simp add: bytes_of_def le_bytes_word)
qed (auto simp: bytes_of_def dest: dvd_imp_le)

lemma length_bytes_of: "length (bytes_of ws) = 4 * length ws"
  by (induction ws) (simp_all add: bytes_of_def le_bytes_def)

lemma length_longs_of: "length (longs_of bs) = length bs div 4"
  by (induction bs rule: longs_of.induct) auto

definition ata_ops :: "'d ports \<Rightarrow> 'd sector_ops" where
  "ata_ops io = \<lparr>do_read = disk_do_read io, do_write = disk_do_write io\<rparr>"

definition sector_bytes :: "('d \<Rightarrow> u32 \<Rightarrow> u32 list) \<Rightarrow> 'd \<Rightarrow> u32 \<Rightarrow> u8 list" where
  "sector_bytes words d k = bytes_of (words d k)"

lemma low_byte: "ucast ((k :: u32) AND 0xFF) = (ucast k :: u8)"
proof -
  have "k AND 0xFF = take_bit 8 k" by (simp add: take_bit_eq_mask mask_eq_exp_minus_1)
  then show ?thesis by (auto intro!: bit_word_eqI simp: bit_simps)
qed

lemma high_byte_0: "valid_sector k \<Longrightarrow> drop_bit 24 k AND 0xFF = 0" "valid_sector k \<Longrightarrow> drop_bit 24 k = 0"
proof -
  assume "valid_sector k"
  then have "unat (drop_bit 24 k) = 0" by (simp add: valid_sector_def drop_bit_eq_div unat_div_distrib)
  then show "drop_bit 24 k = 0" by (simp add: unat_eq_zero)
  then show "drop_bit 24 k AND 0xFF = 0" by simp
qed

lemma ide_prepare_outs:
  assumes "valid_sector k" and "ide_poll io d = Some d'"
  shows "ide_prepare io k d = Inr (outs io [(0x3F6, 0), (0x1F2, 1), (0x1F3, ucast k), (0x1F4, ucast (drop_bit 8 k)),
    (0x1F5, ucast (drop_bit 16 k)), (0x1F6, 0xE0)] d')"
  using high_byte_0 [OF assms(1)] assms(2)
  by (simp add: ide_prepare_def outs_def IDE_PORT_BASE_def IDE_PORT_CTRL_def low_byte Let_def)

lemma outs_snoc: "outs io (ws @ [(p, v)]) d = outb io p v (outs io ws d)"
  by (simp add: outs_def)

lemma task_file_split:
  "task_file b0 b1 b2 0 cmd = [(0x3F6, 0), (0x1F2, 1), (0x1F3, b0), (0x1F4, b1), (0x1F5, b2), (0x1F6, 0xE0)] @ [(0x1F7, cmd)]"
  by (simp add: task_file_def)

context ata_drive
begin

lemma poll_returns:
  assumes "idle_drive d"
  obtains d' where "ide_poll io d = Some d'" and "idle_drive d'" and "words d' = words d"
proof -
  from status_ready [OF assms] obtain v d' where
    d': "inb io 0x1F7 d = (v, d')" "v AND 0xC0 = 0x40" "idle_drive d'" "words d' = words d" by blast
  then have "ide_poll io d = Some d'" by (subst ide_poll.simps) (simp add: IDE_PORT_BASE_def)
  with d' show thesis by (intro that)
qed

lemma lba:
  assumes "valid_sector k"
  shows "le_word (ucast k) (ucast (drop_bit 8 k)) (ucast (drop_bit 16 k)) 0 = k"
  using le_word_bytes [of k] high_byte_0(2) [OF assms] by simp

lemma disk_do_read_ok:
  assumes "idle_drive d" and k: "valid_sector k"
  shows "\<exists>d'. disk_do_read io k d = Inr (sector_bytes words d k, d') \<and> idle_drive d' \<and> words d' = words d"
proof -
  obtain d0 where d0: "ide_poll io d = Some d0" "idle_drive d0" "words d0 = words d"
    using poll_returns [OF assms(1)] by blast
  from read_command [OF d0(2), of 0 "ucast k" "ucast (drop_bit 8 k)" "ucast (drop_bit 16 k)"]
  obtain ts d1 d2 where
    c: "irqs io (outs io (task_file (ucast k) (ucast (drop_bit 8 k)) (ucast (drop_bit 16 k)) 0 0x20) d0) = (ts, d1)"
    "IDE_READY \<in> set ts" "in_longs io 128 d1 = (words d k, d2)" "idle_drive d2" "words d2 = words d"
    using d0(3) lba [OF k] by auto
  have "disk_do_read io k d = Inr (sector_bytes words d k, d2)"
    using c wait_ready_returns [OF c(2)]
    by (simp add: disk_do_read_def ide_prepare_outs [OF k d0(1)] issue_read_def task_file_split outs_snoc
        IDE_PORT_BASE_def sector_bytes_def Let_def del: append.simps)
  with c show ?thesis by blast
qed

lemma disk_do_write_ok:
  assumes "idle_drive d" and k: "valid_sector k" and bs: "length bs = 512"
  shows "\<exists>d'. disk_do_write io bs k d = Inr d' \<and> idle_drive d' \<and> words d' = (words d)(k := longs_of bs)"
proof -
  obtain d0 where d0: "ide_poll io d = Some d0" "idle_drive d0" "words d0 = words d"
    using poll_returns [OF assms(1)] by blast
  have "length (longs_of bs) = 128" by (simp add: length_longs_of bs)
  from write_command [OF d0(2) _ this, of 0 "ucast k" "ucast (drop_bit 8 k)" "ucast (drop_bit 16 k)"]
  obtain ts d1 where
    c: "irqs io (out_longs io (longs_of bs)
      (outs io (task_file (ucast k) (ucast (drop_bit 8 k)) (ucast (drop_bit 16 k)) 0 0x30) d0)) = (ts, d1)"
    "IDE_READY \<in> set ts" "idle_drive d1" "words d1 = (words d)(k := longs_of bs)"
    using d0(3) lba [OF k] by auto
  have "disk_do_write io bs k d = Inr d1"
    using c wait_ready_returns [OF c(2)]
    by (simp add: disk_do_write_def ide_prepare_outs [OF k d0(1)] issue_write_def task_file_split outs_snoc
        IDE_PORT_BASE_def Let_def del: append.simps)
  with c show ?thesis by blast
qed

end

sublocale ata_drive \<subseteq> store: sector_store "ata_ops io" "sector_bytes words" idle_drive
proof unfold_locales
  fix d k assume "idle_drive d" "valid_sector k"
  from disk_do_read_ok [OF this]
  show "\<exists>d'. do_read (ata_ops io) k d = Inr (sector_bytes words d k, d') \<and> idle_drive d' \<and>
      sector_bytes words d' = sector_bytes words d"
    by (auto simp: ata_ops_def sector_bytes_def fun_eq_iff)
next
  fix d k and bs :: "u8 list" assume a: "idle_drive d" "valid_sector k" "length bs = 512"
  from disk_do_write_ok [OF a] bytes_of_longs_of [of bs] a(3)
  show "\<exists>d'. do_write (ata_ops io) bs k d = Inr d' \<and> idle_drive d' \<and>
      sector_bytes words d' = (sector_bytes words d)(k := bs)"
    by (auto simp: ata_ops_def sector_bytes_def fun_eq_iff)
next
  fix d k assume "idle_drive d"
  then show "length (sector_bytes words d k) = 512"
    by (simp add: sector_bytes_def length_bytes_of word_count)
qed

context ata_drive
begin

lemma is_store: "sector_store (ata_ops io) (sector_bytes words) idle_drive"
  by unfold_locales

end

section \<open>A drive that keeps the contract\<close>

record pio =
  pwords :: "u32 \<Rightarrow> u32 list"
  reg3 :: u8
  reg4 :: u8
  reg5 :: u8
  reg6 :: u8
  pbuf :: "u32 list"
  wleft :: nat

definition pio_lba :: "pio \<Rightarrow> u32" where
  "pio_lba d = le_word (reg3 d) (reg4 d) (reg5 d) (reg6 d AND 0xF)"

definition pio_ports :: "pio ports" where
  "pio_ports =
     \<lparr>inb = (\<lambda>p d. (0x40, d)),
      outb = (\<lambda>p v d.
        if p = 0x1F3 then d\<lparr>reg3 := v\<rparr>
        else if p = 0x1F4 then d\<lparr>reg4 := v\<rparr>
        else if p = 0x1F5 then d\<lparr>reg5 := v\<rparr>
        else if p = 0x1F6 then d\<lparr>reg6 := v\<rparr>
        else if p = 0x1F7 \<and> v = 0x20 then d\<lparr>pbuf := pwords d (pio_lba d), wleft := 0\<rparr>
        else if p = 0x1F7 \<and> v = 0x30 then d\<lparr>pbuf := [], wleft := 128\<rparr>
        else d),
      inl = (\<lambda>p d. case pbuf d of [] \<Rightarrow> (0, d) | w # ws \<Rightarrow> (w, d\<lparr>pbuf := ws\<rparr>)),
      outl = (\<lambda>p w d.
        if wleft d = 0 then d
        else if wleft d = 1 then d\<lparr>pwords := (pwords d)(pio_lba d := pbuf d @ [w]), pbuf := [], wleft := 0\<rparr>
        else d\<lparr>pbuf := pbuf d @ [w], wleft := wleft d - 1\<rparr>),
      irqs = (\<lambda>d. ([IDE_WRITEBACK, IDE_READY], d))\<rparr>"

definition pio_idle :: "pio \<Rightarrow> bool" where
  "pio_idle d \<longleftrightarrow> (\<forall>k. length (pwords d k) = 128)"

lemma pio_in_longs: "pbuf d = ws \<Longrightarrow> in_longs pio_ports (length ws) d = (ws, d\<lparr>pbuf := []\<rparr>)"
proof (induction ws arbitrary: d)
  case (Cons w ws)
  from Cons.IH [of "d\<lparr>pbuf := ws\<rparr>"] Cons.prems show ?case by (simp add: pio_ports_def)
qed simp

lemma pio_out_longs:
  "wleft d = length ws \<Longrightarrow> ws \<noteq> [] \<Longrightarrow>
     out_longs pio_ports ws d = d\<lparr>pwords := (pwords d)(pio_lba d := pbuf d @ ws), pbuf := [], wleft := 0\<rparr>"
proof (induction ws arbitrary: d)
  case (Cons w ws)
  show ?case
  proof (cases "ws = []")
    case True
    with Cons.prems show ?thesis by (simp add: pio_ports_def del: fun_upd_apply)
  next
    case False
    let ?d = "d\<lparr>pbuf := pbuf d @ [w], wleft := length ws\<rparr>"
    have "outl pio_ports IDE_PORT_BASE w d = ?d" using Cons.prems False by (simp add: pio_ports_def)
    moreover have "pio_lba ?d = pio_lba d" by (simp add: pio_lba_def)
    ultimately show ?thesis using Cons.IH [of ?d] False by simp
  qed
qed simp

lemma master_bits: "h < 16 \<Longrightarrow> (0xE0 OR h) AND 0xF = (h :: u8)"
proof -
  assume h: "h < 16"
  have "(0xE0 OR h) AND 0xF = h AND (0xF :: u8)" by (simp add: bit.conj_disj_distrib2)
  also have "h AND 0xF = take_bit 4 h" by (simp add: take_bit_eq_mask mask_eq_exp_minus_1)
  also have "\<dots> = h"
  proof (rule unsigned_word_eqI [where ?'a = nat])
    show "unat (take_bit 4 h) = unat h" using h by (simp add: take_bit_eq_mod unat_mod_distrib word_less_nat_alt)
  qed
  finally show ?thesis .
qed

interpretation pio: ata_drive pio_ports pwords pio_idle
proof unfold_locales
  fix d assume "pio_idle d"
  then show "\<exists>v d'. inb pio_ports 0x1F7 d = (v, d') \<and> v AND 0xC0 = 0x40 \<and> pio_idle d' \<and> pwords d' = pwords d"
    by (simp add: pio_ports_def)
next
  fix d and h b0 b1 b2 :: u8 assume d: "pio_idle d" and h: "h < 16"
  let ?d = "outs pio_ports (task_file b0 b1 b2 h 0x20) d"
  have d1: "?d = d\<lparr>reg3 := b0, reg4 := b1, reg5 := b2, reg6 := 0xE0 OR h, pbuf := pwords d (le_word b0 b1 b2 h), wleft := 0\<rparr>"
    by (simp add: outs_def task_file_def pio_ports_def pio_lba_def master_bits [OF h])
  have i: "irqs pio_ports ?d = ([IDE_WRITEBACK, IDE_READY], ?d)" by (simp add: pio_ports_def)
  have "in_longs pio_ports 128 ?d = (pwords d (le_word b0 b1 b2 h), ?d\<lparr>pbuf := []\<rparr>)"
    using pio_in_longs [of ?d "pwords d (le_word b0 b1 b2 h)"] d by (simp add: d1 pio_idle_def)
  moreover have "pio_idle (?d\<lparr>pbuf := []\<rparr>)" "pwords (?d\<lparr>pbuf := []\<rparr>) = pwords d"
    using d by (simp_all add: d1 pio_idle_def)
  ultimately show "\<exists>ts d1 d2. irqs pio_ports ?d = (ts, d1) \<and> IDE_READY \<in> set ts \<and>
      in_longs pio_ports 128 d1 = (pwords d (le_word b0 b1 b2 h), d2) \<and> pio_idle d2 \<and> pwords d2 = pwords d"
    using i by auto
next
  fix d and h b0 b1 b2 :: u8 and ws :: "u32 list" assume d: "pio_idle d" and h: "h < 16" and ws: "length ws = 128"
  let ?d = "outs pio_ports (task_file b0 b1 b2 h 0x30) d"
  have d1: "?d = d\<lparr>reg3 := b0, reg4 := b1, reg5 := b2, reg6 := 0xE0 OR h, pbuf := [], wleft := 128\<rparr>"
    by (simp add: outs_def task_file_def pio_ports_def)
  have ne: "ws \<noteq> []" using ws by auto
  have l: "pio_lba ?d = le_word b0 b1 b2 h" by (simp add: d1 pio_lba_def master_bits [OF h])
  have o: "out_longs pio_ports ws ?d = ?d\<lparr>pwords := (pwords d)(le_word b0 b1 b2 h := ws), pbuf := [], wleft := 0\<rparr>"
    using pio_out_longs [of ?d ws] ws l ne by (simp add: d1 del: fun_upd_apply)
  show "\<exists>ts d1. irqs pio_ports (out_longs pio_ports ws ?d) = (ts, d1) \<and> IDE_READY \<in> set ts \<and> pio_idle d1 \<and>
      pwords d1 = (pwords d)(le_word b0 b1 b2 h := ws)"
    unfolding o using d ws by (simp add: pio_ports_def pio_idle_def)
next
  fix d k assume "pio_idle d"
  then show "length (pwords d k) = 128" by (simp add: pio_idle_def)
qed

section \<open>Properties\<close>

lemma cache_init_eq: "cache_init st = st\<lparr>cache := (\<lambda>i. if i < NR_SEC_CACHE then (cache st i)\<lparr>used := False\<rparr> else cache st i)\<rparr>"
proof -
  have "fold (\<lambda>i st. st\<lparr>cache := (cache st)(i := (cache st i)\<lparr>used := False\<rparr>)\<rparr>) [0..<n] st =
      st\<lparr>cache := (\<lambda>i. if i < n then (cache st i)\<lparr>used := False\<rparr> else cache st i)\<rparr>" for n
    by (induction n) (auto simp: less_Suc_eq fun_eq_iff)
  then show ?thesis by (simp add: cache_init_def)
qed

definition blank_disk :: "pio cdisk" where
  "blank_disk = \<lparr>cache = (\<lambda>_. \<lparr>sector = 0, used = False, dirty = False, content = []\<rparr>),
     drive = \<lparr>pwords = (\<lambda>_. replicate 128 0), reg3 = 0, reg4 = 0, reg5 = 0, reg6 = 0, pbuf = [], wleft = 0\<rparr>\<rparr>"

lemma blank_disk_inv: "cache_inv (sector_bytes pwords) pio_idle (cache_init blank_disk)"
  by (simp add: cache_inv_def cache_init_eq blank_disk_def pio_idle_def slot_ok_def)

text \<open>
  C13: the sector cache is a flat array of bytes.  On any drive that keeps the ATA contract,
  from any state that satisfies the cache invariant (hits, clean and dirty victims alike),
  \<open>read_byte\<close> returns the byte last written at the offset and changes none, and
  \<open>write_byte\<close> changes exactly the byte at its offset; both return and keep the invariant.
\<close>

theorem cache_is_flat_disk:
  assumes "ata_drive io words idle_drive" and "cache_inv (sector_bytes words) idle_drive st"
  shows "(\<exists>st'. read_byte (ata_ops io) off st = Inr (byte_at (sector_bytes words) st off, st') \<and>
      cache_inv (sector_bytes words) idle_drive st' \<and>
      byte_at (sector_bytes words) st' = byte_at (sector_bytes words) st) \<and>
    (\<exists>st'. write_byte (ata_ops io) off v st = Inr st' \<and> cache_inv (sector_bytes words) idle_drive st' \<and>
      byte_at (sector_bytes words) st' = (byte_at (sector_bytes words) st)(off := v))"
proof -
  note s = ata_drive.is_store [OF assms(1)]
  show ?thesis
    using sector_store.read_byte_ok [OF s assms(2)] sector_store.write_byte_ok [OF s assms(2)] by blast
qed

theorem cache_is_flat_disk_witness:
  "\<exists>st1 st2. write_byte (ata_ops pio_ports) 70000 42 (cache_init blank_disk) = Inr st1 \<and>
     read_byte (ata_ops pio_ports) 70000 st1 = Inr (42, st2)"
proof -
  have p: "ata_drive pio_ports pwords pio_idle" by (rule pio.ata_drive_axioms)
  obtain st1 where st1: "write_byte (ata_ops pio_ports) 70000 42 (cache_init blank_disk) = Inr st1"
    "cache_inv (sector_bytes pwords) pio_idle st1"
    "byte_at (sector_bytes pwords) st1 = (byte_at (sector_bytes pwords) (cache_init blank_disk))(70000 := 42)"
    using cache_is_flat_disk [OF p blank_disk_inv, of 70000 42] by blast
  then show ?thesis using cache_is_flat_disk [OF p st1(2), of 70000 0] by auto
qed

text \<open>
  write-back empties the cache onto the disk.  \<open>cache_writeback\<close> returns, changes no
  byte a reader sees, and afterwards every sector on the disk itself is what readers see.
\<close>

theorem cache_writeback_flushes:
  assumes "ata_drive io words idle_drive" and "cache_inv (sector_bytes words) idle_drive st"
  shows "\<exists>st'. cache_writeback (ata_ops io) st = Inr st' \<and> cache_inv (sector_bytes words) idle_drive st' \<and>
    byte_at (sector_bytes words) st' = byte_at (sector_bytes words) st \<and>
    (\<forall>off. sector_bytes words (drive st') (drop_bit 9 off) ! unat (off AND 511) = byte_at (sector_bytes words) st off)"
  using sector_store.cache_writeback_ok [OF ata_drive.is_store [OF assms(1)] assms(2)]
  by (auto simp: byte_at_def fun_eq_iff)

theorem cache_writeback_flushes_witness:
  "\<exists>st1 st2. write_byte (ata_ops pio_ports) 5 7 (cache_init blank_disk) = Inr st1 \<and>
     cache_writeback (ata_ops pio_ports) st1 = Inr st2 \<and>
     sector_bytes pwords (drive st2) (drop_bit 9 5) ! unat ((5 :: u32) AND 511) = 7"
proof -
  obtain st1 where st1: "write_byte (ata_ops pio_ports) 5 7 (cache_init blank_disk) = Inr st1"
    "cache_inv (sector_bytes pwords) pio_idle st1"
    "byte_at (sector_bytes pwords) st1 = (byte_at (sector_bytes pwords) (cache_init blank_disk))(5 := 7)"
    using pio.store.write_byte_ok [OF blank_disk_inv, of 5 7] by blast
  from cache_writeback_flushes [OF pio.ata_drive_axioms st1(2)] obtain st2 where
    "cache_writeback (ata_ops pio_ports) st1 = Inr st2"
    "\<forall>off. sector_bytes pwords (drive st2) (drop_bit 9 off) ! unat (off AND 511) = byte_at (sector_bytes pwords) st1 off"
    by blast
  with st1 show ?thesis by (metis fun_upd_same)
qed

text \<open>
  what is written to a sector is read back from it.  On a drive that keeps the contract
  \<open>disk_do_write\<close> followed by \<open>disk_do_read\<close> of the same sector gives the 512 bytes
  written, whatever other messages come in while the driver waits for the interrupt.
\<close>

theorem disk_write_read:
  assumes "ata_drive io words idle_drive" and "idle_drive d" and "valid_sector k" and "length bs = 512"
  shows "\<exists>d1 d2. disk_do_write io bs k d = Inr d1 \<and> disk_do_read io k d1 = Inr (bs, d2) \<and>
    words d2 = (words d)(k := longs_of bs)"
proof -
  obtain d1 where d1: "disk_do_write io bs k d = Inr d1" "idle_drive d1" "words d1 = (words d)(k := longs_of bs)"
    using ata_drive.disk_do_write_ok [OF assms] by blast
  obtain d2 where "disk_do_read io k d1 = Inr (sector_bytes words d1 k, d2)" "words d2 = words d1"
    using ata_drive.disk_do_read_ok [OF assms(1) d1(2) assms(3)] by blast
  with d1 show ?thesis using bytes_of_longs_of [of bs] assms(4) by (auto simp: sector_bytes_def)
qed

theorem disk_write_read_witness:
  "\<exists>d1 d2. disk_do_write pio_ports (replicate 512 9) 3 (drive blank_disk) = Inr d1 \<and>
     disk_do_read pio_ports 3 d1 = Inr (replicate 512 9, d2)"
  using disk_write_read [OF pio.ata_drive_axioms, of "drive blank_disk" 3 "replicate 512 9"]
  by (auto simp: blank_disk_def pio_idle_def valid_sector_def)

end
