(* ===== verification/Elf.thy ===== *)
theory Elf
  imports Strings Disk
begin

text \<open>
  The ELF structures of \<open>boot/boot.h\<close> and \<open>service/pm.c\<close>, read from memory, and the loop
  with which both loaders clear the rest of a segment.
\<close>

definition mem_u16 :: "memory \<Rightarrow> u32 \<Rightarrow> u16" where
  "mem_u16 m a = ucast (m a) OR push_bit 8 (ucast (m (a + 1)))"

definition mem_u32 :: "memory \<Rightarrow> u32 \<Rightarrow> u32" where
  "mem_u32 m a = le_word (m a) (m (a + 1)) (m (a + 2)) (m (a + 3))"

record ELFHeader =
  magic :: u32
  e_elf :: "u8 list"
  e_type :: u16
  e_machine :: u16
  e_version :: u32
  e_entry :: u32
  e_phoff :: u32
  e_shoff :: u32
  e_flags :: u32
  e_ehsize :: u16
  e_phentsize :: u16
  e_phnum :: u16
  e_shentsize :: u16
  e_shnum :: u16
  e_shstrndx :: u16

definition elf_header :: "memory \<Rightarrow> u32 \<Rightarrow> ELFHeader" where
  "elf_header m a =
     \<lparr>magic = mem_u32 m a, e_elf = map (\<lambda>k. m (a + 4 + word_of_nat k)) [0..<12], e_type = mem_u16 m (a + 16),
      e_machine = mem_u16 m (a + 18), e_version = mem_u32 m (a + 20), e_entry = mem_u32 m (a + 24),
      e_phoff = mem_u32 m (a + 28), e_shoff = mem_u32 m (a + 32), e_flags = mem_u32 m (a + 36),
      e_ehsize = mem_u16 m (a + 40), e_phentsize = mem_u16 m (a + 42), e_phnum = mem_u16 m (a + 44),
      e_shentsize = mem_u16 m (a + 46), e_shnum = mem_u16 m (a + 48), e_shstrndx = mem_u16 m (a + 50)\<rparr>"

record ProgramHeader =
  p_type :: u32
  p_off :: u32
  p_vaddr :: u32
  p_paddr :: u32
  p_filesz :: u32
  p_memsz :: u32
  p_flags :: u32
  p_align :: u32

definition program_header :: "memory \<Rightarrow> u32 \<Rightarrow> ProgramHeader" where
  "program_header m a =
     \<lparr>p_type = mem_u32 m a, p_off = mem_u32 m (a + 4), p_vaddr = mem_u32 m (a + 8), p_paddr = mem_u32 m (a + 12),
      p_filesz = mem_u32 m (a + 16), p_memsz = mem_u32 m (a + 20), p_flags = mem_u32 m (a + 24), p_align = mem_u32 m (a + 28)\<rparr>"

text \<open>
  \<open>for (i = pa + ph->filesz; i < pa + ph->memsz; *i ++ = 0);\<close> from \<open>i\<close> on.  The header is
  read again for every byte.
\<close>

partial_function (option) clear_rest :: "u32 \<Rightarrow> u32 \<Rightarrow> u32 \<Rightarrow> memory \<Rightarrow> memory option" where
  "clear_rest ph pa i m =
     (if i < pa + p_memsz (program_header m ph) then clear_rest ph pa (i + 1) (m(i := 0)) else Some m)"

section \<open>Lemmas\<close>

text \<open>Being in a range of addresses, by distance and by comparison.\<close>

lemma in_range:
  fixes x a :: u32
  assumes "unat a + n \<le> 4294967296"
  shows "unat (x - a) < n \<longleftrightarrow> unat a \<le> unat x \<and> unat x < unat a + n"
    and "unat a \<le> unat x \<Longrightarrow> unat (x - a) = unat x - unat a"
  using assms unsigned_less [where ?'a = nat and w = x] by (auto simp: unat_sub_if')

lemma memcpy_range:
  assumes "unat d + unat n \<le> 4294967296" and "unat s + unat n \<le> 4294967296"
    and "unat d + unat n \<le> unat s \<or> unat s + unat n \<le> unat d"
  shows "memcpy d s n m x = (if unat d \<le> unat x \<and> unat x < unat d + unat n then m (s + (x - d)) else m x)"
proof -
  have u: "unat (a + word_of_nat i) = unat a + i" if "i < unat n" "unat a + unat n \<le> 4294967296" for a :: u32 and i
    using that unat_plus_u32 [of a "word_of_nat i"] by simp
  have "\<forall>i j. i < j \<longrightarrow> j < unat n \<longrightarrow> d + word_of_nat i \<noteq> s + word_of_nat j"
  proof (intro allI impI notI)
    fix i j assume ij: "i < j" "j < unat n" and "d + word_of_nat i = s + (word_of_nat j :: u32)"
    then have "unat d + i = unat s + j" using u [of i d] u [of j s] assms(1,2) by simp
    then show False using assms(3) ij by linarith
  qed
  note c = memcpy_copies [OF this, of m]
  show ?thesis
  proof (cases "unat d \<le> unat x \<and> unat x < unat d + unat n")
    case True
    then have "unat (x - d) < unat n" using in_range(1) [OF assms(1)] by simp
    with c have "memcpy d s n m (d + word_of_nat (unat (x - d))) = m (s + word_of_nat (unat (x - d)))" by blast
    with True show ?thesis by simp
  next
    case False
    have "x \<noteq> d + word_of_nat k" if "k < unat n" for k using False u [OF that assms(1)] that by auto
    with c have "memcpy d s n m x = m x" by blast
    with False show ?thesis by (simp only: if_False)
  qed
qed

text \<open>A structure depends only on the bytes it occupies.\<close>

lemma mem_u32_cong:
  assumes "\<And>k. k < 4 \<Longrightarrow> m (a + word_of_nat k) = m' (a' + word_of_nat k)"
  shows "mem_u32 m a = mem_u32 m' a'"
  using assms [of 0] assms [of 1] assms [of 2] assms [of 3] by (simp add: mem_u32_def)

lemma mem_u16_cong:
  assumes "\<And>k. k < 2 \<Longrightarrow> m (a + word_of_nat k) = m' (a' + word_of_nat k)"
  shows "mem_u16 m a = mem_u16 m' a'"
  using assms [of 0] assms [of 1] by (simp add: mem_u16_def)

lemma mem_u32_at:
  assumes "\<And>k. k < n \<Longrightarrow> m (a + word_of_nat k) = m' (a' + word_of_nat k)" and "j + 4 \<le> n"
  shows "mem_u32 m (a + word_of_nat j) = mem_u32 m' (a' + word_of_nat j)"
proof (rule mem_u32_cong)
  fix k :: nat assume "k < 4"
  with assms(1) [of "j + k"] assms(2)
  show "m (a + word_of_nat j + word_of_nat k) = m' (a' + word_of_nat j + word_of_nat k)" by (simp add: add.assoc)
qed

lemma mem_u16_at:
  assumes "\<And>k. k < n \<Longrightarrow> m (a + word_of_nat k) = m' (a' + word_of_nat k)" and "j + 2 \<le> n"
  shows "mem_u16 m (a + word_of_nat j) = mem_u16 m' (a' + word_of_nat j)"
proof (rule mem_u16_cong)
  fix k :: nat assume "k < 2"
  with assms(1) [of "j + k"] assms(2)
  show "m (a + word_of_nat j + word_of_nat k) = m' (a' + word_of_nat j + word_of_nat k)" by (simp add: add.assoc)
qed

lemma program_header_cong:
  assumes "\<And>k. k < 32 \<Longrightarrow> m (a + word_of_nat k) = m' (a' + word_of_nat k)"
  shows "program_header m a = program_header m' a'"
proof -
  have w: "mem_u32 m (a + word_of_nat j) = mem_u32 m' (a' + word_of_nat j)" if "j + 4 \<le> 32" for j
    by (rule mem_u32_at [where n = 32]) (use assms that in auto)
  from w [of 0] w [of 4] w [of 8] w [of 12] w [of 16] w [of 20] w [of 24] w [of 28] show ?thesis
    by (simp add: program_header_def)
qed

lemma elf_header_cong:
  assumes "\<And>k. k < 52 \<Longrightarrow> m (a + word_of_nat k) = m' (a' + word_of_nat k)"
  shows "e_phoff (elf_header m a) = e_phoff (elf_header m' a')" and "e_phnum (elf_header m a) = e_phnum (elf_header m' a')"
    and "e_entry (elf_header m a) = e_entry (elf_header m' a')" and "magic (elf_header m a) = magic (elf_header m' a')"
proof -
  have w: "mem_u32 m (a + word_of_nat j) = mem_u32 m' (a' + word_of_nat j)" if "j + 4 \<le> 52" for j
    by (rule mem_u32_at [where n = 52]) (use assms that in auto)
  have h: "mem_u16 m (a + word_of_nat j) = mem_u16 m' (a' + word_of_nat j)" if "j + 2 \<le> 52" for j
    by (rule mem_u16_at [where n = 52]) (use assms that in auto)
  from w [of 28] show "e_phoff (elf_header m a) = e_phoff (elf_header m' a')" by (simp add: elf_header_def)
  from h [of 44] show "e_phnum (elf_header m a) = e_phnum (elf_header m' a')" by (simp add: elf_header_def)
  from w [of 24] show "e_entry (elf_header m a) = e_entry (elf_header m' a')" by (simp add: elf_header_def)
  from w [of 0] show "magic (elf_header m a) = magic (elf_header m' a')" by (simp add: elf_header_def)
qed

text \<open>Clearing ends, and clears the range, when the range is apart from the header.\<close>

lemma clear_rest_ok:
  assumes "unat i + n = unat (pa + p_memsz (program_header m ph))"
    and "\<And>k. k < 32 \<Longrightarrow> \<not> (unat i \<le> unat (ph + word_of_nat k) \<and> unat (ph + word_of_nat k) < unat i + n)"
  shows "clear_rest ph pa i m = Some (\<lambda>x. if unat i \<le> unat x \<and> unat x < unat i + n then 0 else m x)"
  using assms
proof (induction n arbitrary: i m)
  case 0
  then show ?case by (subst clear_rest.simps) (auto simp: word_less_nat_alt fun_eq_iff)
next
  case (Suc n)
  let ?e = "pa + p_memsz (program_header m ph)"
  have lt: "i < ?e" using Suc.prems(1) by (simp add: word_less_nat_alt)
  have i1: "unat (i + 1) = unat i + 1"
    using Suc.prems(1) unsigned_less [where ?'a = nat and w = ?e] unat_plus_u32 [of i 1] by simp
  have h: "program_header (m(i := 0)) ph = program_header m ph"
    using Suc.prems(2) by (intro program_header_cong) (metis fun_upd_apply le_refl less_add_Suc1 add_Suc_right)
  have "clear_rest ph pa (i + 1) (m(i := 0)) =
      Some (\<lambda>x. if unat (i + 1) \<le> unat x \<and> unat x < unat (i + 1) + n then 0 else (m(i := 0)) x)"
  proof (rule Suc.IH)
    show "unat (i + 1) + n = unat (pa + p_memsz (program_header (m(i := 0)) ph))" using Suc.prems(1) i1 h by simp
    show "\<not> (unat (i + 1) \<le> unat (ph + word_of_nat k) \<and> unat (ph + word_of_nat k) < unat (i + 1) + n)" if "k < 32" for k
      using Suc.prems(2) [OF that] i1 by simp
  qed
  moreover have "x = i \<longleftrightarrow> unat x = unat i" for x by (simp add: word_unat_eq_iff)
  ultimately show ?case using lt i1 by (subst clear_rest.simps) (auto simp: fun_eq_iff)
qed

end
