(* ===== verification/Memory.thy ===== *)
theory Memory
  imports Prelude
begin

text \<open>
  Kernel memory management: the bit fields of \<open>include/x86/memory.h\<close> and
  \<open>include/x86/cpu.h\<close>, the page tables, segment descriptors and task state segment of
  \<open>memory/kvm.c\<close> and \<open>memory/util.c\<close>.  The page tables live in the physical memory
  of the machine, read and written in words.  The address translation of the processor is
  written down as the specification the tables are judged by.
\<close>

section \<open>Bit fields\<close>

text \<open>The compiler puts the fields of a word from its least significant bit upwards.\<close>

definition set_bits :: "nat \<Rightarrow> nat \<Rightarrow> u32 \<Rightarrow> u32 \<Rightarrow> u32" where
  "set_bits lo n v w = (w AND NOT (push_bit lo (mask n))) OR push_bit lo (take_bit n v)"

definition get_bits :: "nat \<Rightarrow> nat \<Rightarrow> u32 \<Rightarrow> u32" where
  "get_bits lo n w = take_bit n (drop_bit lo w)"

lemma bit_set_bits:
  "bit (set_bits lo n v w) k \<longleftrightarrow> k < 32 \<and> (if lo \<le> k \<and> k < lo + n then bit v (k - lo) else bit w k)"
  by (auto simp: set_bits_def bit_simps dest: bit_imp_le_length)

lemma get_set_bits_same: "lo + n \<le> 32 \<Longrightarrow> get_bits lo n (set_bits lo n v w) = take_bit n v"
  by (rule bit_word_eqI) (auto simp: get_bits_def bit_set_bits bit_simps)

lemma get_set_bits_other:
  "lo + n \<le> lo' \<or> lo' + n' \<le> lo \<Longrightarrow> get_bits lo n (set_bits lo' n' v w) = get_bits lo n w"
  by (rule bit_word_eqI) (auto simp: get_bits_def bit_set_bits bit_simps dest: bit_imp_le_length)

section \<open>memory.h\<close>

definition PAGE_SIZE :: nat where
  "PAGE_SIZE = 4096"

definition NR_PDE :: nat where
  "NR_PDE = 1024"

definition NR_PTE :: nat where
  "NR_PTE = 1024"

definition PD_SIZE :: nat where
  "PD_SIZE = NR_PTE * PAGE_SIZE"

definition KOFFSET :: u32 where
  "KOFFSET = 0xC0000000"

definition PHY_MEM :: nat where
  "PHY_MEM = 128 * 1024 * 1024"

definition va_to_pa :: "u32 \<Rightarrow> u32" where
  "va_to_pa addr = addr - KOFFSET"

definition pa_to_va :: "u32 \<Rightarrow> u32" where
  "pa_to_va addr = addr + KOFFSET"

text \<open>The fields of \<open>PDE\<close>, \<open>PTE\<close>, \<open>CR0\<close> and \<open>CR3\<close> that the kernel uses: first bit and width.\<close>

definition set_page_frame :: "u32 \<Rightarrow> u32 \<Rightarrow> u32" where
  "set_page_frame = set_bits 12 20"

definition set_present :: "u32 \<Rightarrow> u32 \<Rightarrow> u32" where
  "set_present = set_bits 0 1"

definition set_read_write :: "u32 \<Rightarrow> u32 \<Rightarrow> u32" where
  "set_read_write = set_bits 1 1"

definition set_user_supervisor :: "u32 \<Rightarrow> u32 \<Rightarrow> u32" where
  "set_user_supervisor = set_bits 2 1"

definition set_page_directory_base :: "u32 \<Rightarrow> u32 \<Rightarrow> u32" where
  "set_page_directory_base = set_bits 12 20"

definition set_paging :: "u32 \<Rightarrow> u32 \<Rightarrow> u32" where
  "set_paging = set_bits 31 1"

lemmas page_bits = set_page_frame_def set_present_def set_read_write_def set_user_supervisor_def

section \<open>memory/util.c\<close>

type_synonym phys_mem = "u32 \<Rightarrow> u32"

definition make_invalid_pde :: "u32 \<Rightarrow> phys_mem \<Rightarrow> phys_mem" where
  "make_invalid_pde p ph = ph(p := 0)"

definition make_invalid_pte :: "u32 \<Rightarrow> phys_mem \<Rightarrow> phys_mem" where
  "make_invalid_pte p ph = ph(p := 0)"

definition make_pde :: "u32 \<Rightarrow> u32 \<Rightarrow> phys_mem \<Rightarrow> phys_mem" where
  "make_pde p addr ph =
     (let val = 0;
          val = set_page_frame (drop_bit 12 addr) val;
          val = set_present 1 val;
          val = set_read_write 1 val;
          val = set_user_supervisor 1 val in
      ph(p := val))"

definition make_pte :: "u32 \<Rightarrow> u32 \<Rightarrow> phys_mem \<Rightarrow> phys_mem" where
  "make_pte p addr ph =
     (let val = 0;
          val = set_page_frame (drop_bit 12 addr) val;
          val = set_present 1 val;
          val = set_read_write 1 val;
          val = set_user_supervisor 1 val in
      ph(p := val))"

section \<open>kvm.c: paging\<close>

record mmu =
  phys :: phys_mem
  cr0 :: u32
  cr3 :: u32
  kcr3_val :: u32

text \<open>
  \<open>init_page\<close> runs before paging is on, so its pointers are physical addresses; an element
  of either table is four bytes long.
\<close>

definition entry_at :: "u32 \<Rightarrow> nat \<Rightarrow> u32" where
  "entry_at base i = base + 4 * word_of_nat i"

definition fill_ptable :: "phys_mem \<times> nat \<times> u32 \<Rightarrow> phys_mem \<times> nat \<times> u32" where
  "fill_ptable =
     fold (\<lambda>ptable_idx (ph, pframe_idx, ptable).
       (make_pte ptable (push_bit 12 (word_of_nat pframe_idx)) ph, pframe_idx + 1, ptable + 4)) [0..<NR_PTE]"

definition fill_pdir :: "u32 \<Rightarrow> phys_mem \<times> nat \<times> u32 \<Rightarrow> phys_mem \<times> nat \<times> u32" where
  "fill_pdir pdir =
     fold (\<lambda>pdir_idx (ph, pframe_idx, ptable).
       let ph = make_pde (entry_at pdir pdir_idx) ptable ph;
           ph = make_pde (entry_at pdir (pdir_idx + unat KOFFSET div PD_SIZE)) ptable ph in
       fill_ptable (ph, pframe_idx, ptable)) [0..<PHY_MEM div PD_SIZE]"

definition init_page :: "u32 \<Rightarrow> u32 \<Rightarrow> mmu \<Rightarrow> mmu" where
  "init_page kpdir kptable s =
     (let pdir = va_to_pa kpdir;
          ptable = va_to_pa kptable;
          ph = fold (\<lambda>pdir_idx. make_invalid_pde (entry_at pdir pdir_idx)) [0..<NR_PDE] (phys s);
          (ph, _, _) = fill_pdir pdir (ph, 0, ptable);
          cr3' = set_page_directory_base (drop_bit 12 pdir) 0;
          s = s\<lparr>phys := ph, cr3 := cr3'\<rparr>;
          s = s\<lparr>cr0 := set_paging 1 (cr0 s)\<rparr> in
      s\<lparr>kcr3_val := cr3'\<rparr>)"

section \<open>What the tables map\<close>

text \<open>
  The translation of a linear address by the processor with paging on (4 KByte pages): the
  directory entry selected by the top ten bits, the table entry selected by the next ten,
  each with its present bit, and the offset in the page.
\<close>

definition translate :: "phys_mem \<Rightarrow> u32 \<Rightarrow> u32 \<Rightarrow> u32 option" where
  "translate ph cr va =
     (let pde = ph ((cr AND 0xFFFFF000) + 4 * drop_bit 22 va) in
      if \<not> bit pde 0 then None
      else let pte = ph ((pde AND 0xFFFFF000) + 4 * (drop_bit 12 va AND 0x3FF)) in
      if \<not> bit pte 0 then None
      else Some ((pte AND 0xFFFFF000) + (va AND 0xFFF)))"

text \<open>The value of a present entry, readable and writable by everyone.\<close>

definition page_entry :: "u32 \<Rightarrow> u32" where
  "page_entry addr = (addr AND 0xFFFFF000) OR 7"

lemma page_entry_val:
  "set_user_supervisor 1 (set_read_write 1 (set_present 1 (set_page_frame (drop_bit 12 addr) 0))) = page_entry addr"
proof (rule bit_word_eqI)
  fix n assume "n < LENGTH(32)"
  then have n: "n < 32" by simp
  have m: "(0xFFFFF000 :: u32) = push_bit 12 (mask 20)" and s: "(7 :: u32) = mask 3"
    by (simp_all add: mask_eq_exp_minus_1)
  have "n = 0 \<or> n = 1 \<or> n = 2 \<or> 3 \<le> n" by arith
  then show "bit (set_user_supervisor 1 (set_read_write 1 (set_present 1 (set_page_frame (drop_bit 12 addr) 0)))) n =
      bit (page_entry addr) n"
    unfolding page_bits page_entry_def m s using n by (elim disjE) (auto simp: bit_set_bits bit_simps)
qed

lemma make_pde_eq: "make_pde p addr ph = ph(p := page_entry addr)"
  by (simp add: make_pde_def Let_def page_entry_val)

lemma make_pte_eq: "make_pte p addr ph = ph(p := page_entry addr)"
  by (simp add: make_pte_def Let_def page_entry_val)

lemma page_entry_present: "bit (page_entry a) 0"
  by (simp add: page_entry_def bit_simps)

lemma page_entry_frame: "page_entry a AND 0xFFFFF000 = a AND 0xFFFFF000"
  by (simp add: page_entry_def bit.conj_disj_distrib2 and.assoc)

text \<open>The addresses of the first \<open>n\<close> entries of a table.\<close>

definition entries :: "u32 \<Rightarrow> nat \<Rightarrow> u32 set" where
  "entries base n = entry_at base ` {..<n}"

lemma entry_at_inj: "i < 1073741824 \<Longrightarrow> j < 1073741824 \<Longrightarrow> entry_at b i = entry_at b j \<longleftrightarrow> i = j"
proof -
  assume "i < 1073741824" "j < 1073741824"
  moreover have "4 * word_of_nat k = (word_of_nat (4 * k) :: u32)" for k by simp
  ultimately show ?thesis unfolding entry_at_def by (simp add: word_of_nat_u32_inj del: of_nat_mult)
qed

lemma entry_at_add: "entry_at (entry_at b i) j = entry_at b (i + j)"
  by (simp add: entry_at_def algebra_simps)

lemma entries_mono: "m \<le> n \<Longrightarrow> entries b m \<subseteq> entries b n"
  by (auto simp: entries_def)

lemma entry_in_entries: "i < n \<Longrightarrow> entry_at b i \<in> entries b n"
  by (simp add: entries_def)

text \<open>A loop that writes the entries of a table in order.\<close>

lemma fold_entries_out:
  "a \<notin> entries b n \<Longrightarrow> fold (\<lambda>i ph. ph(entry_at b i := v i)) [0..<n] ph a = ph a"
  by (induction n) (auto simp: entries_def lessThan_Suc)

lemma fold_entries_in:
  "i < n \<Longrightarrow> n \<le> 1073741824 \<Longrightarrow> fold (\<lambda>i ph. ph(entry_at b i := v i)) [0..<n] ph (entry_at b i) = v i"
  by (induction n) (auto simp: less_Suc_eq entry_at_inj)

lemma fill_ptable_eq:
  "fill_ptable (ph, k, pt) =
    (fold (\<lambda>j ph. ph(entry_at pt j := page_entry (push_bit 12 (word_of_nat (k + j))))) [0..<NR_PTE] ph,
     k + NR_PTE, entry_at pt NR_PTE)"
proof -
  have "fold (\<lambda>ptable_idx (ph, pframe_idx, ptable).
       (make_pte ptable (push_bit 12 (word_of_nat pframe_idx)) ph, pframe_idx + 1, ptable + 4)) [0..<n] (ph, k, pt) =
    (fold (\<lambda>j ph. ph(entry_at pt j := page_entry (push_bit 12 (word_of_nat (k + j))))) [0..<n] ph, k + n, entry_at pt n)" for n
    by (induction n) (simp_all add: make_pte_eq entry_at_def add.assoc distrib_left del: fun_upd_apply)
  then show ?thesis by (simp add: fill_ptable_def)
qed

lemma KOFFSET_pdes: "unat KOFFSET div PD_SIZE = 768"
  by (simp add: KOFFSET_def PD_SIZE_def NR_PTE_def PAGE_SIZE_def)

text \<open>
  The tables after some directory entries are filled, with \<open>pd\<close> the physical address of the
  directory and \<open>pt\<close> that of the tables.
\<close>

definition filled :: "u32 \<Rightarrow> u32 \<Rightarrow> nat \<Rightarrow> phys_mem \<Rightarrow> bool" where
  "filled pd pt m ph \<longleftrightarrow>
     (\<forall>i<1024. ph (entry_at pd i) =
        (if i < m then page_entry (entry_at pt (1024 * i))
         else if 768 \<le> i \<and> i < 768 + m then page_entry (entry_at pt (1024 * (i - 768))) else 0)) \<and>
     (\<forall>j<1024 * m. ph (entry_at pt j) = page_entry (push_bit 12 (word_of_nat j)))"

lemma filled_step:
  assumes f: "filled pd pt m ph" and m: "m < 32" and dis: "entries pd 1024 \<inter> entries pt 32768 = {}"
  shows "filled pd pt (Suc m)
    (fst (fill_ptable (make_pde (entry_at pd (m + 768)) (entry_at pt (1024 * m))
      (make_pde (entry_at pd m) (entry_at pt (1024 * m)) ph), 1024 * m, entry_at pt (1024 * m))))"
    (is "filled _ _ _ ?ph'")
proof -
  let ?ph1 = "ph(entry_at pd m := page_entry (entry_at pt (1024 * m)), entry_at pd (m + 768) := page_entry (entry_at pt (1024 * m)))"
  have ph': "?ph' = fold (\<lambda>j ph. ph(entry_at (entry_at pt (1024 * m)) j := page_entry (push_bit 12 (word_of_nat (1024 * m + j)))))
      [0..<1024] ?ph1"
    by (simp add: fill_ptable_eq make_pde_eq NR_PTE_def)
  have new: "entries (entry_at pt (1024 * m)) 1024 \<subseteq> entries pt 32768"
    using m by (auto simp: entries_def entry_at_add)
  have dir: "?ph' (entry_at pd i) = ?ph1 (entry_at pd i)" if "i < 1024" for i
    unfolding ph' using dis new entry_in_entries [OF that, of pd] by (intro fold_entries_out) blast
  have old: "?ph' (entry_at pt j) = ph (entry_at pt j)" if "j < 1024 * m" for j
  proof -
    have "entry_at pt j \<notin> entries (entry_at pt (1024 * m)) 1024"
      using that m by (auto simp: entries_def entry_at_add entry_at_inj)
    then have "?ph' (entry_at pt j) = ?ph1 (entry_at pt j)" unfolding ph' by (rule fold_entries_out)
    moreover have "entry_at pt j \<in> entries pt 32768" using that m by (intro entry_in_entries) simp
    moreover have "entry_at pd m \<in> entries pd 1024" "entry_at pd (m + 768) \<in> entries pd 1024"
      using m by (auto intro: entry_in_entries)
    ultimately show ?thesis using dis by (metis disjoint_iff fun_upd_other)
  qed
  have fresh: "?ph' (entry_at pt (1024 * m + j)) = page_entry (push_bit 12 (word_of_nat (1024 * m + j)))" if "j < 1024" for j
    using fold_entries_in [of j 1024 "entry_at pt (1024 * m)" "\<lambda>j. page_entry (push_bit 12 (word_of_nat (1024 * m + j)))" ?ph1] that
    unfolding ph' by (simp only: entry_at_add)
  show ?thesis unfolding filled_def
  proof (intro conjI allI impI)
    fix i :: nat assume "i < 1024"
    then show "?ph' (entry_at pd i) =
        (if i < Suc m then page_entry (entry_at pt (1024 * i))
         else if 768 \<le> i \<and> i < 768 + Suc m then page_entry (entry_at pt (1024 * (i - 768))) else 0)"
      using f m by (auto simp: dir entry_at_inj filled_def less_Suc_eq)
  next
    fix j assume j: "j < 1024 * Suc m"
    show "?ph' (entry_at pt j) = page_entry (push_bit 12 (word_of_nat j))"
    proof (cases "j < 1024 * m")
      case True
      then show ?thesis using f old by (simp add: filled_def)
    next
      case False
      then show ?thesis using fresh [of "j - 1024 * m"] j by simp
    qed
  qed
qed

lemma fill_pdir_filled:
  assumes dis: "entries pd 1024 \<inter> entries pt 32768 = {}" and z: "\<forall>i<1024. ph (entry_at pd i) = 0"
  shows "filled pd pt 32 (fst (fill_pdir pd (ph, 0, pt)))"
proof -
  define step where "step = (\<lambda>pdir_idx (ph, pframe_idx, ptable).
       let ph = make_pde (entry_at pd pdir_idx) ptable ph;
           ph = make_pde (entry_at pd (pdir_idx + unat KOFFSET div PD_SIZE)) ptable ph in
       fill_ptable (ph, pframe_idx, ptable))"
  have "m \<le> 32 \<Longrightarrow> \<exists>ph'. fold step [0..<m] (ph, 0, pt) = (ph', 1024 * m, entry_at pt (1024 * m)) \<and> filled pd pt m ph'" for m
  proof (induction m)
    case 0
    have "entry_at pt 0 = pt" by (simp add: entry_at_def)
    then show ?case using z by (auto simp: filled_def)
  next
    case (Suc m)
    then obtain ph' where ph': "fold step [0..<m] (ph, 0, pt) = (ph', 1024 * m, entry_at pt (1024 * m))" "filled pd pt m ph'"
      by auto
    let ?in = "(make_pde (entry_at pd (m + 768)) (entry_at pt (1024 * m))
        (make_pde (entry_at pd m) (entry_at pt (1024 * m)) ph'), 1024 * m, entry_at pt (1024 * m))"
    have "fold step [0..<Suc m] (ph, 0, pt) = fill_ptable ?in"
      using ph'(1) by (simp add: step_def Let_def KOFFSET_pdes)
    also have "\<dots> = (fst (fill_ptable ?in), 1024 * Suc m, entry_at pt (1024 * Suc m))"
      by (simp add: fill_ptable_eq NR_PTE_def entry_at_add add.commute)
    finally show ?case using filled_step [OF ph'(2) _ dis] Suc.prems by auto
  qed
  from this [of 32] show ?thesis
    by (auto simp: fill_pdir_def step_def PHY_MEM_def PD_SIZE_def NR_PTE_def PAGE_SIZE_def)
qed

definition page_aligned :: "u32 \<Rightarrow> bool" where
  "page_aligned a \<longleftrightarrow> a AND 0xFFF = 0"

lemma page_mask: "(0xFFF :: u32) = mask 12" "(0xFFFFF000 :: u32) = NOT (mask 12)" "(0x3FF :: u32) = mask 10"
  by (simp_all add: mask_eq_exp_minus_1 not_eq_complement)

lemma page_alignedD: "page_aligned a \<Longrightarrow> a AND 0xFFFFF000 = a"
proof -
  assume "page_aligned a"
  then have t: "take_bit 12 a = 0" by (simp add: page_aligned_def page_mask(1) take_bit_eq_mask)
  show ?thesis
  proof (rule bit_word_eqI)
    fix n assume "n < LENGTH(32)"
    then show "bit (a AND 0xFFFFF000) n = bit a n"
      using arg_cong [OF t, of "\<lambda>w. bit w n"] unfolding page_mask(2) by (auto simp: bit_simps)
  qed
qed

lemma page_aligned_unat: "page_aligned a \<longleftrightarrow> unat a mod 4096 = 0"
proof -
  have "page_aligned a \<longleftrightarrow> take_bit 12 a = 0" by (simp add: page_aligned_def page_mask(1) take_bit_eq_mask)
  also have "\<dots> \<longleftrightarrow> unat (take_bit 12 a) = 0" by (rule unsigned_eq_0_iff [symmetric])
  also have "unat (take_bit 12 a) = unat a mod 4096" unfolding unsigned_take_bit_eq by (simp add: take_bit_eq_mod)
  finally show ?thesis .
qed

lemma page_aligned_entry: "page_aligned pt \<Longrightarrow> page_aligned (entry_at pt (1024 * i))"
proof -
  have "entry_at pt (1024 * i) = word_of_nat (unat pt + 4096 * i)" by (simp add: entry_at_def)
  then have "unat (entry_at pt (1024 * i)) = (unat pt + 4096 * i) mod 4294967296"
    by (simp only: unat_of_nat take_bit_eq_mod) simp
  then show "page_aligned pt \<Longrightarrow> page_aligned (entry_at pt (1024 * i))"
    by (simp add: page_aligned_unat mod_mod_cancel)
qed

lemma page_aligned_frame: "page_aligned (push_bit 12 w)"
  by (simp add: page_aligned_def page_mask(1) take_bit_push_bit flip: take_bit_eq_mask)

lemma entry_at_unat: "base + 4 * w = entry_at base (unat w)"
  by (simp add: entry_at_def)

text \<open>An address is put together from its directory index, its table index and its offset.\<close>

lemma va_split:
  fixes va :: u32
  defines "i \<equiv> unat (drop_bit 22 va)" and "j \<equiv> unat (drop_bit 12 va AND 0x3FF)"
  shows "i = unat va div 4194304" and "i < 1024" and "j < 1024"
    and "push_bit 12 (word_of_nat (1024 * i + j)) + (va AND 0xFFF) = va"
proof -
  show i: "i = unat va div 4194304" unfolding i_def unat_drop_bit_eq by (simp add: drop_bit_eq_div)
  show "i < 1024" using unsigned_less [where ?'a = nat and w = va] by (simp add: i)
  have j: "j = unat (take_bit 10 (drop_bit 12 va))" by (simp add: j_def page_mask(3) take_bit_eq_mask)
  show "j < 1024" using take_bit_nat_less_exp [of 10 "unat (drop_bit 12 va)"] by (simp add: j unsigned_take_bit_eq)
  have "word_of_nat (1024 * i + j) = push_bit 10 (drop_bit 10 (drop_bit 12 va)) + take_bit 10 (drop_bit 12 va)"
    by (simp add: i_def j push_bit_eq_mult mult.commute)
  also have "\<dots> = drop_bit 12 va" by (rule bits_ident)
  finally show "push_bit 12 (word_of_nat (1024 * i + j)) + (va AND 0xFFF) = va"
    by (simp add: page_mask(1) bits_ident flip: take_bit_eq_mask)
qed

lemma translate_filled:
  assumes f: "filled pd pt 32 ph" and pd: "page_aligned pd" and pt: "page_aligned pt"
  shows "translate ph pd va =
    (if unat va < PHY_MEM then Some va
     else if unat KOFFSET \<le> unat va \<and> unat va < unat KOFFSET + PHY_MEM then Some (va - KOFFSET)
     else None)"
proof -
  let ?i = "unat (drop_bit 22 va)" and ?j = "unat (drop_bit 12 va AND 0x3FF)"
  note s = va_split [of va]
  have pde: "ph (entry_at (pd AND 0xFFFFF000) ?i) = (if ?i < 32 then page_entry (entry_at pt (1024 * ?i))
      else if 768 \<le> ?i \<and> ?i < 800 then page_entry (entry_at pt (1024 * (?i - 768))) else 0)"
    using f s(2) by (simp add: page_alignedD [OF pd] filled_def)
  have hit: "translate ph pd va = Some (push_bit 12 (word_of_nat (1024 * k + ?j)) + (va AND 0xFFF))"
    if "ph (entry_at (pd AND 0xFFFFF000) ?i) = page_entry (entry_at pt (1024 * k))" "k < 32" for k
  proof -
    have "ph (entry_at pt (1024 * k + ?j)) = page_entry (push_bit 12 (word_of_nat (1024 * k + ?j)))"
      using f s(3) that(2) by (simp add: filled_def del: of_nat_add of_nat_mult)
    then show ?thesis
      by (simp only: translate_def Let_def that(1) page_entry_present page_entry_frame
          page_alignedD [OF page_aligned_entry [OF pt]] page_alignedD [OF page_aligned_frame]
          entry_at_unat entry_at_add not_True_eq_False if_False)
  qed
  consider "?i < 32" | "768 \<le> ?i" "?i < 800" | "32 \<le> ?i" "?i < 768 \<or> 800 \<le> ?i" by linarith
  then show ?thesis
  proof cases
    case 1
    then have "unat va < PHY_MEM" unfolding s(1) PHY_MEM_def by simp
    moreover have "translate ph pd va = Some va" using hit [of ?i] pde 1 s(4) by simp
    ultimately show ?thesis by simp
  next
    case 2
    then have "\<not> unat va < PHY_MEM" "unat KOFFSET \<le> unat va \<and> unat va < unat KOFFSET + PHY_MEM"
      unfolding s(1) PHY_MEM_def KOFFSET_def by auto
    moreover have "push_bit 12 (word_of_nat (1024 * (?i - 768) + ?j)) + (va AND 0xFFF) = va - KOFFSET"
    proof -
      have "1024 * ?i + ?j = (1024 * (?i - 768) + ?j) + 786432" using 2 by simp
      then have "push_bit 12 (word_of_nat (1024 * ?i + ?j)) =
          push_bit 12 (word_of_nat (1024 * (?i - 768) + ?j)) + (KOFFSET :: u32)"
        by (simp add: push_bit_eq_mult KOFFSET_def algebra_simps)
      then show ?thesis using s(4) by (simp add: algebra_simps)
    qed
    ultimately show ?thesis using hit [of "?i - 768"] pde 2 by simp
  next
    case 3
    then have "\<not> unat va < PHY_MEM" "\<not> (unat KOFFSET \<le> unat va \<and> unat va < unat KOFFSET + PHY_MEM)"
      unfolding s(1) PHY_MEM_def KOFFSET_def by auto
    moreover have "translate ph pd va = None" using pde 3 by (auto simp: translate_def entry_at_unat)
    ultimately show ?thesis by simp
  qed
qed

lemma init_page_eq:
  assumes pd: "page_aligned (va_to_pa kpdir)"
  shows "init_page kpdir kptable s =
    s\<lparr>phys := fst (fill_pdir (va_to_pa kpdir)
        (fold (\<lambda>i ph. ph(entry_at (va_to_pa kpdir) i := 0)) [0..<1024] (phys s), 0, va_to_pa kptable)),
      cr3 := va_to_pa kpdir, cr0 := set_paging 1 (cr0 s), kcr3_val := va_to_pa kpdir\<rparr>"
proof -
  have "set_page_directory_base (drop_bit 12 (va_to_pa kpdir)) 0 = va_to_pa kpdir AND 0xFFFFF000"
    unfolding set_page_directory_base_def page_mask(2)
    by (rule bit_word_eqI) (auto simp: bit_set_bits bit_simps)
  moreover have "make_invalid_pde p = (\<lambda>ph. ph(p := 0))" for p by (simp add: fun_eq_iff make_invalid_pde_def)
  ultimately show ?thesis
    by (simp add: init_page_def Let_def page_alignedD [OF pd] NR_PDE_def case_prod_beta)
qed

section \<open>kvm.c: segments\<close>

text \<open>The bit fields of a segment descriptor at their widths; assignments truncate.\<close>

record SegDesc =
  limit_15_0 :: "16 word"
  base_15_0 :: "16 word"
  base_23_16 :: "8 word"
  seg_type :: "4 word"
  segment_type :: "1 word"
  privilege_level :: "2 word"
  seg_present :: "1 word"
  limit_19_16 :: "4 word"
  soft_use :: "1 word"
  operation_size :: "1 word"
  seg_pad0 :: "1 word"
  granularity :: "1 word"
  base_31_24 :: "8 word"

record TSS =
  prev :: u32
  esp0 :: u32
  ss0 :: u32
  dont_care :: "u8 list"

definition sizeof_TSS :: nat where
  "sizeof_TSS = 4 + 4 + 4 + 88"

definition DPL_KERNEL :: u32 where
  "DPL_KERNEL = 0"

definition DPL_USER :: u32 where
  "DPL_USER = 3"

definition SEG_WRITABLE :: u32 where
  "SEG_WRITABLE = 0x2"

definition SEG_READABLE :: u32 where
  "SEG_READABLE = 0x2"

definition SEG_EXECUTABLE :: u32 where
  "SEG_EXECUTABLE = 0x8"

definition SEG_TSS_32BIT :: u32 where
  "SEG_TSS_32BIT = 0x9"

definition NR_SEGMENTS :: nat where
  "NR_SEGMENTS = 6"

definition SEG_KERNEL_CODE :: nat where
  "SEG_KERNEL_CODE = 1"

definition SEG_KERNEL_DATA :: nat where
  "SEG_KERNEL_DATA = 2"

definition SEG_USER_CODE :: nat where
  "SEG_USER_CODE = 3"

definition SEG_USER_DATA :: nat where
  "SEG_USER_DATA = 4"

definition SEG_TSS :: nat where
  "SEG_TSS = 5"

definition SELECTOR_KERNEL :: "nat \<Rightarrow> u32" where
  "SELECTOR_KERNEL s = push_bit 3 (word_of_nat s) OR DPL_KERNEL"

definition SELECTOR_USER :: "nat \<Rightarrow> u32" where
  "SELECTOR_USER s = push_bit 3 (word_of_nat s) OR DPL_USER"

record ksegs =
  gdt :: "SegDesc list"
  tss :: TSS
  gdtr :: "u16 list"
  tr :: u16

definition null_desc :: SegDesc where
  "null_desc = \<lparr>limit_15_0 = 0, base_15_0 = 0, base_23_16 = 0, seg_type = 0, segment_type = 0, privilege_level = 0,
     seg_present = 0, limit_19_16 = 0, soft_use = 0, operation_size = 0, seg_pad0 = 0, granularity = 0, base_31_24 = 0\<rparr>"

definition tss_desc :: "u32 \<Rightarrow> SegDesc \<Rightarrow> SegDesc" where
  "tss_desc base ptr =
     (let limit = word_of_nat (sizeof_TSS - 1) :: u32 in
      ptr\<lparr>limit_15_0 := ucast (limit AND 0xffff),
          base_15_0 := ucast (base AND 0xffff),
          base_23_16 := ucast (drop_bit 16 base AND 0xff),
          seg_type := ucast SEG_TSS_32BIT,
          segment_type := 0,
          privilege_level := ucast DPL_USER,
          seg_present := 1,
          limit_19_16 := ucast (drop_bit 16 limit),
          soft_use := 0,
          operation_size := 0,
          seg_pad0 := 1,
          granularity := 0,
          base_31_24 := ucast (drop_bit 24 base)\<rparr>)"

definition set_tss :: "u32 \<Rightarrow> nat \<Rightarrow> ksegs \<Rightarrow> ksegs" where
  "set_tss tss_addr k s =
     (let s = s\<lparr>tss := (tss s)\<lparr>ss0 := SELECTOR_KERNEL SEG_KERNEL_DATA\<rparr>\<rparr> in
      s\<lparr>gdt := (gdt s)[k := tss_desc tss_addr (gdt s ! k)]\<rparr>)"

definition set_tss_esp0 :: "u32 \<Rightarrow> ksegs \<Rightarrow> ksegs" where
  "set_tss_esp0 esp s = s\<lparr>tss := (tss s)\<lparr>esp0 := esp\<rparr>\<rparr>"

definition set_segment :: "SegDesc \<Rightarrow> u32 \<Rightarrow> u32 \<Rightarrow> SegDesc" where
  "set_segment ptr pl type =
     ptr\<lparr>limit_15_0 := 0xFFFF,
         base_15_0 := 0x0,
         base_23_16 := 0x0,
         seg_type := ucast type,
         segment_type := 1,
         privilege_level := ucast pl,
         seg_present := 1,
         limit_19_16 := 0xF,
         soft_use := 0,
         operation_size := 0,
         seg_pad0 := 1,
         granularity := 1,
         base_31_24 := 0x0\<rparr>"

definition write_gdtr :: "u32 \<Rightarrow> u32 \<Rightarrow> ksegs \<Rightarrow> ksegs" where
  "write_gdtr addr sz s = s\<lparr>gdtr := [ucast (sz - 1), ucast addr, ucast (drop_bit 16 addr)]\<rparr>"

definition write_tr :: "u16 \<Rightarrow> ksegs \<Rightarrow> ksegs" where
  "write_tr selector s = s\<lparr>tr := selector\<rparr>"

definition init_segment :: "u32 \<Rightarrow> u32 \<Rightarrow> ksegs \<Rightarrow> ksegs" where
  "init_segment gdt_addr tss_addr s =
     (let g = replicate NR_SEGMENTS null_desc;
          g = g[SEG_KERNEL_CODE := set_segment (g ! SEG_KERNEL_CODE) DPL_KERNEL (SEG_EXECUTABLE OR SEG_READABLE)];
          g = g[SEG_KERNEL_DATA := set_segment (g ! SEG_KERNEL_DATA) DPL_KERNEL SEG_WRITABLE];
          g = g[SEG_USER_CODE := set_segment (g ! SEG_USER_CODE) DPL_USER (SEG_EXECUTABLE OR SEG_READABLE)];
          g = g[SEG_USER_DATA := set_segment (g ! SEG_USER_DATA) DPL_USER SEG_WRITABLE];
          s = write_gdtr gdt_addr (word_of_nat (8 * NR_SEGMENTS)) (s\<lparr>gdt := g\<rparr>);
          s = set_tss tss_addr SEG_TSS s in
      write_tr (ucast (SELECTOR_USER SEG_TSS)) s)"

text \<open>
  How the processor reads a descriptor: the base from its three parts, and the last valid
  offset, counted in pages when the granularity bit is set.
\<close>

definition desc_base :: "SegDesc \<Rightarrow> u32" where
  "desc_base d = push_bit 24 (ucast (base_31_24 d)) OR push_bit 16 (ucast (base_23_16 d)) OR ucast (base_15_0 d)"

definition desc_limit :: "SegDesc \<Rightarrow> u32" where
  "desc_limit d =
     (let l = push_bit 16 (ucast (limit_19_16 d)) OR ucast (limit_15_0 d) in
      if granularity d = 1 then push_bit 12 l OR 0xFFF else l)"

lemma tss_desc_base: "desc_base (tss_desc b d) = b"
proof -
  have m: "(0xff :: u32) = mask 8" "(0xffff :: u32) = mask 16" by (simp_all add: mask_eq_exp_minus_1)
  show ?thesis
  proof (rule bit_word_eqI)
    fix n assume "n < LENGTH(32)"
    then have n: "n < 32" by simp
    consider "n < 16" | "16 \<le> n" "n < 24" | "24 \<le> n" by linarith
    then show "bit (desc_base (tss_desc b d)) n = bit b n"
      by cases (use n in \<open>auto simp: desc_base_def tss_desc_def Let_def bit_simps m\<close>)
  qed
qed

lemma set_segment_flat: "desc_base (set_segment d pl ty) = 0" "desc_limit (set_segment d pl ty) = 0xFFFFFFFF"
  by (simp_all add: desc_base_def desc_limit_def set_segment_def)

section \<open>Properties\<close>

text \<open>
  C28: the kernel's address space.  With page aligned tables that do not overlap,
  \<open>init_page\<close> turns paging on with tables under which the processor maps the first 128
  MByte of addresses to themselves and the 128 MByte from \<open>KOFFSET\<close> to the physical
  memory from 0, and faults on every other address.
\<close>

theorem init_page_maps:
  assumes "page_aligned (va_to_pa kpdir)" and "page_aligned (va_to_pa kptable)"
    and "entries (va_to_pa kpdir) 1024 \<inter> entries (va_to_pa kptable) 32768 = {}"
  shows "bit (cr0 (init_page kpdir kptable s)) 31 \<and>
    kcr3_val (init_page kpdir kptable s) = cr3 (init_page kpdir kptable s) \<and>
    (\<forall>va. translate (phys (init_page kpdir kptable s)) (cr3 (init_page kpdir kptable s)) va =
      (if unat va < PHY_MEM then Some va
       else if unat KOFFSET \<le> unat va \<and> unat va < unat KOFFSET + PHY_MEM then Some (va_to_pa va)
       else None))"
proof -
  let ?ph = "fold (\<lambda>i ph. ph(entry_at (va_to_pa kpdir) i := 0)) [0..<1024] (phys s)"
  have "\<forall>i<1024. ?ph (entry_at (va_to_pa kpdir) i) = 0"
    using fold_entries_in [of _ 1024 "va_to_pa kpdir" "\<lambda>_. 0" "phys s"] by simp
  note f = translate_filled [OF fill_pdir_filled [OF assms(3) this] assms(1,2)]
  show ?thesis
    by (simp add: init_page_eq [OF assms(1)] f set_paging_def bit_set_bits del: fun_upd_apply)
      (simp add: va_to_pa_def)
qed

theorem init_page_maps_witness:
  "translate (phys (init_page 0xC0100000 0xC0101000 \<lparr>phys = (\<lambda>_. 7), cr0 = 1, cr3 = 0, kcr3_val = 0\<rparr>))
     (cr3 (init_page 0xC0100000 0xC0101000 \<lparr>phys = (\<lambda>_. 7), cr0 = 1, cr3 = 0, kcr3_val = 0\<rparr>)) 0xC0123456 = Some 0x123456"
proof -
  have a: "page_aligned (va_to_pa 0xC0100000)" "page_aligned (va_to_pa 0xC0101000)"
    by (simp_all add: page_aligned_def va_to_pa_def KOFFSET_def)
  have "entries 0x100000 1024 \<inter> entries 0x101000 32768 = {}"
  proof -
    have "entry_at 0x100000 i \<noteq> entry_at 0x101000 j" if "i < 1024" "j < 32768" for i j
      using entry_at_inj [of i "1024 + j" "0x100000"] that entry_at_add [of "0x100000" 1024 j] by (simp add: entry_at_def)
    then show ?thesis by (auto simp: entries_def)
  qed
  then have d: "entries (va_to_pa 0xC0100000) 1024 \<inter> entries (va_to_pa 0xC0101000) 32768 = {}"
    by (simp add: va_to_pa_def KOFFSET_def)
  from init_page_maps [OF a d, of "\<lparr>phys = (\<lambda>_. 7), cr0 = 1, cr3 = 0, kcr3_val = 0\<rparr>"]
  show ?thesis by (simp add: PHY_MEM_def KOFFSET_def va_to_pa_def)
qed

text \<open>
  C29: the segments are flat.  After \<open>init_segment\<close> the null descriptor is empty, the four
  code and data segments start at 0, reach to the last address and carry their privilege, and
  the task state segment is found at its address with its size, the kernel's data segment as
  the stack of ring 0.
\<close>

theorem init_segment_flat:
  "gdt (init_segment g t s) ! 0 = null_desc \<and>
   (\<forall>i\<in>{SEG_KERNEL_CODE, SEG_KERNEL_DATA, SEG_USER_CODE, SEG_USER_DATA}.
      desc_base (gdt (init_segment g t s) ! i) = 0 \<and> desc_limit (gdt (init_segment g t s) ! i) = 0xFFFFFFFF \<and>
      seg_present (gdt (init_segment g t s) ! i) = 1 \<and>
      privilege_level (gdt (init_segment g t s) ! i) = (if i < SEG_USER_CODE then ucast DPL_KERNEL else ucast DPL_USER)) \<and>
   desc_base (gdt (init_segment g t s) ! SEG_TSS) = t \<and>
   desc_limit (gdt (init_segment g t s) ! SEG_TSS) = word_of_nat (sizeof_TSS - 1) \<and>
   ss0 (tss (init_segment g t s)) = SELECTOR_KERNEL SEG_KERNEL_DATA"
proof -
  have gdt_eq: "gdt (init_segment g t s) =
      [null_desc, set_segment null_desc DPL_KERNEL (SEG_EXECUTABLE OR SEG_READABLE),
       set_segment null_desc DPL_KERNEL SEG_WRITABLE, set_segment null_desc DPL_USER (SEG_EXECUTABLE OR SEG_READABLE),
       set_segment null_desc DPL_USER SEG_WRITABLE, tss_desc t null_desc]"
    by (simp add: init_segment_def Let_def write_gdtr_def write_tr_def set_tss_def NR_SEGMENTS_def numeral_eq_Suc
        SEG_KERNEL_CODE_def SEG_KERNEL_DATA_def SEG_USER_CODE_def SEG_USER_DATA_def SEG_TSS_def)
  have f: "seg_present (set_segment d pl ty) = 1" "privilege_level (set_segment d pl ty) = ucast pl" for d pl ty
    by (simp_all add: set_segment_def)
  have l: "desc_limit (tss_desc t null_desc) = word_of_nat (sizeof_TSS - 1)"
    by (simp add: desc_limit_def tss_desc_def sizeof_TSS_def)
  have "ss0 (tss (init_segment g t s)) = SELECTOR_KERNEL SEG_KERNEL_DATA"
    by (simp add: init_segment_def Let_def write_gdtr_def write_tr_def set_tss_def)
  then show ?thesis
    by (simp add: gdt_eq set_segment_flat tss_desc_base f l numeral_eq_Suc
        SEG_KERNEL_CODE_def SEG_KERNEL_DATA_def SEG_USER_CODE_def SEG_USER_DATA_def SEG_TSS_def)
qed

theorem init_segment_flat_witness:
  "desc_base (gdt (init_segment 0xC0110000 0xC0120000
     \<lparr>gdt = [], tss = \<lparr>prev = 0, esp0 = 0, ss0 = 0, dont_care = []\<rparr>, gdtr = [], tr = 0\<rparr>) ! SEG_TSS) = 0xC0120000"
  using init_segment_flat [of "0xC0110000" "0xC0120000"] by blast

end
