(* ===== verification/Boot.thy ===== *)
theory Boot
  imports Elf Memory "HOL-Library.Monad_Syntax"
begin

text \<open>
  The boot loader, \<open>boot/main.c\<close>.  It runs on the bare machine: memory is the physical
  memory, and the disk is given by its ports as in \<open>Disk\<close>.  A routine that never returns is
  \<open>None\<close>: the loader waits for the disk by polling, and its loops over addresses can run
  round the address space.
\<close>

section \<open>boot/main.c\<close>

definition SECTSIZE :: int where
  "SECTSIZE = 512"

definition elf_addr :: u32 where
  "elf_addr = 0x8000"

partial_function (option) waitdisk :: "'d ports \<Rightarrow> 'd \<Rightarrow> 'd option" where
  "waitdisk io d =
     (let (v, d) = inb io 0x1F7 d in
      if v AND 0xC0 \<noteq> 0x40 then waitdisk io d else Some d)"

fun fetch_longs :: "'d ports \<Rightarrow> nat \<Rightarrow> u32 \<Rightarrow> memory \<times> 'd \<Rightarrow> memory \<times> 'd" where
  "fetch_longs io 0 dst (m, d) = (m, d)"
| "fetch_longs io (Suc n) dst (m, d) =
     (let (w, d) = inl io 0x1F0 d in fetch_longs io n (dst + 4) (store_bytes dst (le_bytes w) m, d))"

text \<open>\<open>offset\<close> is a signed integer; the bytes written to the ports are the same as of the word.\<close>

definition readsect :: "'d ports \<Rightarrow> u32 \<Rightarrow> u32 \<Rightarrow> memory \<times> 'd \<Rightarrow> (memory \<times> 'd) option" where
  "readsect io dst off md =
     (let (m, d) = md in do {
        d \<leftarrow> waitdisk io d;
        let d = outb io 0x1F2 1 d;
        let d = outb io 0x1F3 (ucast off) d;
        let d = outb io 0x1F4 (ucast (drop_bit 8 off)) d;
        let d = outb io 0x1F5 (ucast (drop_bit 16 off)) d;
        let d = outb io 0x1F6 (ucast (drop_bit 24 off) OR 0xE0) d;
        let d = outb io 0x1F7 0x20 d;
        d \<leftarrow> waitdisk io d;
        Some (fetch_longs io (nat SECTSIZE div 4) dst (m, d))
      })"

partial_function (option) readsects :: "'d ports \<Rightarrow> u32 \<Rightarrow> u32 \<Rightarrow> u32 \<Rightarrow> memory \<times> 'd \<Rightarrow> (memory \<times> 'd) option" where
  "readsects io pa epa off md =
     (if pa < epa then do {
        md \<leftarrow> readsect io pa off md;
        readsects io (pa + word_of_int SECTSIZE) epa (off + 1) md
      } else Some md)"

definition readseg :: "'d ports \<Rightarrow> u32 \<Rightarrow> u32 \<Rightarrow> u32 \<Rightarrow> memory \<times> 'd \<Rightarrow> (memory \<times> 'd) option" where
  "readseg io pa count off md =
     (let epa = pa + count;
          pa = pa - word_of_int (cmod (sint off) SECTSIZE);
          off = word_of_int (cdiv (sint off) SECTSIZE) + 1 in
      readsects io pa epa off md)"

text \<open>The loop over the program headers, which are read from memory each time.\<close>

partial_function (option) load_segments :: "'d ports \<Rightarrow> u32 \<Rightarrow> u32 \<Rightarrow> memory \<times> 'd \<Rightarrow> (memory \<times> 'd) option" where
  "load_segments io ph eph md =
     (if ph < eph then do {
        let h = program_header (fst md) ph;
        let pa = p_paddr h - KOFFSET;
        md \<leftarrow> readseg io pa (p_filesz h) (p_off h) md;
        m \<leftarrow> clear_rest ph pa (pa + p_filesz (program_header (fst md) ph)) (fst md);
        load_segments io (ph + 32) eph (m, snd md)
      } else Some md)"

text \<open>The entry point called at the end is returned with the state in which it is called.\<close>

definition bootmain :: "'d ports \<Rightarrow> memory \<times> 'd \<Rightarrow> (u32 \<times> memory \<times> 'd) option" where
  "bootmain io md = do {
     md \<leftarrow> readseg io elf_addr 4096 0 md;
     let elf = elf_header (fst md) elf_addr;
     let ph = elf_addr + e_phoff elf;
     let eph = ph + 32 * ucast (e_phnum elf);
     md \<leftarrow> load_segments io ph eph md;
     Some (e_entry (elf_header (fst md) elf_addr) - KOFFSET, md)
   }"

section \<open>The binary on the disk\<close>

text \<open>The binary starts at sector 1.\<close>

definition disk_image :: "(u32 \<Rightarrow> u32 list) \<Rightarrow> nat \<Rightarrow> u8" where
  "disk_image ws n = bytes_of (ws (word_of_nat (Suc (n div 512)))) ! (n mod 512)"

definition poll_task :: "u8 \<Rightarrow> u8 \<Rightarrow> u8 \<Rightarrow> u8 \<Rightarrow> (u16 \<times> u8) list" where
  "poll_task b0 b1 b2 h = [(0x1F2, 1), (0x1F3, b0), (0x1F4, b1), (0x1F5, b2), (0x1F6, h OR 0xE0), (0x1F7, 0x20)]"

text \<open>
  What the loader relies on of the drive.  An idle drive reports that it is ready.  After a
  read command it reports, sooner or later, that it is ready again, and then has the words of
  the sector on the data port.
\<close>

locale polled_drive =
  fixes io :: "'d ports"
    and words :: "'d \<Rightarrow> u32 \<Rightarrow> u32 list"
    and idle_drive :: "'d \<Rightarrow> bool"
  assumes status_ready: "idle_drive d \<Longrightarrow>
      \<exists>v d'. inb io 0x1F7 d = (v, d') \<and> v AND 0xC0 = 0x40 \<and> idle_drive d' \<and> words d' = words d"
    and read_polled: "idle_drive d \<Longrightarrow> h < 16 \<Longrightarrow>
      \<exists>d1 d2. waitdisk io (outs io (poll_task b0 b1 b2 h) d) = Some d1 \<and>
        in_longs io 128 d1 = (words d (le_word b0 b1 b2 h), d2) \<and> idle_drive d2 \<and> words d2 = words d"
    and word_count: "idle_drive d \<Longrightarrow> length (words d k) = 128"

lemma store_bytes_append:
  "store_bytes a (xs @ ys) m = store_bytes (a + word_of_nat (length xs)) ys (store_bytes a xs m)"
  by (induction xs arbitrary: a m) (simp_all add: add.assoc)

lemma fetch_longs_eq:
  "in_longs io n d = (ws, d') \<Longrightarrow> fetch_longs io n dst (m, d) = (store_bytes dst (bytes_of ws) m, d')"
proof (induction n arbitrary: dst m d ws d')
  case (Suc n)
  obtain w d1 where w: "inl io IDE_PORT_BASE d = (w, d1)" by fastforce
  obtain ws' d2 where r: "in_longs io n d1 = (ws', d2)" by fastforce
  from Suc.prems w r have "ws = w # ws'" "d' = d2" by simp_all
  moreover have "bytes_of (w # ws') = le_bytes w @ bytes_of ws'" by (simp add: bytes_of_def)
  moreover have "length (le_bytes w) = 4" by (simp add: le_bytes_def)
  ultimately show ?case using w Suc.IH [OF r, of "dst + 4" "store_bytes dst (le_bytes w) m"]
    by (simp add: IDE_PORT_BASE_def store_bytes_append)
qed (simp add: bytes_of_def)

lemma disk_image_sector: "j < 512 \<Longrightarrow> disk_image ws (512 * k + j) = bytes_of (ws (word_of_nat (Suc k))) ! j"
  by (simp add: disk_image_def)

context polled_drive
begin

lemma waitdisk_idle:
  assumes "idle_drive d"
  obtains d' where "waitdisk io d = Some d'" and "idle_drive d'" and "words d' = words d"
proof -
  from status_ready [OF assms] obtain v d' where
    d': "inb io 0x1F7 d = (v, d')" "v AND 0xC0 = 0x40" "idle_drive d'" "words d' = words d" by blast
  then have "waitdisk io d = Some d'" by (subst waitdisk.simps) simp
  with d' show thesis by (intro that)
qed

lemma readsect_ok:
  assumes "idle_drive d" and "valid_sector k"
  shows "\<exists>d'. readsect io dst k (m, d) = Some (store_bytes dst (bytes_of (words d k)) m, d') \<and> idle_drive d' \<and> words d' = words d"
proof -
  obtain d0 where d0: "waitdisk io d = Some d0" "idle_drive d0" "words d0 = words d"
    using waitdisk_idle [OF assms(1)] by blast
  have z: "drop_bit 24 k = 0" by (rule high_byte_0(2) [OF assms(2)])
  then have "le_word (ucast k) (ucast (drop_bit 8 k)) (ucast (drop_bit 16 k)) 0 = k" using le_word_bytes [of k] by simp
  then obtain d1 d2 where c: "waitdisk io (outs io (poll_task (ucast k) (ucast (drop_bit 8 k)) (ucast (drop_bit 16 k)) 0) d0) = Some d1"
    "in_longs io 128 d1 = (words d k, d2)" "idle_drive d2" "words d2 = words d"
    using read_polled [OF d0(2), of 0 "ucast k" "ucast (drop_bit 8 k)" "ucast (drop_bit 16 k)"] d0(3) by auto
  have "readsect io dst k (m, d) = Some (store_bytes dst (bytes_of (words d k)) m, d2)"
    using c(1) fetch_longs_eq [OF c(2)] z by (simp add: readsect_def d0(1) outs_def poll_task_def SECTSIZE_def Let_def)
  with c show ?thesis by blast
qed

lemma readsects_ok:
  assumes "idle_drive d" and "k + n < 2 ^ 23" and "unat pa + 512 * n \<le> 4294967295"
    and "unat epa \<le> unat pa + 512 * n" and "0 < n \<Longrightarrow> unat pa + 512 * (n - 1) < unat epa"
  shows "\<exists>d'. readsects io pa epa (word_of_nat (Suc k)) (m, d) =
      Some (\<lambda>x. if unat pa \<le> unat x \<and> unat x < unat pa + 512 * n then disk_image (words d) (512 * k + (unat x - unat pa)) else m x, d') \<and>
    idle_drive d' \<and> words d' = words d"
  using assms
proof (induction n arbitrary: d k pa m)
  case 0
  then show ?case by (subst readsects.simps) (auto simp: word_less_nat_alt fun_eq_iff)
next
  case (Suc n)
  have "unat (word_of_nat (Suc k) :: u32) = Suc k" using Suc.prems(2) by (intro unat_of_nat_u32) simp
  then have "valid_sector (word_of_nat (Suc k))" using Suc.prems(2) by (simp add: valid_sector_def)
  from readsect_ok [OF Suc.prems(1) this] obtain d1 where
    d1: "readsect io pa (word_of_nat (Suc k)) (m, d) = Some (store_bytes pa (bytes_of (words d (word_of_nat (Suc k)))) m, d1)"
    "idle_drive d1" "words d1 = words d" by blast
  let ?m = "store_bytes pa (bytes_of (words d (word_of_nat (Suc k)))) m"
  have len: "length (bytes_of (words d (word_of_nat (Suc k)))) = 512" using word_count [OF Suc.prems(1)] by (simp add: length_bytes_of)
  have pa: "unat (pa + 512) = unat pa + 512" using Suc.prems(3) unat_plus_u32 [of pa 512] by simp
  have "?m x = (if unat pa \<le> unat x \<and> unat x < unat pa + 512 then disk_image (words d) (512 * k + (unat x - unat pa)) else m x)" for x
  proof (cases "unat pa \<le> unat x \<and> unat x < unat pa + 512")
    case True
    then obtain j where j: "unat x = unat pa + j" "j < 512" using le_Suc_ex by fastforce
    then show ?thesis using Suc.prems(3) in_range [of pa 512 x] len by (simp add: store_bytes_eq disk_image_sector)
  next
    case False
    then show ?thesis using Suc.prems(3) in_range(1) [of pa 512 x] len by (auto simp: store_bytes_eq)
  qed
  moreover have "512 * Suc k + (unat x - (unat pa + 512)) = 512 * k + (unat x - unat pa)" if "unat pa + 512 \<le> unat x" for x :: u32
    using that by simp
  moreover obtain d2 where d2: "readsects io (pa + 512) epa (word_of_nat (Suc (Suc k))) (?m, d1) =
      Some (\<lambda>x. if unat (pa + 512) \<le> unat x \<and> unat x < unat (pa + 512) + 512 * n
          then disk_image (words d) (512 * Suc k + (unat x - unat (pa + 512))) else ?m x, d2)" "idle_drive d2" "words d2 = words d"
    using Suc.IH [of d1 "Suc k" "pa + 512" ?m, unfolded d1(3)] Suc.prems d1(2) pa by (cases n) auto
  moreover have "pa < epa" using Suc.prems(5) by (simp add: word_less_nat_alt)
  ultimately have "readsects io pa epa (word_of_nat (Suc k)) (m, d) =
      Some (\<lambda>x. if unat pa \<le> unat x \<and> unat x < unat pa + 512 * Suc n then disk_image (words d) (512 * k + (unat x - unat pa)) else m x, d2)"
    using d1(1) pa by (subst readsects.simps) (auto simp: SECTSIZE_def fun_eq_iff add.commute)
  with d2 show ?case by blast
qed

lemma readseg_ok:
  assumes "idle_drive d" and "unat off + unat count + 1024 < 2 ^ 31" and "unat off mod 512 \<le> unat pa"
    and "unat pa + unat count + 512 \<le> 4294967295"
  shows "\<exists>m' d'. readseg io pa count off (m, d) = Some (m', d') \<and> idle_drive d' \<and> words d' = words d \<and>
    (\<forall>x. unat pa \<le> unat x \<and> unat x < unat pa + unat count \<longrightarrow> m' x = disk_image (words d) (unat off + (unat x - unat pa))) \<and>
    (\<forall>x. unat x < unat pa - unat off mod 512 \<or> unat pa + unat count + 512 \<le> unat x \<longrightarrow> m' x = m x)"
proof -
  define r k n where "r = unat off mod 512" and "k = unat off div 512" and "n = (unat off mod 512 + unat count + 511) div 512"
  have off: "unat off = 512 * k + r" "r < 512" by (simp_all add: r_def k_def)
  have n: "512 * n \<le> r + unat count + 511" "r + unat count \<le> 512 * n" by (simp_all add: n_def r_def)
  let ?pa = "pa - word_of_nat r"
  have "unat (word_of_nat r :: u32) = r" using off(2) by simp
  then have pa: "unat ?pa = unat pa - r" using assms(3) r_def by (simp add: unat_sub_if')
  have epa: "unat (pa + count) = unat pa + unat count" using assms(4) by (intro unat_plus_u32) simp
  have s: "sint off = int (unat off)" using sint_of_nat_u32 [of "unat off"] assms(2) by simp
  have d: "cmod (sint off) SECTSIZE = int r" "cdiv (sint off) SECTSIZE = int k"
    by (simp_all add: s SECTSIZE_def cmod_nonneg cdiv_nonneg r_def k_def zmod_int zdiv_int)
  have eq: "readseg io pa count off (m, d) = readsects io ?pa (pa + count) (word_of_nat (Suc k)) (m, d)"
    by (simp add: readseg_def d Let_def add.commute)
  have k: "k + n < 2 ^ 23" using off n assms(2) by simp
  have b: "unat ?pa + 512 * n \<le> 4294967295" "unat (pa + count) \<le> unat ?pa + 512 * n"
    using pa epa n assms(3,4) r_def by linarith+
  have g: "unat ?pa + 512 * (n - 1) < unat (pa + count)" if "0 < n"
    using pa epa n(1) assms(3) r_def that by (cases n) auto
  obtain d' where d': "readseg io pa count off (m, d) =
      Some (\<lambda>x. if unat ?pa \<le> unat x \<and> unat x < unat ?pa + 512 * n then disk_image (words d) (512 * k + (unat x - unat ?pa)) else m x, d')"
    "idle_drive d'" "words d' = words d"
    using readsects_ok [OF assms(1) k b g, of m] unfolding eq by blast
  let ?m = "\<lambda>x. if unat ?pa \<le> unat x \<and> unat x < unat ?pa + 512 * n then disk_image (words d) (512 * k + (unat x - unat ?pa)) else m x"
  have "?m x = disk_image (words d) (unat off + (unat x - unat pa))"
    if "unat pa \<le> unat x" "unat x < unat pa + unat count" for x :: u32
  proof -
    have "unat ?pa \<le> unat x \<and> unat x < unat ?pa + 512 * n \<and> 512 * k + (unat x - unat ?pa) = unat off + (unat x - unat pa)"
      using that pa n off assms(3) r_def by linarith
    then show ?thesis by (simp only: simp_thms if_True)
  qed
  moreover have "?m x = m x" if "unat x < unat pa - r \<or> unat pa + unat count + 512 \<le> unat x" for x :: u32
  proof -
    have "\<not> (unat ?pa \<le> unat x \<and> unat x < unat ?pa + 512 * n)" using that pa n(1) assms(3) r_def by linarith
    then show ?thesis by (simp only: if_False)
  qed
  ultimately show ?thesis unfolding r_def [symmetric] using d' by blast
qed

end

section \<open>Segments\<close>

text \<open>
  Where a segment goes, that it fits there above the scratch page and below the end of memory
  with the rounding to sectors, and what loading it may touch.
\<close>

definition seg_pa :: "ProgramHeader \<Rightarrow> nat" where
  "seg_pa h = unat (p_paddr h - KOFFSET)"

definition seg_fits :: "ProgramHeader \<Rightarrow> bool" where
  "seg_fits h \<longleftrightarrow> unat (p_off h) + unat (p_filesz h) + 1024 < 2 ^ 31 \<and> p_filesz h \<le> p_memsz h \<and>
     0x9200 \<le> seg_pa h \<and> seg_pa h + unat (p_memsz h) + 512 \<le> 4294967295"

definition seg_touches :: "ProgramHeader \<Rightarrow> u32 \<Rightarrow> bool" where
  "seg_touches h x \<longleftrightarrow> seg_pa h - unat (p_off h) mod 512 \<le> unat x \<and> unat x < seg_pa h + unat (p_memsz h) + 512"

definition seg_loaded :: "(u32 \<Rightarrow> u32 list) \<Rightarrow> ProgramHeader \<Rightarrow> memory \<Rightarrow> bool" where
  "seg_loaded ws h m \<longleftrightarrow>
     (\<forall>x. seg_pa h \<le> unat x \<and> unat x < seg_pa h + unat (p_memsz h) \<longrightarrow>
        m x = (if unat x < seg_pa h + unat (p_filesz h) then disk_image ws (unat (p_off h) + (unat x - seg_pa h)) else 0))"

text \<open>Loading the second segment leaves the first alone.\<close>

definition seg_spared :: "ProgramHeader \<Rightarrow> ProgramHeader \<Rightarrow> bool" where
  "seg_spared h h' \<longleftrightarrow> seg_pa h + unat (p_memsz h) \<le> seg_pa h' - unat (p_off h') mod 512 \<or>
     seg_pa h' + unat (p_memsz h') + 512 \<le> seg_pa h"

lemma scratch_untouched: "seg_fits h \<Longrightarrow> unat x < 0x9000 \<Longrightarrow> \<not> seg_touches h x"
proof -
  assume h: "seg_fits h" "unat x < 0x9000"
  have "unat (p_off h) mod 512 < 512" by simp
  then have "unat x < seg_pa h - unat (p_off h) mod 512" using h unfolding seg_fits_def by linarith
  then show ?thesis by (simp add: seg_touches_def)
qed

context polled_drive
begin

lemma load_one:
  assumes "idle_drive d" and "h = program_header m ph" and "seg_fits h" and "0x8000 \<le> unat ph" and "unat ph + 32 \<le> 0x9000"
  obtains m1 d1 m' where "readseg io (p_paddr h - KOFFSET) (p_filesz h) (p_off h) (m, d) = Some (m1, d1)"
    and "program_header m1 ph = h" and "clear_rest ph (p_paddr h - KOFFSET) (p_paddr h - KOFFSET + p_filesz h) m1 = Some m'"
    and "idle_drive d1" and "words d1 = words d" and "seg_loaded (words d) h m'"
    and "\<And>x. \<not> seg_touches h x \<Longrightarrow> m' x = m x"
proof -
  let ?pa = "p_paddr h - KOFFSET"
  have f: "unat (p_off h) + unat (p_filesz h) + 1024 < 2 ^ 31" "unat (p_filesz h) \<le> unat (p_memsz h)"
    "0x9200 \<le> unat ?pa" "unat ?pa + unat (p_memsz h) + 512 \<le> 4294967295"
    using assms(3) by (simp_all add: seg_fits_def seg_pa_def word_le_nat_alt)
  have r: "unat (p_off h) mod 512 < 512" by simp
  have "unat (p_off h) mod 512 \<le> unat ?pa" "unat ?pa + unat (p_filesz h) + 512 \<le> 4294967295" using f r by linarith+
  from readseg_ok [OF assms(1) f(1) this, of m] obtain m1 d1 where
    m1: "readseg io ?pa (p_filesz h) (p_off h) (m, d) = Some (m1, d1)" "idle_drive d1" "words d1 = words d"
    "\<And>x. unat ?pa \<le> unat x \<Longrightarrow> unat x < unat ?pa + unat (p_filesz h) \<Longrightarrow> m1 x = disk_image (words d) (unat (p_off h) + (unat x - unat ?pa))"
    "\<And>x. unat x < unat ?pa - unat (p_off h) mod 512 \<or> unat ?pa + unat (p_filesz h) + 512 \<le> unat x \<Longrightarrow> m1 x = m x" by blast
  have head: "unat (ph + word_of_nat k) < 0x9000" if "k < 32" for k
    using that assms(5) unat_plus_u32 [of ph "word_of_nat k"] by simp
  have "m1 (ph + word_of_nat k) = m (ph + word_of_nat k)" if "k < 32" for k
    using head [OF that] f(3) r by (intro m1(5)) linarith
  then have h1: "program_header m1 ph = h" unfolding assms(2) by (intro program_header_cong)
  let ?n = "unat (p_memsz h) - unat (p_filesz h)"
  have u: "unat (?pa + p_filesz h) = unat ?pa + unat (p_filesz h)" "unat (?pa + p_memsz h) = unat ?pa + unat (p_memsz h)"
    using f by (auto intro!: unat_plus_u32)
  have c: "clear_rest ph ?pa (?pa + p_filesz h) m1 =
      Some (\<lambda>x. if unat (?pa + p_filesz h) \<le> unat x \<and> unat x < unat (?pa + p_filesz h) + ?n then 0 else m1 x)"
  proof (rule clear_rest_ok)
    show "unat (?pa + p_filesz h) + ?n = unat (?pa + p_memsz (program_header m1 ph))" using u f(2) h1 by simp
    show "\<not> (unat (?pa + p_filesz h) \<le> unat (ph + word_of_nat k) \<and> unat (ph + word_of_nat k) < unat (?pa + p_filesz h) + ?n)"
      if "k < 32" for k using head [OF that] u f(3) by simp
  qed
  let ?m' = "\<lambda>x. if unat (?pa + p_filesz h) \<le> unat x \<and> unat x < unat (?pa + p_filesz h) + ?n then 0 else m1 x"
  have "seg_loaded (words d) h ?m'" using m1(4) u f(2) by (auto simp: seg_loaded_def seg_pa_def)
  moreover have "?m' x = m x" if "\<not> seg_touches h x" for x
    using that m1(5) [of x] u f(2) by (auto simp: seg_touches_def seg_pa_def)
  ultimately show thesis using that [OF m1(1) h1 c m1(2,3)] by blast
qed

text \<open>Headers below 0x9000 stay when memory changes only above.\<close>

lemma headers_stay:
  assumes low: "\<And>x. unat x < 0x9000 \<Longrightarrow> m2 x = m x" and "unat ph + 32 * Suc i \<le> 0x9000"
  shows "program_header m2 (ph + 32 * word_of_nat i) = program_header m (ph + 32 * word_of_nat i)"
proof (rule program_header_cong)
  fix k :: nat assume k: "k < 32"
  have "ph + 32 * word_of_nat i + word_of_nat k = ph + word_of_nat (32 * i + k)" by (simp add: algebra_simps)
  then show "m2 (ph + 32 * word_of_nat i + word_of_nat k) = m (ph + 32 * word_of_nat i + word_of_nat k)"
    using k assms(2) unat_plus_u32 [of ph "word_of_nat (32 * i + k)"] unat_of_nat_u32 [of "32 * i + k"]
    by (intro low) (simp add: add.assoc)
qed

lemma load_segments_ok:
  assumes "idle_drive d" and "\<And>i. i < length hs \<Longrightarrow> program_header m (ph + 32 * word_of_nat i) = hs ! i"
    and "\<forall>h\<in>set hs. seg_fits h" and "sorted_wrt seg_spared hs"
    and "0x8000 \<le> unat ph" and "unat ph + 32 * length hs \<le> 0x9000"
  shows "\<exists>m' d'. load_segments io ph (ph + 32 * word_of_nat (length hs)) (m, d) = Some (m', d') \<and>
    (\<forall>h\<in>set hs. seg_loaded (words d) h m') \<and> (\<forall>x. unat x < 0x9000 \<longrightarrow> m' x = m x) \<and>
    (\<forall>x. (\<forall>h\<in>set hs. \<not> seg_touches h x) \<longrightarrow> m' x = m x)"
  using assms
proof (induction hs arbitrary: d m ph)
  case Nil
  show ?case by (subst load_segments.simps) simp
next
  case (Cons h hs)
  have h: "h = program_header m ph" using Cons.prems(2) [of 0] by simp
  have fit: "seg_fits h" and b: "unat ph + 32 \<le> 0x9000" using Cons.prems(3,6) by simp_all
  obtain m1 d1 m2 where o: "readseg io (p_paddr h - KOFFSET) (p_filesz h) (p_off h) (m, d) = Some (m1, d1)"
    "program_header m1 ph = h" "clear_rest ph (p_paddr h - KOFFSET) (p_paddr h - KOFFSET + p_filesz h) m1 = Some m2"
    "idle_drive d1" "words d1 = words d" "seg_loaded (words d) h m2" "\<And>x. \<not> seg_touches h x \<Longrightarrow> m2 x = m x"
    using load_one [OF Cons.prems(1) h fit Cons.prems(5) b] by blast
  have low: "m2 x = m x" if "unat x < 0x9000" for x using o(7) scratch_untouched [OF fit that] by blast
  have ph: "unat (ph + 32) = unat ph + 32" using Cons.prems(6) unat_plus_u32 [of ph 32] by simp
  have hs: "program_header m2 (ph + 32 + 32 * word_of_nat i) = hs ! i" if i: "i < length hs" for i
  proof -
    have e: "ph + 32 + 32 * word_of_nat i = ph + 32 * word_of_nat (Suc i)" by (simp add: algebra_simps)
    have "unat ph + 32 * Suc (Suc i) \<le> 0x9000" using i Cons.prems(6) by simp
    from headers_stay [OF low this] show ?thesis unfolding e using Cons.prems(2) [of "Suc i"] i by simp
  qed
  obtain m' d' where r: "load_segments io (ph + 32) (ph + 32 + 32 * word_of_nat (length hs)) (m2, d1) = Some (m', d')"
    "\<forall>h\<in>set hs. seg_loaded (words d) h m'" "\<forall>x. unat x < 0x9000 \<longrightarrow> m' x = m2 x"
    "\<forall>x. (\<forall>h\<in>set hs. \<not> seg_touches h x) \<longrightarrow> m' x = m2 x"
    using Cons.IH [OF o(4) hs] Cons.prems(3-6) ph unfolding o(5) by auto
  have "seg_loaded (words d) h m'"
  proof -
    have "\<not> seg_touches h' x" if "h' \<in> set hs" "seg_pa h \<le> unat x" "unat x < seg_pa h + unat (p_memsz h)" for h' x
      using Cons.prems(4) that by (auto simp: seg_spared_def seg_touches_def)
    then show ?thesis using o(6) r(4) by (auto simp: seg_loaded_def)
  qed
  moreover have "ph < ph + 32 * word_of_nat (length (h # hs))"
  proof -
    have "unat (32 * word_of_nat (length (h # hs)) :: u32) = 32 * length (h # hs)"
      using unat_of_nat_u32 [of "32 * length (h # hs)"] Cons.prems(6) by (simp add: algebra_simps)
    then show ?thesis using unat_plus_u32 [of ph "32 * word_of_nat (length (h # hs))"] Cons.prems(6)
      by (simp add: word_less_nat_alt)
  qed
  moreover have "ph + 32 * word_of_nat (length (h # hs)) = ph + 32 + 32 * word_of_nat (length hs)" by (simp add: algebra_simps)
  ultimately have "load_segments io ph (ph + 32 * word_of_nat (length (h # hs))) (m, d) = Some (m', d')"
    using o(1-3) r(1) h by (subst load_segments.simps) (simp add: add.assoc)
  then show ?case using \<open>seg_loaded (words d) h m'\<close> r(2-4) o(7) low by auto
qed

end

section \<open>The kernel\<close>

text \<open>The file as it lies in memory after its first 4096 bytes are read, and its program headers.\<close>

definition file_at :: "(u32 \<Rightarrow> u32 list) \<Rightarrow> memory" where
  "file_at ws a = disk_image ws (unat (a - elf_addr))"

definition boot_headers :: "(u32 \<Rightarrow> u32 list) \<Rightarrow> ProgramHeader list" where
  "boot_headers ws =
     (let elf = elf_header (file_at ws) elf_addr in
      map (\<lambda>i. program_header (file_at ws) (elf_addr + e_phoff elf + 32 * word_of_nat i)) [0..<unat (e_phnum elf)])"

definition bootable :: "(u32 \<Rightarrow> u32 list) \<Rightarrow> bool" where
  "bootable ws \<longleftrightarrow>
     unat (e_phoff (elf_header (file_at ws) elf_addr)) + 32 * length (boot_headers ws) \<le> 4096 \<and>
     (\<forall>h\<in>set (boot_headers ws). seg_fits h) \<and> sorted_wrt seg_spared (boot_headers ws)"

text \<open>
  C10: the boot loader loads the kernel and enters it.  From a drive whose binary has its
  program headers in the first 4096 bytes and whose segments fit in memory without the loading
  of one running over an earlier one, \<open>bootmain\<close> returns from its loops and calls the entry
  point of the binary, less the kernel offset, with every segment in its place: the bytes of
  the file, and zeros up to its size in memory.  Memory that no segment touches is unchanged
  beyond the scratch page.
\<close>

theorem bootmain_loads_kernel:
  assumes "polled_drive io words idle_drive" and "idle_drive d" and "bootable (words d)"
  shows "\<exists>m' d'. bootmain io (m, d) = Some (e_entry (elf_header (file_at (words d)) elf_addr) - KOFFSET, m', d') \<and>
    (\<forall>h\<in>set (boot_headers (words d)). seg_loaded (words d) h m') \<and>
    (\<forall>x. unat x \<notin> {0x8000..<0x9200} \<and> (\<forall>h\<in>set (boot_headers (words d)). \<not> seg_touches h x) \<longrightarrow> m' x = m x)"
proof -
  let ?f = "file_at (words d)" and ?hs = "boot_headers (words d)"
  have e: "unat elf_addr = 0x8000" by (simp add: elf_addr_def)
  have "\<exists>m' d'. readseg io elf_addr 4096 0 (m, d) = Some (m', d') \<and> idle_drive d' \<and> words d' = words d \<and>
    (\<forall>x. 0x8000 \<le> unat x \<and> unat x < 0x9000 \<longrightarrow> m' x = disk_image (words d) (unat x - 0x8000)) \<and>
    (\<forall>x. unat x < 0x8000 \<or> 0x9200 \<le> unat x \<longrightarrow> m' x = m x)"
    using polled_drive.readseg_ok [OF assms(1,2), of 0 4096 elf_addr m] by (simp add: e)
  then obtain m1 d1 where m1: "readseg io elf_addr 4096 0 (m, d) = Some (m1, d1)" "idle_drive d1" "words d1 = words d"
    "\<And>x. 0x8000 \<le> unat x \<Longrightarrow> unat x < 0x9000 \<Longrightarrow> m1 x = disk_image (words d) (unat x - 0x8000)"
    "\<And>x. unat x < 0x8000 \<or> 0x9200 \<le> unat x \<Longrightarrow> m1 x = m x" by blast
  have at: "m1 (elf_addr + word_of_nat k) = ?f (elf_addr + word_of_nat k)" if "k < 4096" for k
    using that m1(4) [of "elf_addr + word_of_nat k"] unat_plus_u32 [of elf_addr "word_of_nat k"] e by (simp add: file_at_def)
  have elf: "e_phoff (elf_header m1 elf_addr) = e_phoff (elf_header ?f elf_addr)" "e_phnum (elf_header m1 elf_addr) = e_phnum (elf_header ?f elf_addr)"
    by (intro elf_header_cong; simp add: at)+
  define off num where "off = e_phoff (elf_header ?f elf_addr)" and "num = e_phnum (elf_header ?f elf_addr)"
  have len: "length ?hs = unat num" by (simp add: boot_headers_def num_def Let_def)
  have b: "unat off + 32 * unat num \<le> 4096" "\<forall>h\<in>set ?hs. seg_fits h" "sorted_wrt seg_spared ?hs"
    using assms(3) len by (simp_all add: bootable_def off_def)
  have ph: "unat (elf_addr + off) = 0x8000 + unat off" using unat_plus_u32 [of elf_addr off] e b(1) by simp
  have hs: "program_header m1 (elf_addr + off + 32 * word_of_nat i) = ?hs ! i" if i: "i < length ?hs" for i
  proof -
    have "m1 (elf_addr + off + 32 * word_of_nat i + word_of_nat k) = ?f (elf_addr + off + 32 * word_of_nat i + word_of_nat k)" if "k < 32" for k
    proof -
      have "elf_addr + off + 32 * word_of_nat i + word_of_nat k = elf_addr + word_of_nat (unat off + 32 * i + k)" by (simp add: add.assoc)
      moreover have "unat off + 32 * i + k < 4096" using b(1) i len that by simp
      ultimately show ?thesis using at by metis
    qed
    then have "program_header m1 (elf_addr + off + 32 * word_of_nat i) = program_header ?f (elf_addr + off + 32 * word_of_nat i)"
      by (rule program_header_cong)
    then show ?thesis using i len by (simp add: boot_headers_def off_def num_def Let_def)
  qed
  have n: "word_of_nat (length ?hs) = (ucast num :: u32)" by (simp add: len)
  obtain m' d' where r: "load_segments io (elf_addr + off) (elf_addr + off + 32 * ucast num) (m1, d1) = Some (m', d')"
    "\<forall>h\<in>set ?hs. seg_loaded (words d) h m'" "\<forall>x. unat x < 0x9000 \<longrightarrow> m' x = m1 x"
    "\<forall>x. (\<forall>h\<in>set ?hs. \<not> seg_touches h x) \<longrightarrow> m' x = m1 x"
    using polled_drive.load_segments_ok [OF assms(1) m1(2) hs b(2,3)] b(1) ph len unfolding m1(3) n by auto
  have "m' (elf_addr + word_of_nat k) = ?f (elf_addr + word_of_nat k)" if "k < 52" for k
    using that at [of k] r(3) unat_plus_u32 [of elf_addr "word_of_nat k"] e by simp
  then have "e_entry (elf_header m' elf_addr) = e_entry (elf_header ?f elf_addr)" by (rule elf_header_cong(3))
  then have "bootmain io (m, d) = Some (e_entry (elf_header ?f elf_addr) - KOFFSET, m', d')"
    using m1(1) r(1) elf by (simp add: bootmain_def off_def num_def)
  then show ?thesis using r(2,4) m1(5) by (auto simp: not_less not_le)
qed

text \<open>A drive that is always ready keeps the contract.\<close>

lemma pio_waitdisk: "waitdisk pio_ports d = Some d"
  by (subst waitdisk.simps) (simp add: pio_ports_def)

interpretation ppio: polled_drive pio_ports pwords pio_idle
proof unfold_locales
  fix d assume "pio_idle d"
  then show "\<exists>v d'. inb pio_ports 0x1F7 d = (v, d') \<and> v AND 0xC0 = 0x40 \<and> pio_idle d' \<and> pwords d' = pwords d"
    by (simp add: pio_ports_def)
next
  fix d and h b0 b1 b2 :: u8 assume d: "pio_idle d" and h: "h < 16"
  let ?d = "outs pio_ports (poll_task b0 b1 b2 h) d"
  have d1: "?d = d\<lparr>reg3 := b0, reg4 := b1, reg5 := b2, reg6 := h OR 0xE0, pbuf := pwords d (le_word b0 b1 b2 h), wleft := 0\<rparr>"
    using master_bits [OF h] by (simp add: outs_def poll_task_def pio_ports_def pio_lba_def or.commute)
  have "in_longs pio_ports 128 ?d = (pwords d (le_word b0 b1 b2 h), ?d\<lparr>pbuf := []\<rparr>)"
    using pio_in_longs [of ?d "pwords d (le_word b0 b1 b2 h)"] d by (simp add: d1 pio_idle_def)
  moreover have "pio_idle (?d\<lparr>pbuf := []\<rparr>)" "pwords (?d\<lparr>pbuf := []\<rparr>) = pwords d"
    using d by (simp_all add: d1 pio_idle_def)
  ultimately show "\<exists>d1 d2. waitdisk pio_ports ?d = Some d1 \<and>
      in_longs pio_ports 128 d1 = (pwords d (le_word b0 b1 b2 h), d2) \<and> pio_idle d2 \<and> pwords d2 = pwords d"
    by (simp add: pio_waitdisk)
next
  fix d k assume "pio_idle d"
  then show "length (pwords d k) = 128" by (simp add: pio_idle_def)
qed

text \<open>A small binary: two bytes of a segment of four, to be loaded at one megabyte.\<close>

definition demo_file :: "nat \<Rightarrow> u8" where
  "demo_file n =
     (case map_of [(26, 0x10), (27, 0xC0), (28, 52), (44, 1), (57, 0x10), (66, 0x10), (67, 0xC0), (68, 2), (72, 4),
        (4096, 7), (4097, 9)] n of None \<Rightarrow> 0 | Some b \<Rightarrow> b)"

definition demo_drive :: pio where
  "demo_drive = \<lparr>pwords = (\<lambda>k. longs_of (map (\<lambda>j. demo_file (512 * (unat k - 1) + j)) [0..<512])),
     reg3 = 0, reg4 = 0, reg5 = 0, reg6 = 0, pbuf = [], wleft = 0\<rparr>"

lemma demo_idle: "pio_idle demo_drive"
  by (simp add: pio_idle_def demo_drive_def length_longs_of)

lemma demo_image: "n < 100000 \<Longrightarrow> disk_image (pwords demo_drive) n = demo_file n"
  using unat_of_nat_u32 [of "Suc (n div 512)"] by (simp add: disk_image_def demo_drive_def bytes_of_longs_of del: of_nat_Suc)

lemma demo_at: "k < 100000 \<Longrightarrow> file_at (pwords demo_drive) (elf_addr + word_of_nat k) = demo_file k"
  by (simp add: file_at_def demo_image)

lemma demo_word:
  "k < 90000 \<Longrightarrow> mem_u32 (file_at (pwords demo_drive)) (elf_addr + word_of_nat k) =
     le_word (demo_file k) (demo_file (k + 1)) (demo_file (k + 2)) (demo_file (k + 3))"
  using demo_at [of k] demo_at [of "k + 1"] demo_at [of "k + 2"] demo_at [of "k + 3"] by (simp add: mem_u32_def ac_simps)

lemma demo_elf:
  "e_phoff (elf_header (file_at (pwords demo_drive)) elf_addr) = 52" "e_phnum (elf_header (file_at (pwords demo_drive)) elf_addr) = 1"
  "e_entry (elf_header (file_at (pwords demo_drive)) elf_addr) = 0xC0100000"
  using demo_word [of 28] demo_word [of 24] demo_at [of 44] demo_at [of 45]
  by (simp_all add: elf_header_def demo_file_def le_word_def mem_u16_def add.assoc)

lemma demo_headers:
  "boot_headers (pwords demo_drive) = [\<lparr>p_type = 0, p_off = 4096, p_vaddr = 0, p_paddr = 0xC0100000, p_filesz = 2, p_memsz = 4,
     p_flags = 0, p_align = 0\<rparr>]"
  using demo_word [of 52] demo_word [of 56] demo_word [of 60] demo_word [of 64] demo_word [of 68] demo_word [of 72]
    demo_word [of 76] demo_word [of 80]
  by (simp add: boot_headers_def demo_elf Let_def program_header_def demo_file_def le_word_def add.assoc)

theorem bootmain_loads_kernel_witness:
  "\<exists>m' d'. bootmain pio_ports (\<lambda>_. 1, demo_drive) = Some (0x100000, m', d') \<and>
     map m' [0x100000, 0x100001, 0x100002, 0x100003, 0x7000] = [7, 9, 0, 0, 1]"
proof -
  have b: "bootable (pwords demo_drive)"
    by (simp add: bootable_def demo_elf demo_headers seg_fits_def seg_pa_def KOFFSET_def)
  from bootmain_loads_kernel [OF ppio.polled_drive_axioms demo_idle b, of "\<lambda>_. 1"] obtain m' d' where
    m': "bootmain pio_ports (\<lambda>_. 1, demo_drive) = Some (0x100000, m', d')"
    "\<And>x. 0x100000 \<le> unat x \<Longrightarrow> unat x < 0x100004 \<Longrightarrow>
       m' x = (if unat x < 0x100002 then disk_image (pwords demo_drive) (4096 + (unat x - 0x100000)) else 0)"
    "\<And>x. unat x \<notin> {0x8000..<0x9200} \<Longrightarrow> unat x < 0x100000 \<Longrightarrow> m' x = 1"
    by (auto simp: demo_elf demo_headers seg_loaded_def seg_touches_def seg_pa_def KOFFSET_def)
  then show ?thesis using m'(2) [of "0x100000"] m'(2) [of "0x100001"] m'(2) [of "0x100002"] m'(2) [of "0x100003"] m'(3) [of "0x7000"]
    by (simp add: demo_image demo_file_def)
qed

end
