(* ===== verification/Hal.thy ===== *)
theory Hal
  imports Irq Strings
begin

text \<open>
  The device registry and the device access of \<open>drivers/hal.c\<close>.  A registered device is a
  name with the process that serves it and a device number.  The abstraction of the
  registry is the list of registered devices in the order of their registration, read as a
  finite map from names.
\<close>

section \<open>hal.c\<close>

definition NR_DEV :: nat where
  "NR_DEV = 16"

definition DEV_READ :: u32 where
  "DEV_READ = 1"

definition DEV_WRITE :: u32 where
  "DEV_WRITE = 2"

record Dev =
  dname :: string
  dpid :: pid_t
  ddev_id :: u32

record khal = kirq +
  dev_pool :: "nat \<Rightarrow> Dev"

definition init_hal :: "'a khal_scheme \<Rightarrow> 'a khal_scheme res" where
  "init_hal s =
     bindR (on_heap (list_init (Some FreeDev)) s) (\<lambda>s.
     bindR (forR (\<lambda>i. on_heap (list_add_before (Some FreeDev) (Some (DevNode i)))) [0..<NR_DEV] s) (\<lambda>s.
     on_heap (list_init (Some Devices)) s))"

definition dev_no :: "laddr \<Rightarrow> nat res" where
  "dev_no a = (case a of DevNode k \<Rightarrow> Inr k | _ \<Rightarrow> Inl (OutOfBounds ''list_entry Dev''))"

definition dev_named :: "string \<Rightarrow> 'a khal_scheme \<Rightarrow> laddr \<Rightarrow> bool" where
  "dev_named name s a = (case a of DevNode k \<Rightarrow> strcmp (dname (dev_pool s k)) name = 0 | _ \<Rightarrow> False)"

text \<open>\<open>NULL\<close> is \<open>None\<close>, a device its index in the pool.\<close>

definition hal_get :: "string \<Rightarrow> 'a khal_scheme \<Rightarrow> (nat option \<times> 'a khal_scheme) res" where
  "hal_get name s =
     (let s = lock s in
      bindR (list_foreach_until (NR_DEV + 1) (heap s) (dev_named name s) Devices) (\<lambda>it.
      if it \<noteq> Devices then
        let s = unlock s in
        bindR (dev_no it) (\<lambda>dev. Inr (Some dev, s))
      else
        let s = unlock s in
        Inr (None, s)))"

definition hal_get_id :: "string \<Rightarrow> 'a khal_scheme \<Rightarrow> ((pid_t \<times> u32) \<times> 'a khal_scheme) res" where
  "hal_get_id name s =
     bindR (hal_get name s) (\<lambda>(dev, s).
     case dev of
       None \<Rightarrow> Inl (AssertFail ''dev != NULL'')
     | Some k \<Rightarrow> Inr ((dpid (dev_pool s k), ddev_id (dev_pool s k)), s))"

definition hal_register :: "string \<Rightarrow> pid_t \<Rightarrow> u32 \<Rightarrow> 'a khal_scheme \<Rightarrow> 'a khal_scheme res" where
  "hal_register name p d s =
     (let s = lock s in
      bindR (list_empty (Some FreeDev) (heap s)) (\<lambda>e.
      if e then Inl (Panic ''no room for more device'')
      else
        bindR (hal_get name s) (\<lambda>(dev, s).
        if dev \<noteq> None then Inl (Panic ''device is already registered!'')
        else
          case nxt (heap s) FreeDev of
            None \<Rightarrow> Inl (NullDeref ''free_dev.next'')
          | Some a \<Rightarrow>
              bindR (dev_no a) (\<lambda>k.
              bindR (on_heap (list_del (Some (DevNode k))) s) (\<lambda>s.
              let s = s\<lparr>dev_pool := (dev_pool s)(k := \<lparr>dname = name, dpid = p, ddev_id = d\<rparr>)\<rparr> in
              bindR (on_heap (list_add_before (Some Devices) (Some (DevNode k))) s) (\<lambda>s.
              Inr (unlock s)))))))"

text \<open>The devices \<open>hal_list\<close> prints, in order.\<close>

definition hal_list :: "'a khal_scheme \<Rightarrow> (Dev list \<times> 'a khal_scheme) res" where
  "hal_list s =
     (let s = lock s in
      bindR (list_foreach (NR_DEV + 1) (heap s) Devices) (\<lambda>its.
      bindR (forR (\<lambda>it ds. bindR (dev_no it) (\<lambda>k. Inr (ds @ [dev_pool s k]))) its []) (\<lambda>ds.
      Inr (ds, unlock s))))"

text \<open>
  \<open>dev_rw\<close> sends the request to the process that serves the device and waits for its
  answer; the value returned is the word \<open>ret\<close> (\<open>mtype\<close>) of the message received.
\<close>

definition dev_request :: "Dev \<Rightarrow> u32 \<Rightarrow> pid_t \<Rightarrow> pid_t \<Rightarrow> u32 \<Rightarrow> u32 \<Rightarrow> u32 \<Rightarrow> Msg" where
  "dev_request dev type self reqst_pid b off len =
     \<lparr>src = self, dest = 0, mtype = type, req_pid = reqst_pid, dev_id = ddev_id dev, buf = b,
      offset = off, mlen = len\<rparr>"

definition dev_rw ::
    "string \<Rightarrow> u32 \<Rightarrow> pid_t \<Rightarrow> u32 \<Rightarrow> u32 \<Rightarrow> u32 \<Rightarrow> 'a khal_scheme \<Rightarrow> 'a khal_scheme received res" where
  "dev_rw dev_name type reqst_pid b off len s =
     bindR (hal_get dev_name s) (\<lambda>(dev, s).
     case dev of
       None \<Rightarrow> Inl (AssertFail ''dev != NULL'')
     | Some k \<Rightarrow>
         bindR (current_pid s) (\<lambda>self.
         let dev = dev_pool s k;
             m = dev_request dev type self reqst_pid b off len in
         bindR (send (dpid dev) m s) (\<lambda>(m, s).
         receive (dpid dev) s)))"

definition dev_read ::
    "string \<Rightarrow> pid_t \<Rightarrow> u32 \<Rightarrow> u32 \<Rightarrow> u32 \<Rightarrow> 'a khal_scheme \<Rightarrow> 'a khal_scheme received res" where
  "dev_read dev_name reqst_pid b off len s = dev_rw dev_name DEV_READ reqst_pid b off len s"

definition dev_write ::
    "string \<Rightarrow> pid_t \<Rightarrow> u32 \<Rightarrow> u32 \<Rightarrow> u32 \<Rightarrow> 'a khal_scheme \<Rightarrow> 'a khal_scheme received res" where
  "dev_write dev_name reqst_pid b off len s = dev_rw dev_name DEV_WRITE reqst_pid b off len s"

section \<open>The registry\<close>

definition dev_idx :: "laddr \<Rightarrow> nat" where
  "dev_idx a = (case a of DevNode k \<Rightarrow> k | _ \<Rightarrow> 0)"

definition dev_at :: "'a khal_scheme \<Rightarrow> laddr \<Rightarrow> Dev" where
  "dev_at s a = dev_pool s (dev_idx a)"

definition dev_nodes :: "laddr set" where
  "dev_nodes = DevNode ` {..<NR_DEV}"

definition hal_inv :: "'a khal_scheme \<Rightarrow> laddr set \<Rightarrow> (laddr \<Rightarrow> laddr list) \<Rightarrow> bool" where
  "hal_inv s H L \<longleftrightarrow>
     proc_inv s H L \<and> FreeDev \<in> H \<and> Devices \<in> H \<and>
     set (L FreeDev) \<union> set (L Devices) = dev_nodes \<and>
     distinct (map (dname \<circ> dev_at s) (L Devices))"

definition registry :: "'a khal_scheme \<Rightarrow> (laddr \<Rightarrow> laddr list) \<Rightarrow> (string \<times> pid_t \<times> u32) list" where
  "registry s L = map (\<lambda>a. (dname (dev_at s a), dpid (dev_at s a), ddev_id (dev_at s a))) (L Devices)"


text \<open>
  The lists of the registry and of the file manager are no business of the process
  manager: changing them keeps the invariant of the process lists.
\<close>

definition side_list :: "laddr \<Rightarrow> bool" where
  "side_list l \<longleftrightarrow> l = FreeDev \<or> l = Devices \<or> (\<exists>k. l = HashHead k)"

lemma side_list_kind: "side_list l \<Longrightarrow> \<not> is_pqueue l \<and> \<not> is_node l \<and> l \<noteq> MsgList i \<and> l \<noteq> SemBlock x"
  by (auto simp: side_list_def)

lemma side_nodes:
  assumes "lists_inv H L" and "l \<in> H" and "side_list l"
  shows "set (L l) \<subseteq> Collect is_node - range PcbList"
proof -
  have "\<not> is_pqueue l" using side_list_kind [OF assms(3)] by blast
  moreover have "\<forall>l\<in>H. \<not> is_pqueue l \<longrightarrow> set (L l) \<subseteq> Collect is_node - range PcbList"
    using assms(1) by (simp add: lists_inv_def)
  ultimately show ?thesis using assms(2) by blast
qed

lemma threads_in_pqueues:
  assumes "lists_inv H L" and "a \<in> threads"
  obtains l where "l \<in> H" and "is_pqueue l" and "a \<in> set (L l)"
proof -
  obtain i where i: "a = PcbList i" using assms(2) by (elim threadsE)
  have "a \<in> linked H L" using assms unfolding lists_inv_def by blast
  then obtain l where l: "l \<in> H" "a = l \<or> a \<in> set (L l)" by (auto simp: linked_def)
  then have m: "a \<in> set (L l)" using lists_invD(4) [OF assms(1) l(1)] i by auto
  have "is_pqueue l" using assms(1) l(1) m i unfolding lists_inv_def by blast
  with l(1) m show thesis by (intro that)
qed

lemma lists_inv_side:
  assumes li: "lists_inv H L" and sub: "H \<subseteq> H'" and new: "\<And>l. l \<in> H' \<Longrightarrow> l \<notin> H \<Longrightarrow> side_list l"
    and same: "\<And>l. \<not> side_list l \<Longrightarrow> M l = L l"
    and side: "\<And>l. l \<in> H' \<Longrightarrow> side_list l \<Longrightarrow> set (M l) \<subseteq> Collect is_node - range PcbList"
  shows "lists_inv H' M"
proof -
  have pq: "l \<in> H \<and> M l = L l" if "l \<in> H'" "is_pqueue l" for l
    using that new same side_list_kind by blast
  have 1: "{Ready, Block, Free} \<subseteq> H'" using li sub unfolding lists_inv_def by blast
  have 2: "\<forall>l\<in>H'. \<not> is_node l"
    using li new side_list_kind unfolding lists_inv_def by blast
  have 3: "\<forall>l\<in>H'. is_pqueue l \<longrightarrow> set (M l) \<subseteq> threads"
    using li pq unfolding lists_inv_def by metis
  have 4: "\<forall>l\<in>H'. \<not> is_pqueue l \<longrightarrow> set (M l) \<subseteq> Collect is_node - range PcbList"
  proof (intro ballI impI)
    fix l assume l: "l \<in> H'" "\<not> is_pqueue l"
    show "set (M l) \<subseteq> Collect is_node - range PcbList"
    proof (cases "side_list l")
      case False
      then have "l \<in> H" "M l = L l" using new l same by blast+
      with li l show ?thesis unfolding lists_inv_def by metis
    qed (use side l in blast)
  qed
  have 5: "threads \<subseteq> linked H' M"
  proof
    fix a assume "a \<in> threads"
    then obtain l where "l \<in> H" "is_pqueue l" "a \<in> set (L l)" by (rule threads_in_pqueues [OF li])
    then have "l \<in> H'" "a \<in> set (M l)" using sub pq by auto
    then show "a \<in> linked H' M" by (auto simp: linked_def)
  qed
  have f: "M Free = L Free" using same side_list_kind [of Free] by (metis is_pqueue.simps(3))
  have "(MsgList i \<in> H') = (MsgList i \<in> H)" "(SemBlock (MsgSem i) \<in> H') = (SemBlock (MsgSem i) \<in> H)" for i
    using sub new side_list_kind by blast+
  with li f have 6: "\<forall>i. PcbList i \<in> threads \<longrightarrow>
        (MsgList i \<in> H') = (PcbList i \<notin> set (M Free)) \<and>
        (SemBlock (MsgSem i) \<in> H') = (PcbList i \<notin> set (M Free))"
    unfolding lists_inv_def by simp
  show ?thesis unfolding lists_inv_def by (intro conjI 1 2 3 4 5 6)
qed

lemma proc_inv_side:
  assumes inv: "proc_inv s H L" and r: "rep (heap t) H' M" and sub: "H \<subseteq> H'"
    and new: "\<And>l. l \<in> H' \<Longrightarrow> l \<notin> H \<Longrightarrow> side_list l"
    and same: "\<And>l. \<not> side_list l \<Longrightarrow> M l = L l"
    and side: "\<And>l. l \<in> H' \<Longrightarrow> side_list l \<Longrightarrow> set (M l) \<subseteq> Collect is_node - range PcbList"
    and eq: "pcb_pool t = pcb_pool s" "token t = token s" "current t = current s" "lock_count t = lock_count s"
  shows "proc_inv t H' M"
proof -
  have li: "lists_inv H' M" by (rule lists_inv_side [OF proc_invD(2) [OF inv] sub new same side])
  have q: "M l = L l" if "is_pqueue l" for l using same side_list_kind that by blast
  have h: "l \<in> H" if "l \<in> H'" "is_pqueue l" for l using new side_list_kind that by blast
  have sl: "is_sleepq l \<Longrightarrow> is_pqueue l" for l by simp
  have st: "stat_inv (pcb_pool s) H' M"
    using proc_invD(3) [OF inv] q h sl unfolding stat_inv_def by (metis is_pqueue.simps(1,3))
  have se: "sem_inv (token s) H' M"
    using proc_invD(4) [OF inv] q h unfolding sem_inv_def by (metis is_pqueue.simps(4))
  have "current_inv (current s) M"
    using proc_invD(5) [OF inv] q [of Free] by (simp add: current_inv_def)
  with r li st se eq proc_invD(6) [OF inv] show ?thesis by (simp add: proc_inv_def)
qed

lemma hal_invD:
  assumes "hal_inv s H L"
  shows "proc_inv s H L" and "FreeDev \<in> H" and "Devices \<in> H"
    and "set (L FreeDev) \<union> set (L Devices) = dev_nodes"
    and "distinct (map (dname \<circ> dev_at s) (L Devices))"
  using assms by (auto simp: hal_inv_def)

lemma card_dev_nodes: "card dev_nodes = NR_DEV" and finite_dev_nodes: "finite dev_nodes"
  by (simp_all add: dev_nodes_def card_image inj_on_def)

lemma registry_size:
  assumes "hal_inv s H L"
  shows "length (L FreeDev) + length (L Devices) = NR_DEV"
proof -
  note r = proc_invD(1) [OF hal_invD(1) [OF assms]] and H = hal_invD(2,3) [OF assms]
  have "set (L FreeDev) \<inter> set (L Devices) = {}" using rep_disjoint [OF r H] by auto
  then have "card (set (L FreeDev) \<union> set (L Devices)) = length (L FreeDev) + length (L Devices)"
    using rep_distinct [OF r H(1)] rep_distinct [OF r H(2)] by (simp add: card_Un_disjoint distinct_card)
  then show ?thesis by (simp add: hal_invD(4) [OF assms] card_dev_nodes)
qed

lemma dev_node:
  assumes "hal_inv s H L" and "a \<in> set (L FreeDev) \<or> a \<in> set (L Devices)"
  obtains k where "a = DevNode k" and "k < NR_DEV"
  using hal_invD(4) [OF assms(1)] assms(2) by (auto simp: dev_nodes_def)

section \<open>Lookup\<close>

lemma hal_get_eq:
  assumes inv: "hal_inv s H L"
  shows "hal_get name s = Inr (map_option dev_idx
    (find (\<lambda>a. dname (dev_at s a) = name) (L Devices)), s\<lparr>intr := relock s\<rparr>)"
proof -
  let ?s = "lock s"
  note r = proc_invD(1) [OF hal_invD(1) [OF inv]] and D = hal_invD(3) [OF inv]
  have len: "length (L Devices) < NR_DEV + 1" using registry_size [OF inv] by simp
  have "find (dev_named name ?s) (L Devices) = find (\<lambda>a. dname (dev_at s a) = name) (L Devices)"
  proof (rule find_cong [OF refl])
    fix a assume "a \<in> set (L Devices)"
    then obtain k where "a = DevNode k" using dev_node [OF inv] by blast
    then show "dev_named name ?s a \<longleftrightarrow> dname (dev_at s a) = name"
      by (simp add: dev_named_def dev_at_def dev_idx_def strcmp_eq_0 lock_eq)
  qed
  then have scan: "list_foreach_until (NR_DEV + 1) (heap ?s) (dev_named name ?s) Devices =
      Inr (case find (\<lambda>a. dname (dev_at s a) = name) (L Devices) of None \<Rightarrow> Devices | Some x \<Rightarrow> x)"
    using list_foreach_until_rep [OF r D len] by (simp add: lock_eq)
  have un: "unlock ?s = s\<lparr>intr := relock s\<rparr>" by (simp add: kdefs relock_def unlock_intr_def)
  show ?thesis
  proof (cases "find (\<lambda>a. dname (dev_at s a) = name) (L Devices)")
    case None
    with scan un show ?thesis by (simp add: hal_get_def Let_def)
  next
    case (Some a)
    then have "a \<in> set (L Devices)" by (auto simp: find_Some_iff)
    then obtain k where "a = DevNode k" using dev_node [OF inv] by blast
    with Some scan un show ?thesis by (simp add: hal_get_def Let_def dev_no_def dev_idx_def)
  qed
qed


lemma registry_find:
  "map_of (registry s L) name =
     map_option (\<lambda>a. (dpid (dev_at s a), ddev_id (dev_at s a))) (find (\<lambda>a. dname (dev_at s a) = name) (L Devices))"
proof -
  have "map_of (map (\<lambda>a. (dname (dev_at s a), dpid (dev_at s a), ddev_id (dev_at s a))) as) name =
    map_option (\<lambda>a. (dpid (dev_at s a), ddev_id (dev_at s a))) (find (\<lambda>a. dname (dev_at s a) = name) as)" for as
    by (induction as) auto
  then show ?thesis by (simp add: registry_def)
qed

lemma hal_inv_intr [simp]: "hal_inv (s\<lparr>intr := b\<rparr>) H L = hal_inv s H L"
  by (simp add: hal_inv_def proc_inv_def dev_at_def comp_def)

lemma registry_intr [simp]: "registry (s\<lparr>intr := b\<rparr>) L = registry s L"
  by (simp add: registry_def dev_at_def)

lemma hal_get_id_eq:
  assumes "hal_inv s H L"
  shows "hal_get_id name s =
    (case map_of (registry s L) name of
       None \<Rightarrow> Inl (AssertFail ''dev != NULL'')
     | Some v \<Rightarrow> Inr (v, s\<lparr>intr := relock s\<rparr>))"
  by (simp add: hal_get_id_def hal_get_eq [OF assms] registry_find dev_at_def split: option.splits)

section \<open>Registration\<close>

lemma hal_inv_lock: "hal_inv s H L \<Longrightarrow> hal_inv (lock s) H L"
  by (simp add: hal_inv_def proc_inv_def lock_eq dev_at_def comp_def)

lemma dev_at_lock [simp]: "dev_at (lock s) = dev_at s"
  by (simp add: dev_at_def lock_eq fun_eq_iff)

lemma hal_register_eq:
  assumes inv: "hal_inv s H L"
  shows "hal_register name p d s =
    (case L FreeDev of
       [] \<Rightarrow> Inl (Panic ''no room for more device'')
     | a # _ \<Rightarrow>
         if map_of (registry s L) name \<noteq> None then Inl (Panic ''device is already registered!'')
         else Inr (s\<lparr>heap := requeue Devices a (heap s),
           dev_pool := (dev_pool s)(dev_idx a := \<lparr>dname = name, dpid = p, ddev_id = d\<rparr>), intr := relock s\<rparr>))"
proof (cases "L FreeDev")
  case Nil
  have "nxt (heap s) FreeDev = Some FreeDev"
    using rep_empty_iff [OF proc_invD(1) [OF hal_invD(1) [OF inv]] hal_invD(2) [OF inv]] Nil by simp
  with Nil show ?thesis by (simp add: hal_register_def Let_def lock_eq)
next
  case (Cons a as)
  note r = proc_invD(1) [OF hal_invD(1) [OF inv]] and F = hal_invD(2) [OF inv]
  obtain k where k: "a = DevNode k" using dev_node [OF inv, of a] Cons by auto
  have n: "nxt (heap s) FreeDev = Some (DevNode k)" using rep_nxt [OF r F] Cons k by simp
  have g: "hal_get name (lock s) = Inr (map_option dev_idx (find (\<lambda>a. dname (dev_at s a) = name) (L Devices)),
      (lock s)\<lparr>intr := relock (lock s)\<rparr>)"
    using hal_get_eq [OF hal_inv_lock [OF inv]] by simp
  have lc: "0 \<le> lock_count s" by (rule proc_invD(6) [OF hal_invD(1) [OF inv]])
  have h: "heap (lock s) = heap s" "nxt (heap s) FreeDev \<noteq> Some FreeDev" using n by (simp_all add: lock_eq)
  show ?thesis
  proof (cases "find (\<lambda>a. dname (dev_at s a) = name) (L Devices)")
    case None
    have "unlock ((lock s)\<lparr>intr := relock (lock s), dev_pool := q, heap := h\<rparr>) =
        s\<lparr>heap := h, dev_pool := q, intr := relock s\<rparr>" for h q
      using lc by (simp add: kdefs relock_def unlock_intr_def)
    moreover have "dev_pool (lock s) = dev_pool s" by (simp add: lock_eq)
    ultimately show ?thesis using None Cons k n g h
      by (simp add: hal_register_def Let_def registry_find dev_no_def dev_idx_def on_heap_def requeue_def)
  next
    case (Some b)
    with Cons g h show ?thesis by (simp add: hal_register_def Let_def registry_find)
  qed
qed

lemma hal_register_ok:
  assumes inv: "hal_inv s H L" and f: "L FreeDev = a # as" and new: "map_of (registry s L) name = None"
  obtains s' where "hal_register name p d s = Inr s'" and "hal_inv s' H (moved FreeDev Devices a L)"
    and "registry s' (moved FreeDev Devices a L) = registry s L @ [(name, p, d)]"
proof -
  note pi = hal_invD(1) [OF inv] and F = hal_invD(2) [OF inv] and D = hal_invD(3) [OF inv]
  note r = proc_invD(1) [OF pi]
  let ?L = "moved FreeDev Devices a L"
  define s' where "s' = s\<lparr>heap := requeue Devices a (heap s),
      dev_pool := (dev_pool s)(dev_idx a := \<lparr>dname = name, dpid = p, ddev_id = d\<rparr>), intr := relock s\<rparr>"
  have eq: "hal_register name p d s = Inr s'"
    using hal_register_eq [OF inv, of name p d] f new by (simp add: s'_def)
  obtain k where k: "a = DevNode k" using dev_node [OF inv, of a] f by auto
  have r': "rep (requeue Devices a (heap s)) H ?L" by (rule rep_requeue [OF r F D]) (simp_all add: f)
  have ds: "set (?L FreeDev) \<union> set (?L Devices) = dev_nodes"
    using hal_invD(4) [OF inv] rep_distinct [OF r F] f by (auto simp: moved_def)
  have pi': "proc_inv s' H ?L"
  proof (rule proc_inv_side [OF pi])
    fix l assume l: "l \<in> H" "side_list l"
    show "set (?L l) \<subseteq> Collect is_node - range PcbList"
    proof (cases "l = FreeDev \<or> l = Devices")
      case True
      then have "set (?L l) \<subseteq> dev_nodes" using ds by blast
      then show ?thesis by (auto simp: dev_nodes_def)
    next
      case False
      then have "?L l = L l" by (simp add: moved_def)
      moreover have "set (L l) \<subseteq> Collect is_node - range PcbList"
        by (rule side_nodes [OF proc_invD(2) [OF pi] l])
      ultimately show ?thesis by simp
    qed
  next
    show "rep (heap s') H ?L" using r' by (simp add: s'_def)
    show "\<And>l. \<not> side_list l \<Longrightarrow> ?L l = L l" by (auto simp: moved_def side_list_def)
  qed (simp_all add: s'_def)
  have a: "a \<notin> set (L Devices)" using rep_once [OF r F D, of a] f by auto
  have old: "dev_at s' b = dev_at s b" if "b \<in> set (L Devices)" for b
  proof -
    obtain j where "b = DevNode j" using dev_node [OF inv] \<open>b \<in> set (L Devices)\<close> by blast
    with that a k show ?thesis by (auto simp: dev_at_def dev_idx_def s'_def)
  qed
  have new_at: "dev_at s' a = \<lparr>dname = name, dpid = p, ddev_id = d\<rparr>" by (simp add: dev_at_def s'_def)
  have reg: "registry s' ?L = registry s L @ [(name, p, d)]"
    by (simp add: registry_def moved_def old new_at cong: map_cong)
  have names: "map (dname \<circ> dev_at s') (?L Devices) = map (dname \<circ> dev_at s) (L Devices) @ [name]"
    by (simp add: moved_def old new_at)
  have "name \<notin> set (map (dname \<circ> dev_at s) (L Devices))"
    using new by (auto simp: registry_find find_None_iff)
  then have "distinct (map (dname \<circ> dev_at s') (?L Devices))"
    unfolding names using hal_invD(5) [OF inv] by simp
  with pi' F D ds have "hal_inv s' H ?L" by (simp add: hal_inv_def)
  with eq reg show thesis by (intro that)
qed


section \<open>Initialisation and listing\<close>

lemma init_hal_ok:
  assumes inv: "proc_inv s H L" and u: "FreeDev \<notin> linked H L" "Devices \<notin> linked H L"
    and n: "dev_nodes \<inter> linked H L = {}"
  obtains s' where "init_hal s = Inr s'"
    and "hal_inv s' (insert Devices (insert FreeDev H)) (L(FreeDev := map DevNode [0..<NR_DEV], Devices := []))"
    and "registry s' (L(FreeDev := map DevNode [0..<NR_DEV], Devices := [])) = []"
    and "s' = s\<lparr>heap := heap s'\<rparr>"
proof -
  let ?ds = "map DevNode [0..<NR_DEV]" and ?H = "insert Devices (insert FreeDev H)"
  let ?L = "L(FreeDev := ?ds, Devices := [])"
  let ?h = "self_link Devices (fold (link_before FreeDev) ?ds (self_link FreeDev (heap s)))"
  have eq: "init_hal s = Inr (s\<lparr>heap := ?h\<rparr>)"
    by (simp add: init_hal_def forR_on_heap on_heap_def del: upt_Suc)
  have r1: "rep (self_link FreeDev (heap s)) (insert FreeDev H) (L(FreeDev := []))"
    by (rule rep_init [OF proc_invD(1) [OF inv] u(1)])
  have lk: "linked (insert FreeDev H) (L(FreeDev := xs)) \<subseteq> insert FreeDev (linked H L \<union> set xs)" for xs
    by (auto simp: linked_def split: if_splits)
  have "set ?ds = dev_nodes" "FreeDev \<notin> dev_nodes" by (auto simp: dev_nodes_def)
  then have un: "set ?ds \<inter> linked (insert FreeDev H) (L(FreeDev := [])) = {}" using lk [of "[]"] n by auto
  have "rep (fold (link_before FreeDev) ?ds (self_link FreeDev (heap s))) (insert FreeDev H)
      ((L(FreeDev := []))(FreeDev := (L(FreeDev := [])) FreeDev @ ?ds))"
    by (rule lf.insert_all_ok [OF r1 _ _ un]) (auto simp: distinct_map inj_on_def)
  then have r2: "rep (fold (link_before FreeDev) ?ds (self_link FreeDev (heap s))) (insert FreeDev H)
      (L(FreeDev := ?ds))" by simp
  have "Devices \<notin> linked (insert FreeDev H) (L(FreeDev := ?ds))" using lk [of ?ds] u(2) by auto
  from rep_init [OF r2 this] have r3: "rep ?h ?H ?L" by simp
  have "proc_inv (s\<lparr>heap := ?h\<rparr>) ?H ?L"
  proof (rule proc_inv_side [OF inv])
    fix l assume l: "l \<in> ?H" "side_list l"
    show "set (?L l) \<subseteq> Collect is_node - range PcbList"
    proof (cases "l \<in> {FreeDev, Devices}")
      case False
      then have "l \<in> H" using l(1) by auto
      with False show ?thesis using side_nodes [OF proc_invD(2) [OF inv] _ l(2)] by simp
    qed auto
  qed (use r3 in \<open>auto simp: side_list_def\<close>)
  then have "hal_inv (s\<lparr>heap := ?h\<rparr>) ?H ?L" by (auto simp: hal_inv_def dev_nodes_def)
  with eq show thesis by (intro that [of "s\<lparr>heap := ?h\<rparr>"]) (simp_all add: registry_def)
qed

lemma hal_list_eq:
  assumes inv: "hal_inv s H L"
  shows "hal_list s = Inr (map (dev_at s) (L Devices), s\<lparr>intr := relock s\<rparr>)"
proof -
  note r = proc_invD(1) [OF hal_invD(1) [OF inv]] and D = hal_invD(3) [OF inv]
  have len: "length (L Devices) < NR_DEV + 1" using registry_size [OF inv] by simp
  have "\<forall>a \<in> set as. \<exists>k. a = DevNode k \<Longrightarrow>
      forR (\<lambda>it ds. bindR (dev_no it) (\<lambda>k. Inr (ds @ [dev_pool (lock s) k]))) as acc = Inr (acc @ map (dev_at s) as)"
    for as acc
    by (induction as arbitrary: acc) (auto simp: dev_no_def dev_at_def dev_idx_def lock_eq)
  moreover have "\<forall>a \<in> set (L Devices). \<exists>k. a = DevNode k" using dev_node [OF inv] by blast
  ultimately have f: "forR (\<lambda>it ds. bindR (dev_no it) (\<lambda>k. Inr (ds @ [dev_pool (lock s) k]))) (L Devices) [] =
      Inr (map (dev_at s) (L Devices))" by simp
  have "unlock (lock s) = s\<lparr>intr := relock s\<rparr>" "heap (lock s) = heap s"
    by (simp_all add: kdefs relock_def unlock_intr_def)
  with f show ?thesis using list_foreach_rep [OF r D len] by (simp add: hal_list_def Let_def)
qed

section \<open>A registry as a finite map\<close>

text \<open>
  What the drivers rely on: \<open>add\<close> enters a new name as long as there is room, and
  \<open>look\<close> finds the value a name was entered with.  \<open>R s r\<close> says that state \<open>s\<close>
  holds the entries \<open>r\<close>.
\<close>

locale device_registry =
  fixes R :: "'s \<Rightarrow> ('k \<times> 'v) list \<Rightarrow> bool"
    and cap :: nat
    and add :: "'k \<Rightarrow> 'v \<Rightarrow> 's \<Rightarrow> 's res"
    and look :: "'k \<Rightarrow> 's \<Rightarrow> ('v \<times> 's) res"
  assumes add_ok: "R s r \<Longrightarrow> length r < cap \<Longrightarrow> k \<notin> fst ` set r \<Longrightarrow>
      \<exists>s'. add k v s = Inr s' \<and> R s' (r @ [(k, v)])"
    and look_ok: "R s r \<Longrightarrow> map_of r k = Some v \<Longrightarrow> \<exists>s'. look k s = Inr (v, s') \<and> R s' r"
begin

lemma add_all_ok:
  assumes "R s r" and "length r + length xs \<le> cap" and "distinct (map fst xs)"
    and "fst ` set xs \<inter> fst ` set r = {}"
  shows "\<exists>s'. forR (\<lambda>(k, v). add k v) xs s = Inr s' \<and> R s' (r @ xs)"
  using assms
proof (induction xs arbitrary: s r)
  case Nil
  then show ?case by simp
next
  case (Cons x xs)
  obtain k v where x: "x = (k, v)" by (cases x)
  from add_ok [OF Cons.prems(1), of k v] Cons.prems(2,4) x
  obtain s1 where s1: "add k v s = Inr s1" "R s1 (r @ [(k, v)])" by auto
  from Cons.IH [OF s1(2)] Cons.prems x s1(1) show ?case by auto
qed

lemma look_after_add_all:
  assumes "R s []" and "length xs \<le> cap" and "distinct (map fst xs)" and "(k, v) \<in> set xs"
  shows "\<exists>s' s''. forR (\<lambda>(k, v). add k v) xs s = Inr s' \<and> look k s' = Inr (v, s'') \<and> R s'' xs"
proof -
  from add_all_ok [OF assms(1) _ assms(3)] assms(2)
  obtain s' where s': "forR (\<lambda>(k, v). add k v) xs s = Inr s'" "R s' xs" by auto
  moreover have "map_of xs k = Some v" using assms(3,4) by simp
  ultimately show ?thesis using look_ok by blast
qed

end

definition holds :: "'a khal_scheme \<Rightarrow> (string \<times> pid_t \<times> u32) list \<Rightarrow> bool" where
  "holds s r \<longleftrightarrow> (\<exists>H L. hal_inv s H L \<and> registry s L = r)"

definition register_entry :: "string \<Rightarrow> pid_t \<times> u32 \<Rightarrow> 'a khal_scheme \<Rightarrow> 'a khal_scheme res" where
  "register_entry name v s = hal_register name (fst v) (snd v) s"

interpretation hal: device_registry holds NR_DEV register_entry hal_get_id
proof unfold_locales
  fix s :: "'a khal_scheme" and r k v
  assume r: "holds s r" "length r < NR_DEV" "k \<notin> fst ` set r"
  then obtain H L where inv: "hal_inv s H L" "registry s L = r" by (auto simp: holds_def)
  then have "length (L Devices) = length r" by (auto simp: registry_def)
  then obtain a as where f: "L FreeDev = a # as"
    using registry_size [OF inv(1)] r(2) by (cases "L FreeDev") auto
  have "map_of (registry s L) k = None" using r(3) inv(2) by (simp add: map_of_eq_None_iff)
  then obtain s' where "hal_register k (fst v) (snd v) s = Inr s'"
    "hal_inv s' H (moved FreeDev Devices a L)"
    "registry s' (moved FreeDev Devices a L) = registry s L @ [(k, fst v, snd v)]"
    by (rule hal_register_ok [OF inv(1) f])
  then show "\<exists>s'. register_entry k v s = Inr s' \<and> holds s' (r @ [(k, v)])"
    using inv(2) by (auto simp: register_entry_def holds_def)
next
  fix s :: "'a khal_scheme" and r k v
  assume r: "holds s r" "map_of r k = Some v"
  then obtain H L where inv: "hal_inv s H L" "registry s L = r" by (auto simp: holds_def)
  then have "hal_get_id k s = Inr (v, s\<lparr>intr := relock s\<rparr>)" using hal_get_id_eq [OF inv(1)] r(2) by simp
  moreover have "holds (s\<lparr>intr := relock s\<rparr>) r" using inv by (auto simp: holds_def)
  ultimately show "\<exists>s'. hal_get_id k s = Inr (v, s') \<and> holds s' r" by blast
qed

section \<open>A request to a device\<close>

lemma msg_inv_intr [simp]: "msg_inv (s\<lparr>intr := b\<rparr>) H L = msg_inv s H L"
  by (simp add: msg_inv_def proc_inv_def)

lemma mbox_pool: "msg_pool t = msg_pool s \<Longrightarrow> mbox t L i = mbox s L i"
  by (simp add: mbox_def slot_def cong: map_cong laddr.case_cong)

text \<open>
  A process with an empty mailbox that asks a device of another process: the request is
  the last message of the server's mailbox and the process waits on its own.
\<close>

lemma dev_rw_waits:
  assumes hi: "hal_inv s H L" and mi: "msg_inv s H L" and reg: "map_of (registry s L) name = Some (p, d)"
    and i: "unat p = i" "i < PCB_POOL_SIZE" "MsgList i \<in> H" "SemBlock (MsgSem i) \<in> H"
    and fr: "MsgNode (p_free s) \<notin> linked H L"
    and c: "current s = PcbList c" "PcbList c \<in> set (L Ready)" "SemBlock (MsgSem c) \<in> H" "c \<noteq> i"
    and tok: "token s (MsgSem c) = 0" and self: "pid (pcb_pool s c) \<noteq> 0"
  obtains s' L' where "dev_rw name ty rp b off len s = Inr (Waiting s')" and "msg_inv s' H L'"
    and "mbox s' L' i = mbox s L i @ [\<lparr>src = pid (pcb_pool s c), dest = p, mtype = ty, req_pid = rp,
      dev_id = d, buf = b, offset = off, mlen = len\<rparr>]"
    and "PcbList c \<in> set (L' (SemBlock (MsgSem c)))"
proof -
  obtain a where a: "find (\<lambda>a. dname (dev_at s a) = name) (L Devices) = Some a"
    "dpid (dev_at s a) = p" "ddev_id (dev_at s a) = d"
    using reg by (auto simp: registry_find)
  let ?s = "s\<lparr>intr := relock s\<rparr>" and ?L = "v_lists (MsgSem i) (posted i (p_free s) L)"
  have cb: "c < PCB_POOL_SIZE"
    using proc_invD(5) [OF msg_invD(1) [OF mi]] c(1) by (auto simp: current_inv_def)
  let ?m = "dev_request (dev_at s a) ty (pid (pcb_pool s c)) rp b off len"
  have mi': "msg_inv ?s H L" using mi by simp
  have fr': "MsgNode (p_free ?s) \<notin> linked H L" and c': "current ?s = PcbList c" using fr c(1) by simp_all
  have mb: "mbox ?s L j = mbox s L j" for j by (rule mbox_pool) simp
  obtain s1 where s1: "send p ?m ?s = Inr (addressed (pid (pcb_pool s c)) p ?m, s1)" "msg_inv s1 H ?L"
    "\<forall>j. MsgList j \<in> H \<longrightarrow> mbox s1 ?L j = mbox s L j @ (if j = i then [addressed (pid (pcb_pool s c)) p ?m] else [])"
    "token s1 = v_token (MsgSem i) L (token s)" "current s1 = PcbList c"
    by (rule send_delivers [OF mi' i(1,2,3,4) fr' c', where m = ?m]) (use c(1) mb in auto)
  have t1: "\<not> token s1 (MsgSem c) > 0" using s1(4) tok c(4) by (simp add: v_token_def)
  have rd: "PcbList c \<in> set (?L Ready)"
    using c(2) by (auto simp: v_lists_def posted_def moved_def split: list.splits)
  let ?M = "moved Ready (SemBlock (MsgSem c)) (PcbList c) ?L"
  obtain s2 where s2: "P_sem (MsgSem c) s1 = Inr (Trapped s2)" "proc_inv s2 H ?M"
    "msg_pool s2 = msg_pool s1" "p_free s2 = p_free s1"
    by (rule P_sem_blocks [OF msg_invD(1) [OF s1(2)] c(3) t1 s1(5) rd]) simp
  have "dev_rw name ty rp b off len s = Inr (Waiting s2)"
    using s1(1,5) s2(1) c(1) cb a
    by (simp add: dev_rw_def hal_get_eq [OF hi] current_pid_def receive_def dev_at_def Let_def)
  moreover have "msg_inv s2 H ?M" using s1(2) s2(2,4) by (simp add: msg_inv_def moved_def)
  moreover have "mbox s2 ?M i = mbox s1 ?L i"
    using mbox_pool [OF s2(3)] by (simp add: mbox_def moved_def)
  moreover have "addressed (pid (pcb_pool s c)) p ?m = \<lparr>src = pid (pcb_pool s c), dest = p, mtype = ty,
      req_pid = rp, dev_id = d, buf = b, offset = off, mlen = len\<rparr>"
    using self a by (simp add: addressed_def dev_request_def)
  ultimately show thesis
    using s1(3) i(3) by (intro that [of s2 ?M]) (auto simp: moved_def)
qed

section \<open>Properties\<close>

definition bss_khal :: khal where
  "bss_khal = kirq.extend bss_kirq \<lparr>dev_pool = (\<lambda>_. \<lparr>dname = '''', dpid = 0, ddev_id = 0\<rparr>)\<rparr>"

lemma bss_khal_start [simp]:
  "current bss_khal = idle" "lock_count bss_khal = 0" "p_free bss_khal = 0" "lock_flag bss_khal = 0"
  by (simp_all add: bss_khal_def kirq.defs bss_kirq_def kmsg.defs bss_kmsg_def kcore.defs bss_kcore_def)

definition hal_heads :: "laddr set" where
  "hal_heads = insert Devices (insert FreeDev two_heads)"

definition hal_lists :: "laddr \<Rightarrow> laddr list" where
  "hal_lists = two_lists(FreeDev := map DevNode [0..<NR_DEV], Devices := [])"

lemma two_linked: "linked two_heads two_lists \<subseteq> two_heads \<union> range PcbList"
proof -
  have "set (two_lists l) \<subseteq> range PcbList" for l
    by (cases "l = Free") (auto simp: two_lists_eq(4), auto simp: two_lists_def spawned_def moved_def born_def
      split: if_splits dest: notin_set_remove1)
  then show ?thesis unfolding linked_def by fastforce
qed

text \<open>Two threads and an empty registry, from any state as linked.\<close>

lemma hal_boot_from:
  fixes s0 :: "'a khal_scheme"
  assumes "current s0 = idle" and "lock_count s0 = 0" and "p_free s0 = 0"
  obtains s t where "two_threads s0 = Inr s" and "init_hal s = Inr t" and "hal_inv t hal_heads hal_lists"
    and "registry t hal_lists = []" and "msg_inv t hal_heads hal_lists" and "current t = PcbList 1"
    and "token t (MsgSem 1) = 0" and "token t (MsgSem 2) = 0" and "pid (pcb_pool t 1) = 1" and "lock_count t = 0" and "lock_flag t = lock_flag s0"
    and "range MsgNode \<inter> linked hal_heads hal_lists = {}" and "kcore.more t = kcore.more s0"
proof -
  obtain s where s: "two_threads s0 = Inr s" "msg_inv s two_heads two_lists" "current s = PcbList 1"
    "token s (MsgSem 1) = 0" "token s (MsgSem 2) = 0" "pid (pcb_pool s 1) = 1" "lock_count s = 0" "lock_flag s = lock_flag s0" "p_free s = 0"
    "kcore.more s = kcore.more s0"
    by (rule two_threads_msg [OF assms])
  have nd: "dev_nodes \<inter> linked two_heads two_lists = {}"
    and u: "FreeDev \<notin> linked two_heads two_lists" "Devices \<notin> linked two_heads two_lists"
    using two_linked by (auto simp: dev_nodes_def two_heads_def born_heads_def boot_heads_def)
  obtain t where t: "init_hal s = Inr t" "hal_inv t hal_heads hal_lists" "registry t hal_lists = []"
    "t = s\<lparr>heap := heap t\<rparr>"
    unfolding hal_heads_def hal_lists_def by (rule init_hal_ok [OF msg_invD(1) [OF s(2)] u nd])
  have eq: "p_free t = 0" "current t = PcbList 1" "token t (MsgSem 1) = 0" "token t (MsgSem 2) = 0" "pid (pcb_pool t 1) = 1"
    "lock_count t = 0" "lock_flag t = lock_flag s0" "kcore.more t = kcore.more s0"
    by (subst t(4), use s in simp)+
  have "linked hal_heads hal_lists \<subseteq> {Devices, FreeDev} \<union> set (map DevNode [0..<NR_DEV]) \<union> linked two_heads two_lists"
    by (auto simp: linked_def hal_heads_def hal_lists_def split: if_splits)
  then have m: "range MsgNode \<inter> linked hal_heads hal_lists = {}" using two_slot_free by auto
  have "MsgList i \<in> hal_heads \<Longrightarrow> hal_lists (MsgList i) = []" for i by (simp add: hal_lists_def)
  then have "msg_inv t hal_heads hal_lists"
    using hal_invD(1) [OF t(2)] eq(1) by (simp add: msg_inv_def MSG_POOL_SIZE_def)
  with s(1) t eq m show thesis by (intro that [of s t]) auto
qed

lemma hal_boot:
  obtains s t where "two_threads bss_khal = Inr s" and "init_hal s = Inr t" and "hal_inv t hal_heads hal_lists"
    and "registry t hal_lists = []" and "msg_inv t hal_heads hal_lists" and "current t = PcbList 1"
    and "token t (MsgSem 1) = 0" and "pid (pcb_pool t 1) = 1" and "MsgNode (p_free t) \<notin> linked hal_heads hal_lists"
  by (rule hal_boot_from [of bss_khal]) (use that in \<open>auto simp: disjoint_iff\<close>)

text \<open>
  registration and lookup.  Registering a new name when the pool has a free element
  appends the device to the registry and keeps its invariant; the process id and the device
  number entered are what \<open>hal_get_id\<close> returns for that name afterwards, and every other
  name is looked up as before.
\<close>

theorem hal_register_then_get:
  assumes "hal_inv s H L" and "length (registry s L) < NR_DEV" and "map_of (registry s L) name = None"
  shows "\<exists>s' L'. hal_register name p d s = Inr s' \<and> hal_inv s' H L' \<and>
    registry s' L' = registry s L @ [(name, p, d)] \<and>
    hal_get_id name s' = Inr ((p, d), s'\<lparr>intr := relock s'\<rparr>) \<and>
    (\<forall>n v. n \<noteq> name \<longrightarrow> map_of (registry s L) n = Some v \<longrightarrow>
       hal_get_id n s' = Inr (v, s'\<lparr>intr := relock s'\<rparr>))"
proof -
  have "length (L Devices) < NR_DEV" using assms(2) by (simp add: registry_def)
  then obtain a as where f: "L FreeDev = a # as"
    using registry_size [OF assms(1)] by (cases "L FreeDev") auto
  let ?L = "moved FreeDev Devices a L"
  obtain s' where s': "hal_register name p d s = Inr s'" "hal_inv s' H ?L"
    "registry s' ?L = registry s L @ [(name, p, d)]"
    by (rule hal_register_ok [OF assms(1) f assms(3)])
  have "hal_get_id n s' = Inr (v, s'\<lparr>intr := relock s'\<rparr>)" if "map_of (registry s' ?L) n = Some v" for n v
    using hal_get_id_eq [OF s'(2)] that by simp
  with s' assms(3) show ?thesis
    by (intro exI [of _ s'] exI [of _ ?L]) (auto simp: map_add_def)
qed

theorem hal_register_then_get_witness:
  "\<exists>s t u. two_threads bss_khal = Inr s \<and> init_hal s = Inr t \<and> hal_register ''timer'' 1 0 t = Inr u \<and>
     hal_get_id ''timer'' u = Inr ((1, 0), u\<lparr>intr := relock u\<rparr>)"
proof -
  obtain s t where s: "two_threads bss_khal = Inr s" "init_hal s = Inr t" "hal_inv t hal_heads hal_lists"
    "registry t hal_lists = []"
    by (rule hal_boot)
  from hal_register_then_get [OF s(3), of "''timer''" 1 0] s show ?thesis by (auto simp: NR_DEV_def)
qed

text \<open>
  the registry's refusals.  A registration fails exactly when the pool is used up or the
  name is taken, with a panic in both cases, and a lookup fails exactly on a name that is not
  registered, in its assertion.
\<close>

theorem hal_refusals:
  assumes "hal_inv s H L"
  shows "(hal_register name p d s = Inl e \<longleftrightarrow>
      (if length (registry s L) = NR_DEV then e = Panic ''no room for more device''
       else map_of (registry s L) name \<noteq> None \<and> e = Panic ''device is already registered!'')) \<and>
    (hal_get_id name s = Inl e \<longleftrightarrow> map_of (registry s L) name = None \<and> e = AssertFail ''dev != NULL'')"
proof (rule conjI)
  have "length (registry s L) = NR_DEV \<longleftrightarrow> L FreeDev = []"
    using registry_size [OF assms] by (auto simp: registry_def)
  then show "hal_register name p d s = Inl e \<longleftrightarrow>
      (if length (registry s L) = NR_DEV then e = Panic ''no room for more device''
       else map_of (registry s L) name \<noteq> None \<and> e = Panic ''device is already registered!'')"
    using hal_register_eq [OF assms] by (auto split: list.splits)
  show "hal_get_id name s = Inl e \<longleftrightarrow> map_of (registry s L) name = None \<and> e = AssertFail ''dev != NULL''"
    using hal_get_id_eq [OF assms] by (auto split: option.splits)
qed

theorem hal_refusals_witness:
  "\<exists>s t. two_threads bss_khal = Inr s \<and> init_hal s = Inr t \<and>
     hal_get_id ''hda'' t = Inl (AssertFail ''dev != NULL'')"
proof -
  obtain s t where s: "two_threads bss_khal = Inr s" "init_hal s = Inr t" "hal_inv t hal_heads hal_lists"
    "registry t hal_lists = []"
    by (rule hal_boot)
  from hal_refusals [OF s(3), of "''hda''" 0 0 "AssertFail ''dev != NULL''"] s show ?thesis by auto
qed

text \<open>
  registering up to 16 devices with distinct names one after the other succeeds from an
  empty registry, and every one of them is found with its own process id and number.
\<close>

theorem hal_register_all:
  assumes "holds s []" and "length devs \<le> NR_DEV" and "distinct (map fst devs)" and "(name, v) \<in> set devs"
  shows "\<exists>s' s''. forR (\<lambda>(n, v). hal_register n (fst v) (snd v)) devs s = Inr s' \<and>
    hal_get_id name s' = Inr (v, s'') \<and> holds s'' devs"
  using hal.look_after_add_all [OF assms] by (simp add: register_entry_def [abs_def] case_prod_beta)

theorem hal_register_all_witness:
  "\<exists>s t u w. two_threads bss_khal = Inr s \<and> init_hal s = Inr t \<and>
     forR (\<lambda>(n, v). hal_register n (fst v) (snd v)) [(''tty1'', 2, 0), (''tty2'', 2, 1), (''hda'', 3, 0)] t = Inr u \<and>
     hal_get_id ''tty2'' u = Inr ((2, 1), w)"
proof -
  obtain s t where s: "two_threads bss_khal = Inr s" "init_hal s = Inr t" "hal_inv t hal_heads hal_lists"
    "registry t hal_lists = []"
    by (rule hal_boot)
  then have "holds t []" by (auto simp: holds_def)
  from hal_register_all [OF this, of "[(''tty1'', 2, 0), (''tty2'', 2, 1), (''hda'', 3, 0)]" "''tty2''" "(2, 1)"] s(1,2)
  show ?thesis by (auto simp: NR_DEV_def)
qed

text \<open>
  a device access is a request to the process that serves the device.  \<open>dev_read\<close> on a
  registered name appends to the server's mailbox a message that carries the caller, the
  requesting process, the device number, the buffer, the offset and the length, and then
  waits on the caller's own mailbox.
\<close>

theorem dev_read_requests:
  assumes "hal_inv s H L" and "msg_inv s H L" and "map_of (registry s L) name = Some (word_of_nat i, d)"
    and "i < PCB_POOL_SIZE" and "MsgList i \<in> H" and "SemBlock (MsgSem i) \<in> H"
    and "MsgNode (p_free s) \<notin> linked H L" and "current s = PcbList c" and "PcbList c \<in> set (L Ready)"
    and "SemBlock (MsgSem c) \<in> H" and "c \<noteq> i" and "token s (MsgSem c) = 0" and "pid (pcb_pool s c) \<noteq> 0"
  shows "\<exists>s' L'. dev_read name rp b off len s = Inr (Waiting s') \<and> msg_inv s' H L' \<and>
    mbox s' L' i = mbox s L i @ [\<lparr>src = pid (pcb_pool s c), dest = word_of_nat i, mtype = 1, req_pid = rp,
      dev_id = d, buf = b, offset = off, mlen = len\<rparr>] \<and>
    PcbList c \<in> set (L' (SemBlock (MsgSem c)))"
proof -
  have "unat (word_of_nat i :: pid_t) = i" using assms(4) by (simp add: PCB_POOL_SIZE_def)
  then show ?thesis
    unfolding dev_read_def DEV_READ_def
    by (rule dev_rw_waits [OF assms(1-3) _ assms(4-13), where rp = rp and b = b and off = off and len = len]) blast
qed

theorem dev_read_requests_witness:
  "\<exists>s t u w L'. two_threads bss_khal = Inr s \<and> init_hal s = Inr t \<and> hal_register ''hda'' 2 0 t = Inr u \<and>
     dev_read ''hda'' 1 0x9000 512 16 u = Inr (Waiting w) \<and>
     mbox w L' 2 = [\<lparr>src = 1, dest = 2, mtype = 1, req_pid = 1, dev_id = 0, buf = 0x9000, offset = 512, mlen = 16\<rparr>]"
proof -
  obtain s t where s: "two_threads bss_khal = Inr s" "init_hal s = Inr t" "hal_inv t hal_heads hal_lists"
    "registry t hal_lists = []" "msg_inv t hal_heads hal_lists" "current t = PcbList 1"
    "token t (MsgSem 1) = 0" "pid (pcb_pool t 1) = 1" "MsgNode (p_free t) \<notin> linked hal_heads hal_lists"
    by (rule hal_boot)
  have f: "hal_lists FreeDev = DevNode 0 # map DevNode [1..<NR_DEV]"
    by (simp add: hal_lists_def NR_DEV_def upt_rec [of 0])
  let ?L = "moved FreeDev Devices (DevNode 0) hal_lists"
  obtain u where u: "hal_register ''hda'' 2 0 t = Inr u" "hal_inv u hal_heads ?L"
    "registry u ?L = [(''hda'', 2, 0)]"
    by (rule hal_register_ok [OF s(3) f, where name = "''hda''" and p = 2 and d = 0]) (simp_all add: s(4))
  have ueq: "u = t\<lparr>heap := requeue Devices (DevNode 0) (heap t),
      dev_pool := (dev_pool t)(0 := \<lparr>dname = ''hda'', dpid = 2, ddev_id = 0\<rparr>), intr := relock t\<rparr>"
    using u(1) hal_register_eq [OF s(3), of "''hda''" 2 0] f s(4) by (simp add: dev_idx_def)
  have mi: "msg_inv u hal_heads ?L"
    using s(5) hal_invD(1) [OF u(2)] by (simp add: msg_inv_def moved_def ueq)
  have "linked hal_heads ?L = linked hal_heads hal_lists"
    by (rule linked_moved [OF proc_invD(1) [OF hal_invD(1) [OF s(3)]]]) (simp_all add: f hal_heads_def)
  then have fr: "MsgNode (p_free u) \<notin> linked hal_heads ?L" using s(9) by (simp add: ueq)
  have h: "MsgList 2 \<in> hal_heads" "SemBlock (MsgSem 2) \<in> hal_heads" "SemBlock (MsgSem 1) \<in> hal_heads"
    "PcbList 1 \<in> set (?L Ready)" by (simp_all add: hal_heads_def moved_def hal_lists_def)
  have cu: "current u = PcbList 1" "token u (MsgSem 1) = 0" "pid (pcb_pool u 1) = 1" using s by (simp_all add: ueq)
  have e: "mbox u ?L 2 = []" by (simp add: mbox_def moved_def hal_lists_def)
  from dev_read_requests [OF u(2) mi, of "''hda''" 2 0 1 1 "0x9000" 512 16] u(3) pool_two fr h cu e s(1,2) u(1)
  show ?thesis by auto
qed

end
