(* ===== verification/Timer.thy ===== *)
theory Timer
  imports Hal
begin

text \<open>
  The timer driver, \<open>drivers/timer/timer.c\<close>: the tick counter, the wall clock, the 32
  alarm slots with their bit mask, and the initialisation of the 8253 and of the clock from
  the CMOS.  Writes to I/O ports are appended to a log; what the CMOS answers is a parameter.
  The abstraction of the alarms is a partial map from slots.
\<close>

section \<open>timer.c\<close>

definition HZ :: int where
  "HZ = 100"

definition TIME_SECOND :: u8 where
  "TIME_SECOND = 0"

definition TIME_MINUTE :: u8 where
  "TIME_MINUTE = 2"

definition TIME_HOUR :: u8 where
  "TIME_HOUR = 4"

definition TIME_DAY :: u8 where
  "TIME_DAY = 7"

definition TIME_MONTH :: u8 where
  "TIME_MONTH = 8"

definition TIME_YEAR :: u8 where
  "TIME_YEAR = 9"

definition NEW_TIMER :: u32 where
  "NEW_TIMER = 101"

definition TIME_UP :: u32 where
  "TIME_UP = 102"

definition UPDATE_TIMER :: u32 where
  "UPDATE_TIMER = 103"

definition FREQ_8253 :: int where
  "FREQ_8253 = 1193182"

definition PORT_TIME :: u16 where
  "PORT_TIME = 0x40"

record Time =
  year :: int
  month :: int
  day :: int
  hour :: int
  minute :: int
  second :: int

record timer_struct =
  expire :: u32
  tpid :: pid_t

text \<open>\<open>TIMER_PID\<close> is the global \<open>TIMER\<close>; \<open>outlog\<close> are the bytes written to ports, in order.\<close>

record ktimer = khal +
  jiffy :: u32
  rt :: Time
  TIMER_PID :: pid_t
  timer_active :: u32
  timer :: "nat \<Rightarrow> timer_struct"
  outlog :: "(u16 \<times> u8) list"

definition out_byte :: "u16 \<Rightarrow> u8 \<Rightarrow> 'a ktimer_scheme \<Rightarrow> 'a ktimer_scheme" where
  "out_byte port data s = s\<lparr>outlog := outlog s @ [(port, data)]\<rparr>"

text \<open>The loop of \<open>set_timer\<close>: the slot found and its mask, or none after 32 steps.\<close>

fun usable_timer :: "nat \<Rightarrow> u32 \<Rightarrow> nat \<Rightarrow> u32 \<Rightarrow> (nat \<times> u32) option" where
  "usable_timer 0 test_active usable active = None"
| "usable_timer (Suc n) test_active usable active =
     (if test_active AND active = 0 then Some (usable, test_active)
      else
        let test_active = test_active + test_active;
            test_active = (if test_active = 0 then 1 else test_active)
        in usable_timer n test_active (usable + 1) active)"

definition set_timer :: "u32 \<Rightarrow> pid_t \<Rightarrow> 'a ktimer_scheme \<Rightarrow> 'a ktimer_scheme res" where
  "set_timer sec p s =
     (case usable_timer 32 1 0 (timer_active s) of
        None \<Rightarrow> Inl (AssertFail ''i<32'')
      | Some (usable, test_active) \<Rightarrow>
          Inr (s\<lparr>timer := (timer s)(usable := \<lparr>expire = sec * word_of_int HZ + jiffy s, tpid = p\<rparr>),
                 timer_active := timer_active s OR test_active\<rparr>))"

text \<open>
  A local \<open>Msg\<close> has indeterminate contents until its fields are set; \<open>junk\<close> stands for
  them.  The loop runs while \<open>mask\<close> (here \<open>msk\<close>) is not zero, at most 32 times.
\<close>

fun run_timers_from :: "nat \<Rightarrow> Msg \<Rightarrow> nat \<Rightarrow> u32 \<Rightarrow> 'a ktimer_scheme \<Rightarrow> 'a ktimer_scheme res" where
  "run_timers_from 0 junk tp msk s = Inl (NoReturn ''run_timers'')"
| "run_timers_from (Suc n) junk tp msk s =
     (if msk = 0 then Inr s
      else if msk > timer_active s then Inr s
      else if msk AND timer_active s = 0 then run_timers_from n junk (tp + 1) (msk + msk) s
      else if expire (timer s tp) > jiffy s then run_timers_from n junk (tp + 1) (msk + msk) s
      else
        let s = s\<lparr>timer_active := timer_active s AND NOT msk\<rparr>;
            m = junk\<lparr>mtype := TIME_UP, src := TIMER_PID s\<rparr> in
        bindR (send (tpid (timer s tp)) m s) (\<lambda>(_, s).
        run_timers_from n junk (tp + 1) (msk + msk) s))"

definition run_timers :: "Msg \<Rightarrow> 'a ktimer_scheme \<Rightarrow> 'a ktimer_scheme res" where
  "run_timers junk s = run_timers_from 33 junk 0 1 s"

text \<open>One round of the driver's loop, on the message it received.\<close>

definition timer_driver_thread :: "Msg \<Rightarrow> Msg \<Rightarrow> 'a ktimer_scheme \<Rightarrow> 'a ktimer_scheme res" where
  "timer_driver_thread junk m s =
     (if mtype m = NEW_TIMER then set_timer (req_pid m) (src m) s
      else if mtype m = UPDATE_TIMER then run_timers junk s
      else Inl (AssertFail ''0''))"

definition get_jiffy :: "'a ktimer_scheme \<Rightarrow> u32" where
  "get_jiffy s = jiffy s"

definition md_tab :: "int list" where
  "md_tab = [0, 31, 28, 31, 30, 31, 30, 31, 31, 30, 31, 30, 31]"

definition leap_year :: "int \<Rightarrow> bool" where
  "leap_year y \<longleftrightarrow> cmod y 400 = 0 \<or> cmod y 4 = 0 \<and> cmod y 100 \<noteq> 0"

definition md :: "int \<Rightarrow> int \<Rightarrow> int res" where
  "md y m =
     (if 0 \<le> m \<and> m < 13 then Inr (md_tab ! nat m + (if leap_year y \<and> m = 2 then 1 else 0))
      else Inl (OutOfBounds ''tab''))"

text \<open>\<open>roll\<close> are the first three carries of \<open>update_jiffy\<close>, \<open>tick_clock\<close> all of them.\<close>

definition roll :: "Time \<Rightarrow> Time" where
  "roll t =
     (let t = t\<lparr>second := second t + 1\<rparr>;
          t = (if second t \<ge> 60 then t\<lparr>second := 0, minute := minute t + 1\<rparr> else t);
          t = (if minute t \<ge> 60 then t\<lparr>minute := 0, hour := hour t + 1\<rparr> else t);
          t = (if hour t \<ge> 24 then t\<lparr>hour := 0, day := day t + 1\<rparr> else t)
      in t)"

definition tick_clock :: "Time \<Rightarrow> Time res" where
  "tick_clock t =
     (let t = roll t in
      bindR (md (year t) (month t)) (\<lambda>n.
      let t = (if day t \<ge> n then t\<lparr>day := 1, month := month t + 1\<rparr> else t);
          t = (if month t \<ge> 13 then t\<lparr>month := 1, year := year t + 1\<rparr> else t) in
      Inr t))"

definition update_jiffy :: "Msg \<Rightarrow> 'a ktimer_scheme \<Rightarrow> 'a ktimer_scheme res" where
  "update_jiffy junk s =
     (let s = s\<lparr>jiffy := jiffy s + 1\<rparr> in
      bindR (if cmod (sint (jiffy s)) HZ = 0
             then bindR (tick_clock (rt s)) (\<lambda>t. Inr (s\<lparr>rt := t\<rparr>))
             else Inr s) (\<lambda>s.
      let m = junk\<lparr>mtype := UPDATE_TIMER\<rparr> in
      bindR (send (TIMER_PID s) m s) (\<lambda>(_, s). Inr s)))"

definition init_i8253 :: "'a ktimer_scheme \<Rightarrow> 'a ktimer_scheme res" where
  "init_i8253 s =
     (let count = cdiv FREQ_8253 HZ in
      bindR (assertR (count < 65536) ''count < 65536'') (\<lambda>_.
      Inr (out_byte PORT_TIME (ucast (drop_bit 8 (word_of_int count :: u32)))
          (out_byte PORT_TIME (ucast ((word_of_int count :: u32) AND 0xff))
          (out_byte (PORT_TIME + 3) 0x34 s)))))"

text \<open>\<open>cmos r\<close> is the byte the clock chip answers on port 0x71 for register \<open>r\<close>.\<close>

definition get_time_part :: "(u8 \<Rightarrow> u8) \<Rightarrow> u8 \<Rightarrow> 'a ktimer_scheme \<Rightarrow> u8 \<times> 'a ktimer_scheme" where
  "get_time_part cmos part s =
     (let s = out_byte 0x70 part s;
          bcd = cmos part in
      (drop_bit 4 bcd * 10 + (bcd AND 0xf), s))"

definition init_rt :: "(u8 \<Rightarrow> u8) \<Rightarrow> 'a ktimer_scheme \<Rightarrow> 'a ktimer_scheme" where
  "init_rt cmos s =
     (let s = s\<lparr>rt := \<lparr>year = 0, month = 0, day = 0, hour = 0, minute = 0, second = 0\<rparr>\<rparr>;
          (v, s) = get_time_part cmos TIME_YEAR s;
          s = s\<lparr>rt := (rt s)\<lparr>year := uint v\<rparr>\<rparr>;
          (v, s) = get_time_part cmos TIME_MONTH s;
          s = s\<lparr>rt := (rt s)\<lparr>month := uint v\<rparr>\<rparr>;
          (v, s) = get_time_part cmos TIME_DAY s;
          s = s\<lparr>rt := (rt s)\<lparr>day := uint v\<rparr>\<rparr>;
          (v, s) = get_time_part cmos TIME_DAY s;
          s = s\<lparr>rt := (rt s)\<lparr>hour := uint v\<rparr>\<rparr>;
          (v, s) = get_time_part cmos TIME_MINUTE s;
          s = s\<lparr>rt := (rt s)\<lparr>minute := uint v\<rparr>\<rparr>;
          (v, s) = get_time_part cmos TIME_SECOND s;
          s = s\<lparr>rt := (rt s)\<lparr>second := uint v\<rparr>\<rparr>
      in s)"

definition get_time :: "'a ktimer_scheme \<Rightarrow> Time" where
  "get_time s = rt s"

text \<open>\<open>entry\<close> is the address of \<open>timer_driver_thread\<close>.\<close>

definition init_timer :: "u32 \<Rightarrow> (nat \<Rightarrow> u32) \<Rightarrow> (u8 \<Rightarrow> u8) \<Rightarrow> 'a ktimer_scheme \<Rightarrow> 'a ktimer_scheme res" where
  "init_timer entry args cmos s =
     bindR (init_i8253 s) (\<lambda>s.
     let s = init_rt cmos s in
     bindR (add_irq_handle 0 Update_jiffy s) (\<lambda>s.
     bindR (create_kthread entry args s) (\<lambda>(p, s).
     let s = s\<lparr>TIMER_PID := pid (pcb_pool s p)\<rparr> in
     bindR (wakeup (Some (PcbList p)) s) (\<lambda>s.
     bindR (hal_register ''timer'' (TIMER_PID s) 0 s) (\<lambda>s.
     Inr (init_rt cmos s))))))"

section \<open>Alarms\<close>

text \<open>The alarms that are set, as a partial map from slots.\<close>

definition alarms :: "'a ktimer_scheme \<Rightarrow> nat \<Rightarrow> timer_struct option" where
  "alarms s k = (if k < 32 \<and> bit (timer_active s) k then Some (timer s k) else None)"

lemma exp_and_eq_0: "(2 :: u32) ^ k AND a = 0 \<longleftrightarrow> \<not> (k < 32 \<and> bit a k)"
  by (subst and.commute) (auto simp: and_exp_eq_0_iff_not_bit dest: bit_imp_le_length)

lemma double_exp: "(2 :: u32) ^ k + 2 ^ k = 2 ^ Suc k"
  by simp

lemma usable_timer_find:
  "n + k = 32 \<Longrightarrow> usable_timer n (2 ^ k) k active =
     map_option (\<lambda>j. (j, 2 ^ j)) (find (\<lambda>j. \<not> bit active j) [k..<32])"
proof (induction n arbitrary: k)
  case 0
  then show ?case by simp
next
  case (Suc n)
  then have k: "[k..<32] = k # [Suc k..<32]" "k < 32" by (simp_all add: upt_conv_Cons)
  show ?case
  proof (cases "bit active k")
    case False
    with k show ?thesis by (simp add: exp_and_eq_0)
  next
    case True
    have "usable_timer n (if (2 :: u32) ^ Suc k = 0 then 1 else 2 ^ Suc k) (Suc k) active =
        usable_timer n (2 ^ Suc k) (Suc k) active"
      using Suc.prems by (cases n) (simp_all add: exp_eq_zero_iff del: power_Suc)
    with True k Suc.IH [of "Suc k"] Suc.prems show ?thesis
      by (simp add: exp_and_eq_0 Let_def double_exp del: power_Suc)
  qed
qed

lemma set_timer_eq:
  "set_timer sec p s =
     (case find (\<lambda>j. \<not> bit (timer_active s) j) [0..<32] of
        None \<Rightarrow> Inl (AssertFail ''i<32'')
      | Some j \<Rightarrow>
          Inr (s\<lparr>timer := (timer s)(j := \<lparr>expire = sec * 100 + jiffy s, tpid = p\<rparr>),
                 timer_active := timer_active s OR 2 ^ j\<rparr>))"
  using usable_timer_find [of 32 0 "timer_active s"]
  by (simp add: set_timer_def HZ_def split: option.splits)

lemma bit_le_unat: "bit (a :: u32) j \<Longrightarrow> 2 ^ j \<le> unat a"
proof -
  assume "bit a j"
  then have "odd (unat a div 2 ^ j)" by (simp add: bit_unsigned_iff flip: bit_iff_odd)
  then have "unat a div 2 ^ j \<noteq> 0" by (metis even_zero)
  then show ?thesis by (metis div_less not_le)
qed

lemma unat_exp_u32: "k < 32 \<Longrightarrow> unat ((2 :: u32) ^ k) = 2 ^ k"
proof -
  assume "k < 32"
  then have "(2 :: nat) ^ k < 2 ^ 32" by (intro power_strict_increasing) simp_all
  then show ?thesis using unat_of_nat_u32 [of "2 ^ k"] by simp
qed

lemma bits_above: "(2 :: u32) ^ k > a \<Longrightarrow> k \<le> j \<Longrightarrow> \<not> bit a j"
proof
  assume a: "(2 :: u32) ^ k > a" "k \<le> j" "bit a j"
  then have "j < 32" by (auto dest: bit_imp_le_length)
  then have "unat ((2 :: u32) ^ k) = 2 ^ k" using a(2) by (intro unat_exp_u32) simp
  then have "unat a < 2 ^ k" using a(1) by (simp add: word_less_nat_alt)
  moreover have "(2 :: nat) ^ k \<le> 2 ^ j" using a(2) by (intro power_increasing) simp_all
  ultimately show False using bit_le_unat [OF a(3)] by simp
qed

text \<open>What happens to one alarm that is due.\<close>

definition ring :: "Msg \<Rightarrow> nat \<Rightarrow> 'a ktimer_scheme \<Rightarrow> 'a ktimer_scheme res" where
  "ring junk k s =
     bindR (send (tpid (timer s k)) (junk\<lparr>mtype := TIME_UP, src := TIMER_PID s\<rparr>)
       (s\<lparr>timer_active := timer_active s AND NOT (2 ^ k)\<rparr>)) (\<lambda>(_, s). Inr s)"

definition due :: "'a ktimer_scheme \<Rightarrow> nat \<Rightarrow> bool" where
  "due s k \<longleftrightarrow> bit (timer_active s) k \<and> expire (timer s k) \<le> jiffy s"

lemma kmsg_more_timer:
  fixes s t :: "'a ktimer_scheme"
  assumes "kmsg.more s = kmsg.more t"
  shows "timer_active s = timer_active t" "timer s = timer t" "jiffy s = jiffy t" "TIMER_PID s = TIMER_PID t"
    "rt s = rt t" "outlog s = outlog t" "dev_pool s = dev_pool t"
  using assms by (cases s, cases t, simp)+

lemma ring_keeps:
  assumes "ring junk k s = Inr s'"
  shows "timer_active s' = timer_active s AND NOT (2 ^ k)" "timer s' = timer s" "jiffy s' = jiffy s"
    "TIMER_PID s' = TIMER_PID s" "rt s' = rt s"
  using assms by (auto simp: ring_def bindR_Inr_iff dest!: send_more dest: kmsg_more_timer)

lemma run_timers_from_due:
  "n + k = 33 \<Longrightarrow> k \<le> 32 \<Longrightarrow> run_timers_from n junk k (2 ^ k) s = forR (ring junk) (filter (due s) [k..<32]) s"
proof (induction n arbitrary: k s)
  case 0
  then show ?case by simp
next
  case (Suc n)
  show ?case
  proof (cases "k = 32")
    case True
    then show ?thesis by simp
  next
    case False
    with Suc.prems have k: "[k..<32] = k # [Suc k..<32]" "k < 32" "Suc k \<le> 32" by (simp_all add: upt_conv_Cons)
    have nz: "(2 :: u32) ^ k \<noteq> 0" using k(2) by (simp add: exp_eq_zero_iff)
    note IH = Suc.IH [of "Suc k"]
    consider "2 ^ k > timer_active s" | "\<not> 2 ^ k > timer_active s" "\<not> due s k" | "\<not> 2 ^ k > timer_active s" "due s k"
      by blast
    then show ?thesis
    proof cases
      case 1
      then have "filter (due s) [k..<32] = []" by (auto simp: filter_empty_conv due_def dest: bits_above)
      with 1 nz show ?thesis by simp
    next
      case 2
      then show ?thesis
        using IH [of s] Suc.prems k nz by (auto simp: due_def exp_and_eq_0 not_le double_exp simp del: power_Suc)
    next
      case 3
      show ?thesis
      proof (cases "ring junk k s")
        case (Inl e)
        with 3 k nz show ?thesis by (auto simp: due_def exp_and_eq_0 Let_def ring_def bindR_def split: sum.splits)
      next
        case (Inr s')
        have "filter (due s') [Suc k..<32] = filter (due s) [Suc k..<32]"
          using ring_keeps [OF Inr] by (intro filter_cong) (auto simp: due_def bit_simps)
        moreover have "run_timers_from (Suc n) junk k (2 ^ k) s = run_timers_from n junk (Suc k) (2 ^ Suc k) s'"
          using Inr 3 k nz by (auto simp: due_def exp_and_eq_0 Let_def ring_def bindR_Inr_iff double_exp simp del: power_Suc)
        ultimately show ?thesis using IH [of s'] Suc.prems 3 k Inr by simp
      qed
    qed
  qed
qed

section \<open>The clock\<close>

definition days_in :: "int \<Rightarrow> int \<Rightarrow> int" where
  "days_in y m = md_tab ! nat m + (if leap_year y \<and> m = 2 then 1 else 0)"

definition valid_time :: "Time \<Rightarrow> bool" where
  "valid_time t \<longleftrightarrow>
     1 \<le> month t \<and> month t \<le> 12 \<and> 1 \<le> day t \<and> day t \<le> days_in (year t) (month t) \<and>
     0 \<le> hour t \<and> hour t < 24 \<and> 0 \<le> minute t \<and> minute t < 60 \<and> 0 \<le> second t \<and> second t < 60"

definition time_of_day :: "Time \<Rightarrow> int" where
  "time_of_day t = 3600 * hour t + 60 * minute t + second t"

lemma days_in_bounds:
  assumes "1 \<le> m" and "m \<le> 12"
  shows "28 \<le> days_in y m" and "days_in y m \<le> 31"
proof -
  from assms have "m = 1 \<or> m = 2 \<or> m = 3 \<or> m = 4 \<or> m = 5 \<or> m = 6 \<or> m = 7 \<or> m = 8 \<or> m = 9 \<or>
    m = 10 \<or> m = 11 \<or> m = 12" by presburger
  then show "28 \<le> days_in y m" and "days_in y m \<le> 31" by (auto simp: days_in_def md_tab_def)
qed

lemma md_valid: "1 \<le> m \<Longrightarrow> m \<le> 12 \<Longrightarrow> md y m = Inr (days_in y m)"
  by (simp add: md_def days_in_def)

lemma roll_valid:
  assumes "valid_time t"
  shows "year (roll t) = year t" "month (roll t) = month t"
    "day (roll t) = day t + (if time_of_day t = 86399 then 1 else 0)"
    "0 \<le> hour (roll t) \<and> hour (roll t) < 24 \<and> 0 \<le> minute (roll t) \<and> minute (roll t) < 60 \<and>
     0 \<le> second (roll t) \<and> second (roll t) < 60"
    "time_of_day (roll t) = (time_of_day t + 1) mod 86400"
proof -
  show "year (roll t) = year t" "month (roll t) = month t" by (simp_all add: roll_def Let_def)
  have r: "0 \<le> hour t" "hour t < 24" "0 \<le> minute t" "minute t < 60" "0 \<le> second t" "second t < 60"
    using assms by (auto simp: valid_time_def)
  consider "second t < 59" | "second t = 59" "minute t < 59" | "second t = 59" "minute t = 59" "hour t < 23"
    | "second t = 59" "minute t = 59" "hour t = 23" using r by linarith
  then show "day (roll t) = day t + (if time_of_day t = 86399 then 1 else 0)"
    "0 \<le> hour (roll t) \<and> hour (roll t) < 24 \<and> 0 \<le> minute (roll t) \<and> minute (roll t) < 60 \<and>
     0 \<le> second (roll t) \<and> second (roll t) < 60"
    "time_of_day (roll t) = (time_of_day t + 1) mod 86400"
    by (cases; use r in \<open>auto simp: roll_def Let_def time_of_day_def\<close>)+
qed

lemma tick_clock_eq:
  assumes "valid_time t"
  shows "tick_clock t = Inr (let t = roll t in
    if day t \<ge> days_in (year t) (month t)
    then (if month t = 12 then t\<lparr>day := 1, month := 1, year := year t + 1\<rparr> else t\<lparr>day := 1, month := month t + 1\<rparr>)
    else t)"
proof -
  have m: "1 \<le> month (roll t)" "month (roll t) \<le> 12" "1 \<le> month t" "month t \<le> 12"
    using roll_valid [OF assms] assms by (auto simp: valid_time_def)
  then show ?thesis by (auto simp: tick_clock_def md_valid Let_def)
qed

lemma bit_clear: "bit (a AND NOT ((2 :: u32) ^ k)) j \<longleftrightarrow> bit a j \<and> j \<noteq> k"
  by (auto simp: bit_simps dest: bit_imp_le_length)

lemma forR_ring_keeps:
  "forR (ring junk) ks s = Inr s' \<Longrightarrow> timer s' = timer s \<and> jiffy s' = jiffy s \<and>
     (\<forall>j. bit (timer_active s') j \<longleftrightarrow> bit (timer_active s) j \<and> j \<notin> set ks)"
proof (induction ks arbitrary: s)
  case (Cons k ks)
  then obtain s1 where s1: "ring junk k s = Inr s1" "forR (ring junk) ks s1 = Inr s'" by (auto simp: bindR_Inr_iff)
  from Cons.IH [OF s1(2)] ring_keeps [OF s1(1)] show ?case by (simp add: bit_clear)
qed simp

section \<open>Properties\<close>

definition bss_ktimer :: ktimer where
  "bss_ktimer = khal.extend bss_khal
     \<lparr>jiffy = 0, rt = \<lparr>year = 0, month = 0, day = 0, hour = 0, minute = 0, second = 0\<rparr>, TIMER_PID = 0,
      timer_active = 0, timer = (\<lambda>_. \<lparr>expire = 0, tpid = 0\<rparr>), outlog = []\<rparr>"

text \<open>
  \<open>set_timer\<close> uses the lowest free slot: the alarms afterwards are those before and
  the new one, due \<open>sec\<close> seconds of 100 ticks from now (modulo 2 to the 32), and only when
  all 32 slots are taken it stops in its assertion.
\<close>

theorem set_timer_lowest_free:
  "if \<exists>j<32. alarms s j = None
   then \<exists>j s'. set_timer sec p s = Inr s' \<and> j < 32 \<and> alarms s j = None \<and> (\<forall>i<j. alarms s i \<noteq> None) \<and>
       alarms s' = (alarms s)(j \<mapsto> \<lparr>expire = sec * 100 + jiffy s, tpid = p\<rparr>)
   else set_timer sec p s = Inl (AssertFail ''i<32'')"
proof (cases "find (\<lambda>j. \<not> bit (timer_active s) j) [0..<32]")
  case None
  then have "\<forall>j<32. alarms s j \<noteq> None" by (auto simp: find_None_iff alarms_def)
  with None show ?thesis by (simp add: set_timer_eq)
next
  case (Some j)
  then have j: "j < 32" "\<not> bit (timer_active s) j" "\<forall>i<j. bit (timer_active s) i"
    by (auto simp: find_Some_iff)
  let ?a = "\<lparr>expire = sec * 100 + jiffy s, tpid = p\<rparr>"
  have "alarms (s\<lparr>timer := (timer s)(j := ?a), timer_active := timer_active s OR 2 ^ j\<rparr>) = (alarms s)(j \<mapsto> ?a)"
    using j by (auto simp: alarms_def fun_eq_iff bit_simps)
  then show ?thesis using Some j by (auto simp: set_timer_eq alarms_def)
qed

theorem set_timer_lowest_free_witness:
  "\<exists>s'. set_timer 3 7 bss_ktimer = Inr s' \<and> alarms s' 0 = Some \<lparr>expire = 300, tpid = 7\<rparr>"
proof -
  have z: "alarms bss_ktimer j = None" "jiffy bss_ktimer = 0" for j
    by (simp_all add: alarms_def bss_ktimer_def khal.defs)
  have "\<exists>j<32. alarms bss_ktimer j = None" using z(1) by (intro exI [of _ 0]) simp
  with set_timer_lowest_free [of bss_ktimer 3 7] z show ?thesis by auto
qed

text \<open>
  C27: \<open>run_timers\<close> rings every alarm that is due, in the order of the slots, with one
  \<open>TIME_UP\<close> message from the timer process each, and when it returns exactly the alarms
  that are not yet due are still set.
\<close>

theorem run_timers_rings_due:
  "run_timers junk s = forR (ring junk) [k \<leftarrow> [0..<32]. \<exists>a. alarms s k = Some a \<and> expire a \<le> jiffy s] s \<and>
   (\<forall>s'. run_timers junk s = Inr s' \<longrightarrow>
     alarms s' = (\<lambda>k. case alarms s k of None \<Rightarrow> None | Some a \<Rightarrow> if expire a \<le> jiffy s then None else Some a))"
proof -
  have eq: "run_timers junk s = forR (ring junk) (filter (due s) [0..<32]) s"
    using run_timers_from_due [of 33 0 junk s] by (simp add: run_timers_def)
  have f: "filter (due s) [0..<32] = [k \<leftarrow> [0..<32]. \<exists>a. alarms s k = Some a \<and> expire a \<le> jiffy s]"
    by (intro filter_cong) (auto simp: due_def alarms_def)
  have al: "alarms s' = (\<lambda>k. case alarms s k of None \<Rightarrow> None | Some a \<Rightarrow> if expire a \<le> jiffy s then None else Some a)"
    if "run_timers junk s = Inr s'" for s'
  proof
    fix k
    have "timer s' = timer s \<and> jiffy s' = jiffy s \<and>
        (\<forall>j. bit (timer_active s') j \<longleftrightarrow> bit (timer_active s) j \<and> j \<notin> set (filter (due s) [0..<32]))"
      using forR_ring_keeps that eq by metis
    then show "alarms s' k = (case alarms s k of None \<Rightarrow> None | Some a \<Rightarrow> if expire a \<le> jiffy s then None else Some a)"
      by (cases "k < 32"; cases "bit (timer_active s) k") (simp_all add: alarms_def due_def)
  qed
  show ?thesis by (intro conjI allI impI) (simp only: eq f, rule al)
qed

theorem run_timers_rings_due_witness:
  "\<exists>s :: ktimer. alarms s 0 = Some \<lparr>expire = 5, tpid = 7\<rparr> \<and> alarms s 1 = Some \<lparr>expire = 9, tpid = 7\<rparr> \<and> jiffy s = 6 \<and>
     run_timers (msg_pool bss_kmsg 0) s = ring (msg_pool bss_kmsg 0) 0 s"
proof -
  let ?s = "bss_ktimer\<lparr>timer_active := 3, timer := (\<lambda>k. \<lparr>expire = (if k = 0 then 5 else 9), tpid = 7\<rparr>), jiffy := 6\<rparr>"
  have b: "bit (3 :: u32) k \<longleftrightarrow> k = 0 \<or> k = 1" for k
    using bit_mask_iff [where 'a = u32, of 2 k] by (auto simp: mask_eq_exp_minus_1)
  have a: "(\<exists>a. alarms ?s k = Some a \<and> expire a \<le> jiffy ?s) \<longleftrightarrow> k = 0" for k by (auto simp: alarms_def b)
  have "[k \<leftarrow> [0..<32]. k = 0] = [0 :: nat]" by (simp add: upt_rec)
  moreover have "forR f [x] s = f x s" for f :: "nat \<Rightarrow> ktimer \<Rightarrow> ktimer res" and x s
    by (cases "f x s") (simp_all add: bindR_def)
  ultimately have "run_timers (msg_pool bss_kmsg 0) ?s = ring (msg_pool bss_kmsg 0) 0 ?s"
    using run_timers_rings_due [of "msg_pool bss_kmsg 0" ?s] unfolding a by (simp del: forR.simps)
  then show ?thesis by (intro exI [of _ ?s]) (auto simp: alarms_def b)
qed

text \<open>
  the clock stays valid.  A tick of a valid time never reads outside the table of month
  lengths, gives a valid time, and moves the time of day on by one second modulo a day.
\<close>

theorem tick_clock_valid:
  assumes "valid_time t"
  shows "\<exists>t'. tick_clock t = Inr t' \<and> valid_time t' \<and> time_of_day t' = (time_of_day t + 1) mod 86400"
proof -
  note r = roll_valid [OF assms]
  have m: "1 \<le> month t" "month t \<le> 12" "1 \<le> day t" using assms by (auto simp: valid_time_def)
  have d: "1 \<le> days_in y n" if "1 \<le> n" "n \<le> 12" for y n using days_in_bounds [OF that, of y] by simp
  have tod: "time_of_day (u\<lparr>day := x\<rparr>) = time_of_day u" "time_of_day (u\<lparr>month := y\<rparr>) = time_of_day u"
    "time_of_day (u\<lparr>year := z\<rparr>) = time_of_day u" for u x y z by (simp_all add: time_of_day_def)
  show ?thesis unfolding tick_clock_eq [OF assms] Let_def
    using m r d by (auto simp: valid_time_def tod)
qed

theorem tick_clock_valid_witness:
  "\<exists>t'. tick_clock \<lparr>year = 13, month = 12, day = 30, hour = 23, minute = 59, second = 59\<rparr> = Inr t' \<and>
     valid_time t' \<and> time_of_day t' = 0"
  using tick_clock_valid [of "\<lparr>year = 13, month = 12, day = 30, hour = 23, minute = 59, second = 59\<rparr>"]
  by (auto simp: valid_time_def days_in_def md_tab_def time_of_day_def)

text \<open>
  the clock skips the last day of every month.  The comparison with the length of the
  month is not strict, so that after a tick the day is always before the last one: the tick
  that ends the day before the last goes to the first of the next month.
\<close>

theorem tick_clock_skips_last_day:
  assumes "valid_time t" and "tick_clock t = Inr t'"
  shows "day t' < days_in (year t') (month t')"
proof -
  note r = roll_valid [OF assms(1)]
  have m: "1 \<le> month t" "month t \<le> 12" using assms(1) by (auto simp: valid_time_def)
  have "1 < days_in y n" if "1 \<le> n" "n \<le> 12" for y n using days_in_bounds [OF that, of y] by simp
  with assms(2) m r show ?thesis unfolding tick_clock_eq [OF assms(1)] Let_def
    by (auto split: if_splits)
qed

theorem tick_clock_skips_last_day_witness:
  "\<exists>t'. tick_clock \<lparr>year = 13, month = 1, day = 30, hour = 23, minute = 59, second = 59\<rparr> = Inr t' \<and>
     day t' < days_in (year t') (month t') \<and> month t' = 2"
proof -
  have v: "valid_time \<lparr>year = 13, month = 1, day = 30, hour = 23, minute = 59, second = 59\<rparr>"
    by (simp add: valid_time_def days_in_def md_tab_def)
  have "tick_clock \<lparr>year = 13, month = 1, day = 30, hour = 23, minute = 59, second = 59\<rparr> =
      Inr \<lparr>year = 13, month = 2, day = 1, hour = 0, minute = 0, second = 0\<rparr>"
    by (simp add: tick_clock_def roll_def Let_def md_def md_tab_def)
  with tick_clock_skips_last_day [OF v this] show ?thesis by auto
qed

text \<open>
  reading the CMOS.  The decoding of a byte in binary coded decimal gives the number it
  encodes for all numbers below 100; \<open>init_rt\<close> sets every field of the clock from its
  register except the hour, which it reads from the register of the day.
\<close>

definition bcd :: "nat \<Rightarrow> u8" where
  "bcd n = word_of_nat (16 * (n div 10) + n mod 10)"

theorem init_rt_reads_cmos:
  assumes "\<forall>r. v r < 100"
  shows "rt (init_rt (\<lambda>r. bcd (v r)) s) =
    \<lparr>year = int (v TIME_YEAR), month = int (v TIME_MONTH), day = int (v TIME_DAY), hour = int (v TIME_DAY),
     minute = int (v TIME_MINUTE), second = int (v TIME_SECOND)\<rparr>"
proof -
  have "uint (fst (get_time_part (\<lambda>r. bcd (v r)) r u)) = int (v r)" for r and u :: "'a ktimer_scheme"
  proof -
    have "(\<forall>n \<in> set [0..<100]. uint (drop_bit 4 (bcd n) * 10 + (bcd n AND 0xf)) = int n)" by code_simp
    moreover have "v r \<in> set [0..<100]" using assms by simp
    ultimately show ?thesis unfolding get_time_part_def Let_def by auto
  qed
  moreover have "snd (get_time_part c r u) = u\<lparr>outlog := outlog u @ [(0x70, r)]\<rparr>" for c r and u :: "'a ktimer_scheme"
    by (simp add: get_time_part_def out_byte_def Let_def)
  ultimately show ?thesis by (simp add: init_rt_def Let_def case_prod_beta)
qed

theorem init_rt_reads_cmos_witness:
  "hour (rt (init_rt (\<lambda>r. bcd (if r = TIME_HOUR then 23 else 5)) bss_ktimer)) = 5"
proof -
  have "\<forall>r. (if r = TIME_HOUR then 23 else 5 :: nat) < 100" by simp
  from init_rt_reads_cmos [OF this, of bss_ktimer] show ?thesis by (simp add: TIME_HOUR_def TIME_DAY_def)
qed

end
