(* ===== verification/Ide.thy ===== *)
theory Ide
  imports Timer Disk
begin

text \<open>
  The IDE driver process, \<open>drivers/ide/ide.c\<close>: a server that reads and writes ranges of
  bytes of the disk through the sector cache on behalf of other processes, and the two
  interrupt routines that feed it.  The disk with its cache is a state of its own beside
  the kernel's.
\<close>

section \<open>ide.c\<close>

definition WRITEBACK_TIME :: u32 where
  "WRITEBACK_TIME = 1"

record kide = ktimer +
  IDE_PID :: pid_t
  wb_counter :: u32

definition init_ide ::
    "u32 \<Rightarrow> (nat \<Rightarrow> u32) \<Rightarrow> 'a kide_scheme \<times> 'd cdisk \<Rightarrow> ('a kide_scheme \<times> 'd cdisk) res" where
  "init_ide entry args =
     (\<lambda>(s, st).
       let st = cache_init st in
       bindR (add_irq_handle 14 Ide_intr s) (\<lambda>s.
       bindR (add_irq_handle 0 Time_intr s) (\<lambda>s.
       bindR (create_kthread entry args s) (\<lambda>(p, s).
       let s = s\<lparr>IDE_PID := pid (pcb_pool s p)\<rparr> in
       bindR (hal_register ''hda'' (IDE_PID s) 0 s) (\<lambda>s.
       bindR (wakeup (Some (PcbList p)) s) (\<lambda>s.
       Inr (s, st)))))))"

text \<open>The bodies of the two copying loops; \<open>copy_from_kernel\<close> and \<open>copy_to_kernel\<close> of one byte.\<close>

definition ide_read_step ::
    "'d sector_ops \<Rightarrow> Msg \<Rightarrow> nat \<Rightarrow> 'a kide_scheme \<times> 'd cdisk \<Rightarrow> ('a kide_scheme \<times> 'd cdisk) res" where
  "ide_read_step ops m i =
     (\<lambda>(s, st).
       bindR (read_byte ops (offset m + word_of_nat i) st) (\<lambda>(data, st).
       Inr (s\<lparr>mem := (mem s)(buf m + word_of_nat i := data)\<rparr>, st)))"

definition ide_write_step ::
    "'d sector_ops \<Rightarrow> Msg \<Rightarrow> nat \<Rightarrow> 'a kide_scheme \<times> 'd cdisk \<Rightarrow> ('a kide_scheme \<times> 'd cdisk) res" where
  "ide_write_step ops m i =
     (\<lambda>(s, st).
       let data = mem s (buf m + word_of_nat i) in
       bindR (write_byte ops (offset m + word_of_nat i) data st) (\<lambda>st.
       Inr (s, st)))"

definition ide_reply ::
    "Msg \<Rightarrow> 'a kide_scheme \<times> 'd cdisk \<Rightarrow> ('a kide_scheme \<times> 'd cdisk) res" where
  "ide_reply m =
     (\<lambda>(s, st).
       let m = m\<lparr>mtype := mlen m\<rparr>;
           m = m\<lparr>dest := src m\<rparr>;
           m = m\<lparr>src := IDE_PID s\<rparr> in
       bindR (send (dest m) m s) (\<lambda>(_, s). Inr (s, st)))"

text \<open>One round of the driver's loop, on the message it received.\<close>

definition ide_driver_thread ::
    "'d sector_ops \<Rightarrow> Msg \<Rightarrow> 'a kide_scheme \<times> 'd cdisk \<Rightarrow> ('a kide_scheme \<times> 'd cdisk) res" where
  "ide_driver_thread ops m =
     (\<lambda>(s, st).
       if src m = MSG_HARD_INTR then
         if mtype m = IDE_WRITEBACK then bindR (cache_writeback ops st) (\<lambda>st. Inr (s, st))
         else Inl (Panic ''IDE interrupt is leaking'')
       else if mtype m = DEV_READ then
         bindR (forR (ide_read_step ops m) [0..<unat (mlen m)] (s, st)) (ide_reply m)
       else if mtype m = DEV_WRITE then
         bindR (forR (ide_write_step ops m) [0..<unat (mlen m)] (s, st)) (ide_reply m)
       else Inl (AssertFail ''0''))"

text \<open>The static messages of the interrupt routines have their other fields zero.\<close>

definition intr_msg :: "u32 \<Rightarrow> Msg" where
  "intr_msg ty = \<lparr>src = MSG_HARD_INTR, dest = 0, mtype = ty, req_pid = 0, dev_id = 0, buf = 0, offset = 0, mlen = 0\<rparr>"

definition ide_intr :: "'a kide_scheme \<Rightarrow> 'a kide_scheme res" where
  "ide_intr s = bindR (send (IDE_PID s) (intr_msg IDE_READY) s) (\<lambda>(_, s). Inr s)"

definition time_intr :: "'a kide_scheme \<Rightarrow> 'a kide_scheme res" where
  "time_intr s =
     (let s = s\<lparr>wb_counter := (wb_counter s + 1) mod (WRITEBACK_TIME * word_of_int HZ)\<rparr> in
      if wb_counter s = 0
      then bindR (send (IDE_PID s) (intr_msg IDE_WRITEBACK) s) (\<lambda>(_, s). Inr s)
      else Inr s)"

section \<open>Transfers\<close>

context sector_store
begin

lemma ide_read_loop:
  assumes "cache_inv sectors idle_drive st" and "n < 4294967296"
  shows "\<exists>st'. forR (ide_read_step ops m) [0..<n] (s, st) =
      Inr (s\<lparr>mem := (\<lambda>a. if unat (a - buf m) < n then byte_at sectors st (offset m + (a - buf m)) else mem s a)\<rparr>, st') \<and>
    cache_inv sectors idle_drive st' \<and> byte_at sectors st' = byte_at sectors st"
  using assms(2)
proof (induction n)
  case 0
  then show ?case using assms(1) by auto
next
  case (Suc n)
  let ?m = "\<lambda>n a. if unat (a - buf m) < n then byte_at sectors st (offset m + (a - buf m)) else mem s a"
  obtain st1 where st1: "forR (ide_read_step ops m) [0..<n] (s, st) = Inr (s\<lparr>mem := ?m n\<rparr>, st1)"
    "cache_inv sectors idle_drive st1" "byte_at sectors st1 = byte_at sectors st"
    using Suc by auto
  obtain st2 where st2: "read_byte ops (offset m + word_of_nat n) st1 =
      Inr (byte_at sectors st (offset m + word_of_nat n), st2)" "cache_inv sectors idle_drive st2"
    "byte_at sectors st2 = byte_at sectors st"
    using read_byte_ok [OF st1(2), of "offset m + word_of_nat n"] st1(3) by auto
  have w: "unat (a - buf m) = n \<longleftrightarrow> a = buf m + word_of_nat n" for a
    using Suc.prems by (intro unat_diff_u32) simp
  have "(?m n)(buf m + word_of_nat n := byte_at sectors st (offset m + word_of_nat n)) = ?m (Suc n)"
    using w by (auto simp: fun_eq_iff less_Suc_eq)
  then have "ide_read_step ops m n (s\<lparr>mem := ?m n\<rparr>, st1) = Inr (s\<lparr>mem := ?m (Suc n)\<rparr>, st2)"
    using st2(1) by (simp add: ide_read_step_def del: fun_upd_apply)
  then have "forR (ide_read_step ops m) [0..<Suc n] (s, st) = Inr (s\<lparr>mem := ?m (Suc n)\<rparr>, st2)"
    by (simp only: forR_upt_Suc st1(1) bindR_Inr)
  then show ?case using st2(2,3) by blast
qed

lemma ide_write_loop:
  assumes "cache_inv sectors idle_drive st" and "n < 4294967296"
  shows "\<exists>st'. forR (ide_write_step ops m) [0..<n] (s, st) = Inr (s, st') \<and>
    cache_inv sectors idle_drive st' \<and>
    byte_at sectors st' =
      (\<lambda>a. if unat (a - offset m) < n then mem s (buf m + (a - offset m)) else byte_at sectors st a)"
  using assms(2)
proof (induction n)
  case 0
  then show ?case using assms(1) by auto
next
  case (Suc n)
  let ?b = "\<lambda>n a. if unat (a - offset m) < n then mem s (buf m + (a - offset m)) else byte_at sectors st a"
  obtain st1 where st1: "forR (ide_write_step ops m) [0..<n] (s, st) = Inr (s, st1)"
    "cache_inv sectors idle_drive st1" "byte_at sectors st1 = ?b n"
    using Suc by auto
  obtain st2 where st2: "write_byte ops (offset m + word_of_nat n) (mem s (buf m + word_of_nat n)) st1 = Inr st2"
    "cache_inv sectors idle_drive st2"
    "byte_at sectors st2 = (?b n)(offset m + word_of_nat n := mem s (buf m + word_of_nat n))"
    using write_byte_ok [OF st1(2), of "offset m + word_of_nat n" "mem s (buf m + word_of_nat n)"]
    unfolding st1(3) by (elim exE conjE)
  have w: "unat (a - offset m) = n \<longleftrightarrow> a = offset m + word_of_nat n" for a
    using Suc.prems by (intro unat_diff_u32) simp
  have "(?b n)(offset m + word_of_nat n := mem s (buf m + word_of_nat n)) = ?b (Suc n)"
    using w by (auto simp: fun_eq_iff less_Suc_eq)
  then have b: "byte_at sectors st2 = ?b (Suc n)" using st2(3) by simp
  have "ide_write_step ops m n (s, st1) = Inr (s, st2)"
    using st2(1) by (simp add: ide_write_step_def)
  then have "forR (ide_write_step ops m) [0..<Suc n] (s, st) = Inr (s, st2)"
    by (simp only: forR_upt_Suc st1(1) bindR_Inr)
  then show ?case using st2(2) b by blast
qed

end

lemma unat_less_u32: "unat (w :: u32) < 4294967296"
  using unsigned_less [where ?'a = nat and w = w] by simp

text \<open>The zero-filled kernel, and a request to move ten bytes between the disk and memory.\<close>

definition bss_kide :: kide where
  "bss_kide = ktimer.extend bss_ktimer (kide.fields 0 0)"

lemma IDE_PID_bss: "IDE_PID bss_kide = 0"
  by (simp add: bss_kide_def kide.defs ktimer.defs)

definition ten_bytes :: "u32 \<Rightarrow> Msg" where
  "ten_bytes ty = \<lparr>src = 3, dest = 5, mtype = ty, req_pid = 3, dev_id = 0, buf = 0x1000, offset = 510, mlen = 10\<rparr>"

section \<open>Properties\<close>

text \<open>
  C26: a read request to the disk.  The driver copies the requested range of the disk, as the
  cache and the disk together hold it, to the requester's buffer, changes no other byte of
  memory and no byte of the disk, and answers the sender with the number of bytes.
\<close>

theorem ide_serves_read:
  assumes "ata_drive io words idle_drive" and "cache_inv (sector_bytes words) idle_drive st"
    and "src m \<noteq> MSG_HARD_INTR" and "mtype m = DEV_READ"
  shows "\<exists>st'. ide_driver_thread (ata_ops io) m (s, st) =
      bindR (send (src m) (m\<lparr>mtype := mlen m, dest := src m, src := IDE_PID s\<rparr>)
        (s\<lparr>mem := (\<lambda>a. if a - buf m < mlen m
          then byte_at (sector_bytes words) st (offset m + (a - buf m)) else mem s a)\<rparr>))
        (\<lambda>(_, s). Inr (s, st')) \<and>
    cache_inv (sector_bytes words) idle_drive st' \<and>
    byte_at (sector_bytes words) st' = byte_at (sector_bytes words) st"
proof -
  obtain st' where st': "forR (ide_read_step (ata_ops io) m) [0..<unat (mlen m)] (s, st) =
      Inr (s\<lparr>mem := (\<lambda>a. if unat (a - buf m) < unat (mlen m)
        then byte_at (sector_bytes words) st (offset m + (a - buf m)) else mem s a)\<rparr>, st')"
    "cache_inv (sector_bytes words) idle_drive st'"
    "byte_at (sector_bytes words) st' = byte_at (sector_bytes words) st"
    using sector_store.ide_read_loop [OF ata_drive.is_store [OF assms(1)] assms(2) unat_less_u32] by blast
  then show ?thesis
    using assms(3,4)
    by (intro exI [of _ st']) (simp add: ide_driver_thread_def ide_reply_def Let_def word_less_nat_alt)
qed

theorem ide_serves_read_witness:
  "\<exists>st'. ide_driver_thread (ata_ops pio_ports) (ten_bytes DEV_READ) (bss_kide, cache_init blank_disk) =
      bindR (send 3 ((ten_bytes DEV_READ)\<lparr>mtype := 10, dest := 3, src := 0\<rparr>)
        (bss_kide\<lparr>mem := (\<lambda>a. if a - 0x1000 < 10
          then byte_at (sector_bytes pwords) (cache_init blank_disk) (510 + (a - 0x1000)) else mem bss_kide a)\<rparr>))
        (\<lambda>(_, s). Inr (s, st'))"
proof -
  have f: "src (ten_bytes t) = 3" "mtype (ten_bytes t) = t" "mlen (ten_bytes t) = 10" "buf (ten_bytes t) = 0x1000"
    "offset (ten_bytes t) = 510" for t by (simp_all add: ten_bytes_def)
  have "src (ten_bytes DEV_READ) \<noteq> MSG_HARD_INTR" by (simp add: f MSG_HARD_INTR_def)
  from ide_serves_read [OF pio.ata_drive_axioms blank_disk_inv this f(2), of bss_kide]
  show ?thesis unfolding f IDE_PID_bss by (elim exE conjE) (rule exI)
qed

text \<open>
  a write request to the disk.  The driver copies the requester's buffer to the requested
  range of the disk, as later readers see it, changes no other byte of the disk and none of
  memory, and answers the sender with the number of bytes.
\<close>

theorem ide_serves_write:
  assumes "ata_drive io words idle_drive" and "cache_inv (sector_bytes words) idle_drive st"
    and "src m \<noteq> MSG_HARD_INTR" and "mtype m = DEV_WRITE"
  shows "\<exists>st'. ide_driver_thread (ata_ops io) m (s, st) =
      bindR (send (src m) (m\<lparr>mtype := mlen m, dest := src m, src := IDE_PID s\<rparr>) s) (\<lambda>(_, s). Inr (s, st')) \<and>
    cache_inv (sector_bytes words) idle_drive st' \<and>
    byte_at (sector_bytes words) st' = (\<lambda>a. if a - offset m < mlen m
      then mem s (buf m + (a - offset m)) else byte_at (sector_bytes words) st a)"
proof -
  obtain st' where st': "forR (ide_write_step (ata_ops io) m) [0..<unat (mlen m)] (s, st) = Inr (s, st')"
    "cache_inv (sector_bytes words) idle_drive st'"
    "byte_at (sector_bytes words) st' = (\<lambda>a. if unat (a - offset m) < unat (mlen m)
      then mem s (buf m + (a - offset m)) else byte_at (sector_bytes words) st a)"
    using sector_store.ide_write_loop [OF ata_drive.is_store [OF assms(1)] assms(2) unat_less_u32] by blast
  then show ?thesis
    using assms(3,4)
    by (intro exI [of _ st']) (simp add: ide_driver_thread_def ide_reply_def Let_def word_less_nat_alt
        DEV_READ_def DEV_WRITE_def)
qed

theorem ide_serves_write_witness:
  "\<exists>st'. ide_driver_thread (ata_ops pio_ports) (ten_bytes DEV_WRITE) (bss_kide, cache_init blank_disk) =
      bindR (send 3 ((ten_bytes DEV_WRITE)\<lparr>mtype := 10, dest := 3, src := 0\<rparr>) bss_kide)
        (\<lambda>(_, s). Inr (s, st')) \<and>
    byte_at (sector_bytes pwords) st' 515 = mem bss_kide 0x1005"
proof -
  have f: "src (ten_bytes t) = 3" "mtype (ten_bytes t) = t" "mlen (ten_bytes t) = 10" "buf (ten_bytes t) = 0x1000"
    "offset (ten_bytes t) = 510" for t by (simp_all add: ten_bytes_def)
  have "src (ten_bytes DEV_WRITE) \<noteq> MSG_HARD_INTR" by (simp add: f MSG_HARD_INTR_def)
  from ide_serves_write [OF pio.ata_drive_axioms blank_disk_inv this f(2), of bss_kide]
  show ?thesis unfolding f IDE_PID_bss by (elim exE conjE) (rule exI, rule conjI, assumption, simp)
qed

end
