(* ===== verification/Drivers.thy ===== *)
theory Drivers
  imports Ide Strings Memory
begin

text \<open>
  The memory devices: \<open>null\<close>, \<open>zero\<close> and \<open>random\<close> of \<open>drivers/others\<close>, and \<open>mem\<close>,
  \<open>kmem\<close> and the RAM disk of \<open>drivers/ram\<close>.  Each is a process that serves one request
  after the other; the body of its loop is a function of the message received.  The three
  that copy memory meet one contract, the locale \<open>copy_server\<close>.
\<close>

record kdrv = kide +
  DEV_NULL :: pid_t
  DEV_ZERO :: pid_t
  RANDOM :: pid_t
  rand_next :: u8
  MEM :: pid_t
  DEV_KMEM :: pid_t
  RAMDISK :: pid_t

text \<open>
  The three assignments and the \<open>send\<close> that answer a request; \<open>ret\<close> is the first word of
  the message, \<open>mtype\<close>.
\<close>

definition answer :: "u32 \<Rightarrow> pid_t \<Rightarrow> Msg \<Rightarrow> 'a kdrv_scheme \<Rightarrow> 'a kdrv_scheme res" where
  "answer ret me m s =
     (let m = m\<lparr>mtype := ret\<rparr>;
          m = m\<lparr>dest := src m\<rparr>;
          m = m\<lparr>src := me\<rparr> in
      bindR (send (dest m) m s) (\<lambda>(_, s). Inr s))"

text \<open>\<open>create_kthread\<close>, \<open>hal_register\<close> and \<open>wakeup\<close>, as every one of the drivers starts.\<close>

definition start_driver ::
    "u32 \<Rightarrow> (nat \<Rightarrow> u32) \<Rightarrow> string \<Rightarrow> (pid_t \<Rightarrow> 'a kdrv_scheme \<Rightarrow> 'a kdrv_scheme) \<Rightarrow>
     ('a kdrv_scheme \<Rightarrow> 'a kdrv_scheme) \<Rightarrow> 'a kdrv_scheme \<Rightarrow> 'a kdrv_scheme res" where
  "start_driver entry args name set_pid prepare s =
     bindR (create_kthread entry args s) (\<lambda>(p, s).
     let me = pid (pcb_pool s p);
         s = set_pid me s in
     bindR (hal_register name me 0 s) (\<lambda>s.
     wakeup (Some (PcbList p)) (prepare s)))"

section \<open>null.c and zero.c\<close>

definition null_driver_thread :: "Msg \<Rightarrow> 'a kdrv_scheme \<Rightarrow> 'a kdrv_scheme res" where
  "null_driver_thread m s =
     (if mtype m = DEV_READ then answer 0 (DEV_NULL s) m s
      else if mtype m = DEV_WRITE then answer 0 (DEV_NULL s) m s
      else Inl (AssertFail ''0''))"

definition init_null :: "u32 \<Rightarrow> (nat \<Rightarrow> u32) \<Rightarrow> 'a kdrv_scheme \<Rightarrow> 'a kdrv_scheme res" where
  "init_null entry args = start_driver entry args ''null'' (\<lambda>me s. s\<lparr>DEV_NULL := me\<rparr>) (\<lambda>s. s)"

definition zero_driver_thread :: "Msg \<Rightarrow> 'a kdrv_scheme \<Rightarrow> 'a kdrv_scheme res" where
  "zero_driver_thread m s =
     (if mtype m = DEV_READ then
        let s = s\<lparr>mem := memset (buf m) 0 (mlen m) (mem s)\<rparr> in
        answer (mlen m) (DEV_ZERO s) m s
      else if mtype m = DEV_WRITE then answer 0 (DEV_ZERO s) m s
      else Inl (AssertFail ''0''))"

definition init_zero :: "u32 \<Rightarrow> (nat \<Rightarrow> u32) \<Rightarrow> 'a kdrv_scheme \<Rightarrow> 'a kdrv_scheme res" where
  "init_zero entry args = start_driver entry args ''zero'' (\<lambda>me s. s\<lparr>DEV_ZERO := me\<rparr>) (\<lambda>s. s)"

section \<open>random.c\<close>

text \<open>The state is one byte; the products are taken in \<open>int\<close> and truncated.\<close>

definition rand :: "'a kdrv_scheme \<Rightarrow> u8 \<times> 'a kdrv_scheme" where
  "rand s =
     (let next = ucast ((ucast (rand_next s) :: u32) * 1103515245 + 12345) in
      (next, s\<lparr>rand_next := next\<rparr>))"

definition srand :: "'a kdrv_scheme \<Rightarrow> 'a kdrv_scheme" where
  "srand s =
     (let tm = get_time s;
          s = s\<lparr>rand_next := word_of_int (hour tm * 3600 + minute tm * 60 + second tm)\<rparr> in
      snd (rand s))"

text \<open>\<open>i < m.len\<close> compares signed integers.\<close>

fun rand_fill :: "nat \<Rightarrow> u32 \<Rightarrow> 'a kdrv_scheme \<Rightarrow> 'a kdrv_scheme" where
  "rand_fill 0 b s = s"
| "rand_fill (Suc n) b s =
     (let (v, s) = rand s in rand_fill n (b + 1) (s\<lparr>mem := (mem s)(b := v)\<rparr>))"

definition random_driver_thread :: "Msg \<Rightarrow> 'a kdrv_scheme \<Rightarrow> 'a kdrv_scheme res" where
  "random_driver_thread m s =
     (if mtype m = DEV_READ then
        let s = rand_fill (nat (sint (mlen m))) (buf m) s in
        answer (mlen m) (RANDOM s) m s
      else if mtype m = DEV_WRITE then answer 0 (RANDOM s) m s
      else Inl (AssertFail ''0''))"

definition init_random :: "u32 \<Rightarrow> (nat \<Rightarrow> u32) \<Rightarrow> 'a kdrv_scheme \<Rightarrow> 'a kdrv_scheme res" where
  "init_random entry args = start_driver entry args ''random'' (\<lambda>me s. s\<lparr>RANDOM := me\<rparr>) srand"

section \<open>mem.c, kmem.c and ramdisk.c\<close>

definition mem_driver_thread :: "Msg \<Rightarrow> 'a kdrv_scheme \<Rightarrow> 'a kdrv_scheme res" where
  "mem_driver_thread m s =
     (if src m = MSG_HARD_INTR then Inl (Panic ''MEM unexpected hard interrupt'')
      else if mtype m = DEV_READ then
        let s = s\<lparr>mem := memcpy (buf m) (offset m) (mlen m) (mem s)\<rparr> in answer (mlen m) (MEM s) m s
      else if mtype m = DEV_WRITE then
        let s = s\<lparr>mem := memcpy (offset m) (buf m) (mlen m) (mem s)\<rparr> in answer (mlen m) (MEM s) m s
      else Inl (AssertFail ''0''))"

definition init_mem :: "u32 \<Rightarrow> (nat \<Rightarrow> u32) \<Rightarrow> 'a kdrv_scheme \<Rightarrow> 'a kdrv_scheme res" where
  "init_mem entry args = start_driver entry args ''mem'' (\<lambda>me s. s\<lparr>MEM := me\<rparr>) (\<lambda>s. s)"

definition kmem_driver_thread :: "Msg \<Rightarrow> 'a kdrv_scheme \<Rightarrow> 'a kdrv_scheme res" where
  "kmem_driver_thread m s =
     (if src m = MSG_HARD_INTR then Inl (Panic ''DEV_KMEM unexpected hard interrupt'')
      else if mtype m = DEV_READ then
        let s = s\<lparr>mem := memcpy (buf m) (offset m + KOFFSET) (mlen m) (mem s)\<rparr> in answer (mlen m) (DEV_KMEM s) m s
      else if mtype m = DEV_WRITE then
        let s = s\<lparr>mem := memcpy (offset m + KOFFSET) (buf m) (mlen m) (mem s)\<rparr> in answer (mlen m) (DEV_KMEM s) m s
      else Inl (AssertFail ''0''))"

definition init_kmem :: "u32 \<Rightarrow> (nat \<Rightarrow> u32) \<Rightarrow> 'a kdrv_scheme \<Rightarrow> 'a kdrv_scheme res" where
  "init_kmem entry args = start_driver entry args ''kmem'' (\<lambda>me s. s\<lparr>DEV_KMEM := me\<rparr>) (\<lambda>s. s)"

text \<open>\<open>disk\<close> is the address of the array \<open>file\<close>.\<close>

definition ram_driver_thread :: "u32 \<Rightarrow> Msg \<Rightarrow> 'a kdrv_scheme \<Rightarrow> 'a kdrv_scheme res" where
  "ram_driver_thread disk m s =
     (if src m = MSG_HARD_INTR then Inl (Panic ''RAMDISK unexpected hard interrupt'')
      else if mtype m = DEV_READ then
        let s = s\<lparr>mem := memcpy (buf m) (disk + offset m) (mlen m) (mem s)\<rparr> in answer (mlen m) (RAMDISK s) m s
      else if mtype m = DEV_WRITE then
        let s = s\<lparr>mem := memcpy (disk + offset m) (buf m) (mlen m) (mem s)\<rparr> in answer (mlen m) (RAMDISK s) m s
      else Inl (AssertFail ''0''))"

definition init_ramdisk :: "u32 \<Rightarrow> (nat \<Rightarrow> u32) \<Rightarrow> 'a kdrv_scheme \<Rightarrow> 'a kdrv_scheme res" where
  "init_ramdisk entry args = start_driver entry args ''ram'' (\<lambda>me s. s\<lparr>RAMDISK := me\<rparr>) (\<lambda>s. s)"

section \<open>Answers leave memory alone\<close>

lemma wakeup_mem: "wakeup p s = Inr s' \<Longrightarrow> mem s' = mem s"
  unfolding wakeup_def Let_def set_stat_def
  by (auto simp: bindR_Inr_iff kdefs split: if_splits)

lemma V_sem_mem: "V_sem x s = Inr s' \<Longrightarrow> mem s' = mem s"
  unfolding V_sem_def Let_def
  by (auto simp: bindR_Inr_iff kdefs split: if_splits dest!: wakeup_mem)

lemma send_mem: "send d m s = Inr (m', s') \<Longrightarrow> mem s' = mem s"
  unfolding send_def
  by (auto simp: bindR_Inr_iff send_copy_def Let_def current_pid_def send_link_eq split: if_splits dest!: V_sem_mem)

lemma answer_mem: "answer ret me m s = Inr s' \<Longrightarrow> mem s' = mem s"
  by (auto simp: answer_def Let_def bindR_Inr_iff dest: send_mem)

text \<open>The answer a client gets.\<close>

lemma answer_eq:
  "answer ret me m s = bindR (send (src m) (m\<lparr>mtype := ret, dest := src m, src := me\<rparr>) s) (\<lambda>(_, s). Inr s)"
  by (simp add: answer_def Let_def)

section \<open>The contract of the copying devices\<close>

text \<open>Two ranges of \<open>n\<close> bytes have no byte in common.\<close>

definition apart :: "u32 \<Rightarrow> u32 \<Rightarrow> u32 \<Rightarrow> bool" where
  "apart a b n \<longleftrightarrow> (\<forall>i<unat n. \<forall>j<unat n. a + word_of_nat i \<noteq> b + word_of_nat j)"

lemma apart_distance:
  assumes "unat n \<le> unat (b - a)" and "unat n \<le> unat (a - b)"
  shows "apart a b n"
  unfolding apart_def
proof (intro allI impI notI)
  fix i j assume ij: "i < unat n" "j < unat n" and eq: "a + word_of_nat i = b + (word_of_nat j :: u32)"
  have n: "unat n < 4294967296" using unsigned_less [where ?'a = nat and w = n] by simp
  show False
  proof (cases "j \<le> i")
    case True
    then have "b - a = word_of_nat (i - j)" using eq by (simp add: of_nat_diff algebra_simps)
    then show False using assms(1) ij n by simp
  next
    case False
    then have "a - b = word_of_nat (j - i)" using eq by (simp add: of_nat_diff algebra_simps)
    then show False using assms(2) ij n by simp
  qed
qed

definition same_bytes :: "memory \<Rightarrow> u32 \<Rightarrow> memory \<Rightarrow> u32 \<Rightarrow> u32 \<Rightarrow> bool" where
  "same_bytes m a m' b n \<longleftrightarrow> (\<forall>k<unat n. m (a + word_of_nat k) = m' (b + word_of_nat k))"

lemma memcpy_apart:
  assumes "apart d s n"
  shows "same_bytes (memcpy d s n m) d m s n" and "same_bytes (memcpy d s n m) s m s n"
proof -
  have "\<forall>i j. i < j \<longrightarrow> j < unat n \<longrightarrow> d + word_of_nat i \<noteq> s + word_of_nat j"
    using assms by (auto simp: apart_def)
  note c = memcpy_copies [OF this, of m]
  show "same_bytes (memcpy d s n m) d m s n" using c by (simp add: same_bytes_def)
  show "same_bytes (memcpy d s n m) s m s n"
    using c assms by (auto simp: same_bytes_def apart_def) (metis add.commute)
qed

lemma memcpy_elsewhere:
  assumes "apart d s n" and "apart e d n"
  shows "same_bytes (memcpy d s n m) e m e n"
proof -
  have "\<forall>i j. i < j \<longrightarrow> j < unat n \<longrightarrow> d + word_of_nat i \<noteq> s + word_of_nat j"
    using assms(1) by (auto simp: apart_def)
  with memcpy_copies [OF this, of m] assms(2) show ?thesis by (simp add: same_bytes_def apart_def)
qed

locale copy_server =
  fixes serve :: "Msg \<Rightarrow> 'a kdrv_scheme \<Rightarrow> 'a kdrv_scheme res"
    and base :: u32
    and me :: "'a kdrv_scheme \<Rightarrow> pid_t"
  assumes serve_read: "src m \<noteq> MSG_HARD_INTR \<Longrightarrow> mtype m = DEV_READ \<Longrightarrow>
      serve m s = answer (mlen m) (me s) m (s\<lparr>mem := memcpy (buf m) (base + offset m) (mlen m) (mem s)\<rparr>)"
    and serve_write: "src m \<noteq> MSG_HARD_INTR \<Longrightarrow> mtype m = DEV_WRITE \<Longrightarrow>
      serve m s = answer (mlen m) (me s) m (s\<lparr>mem := memcpy (base + offset m) (buf m) (mlen m) (mem s)\<rparr>)"
begin

text \<open>What one client writes to a range of the device, any client reads from it.\<close>

lemma write_then_read:
  assumes "src w \<noteq> MSG_HARD_INTR" and "mtype w = DEV_WRITE" and "src r \<noteq> MSG_HARD_INTR" and "mtype r = DEV_READ"
    and "offset r = offset w" and "mlen r = mlen w"
    and "apart (base + offset w) (buf w) (mlen w)" and "apart (buf r) (base + offset w) (mlen w)"
  shows "\<exists>M. serve w s = answer (mlen w) (me s) w (s\<lparr>mem := M\<rparr>) \<and>
    (\<forall>s2. mem s2 = M \<longrightarrow> (\<exists>M'. serve r s2 = answer (mlen w) (me s2) r (s2\<lparr>mem := M'\<rparr>) \<and>
      same_bytes M' (buf r) (mem s) (buf w) (mlen w)))"
proof (intro exI conjI allI impI)
  show "serve w s = answer (mlen w) (me s) w (s\<lparr>mem := memcpy (base + offset w) (buf w) (mlen w) (mem s)\<rparr>)"
    by (rule serve_write [OF assms(1,2)])
  fix s2 :: "'a kdrv_scheme" assume "mem s2 = memcpy (base + offset w) (buf w) (mlen w) (mem s)"
  then show "serve r s2 = answer (mlen w) (me s2) r
      (s2\<lparr>mem := memcpy (buf r) (base + offset w) (mlen w) (memcpy (base + offset w) (buf w) (mlen w) (mem s))\<rparr>)"
    using serve_read [OF assms(3,4), of s2] by (simp add: assms(5,6))
  show "same_bytes (memcpy (buf r) (base + offset w) (mlen w) (memcpy (base + offset w) (buf w) (mlen w) (mem s)))
      (buf r) (mem s) (buf w) (mlen w)"
    using memcpy_apart(1) [OF assms(8), of "memcpy (base + offset w) (buf w) (mlen w) (mem s)"]
      memcpy_apart(1) [OF assms(7), of "mem s"] by (simp add: same_bytes_def)
qed

end

interpretation memdev: copy_server mem_driver_thread 0 MEM
  by unfold_locales (auto simp: mem_driver_thread_def Let_def DEV_READ_def DEV_WRITE_def)

interpretation kmemdev: copy_server kmem_driver_thread KOFFSET DEV_KMEM
  by unfold_locales (auto simp: kmem_driver_thread_def Let_def DEV_READ_def DEV_WRITE_def add.commute)

interpretation ramdev: copy_server "ram_driver_thread disk" disk RAMDISK for disk
  by unfold_locales (auto simp: ram_driver_thread_def Let_def DEV_READ_def DEV_WRITE_def)

section \<open>Properties\<close>

text \<open>
  the RAM disk stores.  A write request copies the client's buffer to the requested range
  of the disk, and a later read request of the range, by any client and from any state with
  that memory, stores the same bytes in the reader's buffer; both are answered with the
  number of bytes.  (No buffer may overlap the range.)
\<close>

theorem ramdisk_write_then_read:
  assumes "src w \<noteq> MSG_HARD_INTR" and "mtype w = DEV_WRITE" and "src r \<noteq> MSG_HARD_INTR" and "mtype r = DEV_READ"
    and "offset r = offset w" and "mlen r = mlen w"
    and "apart (disk + offset w) (buf w) (mlen w)" and "apart (buf r) (disk + offset w) (mlen w)"
  shows "\<exists>M. ram_driver_thread disk w (s :: 'a kdrv_scheme) = answer (mlen w) (RAMDISK s) w (s\<lparr>mem := M\<rparr>) \<and>
    (\<forall>s2 :: 'a kdrv_scheme. mem s2 = M \<longrightarrow> (\<exists>M'. ram_driver_thread disk r s2 = answer (mlen w) (RAMDISK s2) r (s2\<lparr>mem := M'\<rparr>) \<and>
      same_bytes M' (buf r) (mem s) (buf w) (mlen w)))"
  using assms by (rule ramdev.write_then_read)

definition bss_kdrv :: kdrv where
  "bss_kdrv = kide.extend bss_kide (kdrv.fields 0 0 0 0 0 0 0)"

theorem ramdisk_write_then_read_witness:
  "\<exists>M. ram_driver_thread 0x200000 (ten_bytes DEV_WRITE) bss_kdrv =
      answer 10 (RAMDISK bss_kdrv) (ten_bytes DEV_WRITE) (bss_kdrv\<lparr>mem := M\<rparr>)"
proof -
  have a: "apart (0x200000 + 510) 0x1000 10" "apart 0x1000 (0x200000 + 510) 10"
    by (rule apart_distance; simp)+
  have f: "offset (ten_bytes t) = 510" "mlen (ten_bytes t) = 10" "buf (ten_bytes t) = 0x1000" "mtype (ten_bytes t) = t"
    "src (ten_bytes t) \<noteq> MSG_HARD_INTR" for t by (simp_all add: ten_bytes_def MSG_HARD_INTR_def)
  show ?thesis
    using ramdisk_write_then_read [of "ten_bytes DEV_WRITE" "ten_bytes DEV_READ" "0x200000" bss_kdrv] a by (auto simp: f)
qed

end
