(* ===== verification/Console.thy ===== *)
theory Console
  imports Message Strings
begin

text \<open>
  The terminal of \<open>drivers/tty/console.c\<close>: its screen memory of two pages with a window that
  scrolls through it, the line editor, and the ring of cooked characters.  The parts of the
  driver that talk to other processes are in the theory of the terminal server.  Pointers
  into the screen memory are offsets, and every access of an array is checked.
\<close>

section \<open>tty.h and term.h\<close>

definition LBUF_SZ :: int where
  "LBUF_SZ = 256"

definition CBUF_SZ :: int where
  "CBUF_SZ = 1024"

definition RSTK_SZ :: int where
  "RSTK_SZ = 16"

definition SCR_W :: int where
  "SCR_W = 80"

definition SCR_H :: int where
  "SCR_H = 24"

definition C_BLACK :: u16 where
  "C_BLACK = 0"

definition C_WHITE :: u16 where
  "C_WHITE = 7"

record Console =
  c_name :: string
  vbuf :: "u16 list"
  scr :: int
  c_w :: int
  c_h :: int
  c_wh :: int
  c_size :: int
  c_pos :: int
  lbuf :: "u8 list"
  cbuf :: "u8 list"
  c_i :: int
  c_f :: int
  c_r :: int
  rtop :: int
  rstk :: "Msg list"

section \<open>Arrays\<close>

definition rd :: "'b list \<Rightarrow> int \<Rightarrow> 'b res" where
  "rd xs k = (if 0 \<le> k \<and> k < int (length xs) then Inr (xs ! nat k) else Inl (OutOfBounds ''console''))"

definition wr :: "'b list \<Rightarrow> int \<Rightarrow> 'b \<Rightarrow> 'b list res" where
  "wr xs k v = (if 0 \<le> k \<and> k < int (length xs) then Inr (xs[nat k := v]) else Inl (OutOfBounds ''console''))"

lemma rd_ok [simp]: "0 \<le> k \<Longrightarrow> k < int (length xs) \<Longrightarrow> rd xs k = Inr (xs ! nat k)"
  by (simp add: rd_def)

lemma wr_ok [simp]: "0 \<le> k \<Longrightarrow> k < int (length xs) \<Longrightarrow> wr xs k v = Inr (xs[nat k := v])"
  by (simp add: wr_def)

section \<open>console.c: the screen\<close>

text \<open>\<open>char\<close> is signed, so a character above 127 sets the attribute bits as well.\<close>

definition draw :: "u8 \<Rightarrow> u16" where
  "draw ch = push_bit 12 C_BLACK OR push_bit 8 C_WHITE OR scast ch"

definition shift_up :: "int \<Rightarrow> int \<Rightarrow> u16 list \<Rightarrow> u16 list res" where
  "shift_up w sz = forR (\<lambda>k v. bindR (rd v (int k)) (wr v (int k - w))) [nat w..<nat sz]"

definition blank_cells :: "int \<Rightarrow> int \<Rightarrow> u16 list \<Rightarrow> u16 list res" where
  "blank_cells at w = forR (\<lambda>k v. wr v (at + int k) (draw (char_byte CHR '' ''))) [0..<nat w]"

definition scrup :: "Console \<Rightarrow> Console res" where
  "scrup c =
     bindR (if scr c + c_wh c \<ge> c_size c
            then bindR (shift_up (c_w c) (c_size c) (vbuf c)) (\<lambda>v.
                 Inr (c\<lparr>vbuf := v, scr := scr c - c_w c, c_pos := c_pos c - c_w c\<rparr>))
            else Inr c) (\<lambda>c.
     bindR (blank_cells (scr c + c_wh c) (c_w c) (vbuf c)) (\<lambda>v.
     Inr (c\<lparr>vbuf := v, scr := scr c + c_w c\<rparr>)))"

definition next_consl :: "Console \<Rightarrow> Console res" where
  "next_consl c =
     bindR (if c_pos c = scr c + c_wh c - 1 then scrup c else Inr c) (\<lambda>c.
     Inr (c\<lparr>c_pos := c_pos c + 1\<rparr>))"

definition putc :: "Console \<Rightarrow> u8 \<Rightarrow> Console res" where
  "putc c ch = bindR (wr (vbuf c) (c_pos c) (draw ch)) (\<lambda>v. Inr (c\<lparr>vbuf := v\<rparr>))"

definition cr :: "Console \<Rightarrow> Console" where
  "cr c = c\<lparr>c_pos := c_pos c - cmod (c_pos c) (c_w c)\<rparr>"

definition lf :: "Console \<Rightarrow> Console res" where
  "lf c =
     (let c = c\<lparr>c_pos := c_pos c + c_w c\<rparr> in
      if c_pos c \<ge> scr c + c_wh c then scrup c else Inr c)"

definition del :: "Console \<Rightarrow> Console res" where
  "del c = (let c = c\<lparr>c_pos := c_pos c - 1\<rparr> in putc c (char_byte CHR '' ''))"

definition consl_writec :: "Console \<Rightarrow> u8 \<Rightarrow> Console res" where
  "consl_writec c ch =
     (if ch = 13 then Inr (cr c)
      else if ch = 10 then lf (cr c)
      else bindR (putc c ch) next_consl)"

section \<open>console.c: the line editor\<close>

definition movl :: "Console \<Rightarrow> bool \<times> Console" where
  "movl c =
     (if c_i c \<noteq> 0 then (True, c\<lparr>c_i := c_i c - 1, c_pos := c_pos c - 1\<rparr>) else (False, c))"

definition movr :: "Console \<Rightarrow> (bool \<times> Console) res" where
  "movr c =
     bindR (rd (lbuf c) (c_i c)) (\<lambda>ch.
     Inr (if ch \<noteq> 0 then (True, c\<lparr>c_i := c_i c + 1, c_pos := c_pos c + 1\<rparr>) else (False, c)))"

text \<open>
  The loop of \<open>removec\<close> closes the gap in the line and on the screen up to the end of the
  line; it ends at the zero or leaves the array.
\<close>

lemma wr_length: "wr xs k v = Inr ys \<Longrightarrow> length ys = length xs"
  by (auto simp: wr_def split: if_splits)

lemma rd_bounds: "rd xs k = Inr v \<Longrightarrow> 0 \<le> k \<and> k < int (length xs)"
  by (auto simp: rd_def split: if_splits)

lemma bindR_fundef_cong [fundef_cong]:
  "m = m' \<Longrightarrow> (\<And>x. m' = Inr x \<Longrightarrow> f x = f' x) \<Longrightarrow> bindR m f = bindR m' f'"
  by (cases m') simp_all

function close_gap :: "int \<Rightarrow> int \<Rightarrow> u8 list \<Rightarrow> u16 list \<Rightarrow> (u8 list \<times> u16 list) res" where
  "close_gap ptr sp l v =
     bindR (rd l ptr) (\<lambda>ch.
     if ch = 0 then Inr (l, v)
     else bindR (rd l (ptr + 1)) (\<lambda>ch'.
          bindR (wr l ptr ch') (\<lambda>l.
          bindR (rd v (sp + 1)) (\<lambda>x.
          bindR (wr v sp x) (\<lambda>v.
          close_gap (ptr + 1) (sp + 1) l v)))))"
  by pat_completeness auto

termination close_gap
  by (relation "measure (\<lambda>(ptr, sp, l, v). nat (int (length l) - ptr))") (auto dest: wr_length rd_bounds)

declare close_gap.simps [simp del]

definition removec :: "Console \<Rightarrow> Console res" where
  "removec c =
     (let c = c\<lparr>c_i := c_i c - 1\<rparr> in
      bindR (close_gap (c_i c) (c_pos c - 1) (lbuf c) (vbuf c)) (\<lambda>(l, v).
      Inr (c\<lparr>lbuf := l, vbuf := v\<rparr>)))"

definition backsp :: "Console \<Rightarrow> Console res" where
  "backsp c =
     (if c_i c > 0 then
        bindR (removec c) (\<lambda>c.
        bindR (rd (lbuf c) (c_i c)) (\<lambda>ch.
        if ch = 0 then del c else Inr (c\<lparr>c_pos := c_pos c - 1\<rparr>)))
      else Inr c)"

text \<open>\<open>for (; c->lbuf[c->i + cc] != 0; cc ++);\<close>\<close>

function rest_length :: "u8 list \<Rightarrow> int \<Rightarrow> int \<Rightarrow> int res" where
  "rest_length l k cc =
     bindR (rd l (k + cc)) (\<lambda>ch. if ch = 0 then Inr cc else rest_length l k (cc + 1))"
  by pat_completeness auto

termination rest_length
  by (relation "measure (\<lambda>(l, k, cc). nat (int (length l) - (k + cc)))") (auto dest: rd_bounds)

declare rest_length.simps [simp del]

text \<open>The body of the loop of \<open>consl_accept\<close> that makes room for a character.\<close>

definition make_room :: "nat \<Rightarrow> Console \<Rightarrow> Console res" where
  "make_room k c =
     (if c_i c + int k \<ge> LBUF_SZ then Inl (Panic ''line buffer full'')
      else bindR (rd (lbuf c) (c_i c + int k - 1)) (\<lambda>ch.
      bindR (wr (lbuf c) (c_i c + int k) ch) (\<lambda>l.
      let c = c\<lparr>lbuf := l\<rparr> in
      bindR (if c_pos c + int k = scr c + c_wh c + 1 then scrup c else Inr c) (\<lambda>c.
      bindR (rd (vbuf c) (c_pos c + int k - 1)) (\<lambda>x.
      bindR (wr (vbuf c) (c_pos c + int k) x) (\<lambda>v.
      Inr (c\<lparr>vbuf := v\<rparr>)))))))"

text \<open>\<open>consl_accept\<close> up to the final \<open>consl_sync\<close>.\<close>

definition accept_char :: "Console \<Rightarrow> u8 \<Rightarrow> Console res" where
  "accept_char c ch =
     bindR (rest_length (lbuf c) (c_i c) 0) (\<lambda>cc.
     bindR (forR make_room (rev [1..<Suc (nat (cc + 1))]) c) (\<lambda>c.
     bindR (putc c ch) (\<lambda>c.
     bindR (next_consl c) (\<lambda>c.
     if c_i c \<ge> LBUF_SZ then Inl (Panic ''line buffer full'')
     else bindR (wr (lbuf c) (c_i c) ch) (\<lambda>l.
     Inr (c\<lparr>lbuf := l, c_i := c_i c + 1\<rparr>))))))"

text \<open>\<open>while (movl(c));\<close> and \<open>while (movr(c));\<close>\<close>

partial_function (option) home :: "Console \<Rightarrow> Console option" where
  "home c = (let (b, c) = movl c in if b then home c else Some c)"

function to_end :: "Console \<Rightarrow> Console res" where
  "to_end c = bindR (movr c) (\<lambda>(b, c). if b then to_end c else Inr c)"
  by pat_completeness auto

lemma movr_moves: "movr c = Inr (True, c') \<Longrightarrow> c' = c\<lparr>c_i := c_i c + 1, c_pos := c_pos c + 1\<rparr> \<and> 0 \<le> c_i c \<and> c_i c < int (length (lbuf c))"
  by (auto simp: movr_def bindR_Inr_iff dest: rd_bounds split: if_splits)

termination to_end
  by (relation "measure (\<lambda>c. nat (int (length (lbuf c)) - c_i c))") (auto dest: movr_moves)

declare to_end.simps [simp del]

section \<open>console.c: cooked lines\<close>

text \<open>The copying loop of \<open>cook\<close>, and the rest of it before readers are served.\<close>

function cook_from :: "int \<Rightarrow> Console \<Rightarrow> Console res" where
  "cook_from p c =
     bindR (rd (lbuf c) p) (\<lambda>ch.
     bindR (wr (cbuf c) (c_r c) ch) (\<lambda>b.
     let c = c\<lparr>cbuf := b, c_r := cmod (c_r c + 1) CBUF_SZ\<rparr> in
     if c_r c = c_f c then Inl (Panic ''cooked buffer full'')
     else if ch \<noteq> 0 then cook_from (p + 1) c else Inr c))"
  by pat_completeness auto

termination cook_from
  by (relation "measure (\<lambda>(p, c). nat (int (length (lbuf c)) - p))") (auto dest: rd_bounds)

declare cook_from.simps [simp del]

definition cook_line :: "Console \<Rightarrow> Console res" where
  "cook_line c =
     bindR (cook_from 0 c) (\<lambda>c.
     let c = c\<lparr>c_i := 0\<rparr> in
     bindR (wr (lbuf c) 0 0) (\<lambda>l.
     lf (cr (c\<lparr>lbuf := l\<rparr>))))"

fun get_cooked_loop :: "nat \<Rightarrow> u32 \<Rightarrow> nat \<Rightarrow> Console \<times> memory \<Rightarrow> (nat \<times> Console \<times> memory) res" where
  "get_cooked_loop 0 b nread (c, m) = Inr (nread, c, m)"
| "get_cooked_loop (Suc count) b nread (c, m) =
     bindR (rd (cbuf c) (c_f c)) (\<lambda>ch.
     let c = c\<lparr>c_f := cmod (c_f c + 1) CBUF_SZ\<rparr> in
     if ch = 0 then Inr (nread, c, m)
     else get_cooked_loop count (b + 1) (nread + 1) (c, m(b := ch)))"

definition get_cooked :: "Console \<Rightarrow> u32 \<Rightarrow> u32 \<Rightarrow> memory \<Rightarrow> (nat \<times> Console \<times> memory) res" where
  "get_cooked c b count m =
     bindR (assertR (c_f c \<noteq> c_r c) ''c->f != c->r'') (\<lambda>_.
     get_cooked_loop (unat count) b 0 (c, m))"

section \<open>console.c: initialisation\<close>

text \<open>
  \<open>init_consl\<close> up to the final \<open>consl_sync\<close>; \<open>area\<close> is the part of the array \<open>vbuf\<close>
  that belongs to the terminal.
\<close>

definition init_consl :: "string \<Rightarrow> u16 list \<Rightarrow> Console \<Rightarrow> Console res" where
  "init_consl name area c =
     (let c = c\<lparr>c_name := name, vbuf := area, scr := 0, c_size := SCR_W * SCR_H * 2, c_pos := 0, c_w := SCR_W, c_h := SCR_H\<rparr>;
          c = c\<lparr>c_wh := c_w c * c_h c\<rparr> in
      bindR (wr (lbuf c) 0 0) (\<lambda>l.
      bindR (blank_cells (scr c) (SCR_W * SCR_H) (vbuf c)) (\<lambda>v.
      Inr (c\<lparr>lbuf := l, vbuf := v, c_i := 0, c_r := 0, c_f := 0, rtop := 0\<rparr>))))"

section \<open>The screen as a window\<close>

text \<open>
  Between operations the window lies in the two pages, at a whole number of lines, with the
  cursor in it.
\<close>

definition screen_inv :: "Console \<Rightarrow> bool" where
  "screen_inv c \<longleftrightarrow> c_w c = 80 \<and> c_h c = 24 \<and> c_wh c = 1920 \<and> c_size c = 3840 \<and> length (vbuf c) = 3840 \<and>
     80 dvd scr c \<and> 0 \<le> scr c \<and> scr c \<le> 1920 \<and> scr c \<le> c_pos c \<and> c_pos c < scr c + 1920"

text \<open>What is seen: the cells of the window and the place of the cursor in it.\<close>

definition screen_view :: "Console \<Rightarrow> u16 list \<times> nat" where
  "screen_view c = (take 1920 (drop (nat (scr c)) (vbuf c)), nat (c_pos c - scr c))"

abbreviation blank :: u16 where
  "blank \<equiv> draw (char_byte CHR '' '')"

definition roll_up :: "u16 list \<Rightarrow> u16 list" where
  "roll_up win = drop 80 win @ replicate 80 blank"

definition tty_put :: "u8 \<Rightarrow> u16 list \<times> nat \<Rightarrow> u16 list \<times> nat" where
  "tty_put ch = (\<lambda>(win, p). let win = win[p := draw ch] in
     if p = 1919 then (roll_up win, 1840) else (win, p + 1))"

definition tty_cr :: "u16 list \<times> nat \<Rightarrow> u16 list \<times> nat" where
  "tty_cr = (\<lambda>(win, p). (win, p - p mod 80))"

definition tty_lf :: "u16 list \<times> nat \<Rightarrow> u16 list \<times> nat" where
  "tty_lf = (\<lambda>(win, p). if p + 80 < 1920 then (win, p + 80) else (roll_up win, p))"

definition tty_write :: "u8 \<Rightarrow> u16 list \<times> nat \<Rightarrow> u16 list \<times> nat" where
  "tty_write ch s = (if ch = 13 then tty_cr s else if ch = 10 then tty_lf (tty_cr s) else tty_put ch s)"

lemma shift_up_eq:
  assumes "length v = n" and "w \<le> n"
  shows "shift_up (int w) (int n) v = Inr (drop w v @ drop (n - w) v)"
proof -
  have "w + k \<le> n \<Longrightarrow> forR (\<lambda>k v. bindR (rd v (int k)) (wr v (int k - int w))) [w..<w + k] v =
      Inr (take k (drop w v) @ drop k v)" for k
  proof (induction k)
    case (Suc k)
    let ?v = "take k (drop w v) @ drop k v"
    have l: "length ?v = n" using Suc.prems assms by simp
    have "?v ! (w + k) = v ! (w + k)" using Suc.prems assms by (simp add: nth_append add.commute)
    moreover have "nat (int w + int k) = w + k" by simp
    ultimately have "bindR (rd ?v (int (w + k))) (wr ?v (int (w + k) - int w)) = Inr (?v[k := v ! (w + k)])"
      using Suc.prems l by simp
    moreover have "?v[k := v ! (w + k)] = take (Suc k) (drop w v) @ drop (Suc k) v"
    proof -
      have "drop k v = v ! k # drop (Suc k) v" using Suc.prems assms by (simp add: Cons_nth_drop_Suc)
      moreover have "take (Suc k) (drop w v) = take k (drop w v) @ [v ! (w + k)]"
        using Suc.prems assms by (simp add: take_Suc_conv_app_nth)
      moreover have "length (take k (drop w v)) = k" using Suc.prems assms by simp
      ultimately show ?thesis by (simp add: list_update_append)
    qed
    ultimately show ?case using Suc by (simp add: forR_append)
  qed simp
  from this [of "n - w"] show ?thesis using assms by (simp add: shift_up_def)
qed

lemma blank_cells_eq:
  assumes "a + w \<le> length v"
  shows "blank_cells (int a) (int w) v = Inr (take a v @ replicate w blank @ drop (a + w) v)"
proof -
  have "a + k \<le> length v \<Longrightarrow> forR (\<lambda>k v. wr v (int a + int k) blank) [0..<k] v =
      Inr (take a v @ replicate k blank @ drop (a + k) v)" for k
  proof (induction k)
    case (Suc k)
    let ?v = "take a v @ replicate k blank @ drop (a + k) v"
    have "wr ?v (int a + int k) blank = Inr (?v[a + k := blank])" using Suc.prems by (simp add: wr_def nat_add_distrib)
    moreover have "?v[a + k := blank] = take a v @ replicate (Suc k) blank @ drop (a + Suc k) v"
      using Suc.prems by (auto simp: list_update_append min_def Cons_nth_drop_Suc [symmetric] replicate_append_same)
    ultimately show ?case using Suc by (simp add: forR_upt_Suc del: upt_Suc)
  qed simp
  from this [of w] show ?thesis using assms by (simp add: blank_cells_def)
qed

lemma scrup_ok:
  assumes "c_w c = 80" and "c_wh c = 1920" and "c_size c = 3840" and l: "length (vbuf c) = 3840"
    and "80 dvd scr c" and "0 \<le> scr c" and "scr c \<le> 1920"
  shows "\<exists>v s. scrup c = Inr (c\<lparr>vbuf := v, scr := s, c_pos := c_pos c - scr c + s - 80\<rparr>) \<and> length v = 3840 \<and>
    80 dvd s \<and> 80 \<le> s \<and> s \<le> 1920 \<and>
    take 1920 (drop (nat s) v) = roll_up (take 1920 (drop (nat (scr c)) (vbuf c)))"
proof (cases "scr c = 1920")
  case True
  let ?v1 = "drop 80 (vbuf c) @ drop 3760 (vbuf c)" and ?v = "drop 80 (vbuf c) @ replicate 80 blank"
  have s: "shift_up 80 3840 (vbuf c) = Inr ?v1" using shift_up_eq [of "vbuf c" 3840 80] l by simp
  have b: "blank_cells 3760 80 ?v1 = Inr ?v" using blank_cells_eq [of 3760 80 ?v1] l by simp
  have "scrup c = Inr (c\<lparr>vbuf := ?v, scr := 1920, c_pos := c_pos c - 80\<rparr>)"
    using assms True by (simp add: scrup_def s b)
  then show ?thesis using True l by (intro exI [of _ ?v] exI [of _ 1920]) (simp add: roll_up_def)
next
  case False
  then have lt: "scr c \<le> 1840" using assms(5,7) by presburger
  define a where "a = nat (scr c)"
  have a: "scr c = int a" "a \<le> 1840" using lt assms(6) by (simp_all add: a_def)
  let ?v = "take (a + 1920) (vbuf c) @ replicate 80 blank @ drop (a + 2000) (vbuf c)"
  have b: "blank_cells (int a + 1920) 80 (vbuf c) = Inr ?v"
    using blank_cells_eq [of "a + 1920" 80 "vbuf c"] l a by (simp add: add.commute)
  have sc: "scrup c = Inr (c\<lparr>vbuf := ?v, scr := int a + 80, c_pos := c_pos c - scr c + (int a + 80) - 80\<rparr>)"
    using assms a by (simp add: scrup_def b)
  have "nat (int a + 80) = a + 80" by simp
  moreover have "take 1920 (drop (a + 80) ?v) = roll_up (take 1920 (drop a (vbuf c)))"
    using l a(2) by (simp add: roll_up_def drop_take add.commute)
  ultimately show ?thesis using sc l a assms(5)
    by (intro exI [of _ ?v] exI [of _ "int a + 80"]) (auto simp: a_def [symmetric])
qed

lemma putc_ok:
  assumes "0 \<le> c_pos c" and "c_pos c < int (length (vbuf c))"
  shows "putc c ch = Inr (c\<lparr>vbuf := (vbuf c)[nat (c_pos c) := draw ch]\<rparr>)"
  using assms by (simp add: putc_def)

lemma window_update:
  "s \<le> p \<Longrightarrow> p < s + n \<Longrightarrow> s + n \<le> length v \<Longrightarrow> take n (drop s (v[p := x])) = (take n (drop s v))[p - s := x]"
  by (auto simp: list_eq_iff_nth_eq nth_list_update)

lemma screen_invD:
  assumes "screen_inv c"
  shows "c_w c = 80" "c_wh c = 1920" "c_size c = 3840" "length (vbuf c) = 3840"
    "80 dvd scr c" "0 \<le> scr c" "scr c \<le> 1920" "scr c \<le> c_pos c" "c_pos c < scr c + 1920"
    "nat (scr c) \<le> nat (c_pos c)" "nat (c_pos c) < nat (scr c) + 1920" "nat (scr c) + 1920 \<le> length (vbuf c)"
    "nat (c_pos c) - nat (scr c) = nat (c_pos c - scr c)"
  using assms by (auto simp: screen_inv_def)

text \<open>Nothing of a terminal but the screen is changed by output.\<close>

definition same_line :: "Console \<Rightarrow> Console \<Rightarrow> bool" where
  "same_line c c' \<longleftrightarrow> (\<exists>v s p. c' = c\<lparr>vbuf := v, scr := s, c_pos := p\<rparr>)"

lemma put_next_ok:
  assumes inv: "screen_inv c"
  shows "\<exists>c'. bindR (putc c ch) next_consl = Inr c' \<and> screen_inv c' \<and> screen_view c' = tty_put ch (screen_view c) \<and> same_line c c'"
proof -
  note d = screen_invD [OF inv]
  let ?c = "c\<lparr>vbuf := (vbuf c)[nat (c_pos c) := draw ch]\<rparr>"
  have p: "putc c ch = Inr ?c" using d by (intro putc_ok) auto
  have win: "take 1920 (drop (nat (scr c)) (vbuf ?c)) = (take 1920 (drop (nat (scr c)) (vbuf c)))[nat (c_pos c - scr c) := draw ch]"
    using window_update [OF d(10-12)] d(13) by simp
  show ?thesis
  proof (cases "c_pos c = scr c + 1919")
    case True
    obtain v s where sc: "scrup ?c = Inr (?c\<lparr>vbuf := v, scr := s, c_pos := c_pos ?c - scr ?c + s - 80\<rparr>)" "length v = 3840"
      "80 dvd s" "80 \<le> s" "s \<le> 1920" "take 1920 (drop (nat s) v) = roll_up (take 1920 (drop (nat (scr ?c)) (vbuf ?c)))"
      using scrup_ok [of ?c] d by auto
    let ?c' = "c\<lparr>vbuf := v, scr := s, c_pos := s + 1840\<rparr>"
    have "bindR (putc c ch) next_consl = Inr ?c'" using True d sc(1) by (simp add: p next_consl_def)
    moreover have "screen_inv ?c'" using inv sc by (simp add: screen_inv_def)
    moreover have "screen_view ?c' = tty_put ch (screen_view c)"
      using sc(6) win True by (simp add: screen_view_def tty_put_def)
    ultimately show ?thesis by (auto simp: same_line_def)
  next
    case False
    let ?c' = "?c\<lparr>c_pos := c_pos c + 1\<rparr>"
    have "bindR (putc c ch) next_consl = Inr ?c'" using False d by (simp add: p next_consl_def)
    moreover have "screen_inv ?c'" using inv False by (simp add: screen_inv_def)
    moreover have "screen_view ?c' = tty_put ch (screen_view c)"
      using win False d by (auto simp: screen_view_def tty_put_def nat_eq_iff)
    moreover have "?c' = c\<lparr>vbuf := vbuf ?c', scr := scr c, c_pos := c_pos c + 1\<rparr>" by simp
    ultimately show ?thesis unfolding same_line_def by blast
  qed
qed

lemma cr_ok:
  assumes inv: "screen_inv c"
  shows "screen_inv (cr c) \<and> screen_view (cr c) = tty_cr (screen_view c) \<and> same_line c (cr c)"
proof -
  note d = screen_invD [OF inv]
  have m: "cmod (c_pos c) 80 = c_pos c mod 80" using d by (intro cmod_nonneg) auto
  have "c_pos c mod 80 = (c_pos c - scr c) mod 80" using d(5) by (metis diff_zero dvd_imp_mod_0 mod_diff_right_eq)
  moreover have "nat (q - q mod 80) = nat q - nat q mod 80" if "0 \<le> q" for q :: int
    using that by (simp add: nat_diff_distrib nat_mod_distrib zmod_le_nonneg_dividend)
  ultimately have n: "nat (c_pos c - c_pos c mod 80 - scr c) = nat (c_pos c - scr c) - nat (c_pos c - scr c) mod 80"
    using d(8) by (metis diff_ge_0_iff_ge diff_right_commute)
  have "scr c \<le> c_pos c - c_pos c mod 80" using d(5,8) by presburger
  then have "screen_inv (cr c)" using inv m by (simp add: screen_inv_def cr_def) (use pos_mod_sign [of 80 "c_pos c"] in linarith)
  moreover have "screen_view (cr c) = tty_cr (screen_view c)" using m n d by (simp add: screen_view_def tty_cr_def cr_def)
  moreover have "cr c = c\<lparr>vbuf := vbuf c, scr := scr c, c_pos := c_pos (cr c)\<rparr>" by (simp add: cr_def)
  ultimately show ?thesis unfolding same_line_def by blast
qed

lemma lf_ok:
  assumes inv: "screen_inv c"
  shows "\<exists>c'. lf c = Inr c' \<and> screen_inv c' \<and> screen_view c' = tty_lf (screen_view c) \<and> same_line c c'"
proof -
  note d = screen_invD [OF inv]
  let ?c = "c\<lparr>c_pos := c_pos c + 80\<rparr>"
  show ?thesis
  proof (cases "c_pos c + 80 \<ge> scr c + 1920")
    case True
    obtain v s where sc: "scrup ?c = Inr (?c\<lparr>vbuf := v, scr := s, c_pos := c_pos ?c - scr ?c + s - 80\<rparr>)" "length v = 3840"
      "80 dvd s" "80 \<le> s" "s \<le> 1920" "take 1920 (drop (nat s) v) = roll_up (take 1920 (drop (nat (scr ?c)) (vbuf ?c)))"
      using scrup_ok [of ?c] d by auto
    let ?c' = "c\<lparr>vbuf := v, scr := s, c_pos := c_pos c - scr c + s\<rparr>"
    have "lf c = Inr ?c'" using True d sc(1) by (simp add: lf_def Let_def)
    moreover have "screen_inv ?c'" using inv sc by (simp add: screen_inv_def)
    moreover have "screen_view ?c' = tty_lf (screen_view c)"
      using sc(6) True d by (auto simp: screen_view_def tty_lf_def)
    ultimately show ?thesis by (auto simp: same_line_def)
  next
    case False
    have "lf c = Inr ?c" using False d by (simp add: lf_def Let_def)
    moreover have "screen_inv ?c" using inv False by (simp add: screen_inv_def)
    moreover have "screen_view ?c = tty_lf (screen_view c)"
    proof -
      have "nat (c_pos c + 80 - scr c) = nat (c_pos c - scr c) + 80" "nat (c_pos c - scr c) < 1840"
        using d(8) False by linarith+
      then show ?thesis using False d by (auto simp: screen_view_def tty_lf_def)
    qed
    moreover have "?c = c\<lparr>vbuf := vbuf c, scr := scr c, c_pos := c_pos c + 80\<rparr>" by simp
    ultimately show ?thesis unfolding same_line_def by blast
  qed
qed

lemma same_line_trans:
  assumes "same_line a b" and "same_line b c"
  shows "same_line a c"
proof -
  from assms obtain v s p v' s' p' where "b = a\<lparr>vbuf := v, scr := s, c_pos := p\<rparr>" "c = b\<lparr>vbuf := v', scr := s', c_pos := p'\<rparr>"
    unfolding same_line_def by blast
  then have "c = a\<lparr>vbuf := v', scr := s', c_pos := p'\<rparr>" by simp
  then show ?thesis unfolding same_line_def by blast
qed

lemma crlf_ok:
  assumes inv: "screen_inv c"
  shows "\<exists>c'. lf (cr c) = Inr c' \<and> screen_inv c' \<and> screen_view c' = tty_lf (tty_cr (screen_view c)) \<and> same_line c c'"
proof -
  note r = cr_ok [OF inv]
  obtain c' where c': "lf (cr c) = Inr c'" "screen_inv c'" "screen_view c' = tty_lf (screen_view (cr c))" "same_line (cr c) c'"
    using lf_ok [of "cr c"] r by blast
  then show ?thesis using r same_line_trans [of c "cr c" c'] by auto
qed

lemma consl_writec_ok:
  assumes inv: "screen_inv c"
  shows "\<exists>c'. consl_writec c ch = Inr c' \<and> screen_inv c' \<and> screen_view c' = tty_write ch (screen_view c) \<and> same_line c c'"
  using crlf_ok [OF inv] put_next_ok [OF inv, of ch] cr_ok [OF inv] by (auto simp: consl_writec_def tty_write_def)

section \<open>The line editor as two lists\<close>

text \<open>The characters before and from the cursor; the line ends at its first zero.\<close>

definition line_rep :: "Console \<Rightarrow> u8 list \<Rightarrow> u8 list \<Rightarrow> bool" where
  "line_rep c L R \<longleftrightarrow> length (lbuf c) = 257 \<and> c_i c = int (length L) \<and> 0 \<notin> set L \<and> 0 \<notin> set R \<and>
     (\<exists>rest. lbuf c = L @ R @ 0 # rest)"

lemma line_repE:
  assumes "line_rep c L R"
  obtains rest where "lbuf c = L @ R @ 0 # rest" "length (lbuf c) = 257" "c_i c = int (length L)" "0 \<notin> set L" "0 \<notin> set R"
  using assms by (auto simp: line_rep_def)

lemma nat_int_plus [simp]: "nat (int a + int b) = a + b"
  by simp

lemma rest_length_eq:
  assumes "l = L @ R @ 0 # rest" and "0 \<notin> set R" and "k \<le> length R"
  shows "rest_length l (int (length L)) (int k) = Inr (int (length R))"
  using assms(3)
proof (induction "length R - k" arbitrary: k)
  case 0
  then have "k = length R" by simp
  then show ?case using assms(1) by (subst rest_length.simps) simp
next
  case (Suc n)
  then have k: "k < length R" by simp
  then have "R ! k \<noteq> 0" using assms(2) by (metis nth_mem)
  then have "l ! (length L + k) \<noteq> 0" using assms(1) k by (simp add: nth_append)
  moreover have "rest_length l (int (length L)) (int k + 1) = Inr (int (length R))"
    using Suc.hyps(1) [of "Suc k"] Suc.hyps(2) k by (simp add: add.commute)
  ultimately show ?case using k assms(1) by (subst rest_length.simps) simp
qed

text \<open>A range of cells moved up by one place.\<close>

definition moved_up :: "nat \<Rightarrow> nat \<Rightarrow> 'b list \<Rightarrow> 'b list" where
  "moved_up a n v = take (Suc a) v @ take n (drop a v) @ drop (a + n + 1) v"

lemma moved_up_step:
  assumes "a + n + 1 < length v"
  shows "moved_up a n (v[a + n + 1 := v ! (a + n)]) = moved_up a (Suc n) v"
proof -
  have "take n (drop a (v[a + n + 1 := v ! (a + n)])) = take n (drop a v)"
    by (auto simp: list_eq_iff_nth_eq)
  moreover have "take (Suc a) (v[a + n + 1 := v ! (a + n)]) = take (Suc a) v" if "n \<noteq> 0" using that by simp
  moreover have "drop (a + n + 1) (v[a + n + 1 := v ! (a + n)]) = v ! (a + n) # drop (a + n + 2) v"
    using assms by (simp add: drop_update_swap flip: Cons_nth_drop_Suc)
  moreover have "take (Suc n) (drop a v) = take n (drop a v) @ [v ! (a + n)]"
    using assms by (simp add: take_Suc_conv_app_nth)
  ultimately show ?thesis by (simp add: moved_up_def)
qed

lemma moved_up_0: "a < length v \<Longrightarrow> moved_up a 0 v = v"
  by (simp add: moved_up_def)

lemma length_moved_up: "a + n < length v \<Longrightarrow> length (moved_up a n v) = length v"
  by (simp add: moved_up_def)

lemma make_room_loop:
  assumes "c_i c = int a" and "c_pos c = int p" and "a + n < 256" and "length (lbuf c) = 257"
    and "p + n < length (vbuf c)" and "int (p + n) < scr c + c_wh c + 1"
  shows "forR make_room (rev [1..<Suc n]) c = Inr (c\<lparr>lbuf := moved_up a n (lbuf c), vbuf := moved_up p n (vbuf c)\<rparr>)"
  using assms
proof (induction n arbitrary: c)
  case 0
  then show ?case by (simp add: moved_up_0)
next
  case (Suc n)
  let ?c = "c\<lparr>lbuf := (lbuf c)[a + n + 1 := lbuf c ! (a + n)], vbuf := (vbuf c)[p + n + 1 := vbuf c ! (p + n)]\<rparr>"
  have idx: "nat (int a + int (Suc n)) = a + n + 1" "nat (int a + int (Suc n) - 1) = a + n"
    "nat (int p + int (Suc n)) = p + n + 1" "nat (int p + int (Suc n) - 1) = p + n" by simp_all
  have "make_room (Suc n) c = Inr ?c"
    using Suc.prems idx by (simp add: make_room_def LBUF_SZ_def Let_def)
  moreover have "forR make_room (rev [1..<Suc n]) ?c =
      Inr (?c\<lparr>lbuf := moved_up a n (lbuf ?c), vbuf := moved_up p n (vbuf ?c)\<rparr>)"
    using Suc.prems by (intro Suc.IH) auto
  moreover have "rev [1..<Suc (Suc n)] = Suc n # rev [1..<Suc n]" by simp
  ultimately show ?case
    using Suc.prems by (simp add: moved_up_step del: upt_Suc) (simp add: moved_up_step [simplified])
qed

lemma moved_up_split: "length L = a \<Longrightarrow> n = Suc (length R) \<Longrightarrow> moved_up a n (L @ R @ x # y # rest) = L @ hd (R @ [x]) # R @ x # rest"
  by (cases R) (simp_all add: moved_up_def eval_nat_numeral)

text \<open>
  Inserting a character with room on the page: the line gets it at the cursor, and so does the
  screen, whose cells up to the end of the line move on by one.
\<close>

lemma accept_char_ok:
  assumes line: "line_rep c L R" and inv: "screen_inv c" and room: "length L + length R < 255"
    and page: "c_pos c + int (length R) + 1 < scr c + 1920"
  shows "\<exists>c'. accept_char c ch = Inr c' \<and> (ch \<noteq> 0 \<longrightarrow> line_rep c' (L @ [ch]) R) \<and> screen_inv c' \<and>
    c_pos c' = c_pos c + 1 \<and> scr c' = scr c \<and>
    vbuf c' = (moved_up (nat (c_pos c)) (Suc (length R)) (vbuf c))[nat (c_pos c) := draw ch]"
proof -
  obtain rest where l: "lbuf c = L @ R @ 0 # rest" "length (lbuf c) = 257" "c_i c = int (length L)" "0 \<notin> set L" "0 \<notin> set R"
    using line by (rule line_repE)
  from l(1,2) room obtain y rest' where rest: "rest = y # rest'" by (cases rest) auto
  note d = screen_invD [OF inv]
  let ?p = "nat (c_pos c)" and ?n = "Suc (length R)"
  have p: "c_pos c = int ?p" using d by simp
  let ?l = "moved_up (length L) ?n (lbuf c)" and ?v = "moved_up ?p ?n (vbuf c)"
  have b: "?p + length R + 1 < 3840" using page d(6-8) by linarith
  have lv: "length ?v = 3840" using b d(4) by (subst length_moved_up) auto
  have "forR make_room (rev [1..<Suc ?n]) c = Inr (c\<lparr>lbuf := ?l, vbuf := ?v\<rparr>)"
    using b page d(2,4,6,8) room l(2) by (intro make_room_loop [OF l(3) p]) auto
  moreover have "rest_length (lbuf c) (c_i c) 0 = Inr (int (length R))"
    using rest_length_eq [OF l(1,5), of 0] by (simp add: l(3))
  moreover have "nat (int (length R) + 1) = ?n" by simp
  moreover have "putc (c\<lparr>lbuf := ?l, vbuf := ?v\<rparr>) ch = Inr (c\<lparr>lbuf := ?l, vbuf := ?v[?p := draw ch]\<rparr>)"
    using putc_ok [of "c\<lparr>lbuf := ?l, vbuf := ?v\<rparr>"] d lv by simp
  moreover have ml: "?l = L @ hd (R @ [0]) # R @ 0 # rest'"
    using moved_up_split [of L "length L" ?n R 0 y rest'] l(1) rest by simp
  ultimately have "accept_char c ch = Inr (c\<lparr>lbuf := L @ ch # R @ 0 # rest', vbuf := ?v[?p := draw ch],
      c_pos := c_pos c + 1, c_i := c_i c + 1\<rparr>)" (is "_ = Inr ?c'")
    using page d room l(3) by (simp add: accept_char_def next_consl_def LBUF_SZ_def list_update_append del: upt_Suc)
  moreover have "ch \<noteq> 0 \<longrightarrow> line_rep ?c' (L @ [ch]) R" using l rest by (auto simp: line_rep_def)
  moreover have "screen_inv ?c'" using inv lv page by (simp add: screen_inv_def)
  ultimately show ?thesis by auto
qed

lemma movl_ok:
  assumes "line_rep c L R"
  shows "movl c = (if L = [] then (False, c) else (True, c\<lparr>c_i := c_i c - 1, c_pos := c_pos c - 1\<rparr>)) \<and>
    (L \<noteq> [] \<longrightarrow> line_rep (snd (movl c)) (butlast L) (last L # R))"
proof -
  obtain rest where l: "lbuf c = L @ R @ 0 # rest" "length (lbuf c) = 257" "c_i c = int (length L)" "0 \<notin> set L" "0 \<notin> set R"
    using assms by (rule line_repE)
  show ?thesis
  proof (cases L rule: rev_exhaust)
    case Nil
    then show ?thesis using l(3) by (simp add: movl_def)
  next
    case (snoc ys y)
    then show ?thesis using l by (auto simp: movl_def line_rep_def)
  qed
qed

lemma movr_ok:
  assumes "line_rep c L R"
  shows "\<exists>c'. movr c = Inr (R \<noteq> [], c') \<and>
    (if R = [] then c' = c
     else c' = c\<lparr>c_i := c_i c + 1, c_pos := c_pos c + 1\<rparr> \<and> line_rep c' (L @ [hd R]) (tl R))"
proof -
  obtain rest where l: "lbuf c = L @ R @ 0 # rest" "length (lbuf c) = 257" "c_i c = int (length L)" "0 \<notin> set L" "0 \<notin> set R"
    using assms by (rule line_repE)
  show ?thesis
  proof (cases R)
    case Nil
    then show ?thesis using l by (simp add: movr_def nth_append)
  next
    case (Cons y ys)
    then show ?thesis using l by (auto simp: movr_def line_rep_def nth_append)
  qed
qed

text \<open>\<open>K_HOME\<close> and \<open>K_END\<close> end at the ends of the line.\<close>

lemma home_ok: "line_rep c L R \<Longrightarrow> \<exists>c'. home c = Some c' \<and> line_rep c' [] (L @ R)"
proof (induction L arbitrary: c R rule: rev_induct)
  case Nil
  then show ?case using movl_ok [OF Nil] by (subst home.simps) simp
next
  case (snoc x L)
  then obtain c' where "movl c = (True, c')" "line_rep c' L (x # R)" using movl_ok [OF snoc.prems] by (cases "movl c") auto
  then show ?case using snoc.IH [of c' "x # R"] by (subst home.simps) simp
qed

lemma to_end_ok: "line_rep c L R \<Longrightarrow> \<exists>c'. to_end c = Inr c' \<and> line_rep c' (L @ R) []"
proof (induction R arbitrary: c L)
  case Nil
  then show ?case using movr_ok [OF Nil] by (subst to_end.simps) auto
next
  case (Cons x R)
  then obtain c' where "movr c = Inr (True, c')" "line_rep c' (L @ [x]) R" using movr_ok [OF Cons.prems] by auto
  then show ?case using Cons.IH [of c' "L @ [x]"] by (subst to_end.simps) simp
qed

lemma close_gap_ok:
  assumes "l = L @ x # R @ 0 # rest" and "x \<noteq> 0" and "0 \<notin> set R" and "0 \<le> sp" and "sp + int (length R) + 1 < int (length v)"
  shows "\<exists>v'. close_gap (int (length L)) sp l v = Inr (L @ R @ 0 # 0 # rest, v') \<and> length v' = length v"
  using assms
proof (induction R arbitrary: L x l sp v)
  case Nil
  let ?v = "v[nat sp := v ! nat (sp + 1)]"
  have "close_gap (int (length L)) sp l v = close_gap (int (length L) + 1) (sp + 1) (L @ 0 # 0 # rest) ?v"
    using Nil by (subst close_gap.simps) (simp add: nth_append list_update_append nat_add_distrib)
  also have "\<dots> = Inr (L @ 0 # 0 # rest, ?v)"
    by (subst close_gap.simps) (simp add: nth_append nat_add_distrib)
  finally show ?case by simp
next
  case (Cons y R)
  let ?l = "(L @ [y]) @ y # R @ 0 # rest" and ?v = "v[nat sp := v ! nat (sp + 1)]"
  have "close_gap (int (length L)) sp l v = close_gap (int (length (L @ [y]))) (sp + 1) ?l ?v"
    using Cons.prems by (subst close_gap.simps) (simp add: nth_append list_update_append add.commute nat_add_distrib)
  moreover obtain v' where "close_gap (int (length (L @ [y]))) (sp + 1) ?l ?v = Inr ((L @ [y]) @ R @ 0 # 0 # rest, v')"
    "length v' = length ?v"
    using Cons.IH [OF refl, of y "sp + 1" ?v "L @ [y]"] Cons.prems by auto
  ultimately show ?case by simp
qed

lemma backsp_ok:
  assumes line: "line_rep c L R" and len: "length (vbuf c) = 3840" and "1 \<le> c_pos c" and "c_pos c + int (length R) < 3840"
  shows "\<exists>c'. backsp c = Inr c' \<and> length (vbuf c') = 3840 \<and>
    (if L = [] then c' = c else line_rep c' (butlast L) R \<and> c_pos c' = c_pos c - 1)"
proof (cases L rule: rev_exhaust)
  case Nil
  then show ?thesis using line len by (auto simp: backsp_def line_rep_def)
next
  case (snoc ys y)
  obtain rest where l: "lbuf c = L @ R @ 0 # rest" "length (lbuf c) = 257" "c_i c = int (length L)" "0 \<notin> set L" "0 \<notin> set R"
    using line by (rule line_repE)
  have lb: "lbuf c = ys @ y # R @ 0 # rest" using l(1) snoc by simp
  obtain v' where v': "close_gap (int (length ys)) (c_pos c - 1) (lbuf c) (vbuf c) = Inr (ys @ R @ 0 # 0 # rest, v')"
    "length v' = length (vbuf c)"
    using close_gap_ok [OF lb, of "c_pos c - 1" "vbuf c"] l snoc assms by auto
  let ?c = "c\<lparr>c_i := int (length ys), lbuf := ys @ R @ 0 # 0 # rest, vbuf := v'\<rparr>"
  have r: "removec c = Inr ?c" using v'(1) l(3) snoc by (simp add: removec_def Let_def)
  have "length (ys @ R @ 0 # 0 # rest) = 257" "0 \<notin> set ys" using l snoc by auto
  then show ?thesis using r l(3,5) snoc assms(2-) v'(2)
    by (cases R) (auto simp: backsp_def del_def Let_def putc_def nth_append line_rep_def)
qed

section \<open>Cooked lines as a queue\<close>

definition ring_rep :: "Console \<Rightarrow> u8 list \<Rightarrow> bool" where
  "ring_rep c q \<longleftrightarrow> length (cbuf c) = 1025 \<and> length q < 1024 \<and>
     (\<exists>k<1024. c_f c = int k \<and> c_r c = int ((k + length q) mod 1024) \<and>
        (\<forall>j<length q. cbuf c ! ((k + j) mod 1024) = q ! j))"

lemma ring_index_inj:
  assumes "i < 1024" and "j < 1024" and "(k + i) mod 1024 = (k + j) mod (1024 :: nat)"
  shows "i = j"
proof -
  have "(int k + int i) mod 1024 = (int k + int j) mod 1024"
    using assms(3) by (metis of_nat_add of_nat_mod of_nat_numeral)
  then have "1024 dvd int i - int j" by (simp add: mod_eq_dvd_iff)
  then obtain t where "int i - int j = 1024 * t" by (auto elim: dvdE)
  moreover from this have "- 1 < t" "t < 1" using assms(1,2) by linarith+
  ultimately show ?thesis by simp
qed

lemma cmod_ring: "cmod (int n + 1) CBUF_SZ = int (Suc n mod 1024)"
  by (simp add: CBUF_SZ_def cmod_nonneg zmod_int add.commute)

lemma ring_push:
  assumes "ring_rep c q"
  shows "0 \<le> c_r c \<and> c_r c < 1024 \<and>
    (if length q < 1023
     then cmod (c_r c + 1) CBUF_SZ \<noteq> c_f c \<and>
       ring_rep (c\<lparr>cbuf := (cbuf c)[nat (c_r c) := ch], c_r := cmod (c_r c + 1) CBUF_SZ\<rparr>) (q @ [ch])
     else cmod (c_r c + 1) CBUF_SZ = c_f c)"
proof -
  obtain k where k: "k < 1024" "c_f c = int k" "c_r c = int ((k + length q) mod 1024)" "length (cbuf c) = 1025" "length q < 1024"
    "\<And>j. j < length q \<Longrightarrow> cbuf c ! ((k + j) mod 1024) = q ! j" using assms by (auto simp: ring_rep_def)
  have r: "cmod (c_r c + 1) CBUF_SZ = int ((k + Suc (length q)) mod 1024)"
    by (simp only: k(3) cmod_ring mod_Suc_eq add_Suc_right)
  show ?thesis
  proof (cases "length q < 1023")
    case True
    have ne: "(k + Suc (length q)) mod 1024 \<noteq> k"
      using ring_index_inj [of "Suc (length q)" 0 k] True k(1) by auto
    have "(cbuf c)[(k + length q) mod 1024 := ch] ! ((k + j) mod 1024) = (q @ [ch]) ! j" if "j < Suc (length q)" for j
    proof (cases "j = length q")
      case True
      then show ?thesis using k(4) by (simp add: less_trans [of _ 1024])
    next
      case False
      then have "(k + j) mod 1024 \<noteq> (k + length q) mod 1024" using ring_index_inj [of j "length q" k] that k(5) by auto
      then show ?thesis using False that k(6) by (simp add: nth_append)
    qed
    then have "ring_rep (c\<lparr>cbuf := (cbuf c)[nat (c_r c) := ch], c_r := cmod (c_r c + 1) CBUF_SZ\<rparr>) (q @ [ch])"
      using True k unfolding ring_rep_def r by (auto intro!: exI [of _ k])
    then show ?thesis using True ne k r by simp
  next
    case False
    then have "length q = 1023" using k(5) by simp
    then have "(k + Suc (length q)) mod 1024 = k" using k(1) by simp
    then show ?thesis using False k r by simp
  qed
qed

lemma ring_pop:
  assumes "ring_rep c (x # q)"
  shows "0 \<le> c_f c" "c_f c < 1024" "cbuf c ! nat (c_f c) = x" "c_f c \<noteq> c_r c"
    "ring_rep (c\<lparr>c_f := cmod (c_f c + 1) CBUF_SZ\<rparr>) q"
proof -
  obtain k where k: "k < 1024" "c_f c = int k" "c_r c = int ((k + Suc (length q)) mod 1024)" "length (cbuf c) = 1025"
    "Suc (length q) < 1024" "\<And>j. j < Suc (length q) \<Longrightarrow> cbuf c ! ((k + j) mod 1024) = (x # q) ! j"
    using assms by (auto simp: ring_rep_def)
  show "0 \<le> c_f c" "c_f c < 1024" "cbuf c ! nat (c_f c) = x" using k(1,2) k(6) [of 0] by simp_all
  have "(k + Suc (length q)) mod 1024 \<noteq> k" using ring_index_inj [of "Suc (length q)" 0 k] k(1,5) by auto
  then show "c_f c \<noteq> c_r c" using k(2,3) by simp
  have "cbuf c ! ((Suc k mod 1024 + j) mod 1024) = q ! j" if "j < length q" for j
    using k(6) [of "Suc j"] that by (simp add: mod_add_left_eq)
  moreover have "(k + Suc (length q)) mod 1024 = (Suc k mod 1024 + length q) mod 1024" by (simp add: mod_add_left_eq)
  ultimately show "ring_rep (c\<lparr>c_f := cmod (c_f c + 1) CBUF_SZ\<rparr>) q"
    unfolding ring_rep_def k(2) cmod_ring using k(3-5) by (auto intro!: exI [of _ "Suc k mod 1024"])
qed

lemma cook_from_ok:
  assumes "ring_rep c q" and "lbuf c = P @ S @ 0 # rest" and "0 \<notin> set S" and "length q + length S + 1 < 1024"
  shows "\<exists>b r. cook_from (int (length P)) c = Inr (c\<lparr>cbuf := b, c_r := r\<rparr>) \<and> ring_rep (c\<lparr>cbuf := b, c_r := r\<rparr>) (q @ S @ [0])"
  using assms
proof (induction S arbitrary: P c q)
  case Nil
  let ?b = "(cbuf c)[nat (c_r c) := 0]" and ?r = "cmod (c_r c + 1) CBUF_SZ"
  have p: "0 \<le> c_r c" "c_r c < 1024" "?r \<noteq> c_f c" "ring_rep (c\<lparr>cbuf := ?b, c_r := ?r\<rparr>) (q @ [0])" "length (cbuf c) = 1025"
    using ring_push [OF Nil.prems(1), of 0] Nil.prems by (auto simp: ring_rep_def)
  have "cook_from (int (length P)) c = Inr (c\<lparr>cbuf := ?b, c_r := ?r\<rparr>)"
    using p Nil.prems by (subst cook_from.simps) (simp add: Let_def)
  then show ?case using p(4) by auto
next
  case (Cons x S)
  let ?c = "c\<lparr>cbuf := (cbuf c)[nat (c_r c) := x], c_r := cmod (c_r c + 1) CBUF_SZ\<rparr>"
  have p: "0 \<le> c_r c" "c_r c < 1024" "cmod (c_r c + 1) CBUF_SZ \<noteq> c_f c" "ring_rep ?c (q @ [x])" "length (cbuf c) = 1025"
    using ring_push [OF Cons.prems(1), of x] Cons.prems by (auto simp: ring_rep_def)
  have "cook_from (int (length P)) c = cook_from (int (length (P @ [x]))) ?c"
    using p Cons.prems by (subst cook_from.simps) (simp add: Let_def nth_append add.commute)
  moreover obtain b r where "cook_from (int (length (P @ [x]))) ?c = Inr (?c\<lparr>cbuf := b, c_r := r\<rparr>)"
    "ring_rep (?c\<lparr>cbuf := b, c_r := r\<rparr>) ((q @ [x]) @ S @ [0])"
    using Cons.IH [OF p(4), of "P @ [x]"] Cons.prems by auto
  ultimately show ?case by auto
qed

lemma get_cooked_loop_ok:
  assumes "ring_rep c (S @ 0 # q)" and "0 \<notin> set S"
  shows "\<exists>f. get_cooked_loop count b n (c, m) = Inr (n + length (take count S), c\<lparr>c_f := f\<rparr>, store_bytes b (take count S) m) \<and>
    ring_rep (c\<lparr>c_f := f\<rparr>) (if length S < count then q else drop count S @ 0 # q)"
  using assms
proof (induction count arbitrary: S c b n m)
  case 0
  have "c = c\<lparr>c_f := c_f c\<rparr>" by simp
  with 0 show ?case by (intro exI [of _ "c_f c"]) simp
next
  case (Suc count)
  have l: "length (cbuf c) = 1025" using Suc.prems by (simp add: ring_rep_def)
  show ?case
  proof (cases S)
    case Nil
    then show ?thesis using ring_pop [of c 0 q] Suc.prems l
      by (intro exI [of _ "cmod (c_f c + 1) CBUF_SZ"]) (simp add: Let_def)
  next
    case (Cons x S')
    let ?c = "c\<lparr>c_f := cmod (c_f c + 1) CBUF_SZ\<rparr>"
    have p: "0 \<le> c_f c" "c_f c < 1024" "cbuf c ! nat (c_f c) = x" "ring_rep ?c (S' @ 0 # q)"
      using ring_pop [of c x "S' @ 0 # q"] Suc.prems Cons by auto
    from Suc.IH [OF p(4), of "b + 1" "Suc n" "m(b := x)"] Suc.prems(2) Cons obtain f where
      "get_cooked_loop count (b + 1) (Suc n) (?c, m(b := x)) =
        Inr (Suc n + length (take count S'), ?c\<lparr>c_f := f\<rparr>, store_bytes (b + 1) (take count S') (m(b := x)))"
      "ring_rep (?c\<lparr>c_f := f\<rparr>) (if length S' < count then q else drop count S' @ 0 # q)" by (auto simp del: fun_upd_apply)
    then show ?thesis using p l Cons Suc.prems(2) by (intro exI [of _ f]) (simp add: Let_def del: fun_upd_apply split: if_splits)
  qed
qed

lemma consl_output_ok:
  assumes "screen_inv c"
  shows "\<exists>c'. forR (\<lambda>ch c. consl_writec c ch) chs c = Inr c' \<and> screen_inv c' \<and>
    screen_view c' = fold tty_write chs (screen_view c) \<and> same_line c c'"
  using assms
proof (induction chs arbitrary: c)
  case Nil
  have "c = c\<lparr>vbuf := vbuf c, scr := scr c, c_pos := c_pos c\<rparr>" by simp
  then have "same_line c c" unfolding same_line_def by blast
  with Nil show ?case by simp
next
  case (Cons ch chs)
  obtain c1 where c1: "consl_writec c ch = Inr c1" "screen_inv c1" "screen_view c1 = tty_write ch (screen_view c)" "same_line c c1"
    using consl_writec_ok [OF Cons.prems] by blast
  from Cons.IH [OF c1(2)] obtain c' where "forR (\<lambda>ch c. consl_writec c ch) chs c1 = Inr c'" "screen_inv c'"
    "screen_view c' = fold tty_write chs (screen_view c1)" "same_line c1 c'" by blast
  with c1 same_line_trans [OF c1(4)] show ?case by (intro exI [of _ c']) simp
qed

lemma init_consl_ok:
  assumes "length area = 3840" and "length (lbuf c) = 257" and "length (cbuf c) = 1025"
  shows "\<exists>c'. init_consl name area c = Inr c' \<and> screen_inv c' \<and> screen_view c' = (replicate 1920 blank, 0) \<and>
    line_rep c' [] [] \<and> ring_rep c' [] \<and> c_name c' = name \<and> rtop c' = 0 \<and> rstk c' = rstk c"
proof -
  have b: "blank_cells 0 1920 area = Inr (replicate 1920 blank @ drop 1920 area)"
    using blank_cells_eq [of 0 1920 area] assms(1) by simp
  obtain x xs where l: "lbuf c = x # xs" using assms(2) by (cases "lbuf c") auto
  have "init_consl name area c = Inr (c\<lparr>c_name := name, vbuf := replicate 1920 blank @ drop 1920 area, scr := 0, c_size := 3840,
      c_pos := 0, c_w := 80, c_h := 24, c_wh := 1920, lbuf := 0 # xs, c_i := 0, c_r := 0, c_f := 0, rtop := 0\<rparr>)"
    (is "_ = Inr ?c")
    using l b by (simp add: init_consl_def Let_def SCR_W_def SCR_H_def wr_def)
  moreover have "screen_inv ?c" "screen_view ?c = (replicate 1920 blank, 0)" "line_rep ?c [] []" "ring_rep ?c []"
    using assms l by (simp_all add: screen_inv_def screen_view_def line_rep_def ring_rep_def)
  ultimately show ?thesis by simp
qed

text \<open>A terminal whose fields are zero, as the loader leaves it.\<close>

definition bss_console :: Console where
  "bss_console = \<lparr>c_name = [], vbuf = [], scr = 0, c_w = 0, c_h = 0, c_wh = 0, c_size = 0, c_pos = 0,
     lbuf = replicate 257 0, cbuf = replicate 1025 0, c_i = 0, c_f = 0, c_r = 0, rtop = 0, rstk = []\<rparr>"

lemma bss_console_starts:
  obtains c where "init_consl ''tty1'' (replicate 3840 0) bss_console = Inr c" "screen_inv c"
    "screen_view c = (replicate 1920 blank, 0)" "line_rep c [] []" "ring_rep c []"
  using init_consl_ok [of "replicate 3840 0" bss_console "''tty1''"] by (auto simp: bss_console_def)

text \<open>A queue of lines in the ring, each with its zero.\<close>

definition lines_rep :: "Console \<Rightarrow> u8 list list \<Rightarrow> bool" where
  "lines_rep c ls \<longleftrightarrow> ring_rep c (concat (map (\<lambda>l. l @ [0]) ls)) \<and> (\<forall>l\<in>set ls. 0 \<notin> set l)"

lemma cook_line_ok:
  assumes lines: "lines_rep c ls" and line: "line_rep c L R" and inv: "screen_inv c"
    and room: "length (concat (map (\<lambda>l. l @ [0]) ls)) + length (L @ R) + 1 < 1024"
  shows "\<exists>c'. cook_line c = Inr c' \<and> lines_rep c' (ls @ [L @ R]) \<and> line_rep c' [] [] \<and> screen_inv c' \<and>
    screen_view c' = tty_lf (tty_cr (screen_view c)) \<and> rtop c' = rtop c \<and> rstk c' = rstk c"
proof -
  obtain rest where l: "lbuf c = L @ R @ 0 # rest" "length (lbuf c) = 257" "c_i c = int (length L)" "0 \<notin> set L" "0 \<notin> set R"
    using line by (rule line_repE)
  let ?q = "concat (map (\<lambda>l. l @ [0]) ls)"
  have q: "ring_rep c ?q" "\<forall>l\<in>set ls. 0 \<notin> set l" using lines by (auto simp: lines_rep_def)
  obtain b r where c1: "cook_from 0 c = Inr (c\<lparr>cbuf := b, c_r := r\<rparr>)" "ring_rep (c\<lparr>cbuf := b, c_r := r\<rparr>) (?q @ (L @ R) @ [0])"
    using cook_from_ok [OF q(1), of "[]" "L @ R" rest] l room by auto
  obtain x xs where lb: "lbuf c = x # xs" using l(2) by (cases "lbuf c") auto
  let ?c = "c\<lparr>cbuf := b, c_r := r, c_i := 0, lbuf := 0 # xs\<rparr>"
  have inv1: "screen_inv ?c" "screen_view ?c = screen_view c" using inv by (simp_all add: screen_inv_def screen_view_def)
  obtain c' where c': "lf (cr ?c) = Inr c'" "screen_inv c'" "screen_view c' = tty_lf (tty_cr (screen_view c))" "same_line ?c c'"
    using crlf_ok [OF inv1(1)] unfolding inv1(2) by blast
  have "cook_line c = Inr c'" using c1(1) c'(1) lb by (simp add: cook_line_def Let_def wr_def)
  moreover have "line_rep c' [] []" "rtop c' = rtop c" "rstk c' = rstk c" using c'(4) l(2) lb by (auto simp: same_line_def line_rep_def)
  moreover have "ring_rep c' (?q @ (L @ R) @ [0])" using c'(4) c1(2) by (auto simp: same_line_def ring_rep_def)
  ultimately show ?thesis using c'(2,3) q(2) l(4,5) by (auto simp: lines_rep_def)
qed

lemma get_line_ok:
  assumes "lines_rep c (l # ls)" and "length l < unat count"
  shows "c_f c \<noteq> c_r c \<and> (\<exists>c'. get_cooked c b count m = Inr (length l, c', store_bytes b l m) \<and> lines_rep c' ls \<and> (\<exists>f. c' = c\<lparr>c_f := f\<rparr>))"
proof -
  have r: "ring_rep c (l @ 0 # concat (map (\<lambda>l. l @ [0]) ls))" "0 \<notin> set l" "\<forall>l\<in>set ls. 0 \<notin> set l"
    using assms by (auto simp: lines_rep_def)
  from get_cooked_loop_ok [OF r(1,2), of "unat count" b 0 m] assms(2) obtain f where
    "get_cooked_loop (unat count) b 0 (c, m) = Inr (length l, c\<lparr>c_f := f\<rparr>, store_bytes b l m)"
    "ring_rep (c\<lparr>c_f := f\<rparr>) (concat (map (\<lambda>l. l @ [0]) ls))" by auto
  moreover have "c_f c \<noteq> c_r c"
    using ring_pop(4) [of c "hd (l @ [0])" "tl (l @ 0 # concat (map (\<lambda>l. l @ [0]) ls))"] r(1) by (cases l) auto
  ultimately show ?thesis using r(3) by (auto simp: get_cooked_def lines_rep_def)
qed

section \<open>Properties\<close>

text \<open>
  C14: output to a terminal.  Writing any sequence of characters never leaves the screen
  memory, keeps its invariant, and shows what an ideal terminal of 24 lines of 80 cells shows
  that moves all lines up at the bottom; the scrolling window over two pages cannot be
  observed.  The line being typed is not touched.
\<close>

theorem consl_output_refines:
  assumes "screen_inv c"
  shows "\<exists>c'. forR (\<lambda>ch c. consl_writec c ch) chs c = Inr c' \<and> screen_inv c' \<and>
    screen_view c' = fold tty_write chs (screen_view c) \<and> same_line c c'"
  using assms by (rule consl_output_ok)

theorem consl_output_refines_witness:
  "\<exists>c c'. init_consl ''tty1'' (replicate 3840 0) bss_console = Inr c \<and>
     forR (\<lambda>ch c. consl_writec c ch) [65, 13, 66] c = Inr c' \<and>
     screen_view c' = (draw 66 # replicate 1919 blank, 1)"
proof (rule bss_console_starts)
  fix c assume c: "init_consl ''tty1'' (replicate 3840 0) bss_console = Inr c" "screen_inv c"
    "screen_view c = (replicate 1920 blank, 0)"
  from consl_output_refines [OF c(2), of "[65, 13, 66]"] obtain c' where
    c': "forR (\<lambda>ch c. consl_writec c ch) [65, 13, 66] c = Inr c'" "screen_view c' = fold tty_write [65, 13, 66] (screen_view c)" by blast
  have "replicate 1920 blank = blank # replicate 1919 blank" by (simp flip: replicate_Suc)
  then have "fold tty_write [65, 13, 66] (screen_view c) = (draw 66 # replicate 1919 blank, 1)"
    by (simp add: c(3) tty_write_def tty_put_def tty_cr_def)
  with c c' show ?thesis by (intro exI [of _ c] exI [of _ c']) simp
qed

text \<open>
  C32: the line editor.  With the line as the characters before and from the cursor, typing
  inserts before the cursor, backspace removes the character before it, the arrow keys move
  one character across it, Home and End move them all, and each operation returns.  (Typing
  needs room in the line, and room for the line on the page.)
\<close>

theorem line_editor_refines:
  assumes "line_rep c L R" and "screen_inv c" and "1 \<le> c_pos c" and "c_pos c + int (length R) + 1 < scr c + 1920"
  shows "(length L + length R < 255 \<and> ch \<noteq> 0 \<longrightarrow> (\<exists>c'. accept_char c ch = Inr c' \<and> line_rep c' (L @ [ch]) R \<and> screen_inv c')) \<and>
    (\<exists>c'. backsp c = Inr c' \<and> line_rep c' (butlast L) R) \<and>
    (L \<noteq> [] \<longrightarrow> line_rep (snd (movl c)) (butlast L) (last L # R)) \<and>
    (R \<noteq> [] \<longrightarrow> (\<exists>c'. movr c = Inr (True, c') \<and> line_rep c' (L @ [hd R]) (tl R))) \<and>
    (\<exists>c'. home c = Some c' \<and> line_rep c' [] (L @ R)) \<and>
    (\<exists>c'. to_end c = Inr c' \<and> line_rep c' (L @ R) [])"
proof (intro conjI impI)
  assume "length L + length R < 255 \<and> ch \<noteq> 0"
  then show "\<exists>c'. accept_char c ch = Inr c' \<and> line_rep c' (L @ [ch]) R \<and> screen_inv c'"
    using accept_char_ok [OF assms(1,2) _ assms(4), of ch] by auto
next
  have "length (vbuf c) = 3840" "c_pos c + int (length R) < 3840" using screen_invD [OF assms(2)] assms(4) by linarith+
  from backsp_ok [OF assms(1) this(1) assms(3) this(2)] show "\<exists>c'. backsp c = Inr c' \<and> line_rep c' (butlast L) R"
    using assms(1) by (auto split: if_splits)
next
  assume "R \<noteq> []"
  then show "\<exists>c'. movr c = Inr (True, c') \<and> line_rep c' (L @ [hd R]) (tl R)" using movr_ok [OF assms(1)] by auto
qed (use movl_ok [OF assms(1)] home_ok [OF assms(1)] to_end_ok [OF assms(1)] in auto)

theorem line_editor_refines_witness:
  "\<exists>c c' c''. consl_writec c 36 = Inr c' \<and> accept_char c' 120 = Inr c'' \<and> line_rep c'' [120] []"
proof (rule bss_console_starts)
  fix c assume c: "screen_inv c" "screen_view c = (replicate 1920 blank, 0)" "line_rep c [] []"
  obtain c' where c': "consl_writec c 36 = Inr c'" "screen_inv c'" "screen_view c' = tty_write 36 (screen_view c)" "same_line c c'"
    using consl_writec_ok [OF c(1)] by blast
  have "nat (c_pos c' - scr c') = 1" using c'(3) c(2) by (simp add: screen_view_def tty_write_def tty_put_def)
  then have p: "c_pos c' = scr c' + 1" "1 \<le> c_pos c'" using screen_invD [OF c'(2)] by linarith+
  have l: "line_rep c' [] []" using c'(4) c(3) by (auto simp: same_line_def line_rep_def)
  have "c_pos c' + int (length ([] :: u8 list)) + 1 < scr c' + 1920" using p by simp
  from line_editor_refines [OF l c'(2) p(2) this, of 120] c'(1) show ?thesis by auto
qed

text \<open>
  C33: cooked lines are a queue.  Enter appends the whole line to the queue of lines, clears it
  and ends it on the screen; a read with room for the first line of the queue stores exactly
  that line at the buffer, returns its length and removes it.
\<close>

theorem cooked_lines_fifo:
  assumes "lines_rep c ls"
  shows "(line_rep c L R \<and> screen_inv c \<and> length (concat (map (\<lambda>l. l @ [0]) ls)) + length (L @ R) + 1 < 1024 \<longrightarrow>
      (\<exists>c'. cook_line c = Inr c' \<and> lines_rep c' (ls @ [L @ R]) \<and> line_rep c' [] [] \<and> screen_inv c' \<and>
        screen_view c' = tty_lf (tty_cr (screen_view c)))) \<and>
    (\<forall>l ls'. ls = l # ls' \<and> length l < unat count \<longrightarrow>
      (\<exists>c'. get_cooked c b count m = Inr (length l, c', store_bytes b l m) \<and> lines_rep c' ls'))"
  using cook_line_ok [OF assms, of L R] get_line_ok [of c _ _ count b m] assms by blast

theorem cooked_lines_fifo_witness:
  "\<exists>c c' d. line_rep c [104] [105] \<and> lines_rep c [] \<and> cook_line c = Inr c' \<and> lines_rep c' [[104, 105]] \<and>
     get_cooked c' 0x1000 10 (\<lambda>_. 0) = Inr (2, d, store_bytes 0x1000 [104, 105] (\<lambda>_. 0)) \<and> lines_rep d []"
proof (rule bss_console_starts)
  fix c assume c: "screen_inv c" "line_rep c [] []" "ring_rep c []"
  let ?c = "c\<lparr>lbuf := [104, 105] @ 0 # replicate 254 0, c_i := 1\<rparr>"
  have r: "line_rep ?c [104] [105]" by (auto simp: line_rep_def)
  have s: "screen_inv ?c" and l: "lines_rep ?c []"
    using c(1,3) by (simp_all add: screen_inv_def ring_rep_def lines_rep_def)
  from cooked_lines_fifo [OF l, of "[104]" "[105]"] r s obtain c' where c': "cook_line ?c = Inr c'" "lines_rep c' [[104, 105]]" by auto
  from cooked_lines_fifo [OF c'(2), of "[]" "[]" 10 "0x1000" "\<lambda>_. 0"] obtain d where
    "get_cooked c' 0x1000 10 (\<lambda>_. 0) = Inr (2, d, store_bytes 0x1000 [104, 105] (\<lambda>_. 0))" "lines_rep d []" by auto
  with r l c' show ?thesis by blast
qed

text \<open>
  typing in the last cell.  When the window has reached the end of the screen memory and
  the cursor stands in its last cell, the next typed character makes \<open>consl_accept\<close> write
  one cell past the end of the memory: the loop that makes room scrolls one cell too late.
\<close>

theorem accept_char_overruns:
  assumes "line_rep c L []" and "length L < 254" and "screen_inv c" and "c_pos c = 3839"
  shows "accept_char c ch = Inl (OutOfBounds ''console'')"
proof -
  obtain rest where l: "lbuf c = L @ [] @ 0 # rest" "length (lbuf c) = 257" "c_i c = int (length L)"
    using assms(1) by (rule line_repE)
  have "rest_length (lbuf c) (c_i c) 0 = Inr 0" using rest_length_eq [OF l(1), of 0] by (simp add: l(3))
  moreover have "make_room 1 c = Inl (OutOfBounds ''console'')"
    using assms screen_invD [OF assms(3)] l by (simp add: make_room_def LBUF_SZ_def Let_def wr_def)
  ultimately show ?thesis by (simp add: accept_char_def)
qed

theorem accept_char_overruns_witness:
  "\<exists>c. screen_inv c \<and> accept_char c 65 = Inl (OutOfBounds ''console'')"
proof (rule bss_console_starts)
  fix c assume c: "screen_inv c" "line_rep c [] []"
  let ?c = "c\<lparr>scr := 1920, c_pos := 3839\<rparr>"
  have "line_rep ?c [] []" "screen_inv ?c" using c by (auto simp: line_rep_def screen_inv_def)
  with accept_char_overruns [of ?c "[]" 65] show ?thesis by auto
qed

end
