(* ===== verification/Tty.thy ===== *)
theory Tty
  imports Drivers Console
begin

text \<open>
  The terminal server: the parts of \<open>drivers/tty/console.c\<close> that answer readers and write the
  video memory, the keyboard of \<open>keyboard.c\<close>, the server process of \<open>tty.c\<close>, the status line
  of \<open>banner.c\<close> and the echoing shell of \<open>getty.c\<close>.
\<close>

section \<open>State\<close>

definition NR_TTY :: nat where
  "NR_TTY = 4"

definition MSG_TTY_GETKEY :: u32 where
  "MSG_TTY_GETKEY = 1"

definition MSG_TTY_UPDATE :: u32 where
  "MSG_TTY_UPDATE = 2"

definition C_BLUE :: u16 where
  "C_BLUE = 1"

definition C_LWHITE :: u16 where
  "C_LWHITE = 15"

definition ttynames :: "string list" where
  "ttynames = [''tty1'', ''tty2'', ''tty3'', ''tty4'']"

record ktty = kdrv +
  TTY :: pid_t
  ttys :: "nat \<Rightarrow> Console"
  current_consl :: "nat option"
  vmem :: "nat \<Rightarrow> u16"
  banner :: "u8 list"
  caps :: int
  ctrl :: int
  alt :: int
  shft :: int
  tsc :: nat
  tty_idx :: nat

section \<open>console.c\<close>

text \<open>\<open>current_consl\<close> is a null pointer until \<open>init_console\<close> has set it.\<close>

definition consl :: "'a ktty_scheme \<Rightarrow> nat res" where
  "consl s = (case current_consl s of None \<Rightarrow> Inl (NullDeref ''current_consl'') | Some t \<Rightarrow> Inr t)"

definition get_current_tty :: "'a ktty_scheme \<Rightarrow> string res" where
  "get_current_tty s = bindR (consl s) (\<lambda>t. Inr (c_name (ttys s t)))"

definition set_tty :: "nat \<Rightarrow> Console \<Rightarrow> 'a ktty_scheme \<Rightarrow> 'a ktty_scheme" where
  "set_tty t c s = s\<lparr>ttys := (ttys s)(t := c)\<rparr>"

text \<open>
  The status line goes to the first line of the video memory, the window of the current
  terminal below it, and the place of the cursor to the display controller.
\<close>

definition copy_window :: "Console \<Rightarrow> (nat \<Rightarrow> u16) \<Rightarrow> (nat \<Rightarrow> u16) res" where
  "copy_window c vm =
     forR (\<lambda>k vm. bindR (rd (vbuf c) (scr c + int k)) (\<lambda>x. Inr (vm(nat (c_w c) + k := x)))) [0..<nat (c_wh c)] vm"

definition consl_sync :: "nat \<Rightarrow> 'a ktty_scheme \<Rightarrow> 'a ktty_scheme res" where
  "consl_sync t s =
     bindR (forR (\<lambda>k vm. bindR (rd (banner s) (int k)) (\<lambda>b.
         Inr (vm(k := push_bit 12 C_BLUE OR push_bit 8 C_LWHITE OR scast b)))) [0..<nat SCR_W] (vmem s)) (\<lambda>vm.
     if current_consl s = Some t then
       let c = ttys s t in
       bindR (copy_window c vm) (\<lambda>vm.
       let s = s\<lparr>vmem := vm\<rparr>;
           pos = c_pos c - scr c + c_w c;
           s = out_byte 0x3d4 0xe s;
           s = out_byte 0x3d5 (word_of_int (pos div 256)) s;
           s = out_byte 0x3d4 0xf s;
           s = out_byte 0x3d5 (word_of_int (pos mod 256)) s in
       Inr s)
     else Inr (s\<lparr>vmem := vm\<rparr>))"

definition read_request :: "Msg \<Rightarrow> 'a ktty_scheme \<Rightarrow> 'a ktty_scheme res" where
  "read_request m s =
     (let t = unat (dev_id m) in
      if t \<ge> NR_TTY then Inl (OutOfBounds ''ttys'')
      else let c = ttys s t in
      if c_f c = c_r c then
        if rtop c = RSTK_SZ then Inl (Panic ''too many read request'')
        else bindR (wr (rstk c) (rtop c) m) (\<lambda>st. Inr (set_tty t (c\<lparr>rstk := st, rtop := rtop c + 1\<rparr>) s))
      else
        bindR (get_cooked c (buf m) (mlen m) (mem s)) (\<lambda>(nread, c, mm).
        let s = set_tty t c (s\<lparr>mem := mm\<rparr>) in
        bindR (send (src m) (m\<lparr>mtype := word_of_nat nread, src := TTY s\<rparr>) s) (\<lambda>(_, s). Inr s)))"

text \<open>
  The line goes to the ring, and the reader that asked last is served.  The trace line that
  \<open>cook\<close> prints to the serial port is left out, and so are the two fields that \<open>read_request\<close>
  changes in the stack slot of the reader it serves: the slot is free then, and is written
  before it is read again.
\<close>

definition cook :: "nat \<Rightarrow> 'a ktty_scheme \<Rightarrow> 'a ktty_scheme res" where
  "cook t s =
     bindR (cook_line (ttys s t)) (\<lambda>c.
     if rtop c \<noteq> 0 then
       let c = c\<lparr>rtop := rtop c - 1\<rparr> in
       bindR (rd (rstk c) (rtop c)) (\<lambda>m. read_request m (set_tty t c s))
     else Inr (set_tty t c s))"

definition consl_accept :: "nat \<Rightarrow> u8 \<Rightarrow> 'a ktty_scheme \<Rightarrow> 'a ktty_scheme res" where
  "consl_accept t ch s =
     bindR (accept_char (ttys s t) ch) (\<lambda>c. consl_sync t (set_tty t c s))"

definition K_CAPS :: nat where "K_CAPS = 58"
definition K_LSHFT :: nat where "K_LSHFT = 42"
definition K_RSHFT :: nat where "K_RSHFT = 54"
definition K_CTRL :: nat where "K_CTRL = 29"
definition K_ALT :: nat where "K_ALT = 56"
definition K_ENTR :: nat where "K_ENTR = 28"
definition K_BACK :: nat where "K_BACK = 14"
definition K_LEFT :: nat where "K_LEFT = 75"
definition K_RIGHT :: nat where "K_RIGHT = 77"
definition K_HOME :: nat where "K_HOME = 71"
definition K_END :: nat where "K_END = 79"
definition K_DEL :: nat where "K_DEL = 83"
definition K_F1 :: nat where "K_F1 = 59"
definition K_F6 :: nat where "K_F6 = 64"
definition K_F12 :: nat where "K_F12 = 88"

definition consl_feed :: "nat \<Rightarrow> nat \<Rightarrow> 'a ktty_scheme \<Rightarrow> 'a ktty_scheme res" where
  "consl_feed t key s =
     bindR (
       if key = K_ENTR then bindR (cook t s) (\<lambda>s. Inr (t, s))
       else if key = K_DEL then
         bindR (movr (ttys s t)) (\<lambda>(_, c). bindR (backsp c) (\<lambda>c. Inr (t, set_tty t c s)))
       else if key = K_BACK then bindR (backsp (ttys s t)) (\<lambda>c. Inr (t, set_tty t c s))
       else if key = K_LEFT then Inr (t, set_tty t (snd (movl (ttys s t))) s)
       else if key = K_RIGHT then bindR (movr (ttys s t)) (\<lambda>(_, c). Inr (t, set_tty t c s))
       else if key = K_HOME then
         (case home (ttys s t) of None \<Rightarrow> Inl (NoReturn ''consl_feed'') | Some c \<Rightarrow> Inr (t, set_tty t c s))
       else if key = K_END then bindR (to_end (ttys s t)) (\<lambda>c. Inr (t, set_tty t c s))
       else if K_F1 \<le> key \<and> key \<le> K_F6 then
         if key - K_F1 < NR_TTY then Inr (key - K_F1, s\<lparr>current_consl := Some (key - K_F1)\<rparr>) else Inr (t, s)
       else Inr (t, s)) (\<lambda>(t, s).
     consl_sync t s)"

text \<open>The message of the interrupt routine has uninitialised fields besides these two.\<close>

definition send_updatemsg :: "Msg \<Rightarrow> 'a ktty_scheme \<Rightarrow> 'a ktty_scheme res" where
  "send_updatemsg junk s =
     (if cmod (sint (get_jiffy s)) (HZ div 10) = 0
      then bindR (send (TTY s) (junk\<lparr>src := MSG_HARD_INTR, mtype := MSG_TTY_UPDATE\<rparr>) s) (\<lambda>(_, s). Inr s)
      else Inr s)"

definition init_consl_at :: "nat \<Rightarrow> 'a ktty_scheme \<Rightarrow> 'a ktty_scheme res" where
  "init_consl_at t s =
     bindR (init_consl (ttynames ! t) (vbuf (ttys s t)) (ttys s t)) (\<lambda>c. consl_sync t (set_tty t c s))"

definition init_console :: "'a ktty_scheme \<Rightarrow> 'a ktty_scheme res" where
  "init_console s =
     (let s = s\<lparr>banner := replicate (nat SCR_W) (char_byte CHR '' '') @ [0]\<rparr> in
      bindR (forR (\<lambda>t s. bindR (init_consl_at t s) (hal_register (ttynames ! t) (TTY s) (word_of_nat t))) [0..<NR_TTY] s) (\<lambda>s.
      add_irq_handle 0 Send_updatemsg (s\<lparr>current_consl := Some 0\<rparr>)))"

section \<open>keyboard.c\<close>

definition send_keymsg :: "Msg \<Rightarrow> 'a ktty_scheme \<Rightarrow> 'a ktty_scheme res" where
  "send_keymsg junk s = bindR (send (TTY s) (junk\<lparr>mtype := MSG_TTY_GETKEY, src := MSG_HARD_INTR\<rparr>) s) (\<lambda>(_, s). Inr s)"

text \<open>The rows of \<open>keychar\<close> up to their last entry; the rest of the 128 entries is zero.\<close>

definition keys_lower :: "u8 list" where
  "keys_lower = [0, 0] @ map char_byte ''1234567890-='' @ [0, 0] @ map char_byte ''qwertyuiop[]'' @ [0, 0] @
     map char_byte ''asdfghjkl;'' @ [39, 96, 0, 92] @ map char_byte ''zxcvbnm,./'' @ [0, 0, 0, 32]"

definition keys_upper :: "u8 list" where
  "keys_upper = [0, 0] @ map char_byte ''!@#$%^&*()_+'' @ [0, 0] @ map char_byte ''QWERTYUIOP{}'' @ [0, 0] @
     map char_byte ''ASDFGHJKL:'' @ [34, 126, 0, 124] @ map char_byte ''ZXCVBNM<>?'' @ [0, 0, 0, 32]"

definition keychar :: "bool \<Rightarrow> nat \<Rightarrow> u8" where
  "keychar up code = (let row = (if up then keys_upper else keys_lower) in if code < length row then row ! code else 0)"

definition key_released :: "nat \<Rightarrow> 'a ktty_scheme \<Rightarrow> 'a ktty_scheme" where
  "key_released code s =
     (if code = K_LSHFT \<or> code = K_RSHFT then s\<lparr>shft := shft s - 1\<rparr>
      else if code = K_CTRL then s\<lparr>ctrl := ctrl s - 1\<rparr>
      else if code = K_ALT then s\<lparr>alt := alt s - 1\<rparr>
      else if code = K_CAPS then s\<lparr>caps := caps s AND 1\<rparr>
      else s)"

definition key_symbol :: "nat \<Rightarrow> 'a ktty_scheme \<Rightarrow> u8" where
  "key_symbol code s =
     (let c = keychar False code in
      if char_byte CHR ''a'' \<le> c \<and> c \<le> char_byte CHR ''z'' then keychar (odd (shft s) \<noteq> odd (caps s)) code
      else keychar (odd (shft s)) code)"

definition feed_keys :: "nat set" where
  "feed_keys = {K_ENTR, K_BACK, K_LEFT, K_RIGHT, K_HOME, K_END, K_DEL, 59, 60, 61, 62, 63, 64}"

text \<open>\<open>key\<close> is the byte read from port 0x60.\<close>

definition readkey :: "u8 \<Rightarrow> 'a ktty_scheme \<Rightarrow> 'a ktty_scheme res" where
  "readkey key s =
     (let code = unat key in
      if code \<ge> 128 then Inr (key_released (code - 128) s)
      else
        let c = key_symbol code s in
        bindR (if c \<noteq> 0 then bindR (consl s) (\<lambda>t. consl_accept t c s) else Inr s) (\<lambda>s.
        if code \<in> feed_keys then bindR (consl s) (\<lambda>t. consl_feed t code s)
        else if code = K_F12 then Inl (AssertFail ''0'')
        else if code = K_LSHFT \<or> code = K_RSHFT then Inr (s\<lparr>shft := shft s + 1\<rparr>)
        else if code = K_CTRL then Inr (s\<lparr>ctrl := ctrl s + 1\<rparr>)
        else if code = K_ALT then Inr (s\<lparr>alt := alt s + 1\<rparr>)
        else if code = K_CAPS then Inr (s\<lparr>caps := caps s + 1\<rparr>)
        else Inr s))"

section \<open>banner.c\<close>

definition ani :: "u8 list" where
  "ani = map char_byte [CHR ''-'', CHR 92, CHR ''|'', CHR ''/'']"

definition draw2 :: "int \<Rightarrow> u8 list" where
  "draw2 q = [word_of_int (cdiv q 10) + char_byte CHR ''0'', word_of_int (cmod q 10) + char_byte CHR ''0'']"

definition clock_text :: "Time \<Rightarrow> u8 list" where
  "clock_text tm =
     [char_byte CHR ''2'', char_byte CHR ''0''] @ draw2 (cmod (year tm) 100) @ [char_byte CHR ''/''] @ draw2 (month tm) @
     [char_byte CHR ''/''] @ draw2 (day tm) @ [char_byte CHR '' ''] @ draw2 (hour tm) @ [char_byte CHR '':''] @
     draw2 (minute tm) @ [char_byte CHR '':''] @ draw2 (second tm)"

definition put_from :: "nat \<Rightarrow> u8 list \<Rightarrow> u8 list \<Rightarrow> u8 list res" where
  "put_from k bs = forR (\<lambda>j b. wr b (int (k + j)) (bs ! j)) [0..<length bs]"

definition update_banner :: "'a ktty_scheme \<Rightarrow> 'a ktty_scheme res" where
  "update_banner s =
     bindR (rd ani (int (tsc s))) (\<lambda>a.
     bindR (wr (banner s) 1 a) (\<lambda>b.
     let s = s\<lparr>tsc := (tsc s + 1) mod 4\<rparr> in
     bindR (put_from (nat SCR_W - 20) (clock_text (get_time s)) b) (\<lambda>b.
     bindR (put_from 3 (map char_byte ''tty'') b) (\<lambda>b.
     bindR (consl s) (\<lambda>t.
     bindR (wr b 6 (char_byte CHR ''1'' + word_of_nat t)) (\<lambda>b.
     consl_sync t (s\<lparr>banner := b\<rparr>)))))))"

section \<open>tty.c\<close>

text \<open>\<open>i < m.len\<close> compares signed integers.\<close>

definition write_step :: "nat \<Rightarrow> Msg \<Rightarrow> nat \<Rightarrow> 'a ktty_scheme \<Rightarrow> 'a ktty_scheme res" where
  "write_step t m k s =
     bindR (consl_writec (ttys s t) (mem s (buf m + word_of_nat k))) (\<lambda>c. Inr (set_tty t c s))"

definition ttyd :: "u8 \<Rightarrow> Msg \<Rightarrow> 'a ktty_scheme \<Rightarrow> 'a ktty_scheme res" where
  "ttyd key m s =
     (if src m = MSG_HARD_INTR then
        if mtype m = MSG_TTY_GETKEY then readkey key s
        else if mtype m = MSG_TTY_UPDATE then update_banner s
        else Inl (AssertFail ''0'')
      else if mtype m = DEV_READ then read_request m s
      else if mtype m = DEV_WRITE then
        if unat (dev_id m) < NR_TTY then
          let t = unat (dev_id m) in
          bindR (forR (write_step t m) [0..<nat (sint (mlen m))] s) (\<lambda>s.
          bindR (consl_sync t s) (\<lambda>s.
          bindR (current_pid s) (\<lambda>self.
          bindR (send (src m) (m\<lparr>mtype := mlen m, src := self\<rparr>) s) (\<lambda>(_, s). Inr s))))
        else Inl (AssertFail ''0'')
      else Inl (AssertFail ''0''))"

section \<open>getty.c\<close>

text \<open>The name of the terminal a shell serves, and the conversion of the line it has read.\<close>

definition getty_name :: "'a ktty_scheme \<Rightarrow> string \<times> 'a ktty_scheme" where
  "getty_name s =
     (let s = lock s;
          name = ''tty'' @ [char_of (48 + tty_idx s)];
          s = s\<lparr>tty_idx := tty_idx s + 1\<rparr> in
      (name, unlock s))"

definition upcase :: "u8 \<Rightarrow> u8" where
  "upcase b = (if char_byte CHR ''a'' \<le> b \<and> b \<le> char_byte CHR ''z'' then b + (char_byte CHR ''A'' - char_byte CHR ''a'') else b)"

fun upcase_range :: "nat \<Rightarrow> u32 \<Rightarrow> memory \<Rightarrow> memory" where
  "upcase_range 0 b m = m"
| "upcase_range (Suc n) b m = upcase_range n (b + 1) (m(b := upcase (m b)))"

definition init_getty :: "u32 \<Rightarrow> (nat \<Rightarrow> u32) \<Rightarrow> 'a ktty_scheme \<Rightarrow> 'a ktty_scheme res" where
  "init_getty entry args =
     forR (\<lambda>_ s. bindR (create_kthread entry args s) (\<lambda>(p, s). wakeup (Some (PcbList p)) s)) [0..<NR_TTY]"

definition init_tty :: "u32 \<Rightarrow> u32 \<Rightarrow> (nat \<Rightarrow> u32) \<Rightarrow> 'a ktty_scheme \<Rightarrow> 'a ktty_scheme res" where
  "init_tty entry getty_entry args s =
     bindR (add_irq_handle 1 Send_keymsg s) (\<lambda>s.
     bindR (create_kthread entry args s) (\<lambda>(p, s).
     let s = s\<lparr>TTY := pid (pcb_pool s p)\<rparr> in
     bindR (wakeup (Some (PcbList p)) s) (\<lambda>s.
     bindR (init_console s) (\<lambda>s.
     init_getty getty_entry args s))))"

section \<open>The display\<close>

lemma forR_cells:
  assumes "\<And>k vm. k < n \<Longrightarrow> body k vm = Inr (vm(a + k := v k))"
  shows "forR body [0..<n] vm = Inr (\<lambda>j. if a \<le> j \<and> j < a + n then v (j - a) else vm j)"
  using assms
proof (induction n)
  case (Suc n)
  then have "forR body [0..<n] vm = Inr (\<lambda>j. if a \<le> j \<and> j < a + n then v (j - a) else vm j)" by simp
  then have "forR body [0..<Suc n] vm = body n (\<lambda>j. if a \<le> j \<and> j < a + n then v (j - a) else vm j)"
    by (simp only: forR_upt_Suc bindR_Inr)
  also have "\<dots> = Inr ((\<lambda>j. if a \<le> j \<and> j < a + n then v (j - a) else vm j)(a + n := v n))"
    by (rule Suc.prems) simp
  finally show ?case by (auto simp: fun_eq_iff less_Suc_eq)
qed (auto simp: fun_eq_iff)

text \<open>The video memory that shows a status line above the window of a terminal.\<close>

definition shows_screen :: "u8 list \<Rightarrow> u16 list \<Rightarrow> (nat \<Rightarrow> u16) \<Rightarrow> bool" where
  "shows_screen b win vm \<longleftrightarrow>
     (\<forall>k<80. vm k = push_bit 12 C_BLUE OR push_bit 8 C_LWHITE OR scast (b ! k)) \<and> (\<forall>k<1920. vm (80 + k) = win ! k)"

lemma copy_window_ok:
  assumes "screen_inv c"
  shows "copy_window c vm = Inr (\<lambda>j. if 80 \<le> j \<and> j < 80 + 1920 then fst (screen_view c) ! (j - 80) else vm j)"
proof -
  note d = screen_invD [OF assms]
  have "bindR (rd (vbuf c) (scr c + int k)) (\<lambda>x. Inr (vm(80 + k := x))) = Inr (vm(80 + k := fst (screen_view c) ! k))"
    if "k < 1920" for k vm
  proof -
    have "nat (scr c + int k) = nat (scr c) + k" using d(6) by (simp add: nat_add_distrib)
    then show ?thesis using d that by (simp add: screen_view_def)
  qed
  from forR_cells [of 1920 _ 80, OF this] show ?thesis unfolding copy_window_def d(1,2) nat_numeral by simp
qed

lemma consl_sync_ok:
  assumes "screen_inv (ttys s t)" and "length (banner s) = 81" and "current_consl s = Some t"
  shows "\<exists>vm log. consl_sync t s = Inr (s\<lparr>vmem := vm, outlog := log\<rparr>) \<and>
    shows_screen (banner s) (fst (screen_view (ttys s t))) vm"
proof -
  let ?a = "\<lambda>k. push_bit 12 C_BLUE OR push_bit 8 C_LWHITE OR scast (banner s ! k) :: u16"
  let ?vm = "\<lambda>j. if 80 \<le> j \<and> j < 80 + 1920 then fst (screen_view (ttys s t)) ! (j - 80)
    else if j < 80 then ?a j else vmem s j"
  let ?pos = "c_pos (ttys s t) - scr (ttys s t) + c_w (ttys s t)"
  let ?log = "outlog s @ [(0x3d4, 0xe), (0x3d5, word_of_int (?pos div 256)), (0x3d4, 0xf), (0x3d5, word_of_int (?pos mod 256))]"
  have "forR (\<lambda>k vm. bindR (rd (banner s) (int k)) (\<lambda>b.
      Inr (vm(k := push_bit 12 C_BLUE OR push_bit 8 C_LWHITE OR scast b)))) [0..<80] (vmem s) =
      Inr (\<lambda>j. if j < 80 then ?a j else vmem s j)"
    using forR_cells [of 80 _ 0 ?a "vmem s"] assms(2) by (simp cong del: if_weak_cong)
  then have "consl_sync t s = Inr (s\<lparr>vmem := ?vm, outlog := ?log\<rparr>)" using copy_window_ok [OF assms(1)] assms(3)
    by (simp add: consl_sync_def SCR_W_def Let_def out_byte_def cong del: if_weak_cong)
  moreover have "shows_screen (banner s) (fst (screen_view (ttys s t))) ?vm" by (simp add: shows_screen_def)
  ultimately show ?thesis by blast
qed

text \<open>The bytes of a buffer go to the terminal one after the other.\<close>

lemma write_loop:
  "forR (write_step t m) [0..<n] s =
     bindR (forR (\<lambda>ch c. consl_writec c ch) (map (\<lambda>k. mem s (buf m + word_of_nat k)) [0..<n]) (ttys s t)) (\<lambda>c. Inr (set_tty t c s))"
proof (induction n)
  case 0
  show ?case by (simp add: set_tty_def)
next
  case (Suc n)
  show ?case
  proof (cases "forR (\<lambda>ch c. consl_writec c ch) (map (\<lambda>k. mem s (buf m + word_of_nat k)) [0..<n]) (ttys s t)")
    case (Inl e)
    then show ?thesis using Suc by (simp add: forR_append del: upt_Suc add: upt_Suc_append)
  next
    case (Inr c)
    have "forR (write_step t m) [0..<Suc n] s = write_step t m n (set_tty t c s)"
      using Suc Inr by (simp only: forR_upt_Suc bindR_Inr)
    also have "\<dots> = bindR (consl_writec c (mem s (buf m + word_of_nat n))) (\<lambda>c. Inr (set_tty t c s))"
      by (simp add: write_step_def set_tty_def cong del: bindR_weak_cong)
    finally show ?thesis using Inr by (simp add: forR_append bindR_assoc bindR_def split: sum.splits)
  qed
qed

section \<open>Properties\<close>

text \<open>
  C35: what is written to a terminal is displayed.  A write request to the current terminal
  puts the characters of the client's buffer through the ideal terminal, in order, and leaves
  the video memory showing the status line and the terminal's screen; the client is answered
  with the number of characters.
\<close>

theorem tty_write_displayed:
  assumes "src m \<noteq> MSG_HARD_INTR" and "mtype m = DEV_WRITE" and "unat (dev_id m) = t" and "t < NR_TTY"
    and "current_consl s = Some t" and "screen_inv (ttys s t)" and "length (banner s) = 81"
  shows "\<exists>c vm log.
    ttyd key m s = bindR (current_pid s) (\<lambda>self.
      bindR (send (src m) (m\<lparr>mtype := mlen m, src := self\<rparr>) ((set_tty t c s)\<lparr>vmem := vm, outlog := log\<rparr>)) (\<lambda>(_, s). Inr s)) \<and>
    screen_inv c \<and>
    screen_view c = fold tty_write (map (\<lambda>k. mem s (buf m + word_of_nat k)) [0..<nat (sint (mlen m))]) (screen_view (ttys s t)) \<and>
    shows_screen (banner s) (fst (screen_view c)) vm"
proof -
  let ?bs = "map (\<lambda>k. mem s (buf m + word_of_nat k)) [0..<nat (sint (mlen m))]"
  obtain c where c: "forR (\<lambda>ch c. consl_writec c ch) ?bs (ttys s t) = Inr c" "screen_inv c"
    "screen_view c = fold tty_write ?bs (screen_view (ttys s t))"
    using consl_output_ok [OF assms(6), of ?bs] by blast
  let ?s = "set_tty t c s"
  have w: "forR (write_step t m) [0..<nat (sint (mlen m))] s = Inr ?s" unfolding write_loop c(1) by simp
  have "screen_inv (ttys ?s t)" "length (banner ?s) = 81" "current_consl ?s = Some t" "ttys ?s t = c" "banner ?s = banner s"
    using assms c(2) by (simp_all add: set_tty_def)
  with consl_sync_ok [of ?s t] obtain vm log where y: "consl_sync t ?s = Inr (?s\<lparr>vmem := vm, outlog := log\<rparr>)"
    "shows_screen (banner s) (fst (screen_view c)) vm" by auto
  have "current_pid (?s\<lparr>vmem := vm, outlog := log\<rparr>) = current_pid s" by (simp add: current_pid_def set_tty_def cong del: bindR_weak_cong)
  then have "ttyd key m s = bindR (current_pid s) (\<lambda>self.
      bindR (send (src m) (m\<lparr>mtype := mlen m, src := self\<rparr>) (?s\<lparr>vmem := vm, outlog := log\<rparr>)) (\<lambda>(_, s). Inr s))"
    using assms(1-4) w y(1) by (simp add: ttyd_def Let_def DEV_READ_def DEV_WRITE_def)
  then show ?thesis using c y(2) by blast
qed

text \<open>The zero-filled kernel with its first terminal set up.\<close>

definition bss_ktty :: ktty where
  "bss_ktty = kdrv.extend bss_kdrv (ktty.fields 0 (\<lambda>_. bss_console\<lparr>vbuf := replicate 3840 0\<rparr>) None (\<lambda>_. 0)
     (replicate 81 32) 0 0 0 0 0 1)"

lemma bss_ktty_starts:
  obtains s where "screen_inv (ttys s 0)" "current_consl s = Some 0" "length (banner s) = 81" "mem s = mem bss_ktty"
    "screen_view (ttys s 0) = (replicate 1920 blank, 0)" "line_rep (ttys s 0) [] []" "lines_rep (ttys s 0) []" "s = bss_ktty\<lparr>ttys := ttys s, current_consl := Some 0\<rparr>"
proof (rule bss_console_starts)
  fix c assume c: "screen_inv c" "screen_view c = (replicate 1920 blank, 0)" "line_rep c [] []" "ring_rep c []"
  let ?s = "bss_ktty\<lparr>ttys := (\<lambda>_. c), current_consl := Some 0\<rparr>"
  show thesis
    by (rule that [of ?s]) (use c in \<open>simp_all add: bss_ktty_def ktty.defs kdrv.defs lines_rep_def\<close>)
qed

theorem tty_write_displayed_witness:
  "\<exists>(s :: ktty) c vm log. ttyd 0 ((ten_bytes DEV_WRITE)\<lparr>dev_id := 0, mlen := 2\<rparr>) s = bindR (current_pid s) (\<lambda>self.
      bindR (send 3 ((ten_bytes DEV_WRITE)\<lparr>dev_id := 0, mtype := 2, mlen := 2, src := self\<rparr>)
        ((set_tty 0 c s)\<lparr>vmem := vm, outlog := log\<rparr>)) (\<lambda>(_, s). Inr s)) \<and> shows_screen (banner s) (fst (screen_view c)) vm"
proof (rule bss_ktty_starts)
  fix s :: ktty assume s: "screen_inv (ttys s 0)" "current_consl s = Some 0" "length (banner s) = 81"
  let ?m = "(ten_bytes DEV_WRITE)\<lparr>dev_id := 0, mlen := 2\<rparr>"
  have m: "src ?m \<noteq> MSG_HARD_INTR" "mtype ?m = DEV_WRITE" "unat (dev_id ?m) = 0" "0 < NR_TTY"
    by (simp_all add: ten_bytes_def MSG_HARD_INTR_def NR_TTY_def)
  have e: "?m\<lparr>mtype := mlen ?m, src := x\<rparr> = (ten_bytes DEV_WRITE)\<lparr>dev_id := 0, mtype := 2, mlen := 2, src := x\<rparr>" "src ?m = 3" for x
    by (simp_all add: ten_bytes_def)
  from tty_write_displayed [OF m s(2,1,3), of 0] show ?thesis unfolding e by blast
qed

text \<open>
  C36: a waiting reader gets the line that is typed.  With the ring empty and one read request
  waiting at a terminal, Enter ends the line on the screen, stores the line in the reader's
  buffer, answers the reader with its length, and leaves the terminal with an empty line, an
  empty ring and no reader.
\<close>

theorem enter_serves_reader:
  assumes "line_rep (ttys s t) L R" and "screen_inv (ttys s t)" and "lines_rep (ttys s t) []"
    and "rtop (ttys s t) = 1" and "rstk (ttys s t) = m # ms" and "unat (dev_id m) = t" and "t < NR_TTY"
    and "length (L @ R) < unat (mlen m)" and "length (L @ R) < 1000"
  shows "\<exists>c. cook t s = bindR (send (src m) (m\<lparr>mtype := word_of_nat (length (L @ R)), src := TTY s\<rparr>)
        (set_tty t c (s\<lparr>mem := store_bytes (buf m) (L @ R) (mem s)\<rparr>))) (\<lambda>(_, s). Inr s) \<and>
    line_rep c [] [] \<and> lines_rep c [] \<and> rtop c = 0 \<and> screen_inv c \<and>
    screen_view c = tty_lf (tty_cr (screen_view (ttys s t)))"
proof -
  obtain c1 where c1: "cook_line (ttys s t) = Inr c1" "lines_rep c1 [L @ R]" "line_rep c1 [] []" "screen_inv c1"
    "screen_view c1 = tty_lf (tty_cr (screen_view (ttys s t)))" "rtop c1 = 1" "rstk c1 = m # ms"
    using cook_line_ok [OF assms(3,1,2)] assms(4,5,9) by auto
  let ?c = "c1\<lparr>rtop := 0\<rparr>"
  have "lines_rep ?c [L @ R]" using c1(2) by (simp add: lines_rep_def ring_rep_def)
  from get_line_ok [OF this assms(8), of "buf m" "mem s"] obtain f where f: "c_f ?c \<noteq> c_r ?c"
    "get_cooked ?c (buf m) (mlen m) (mem s) = Inr (length (L @ R), ?c\<lparr>c_f := f\<rparr>, store_bytes (buf m) (L @ R) (mem s))"
    "lines_rep (?c\<lparr>c_f := f\<rparr>) []" by auto
  let ?c' = "?c\<lparr>c_f := f\<rparr>"
  have "read_request m (set_tty t ?c s) = bindR (send (src m) (m\<lparr>mtype := word_of_nat (length (L @ R)), src := TTY s\<rparr>)
      (set_tty t ?c' (s\<lparr>mem := store_bytes (buf m) (L @ R) (mem s)\<rparr>))) (\<lambda>(_, s). Inr s)"
    using f(1,2) assms(6,7) by (simp add: read_request_def Let_def set_tty_def)
  then have "cook t s = bindR (send (src m) (m\<lparr>mtype := word_of_nat (length (L @ R)), src := TTY s\<rparr>)
      (set_tty t ?c' (s\<lparr>mem := store_bytes (buf m) (L @ R) (mem s)\<rparr>))) (\<lambda>(_, s). Inr s)"
    using c1 by (simp add: cook_def Let_def)
  moreover have "line_rep ?c' [] []" "screen_inv ?c'" "screen_view ?c' = screen_view c1"
    using c1(3,4) by (simp_all add: line_rep_def screen_inv_def screen_view_def)
  ultimately show ?thesis using f(3) c1(5) by (intro exI [of _ ?c']) simp
qed

theorem enter_serves_reader_witness:
  "\<exists>s c. cook 0 (s :: ktty) = bindR (send 3 ((ten_bytes DEV_READ)\<lparr>dev_id := 0, mtype := 0, src := TTY s\<rparr>)
     (set_tty 0 c (s\<lparr>mem := mem s\<rparr>))) (\<lambda>(_, s). Inr s)"
proof (rule bss_ktty_starts)
  fix s :: ktty assume s: "screen_inv (ttys s 0)" "line_rep (ttys s 0) [] []" "lines_rep (ttys s 0) []"
  let ?m = "(ten_bytes DEV_READ)\<lparr>dev_id := 0\<rparr>"
  let ?s = "s\<lparr>ttys := (\<lambda>_. (ttys s 0)\<lparr>rtop := 1, rstk := [?m]\<rparr>)\<rparr>"
  have l: "line_rep (ttys ?s 0) [] []" "screen_inv (ttys ?s 0)" "lines_rep (ttys ?s 0) []" "rtop (ttys ?s 0) = 1" "rstk (ttys ?s 0) = ?m # []"
    using s by (simp_all add: line_rep_def screen_inv_def lines_rep_def ring_rep_def)
  have m: "unat (dev_id ?m) = 0" "0 < NR_TTY" "length ([] @ [] :: u8 list) < unat (mlen ?m)" "length ([] @ [] :: u8 list) < 1000"
    by (simp_all add: ten_bytes_def NR_TTY_def)
  have e: "src ?m = 3" "?m\<lparr>mtype := word_of_nat (length ([] @ [] :: u8 list)), src := x\<rparr> = (ten_bytes DEV_READ)\<lparr>dev_id := 0, mtype := 0, src := x\<rparr>" for x
    by (simp_all add: ten_bytes_def)
  have z: "store_bytes (buf ?m) ([] @ []) (mem ?s) = mem ?s" by simp
  from enter_serves_reader [OF l m] show ?thesis unfolding e z by blast
qed

end
