(* ===== verification/Fm.thy ===== *)
theory Fm
  imports Tty
begin

text \<open>
  The file manager, \<open>service/fm.c\<close>: a table of files of the RAM disk, found by their number
  through a hash table of intrusive lists that a semaphore protects.
\<close>

section \<open>fm.c\<close>

definition NR_MAX_FILE :: nat where
  "NR_MAX_FILE = 8"

definition NR_FILE_SIZE :: u32 where
  "NR_FILE_SIZE = 128 * 1024"

definition HASH_TABLE_SIZE :: int where
  "HASH_TABLE_SIZE = 4"

definition FM_NEW_FILE :: u32 where
  "FM_NEW_FILE = 1"

definition FM_READ :: u32 where
  "FM_READ = 2"

text \<open>The link of entry \<open>k\<close> of \<open>file\<close> is the node \<open>FileLink k\<close> of the heap of lists.\<close>

record FileNode =
  fname :: u32
  fsize :: u32
  fpos :: u32

record kfm = ktty +
  FM :: pid_t
  files :: "nat \<Rightarrow> FileNode"
  fm_empty :: int

definition hash_file_name :: "u32 \<Rightarrow> int" where
  "hash_file_name name = cmod (sint name) HASH_TABLE_SIZE"

definition hash_head :: "int \<Rightarrow> laddr res" where
  "hash_head h = (if 0 \<le> h \<and> h < HASH_TABLE_SIZE then Inr (HashHead (nat h)) else Inl (OutOfBounds ''ramdisk_hash_table''))"

text \<open>\<open>Trapped\<close> is the thread asleep in \<open>P\<close>.\<close>

definition do_new_file :: "u32 \<Rightarrow> 'a kfm_scheme \<Rightarrow> 'a kfm_scheme outcome res" where
  "do_new_file name s =
     (if fm_empty s < 0 \<or> int NR_MAX_FILE \<le> fm_empty s then Inl (OutOfBounds ''file'')
      else
        let e = nat (fm_empty s);
            s = s\<lparr>files := (files s)(e := (files s e)\<lparr>fname := name\<rparr>)\<rparr>;
            s = s\<lparr>files := (files s)(e := (files s e)\<lparr>fpos := word_of_nat e * NR_FILE_SIZE\<rparr>)\<rparr>;
            hash = hash_file_name name in
        bindR (P_sem FmMutex s) (\<lambda>r. case r of
          Trapped s \<Rightarrow> Inr (Trapped s)
        | Returned s \<Rightarrow>
            bindR (hash_head hash) (\<lambda>head.
            bindR (on_heap (list_add_before (Some head) (Some (FileLink e))) s) (\<lambda>s.
            bindR (V_sem FmMutex s) (\<lambda>s.
            Inr (Returned (s\<lparr>fm_empty := fm_empty s + 1\<rparr>)))))))"

definition file_no :: "laddr \<Rightarrow> nat res" where
  "file_no a = (case a of FileLink k \<Rightarrow> Inr k | _ \<Rightarrow> Inl (OutOfBounds ''file''))"

definition file_named :: "u32 \<Rightarrow> 'a kfm_scheme \<Rightarrow> laddr \<Rightarrow> bool" where
  "file_named name s a = (case a of FileLink k \<Rightarrow> fname (files s k) = name | _ \<Rightarrow> False)"

text \<open>
  \<open>do_read\<close> ends in \<open>dev_read\<close>, where the file manager waits for the RAM disk.  \<open>Waiting\<close>
  is the thread asleep, there or in \<open>P\<close>.
\<close>

definition do_read :: "u32 \<Rightarrow> u32 \<Rightarrow> u32 \<Rightarrow> u32 \<Rightarrow> 'a kfm_scheme \<Rightarrow> 'a kfm_scheme received res" where
  "do_read file_name b off len s =
     (let hash = hash_file_name file_name in
      bindR (P_sem FmMutex s) (\<lambda>r. case r of
        Trapped s \<Rightarrow> Inr (Waiting s)
      | Returned s \<Rightarrow>
          bindR (hash_head hash) (\<lambda>head.
          bindR (list_foreach_until (NR_MAX_FILE + 1) (heap s) (file_named file_name s) head) (\<lambda>p.
          bindR (V_sem FmMutex s) (\<lambda>s.
          if p = head then Inl (Panic ''There is no file'')
          else
            bindR (current_pid s) (\<lambda>self.
            bindR (file_no p) (\<lambda>k.
            dev_read ''ram'' self b (fpos (files s k) + off) len s)))))))"

text \<open>
  The body of the loop of \<open>ramdisk_thread\<close> for the message received; \<open>m.i[0]\<close> is the word
  \<open>req_pid\<close> of the union.  A read is answered when \<open>dev_read\<close> has returned.
\<close>

definition ramdisk_answer :: "Msg \<Rightarrow> 'a kfm_scheme \<Rightarrow> 'a kfm_scheme res" where
  "ramdisk_answer m s = answer (mlen m) (FM s) m s"

definition ramdisk_thread :: "Msg \<Rightarrow> 'a kfm_scheme \<Rightarrow> 'a kfm_scheme outcome res" where
  "ramdisk_thread m s =
     (if mtype m = FM_NEW_FILE then
        bindR (do_new_file (req_pid m) s) (\<lambda>r. case r of
          Trapped s \<Rightarrow> Inr (Trapped s)
        | Returned s \<Rightarrow> bindR (answer 0 (FM s) m s) (\<lambda>s. Inr (Returned s)))
      else if mtype m = FM_READ then
        bindR (do_read (req_pid m) (buf m) (offset m) (mlen m) s) (\<lambda>r. case r of
          Waiting s \<Rightarrow> Inr (Trapped s)
        | Retry s \<Rightarrow> Inr (Trapped s)
        | Got _ s \<Rightarrow> bindR (ramdisk_answer m s) (\<lambda>s. Inr (Returned s)))
      else Inl (AssertFail ''0''))"

text \<open>The boot context is no thread: asleep in \<open>P\<close> it would not come back.\<close>

definition init_table :: "'a kfm_scheme \<Rightarrow> 'a kfm_scheme res" where
  "init_table s =
     bindR (create_sem FmMutex 1 s) (\<lambda>s.
     bindR (P_sem FmMutex s) (\<lambda>r. case r of
       Trapped s \<Rightarrow> Inl (NoReturn ''P'')
     | Returned s \<Rightarrow>
         bindR (forR (\<lambda>i s. on_heap (list_init (Some (HashHead i))) s) [0..<nat HASH_TABLE_SIZE] s) (\<lambda>s.
         V_sem FmMutex s)))"

definition init_fm :: "u32 \<Rightarrow> (nat \<Rightarrow> u32) \<Rightarrow> 'a kfm_scheme \<Rightarrow> 'a kfm_scheme res" where
  "init_fm entry args s =
     bindR (init_table s) (\<lambda>s.
     bindR (create_kthread entry args s) (\<lambda>(p, s).
     let s = s\<lparr>FM := pid (pcb_pool s p)\<rparr> in
     wakeup (Some (PcbList p)) s))"

section \<open>The table of files\<close>

text \<open>
  The files are numbered in the order of their creation.  Bucket \<open>h\<close> lists, in that order,
  those whose name hashes to \<open>h\<close>; file \<open>k\<close> has the \<open>k\<close>th stretch of the RAM disk.  Nobody
  holds the mutex between two requests.
\<close>

definition file_names :: "'a kfm_scheme \<Rightarrow> u32 list" where
  "file_names s = map (\<lambda>k. fname (files s k)) [0..<nat (fm_empty s)]"

definition bucket :: "'a kfm_scheme \<Rightarrow> nat \<Rightarrow> laddr list" where
  "bucket s h = map FileLink (filter (\<lambda>k. hash_file_name (fname (files s k)) = int h) [0..<nat (fm_empty s)])"

definition fm_inv :: "'a kfm_scheme \<Rightarrow> laddr set \<Rightarrow> (laddr \<Rightarrow> laddr list) \<Rightarrow> bool" where
  "fm_inv s H L \<longleftrightarrow>
     proc_inv s H L \<and> SemBlock FmMutex \<in> H \<and> L (SemBlock FmMutex) = [] \<and> 0 < token s FmMutex \<and>
     (\<forall>h<4. HashHead h \<in> H \<and> L (HashHead h) = bucket s h) \<and> range FileLink \<inter> linked H L \<subseteq> FileLink ` {..<nat (fm_empty s)} \<and>
     0 \<le> fm_empty s \<and> fm_empty s \<le> int NR_MAX_FILE \<and>
     (\<forall>k<nat (fm_empty s). fpos (files s k) = word_of_nat k * NR_FILE_SIZE)"

lemma fm_invD:
  assumes "fm_inv s H L"
  shows "proc_inv s H L" and "SemBlock FmMutex \<in> H" and "L (SemBlock FmMutex) = []" and "0 < token s FmMutex"
    and "h < 4 \<Longrightarrow> HashHead h \<in> H" and "h < 4 \<Longrightarrow> L (HashHead h) = bucket s h"
    and "range FileLink \<inter> linked H L \<subseteq> FileLink ` {..<nat (fm_empty s)}"
    and "0 \<le> fm_empty s" and "fm_empty s \<le> 8" and "k < nat (fm_empty s) \<Longrightarrow> fpos (files s k) = word_of_nat k * NR_FILE_SIZE"
  using assms by (simp_all add: fm_inv_def NR_MAX_FILE_def)

lemma hash_bounds:
  assumes "0 \<le> sint name"
  shows "0 \<le> hash_file_name name" and "hash_file_name name < 4"
  using assms by (simp_all add: hash_file_name_def HASH_TABLE_SIZE_def cmod_nonneg)

text \<open>A negative multiple of four has the hash 0; other negative numbers have a negative one.\<close>

lemma hash_cases:
  assumes "0 \<le> sint name \<or> sint name mod 4 = 0"
  shows "0 \<le> hash_file_name name" and "hash_file_name name < 4"
proof -
  have "sint name < 0 \<Longrightarrow> hash_file_name name = - ((- sint name) mod 4)"
    by (simp add: hash_file_name_def HASH_TABLE_SIZE_def cmod_def cdiv_def minus_mult_div_eq_mod [symmetric])
  then show "0 \<le> hash_file_name name" "hash_file_name name < 4"
    using assms hash_bounds [of name] by (cases "0 \<le> sint name"; auto simp: zmod_zminus1_eq_if)+
qed

lemma do_new_file_stores:
  assumes inv: "fm_inv s H L" and room: "fm_empty s < 8" and name: "0 \<le> sint name \<or> sint name mod 4 = 0"
  defines "h \<equiv> nat (hash_file_name name)" and "e \<equiv> nat (fm_empty s)"
  shows "\<exists>s'. do_new_file name s = Inr (Returned s') \<and> fm_inv s' H (L(HashHead h := L (HashHead h) @ [FileLink e])) \<and>
    file_names s' = file_names s @ [name] \<and>
    (\<exists>hp. s' = s\<lparr>files := (files s)(e := (files s e)\<lparr>fname := name, fpos := word_of_nat e * NR_FILE_SIZE\<rparr>), heap := hp,
      intr := relock s, fm_empty := fm_empty s + 1\<rparr>)"
proof -
  note d = fm_invD [OF inv]
  let ?f = "(files s)(e := (files s e)\<lparr>fname := name, fpos := word_of_nat e * NR_FILE_SIZE\<rparr>)"
  let ?L = "L(HashHead h := L (HashHead h) @ [FileLink e])"
  define s' where "s' = s\<lparr>files := ?f, heap := link_before (HashHead h) (FileLink e) (heap s), intr := relock s, fm_empty := fm_empty s + 1\<rparr>"
  have h: "h < 4" "int h = hash_file_name name" "hash_head (hash_file_name name) = Inr (HashHead h)"
    using hash_cases [OF name] by (simp_all add: h_def hash_head_def HASH_TABLE_SIZE_def)
  note H = d(5) [OF h(1)]
  have fresh: "FileLink e \<notin> linked H L" using d(7) by (auto simp: e_def)
  have r: "rep (link_before (HashHead h) (FileLink e) (heap s)) H ?L" by (rule rep_add_before [OF proc_invD(1) [OF d(1)] H fresh])
  have lk: "linked H ?L = insert (FileLink e) (linked H L)" using H by simp
  have pi: "proc_inv s' H ?L"
  proof (rule proc_inv_side [OF d(1)])
    fix l assume l: "l \<in> H" "side_list l"
    have "set (L l) \<subseteq> Collect is_node - range PcbList" by (rule side_nodes [OF proc_invD(2) [OF d(1)] l])
    then show "set (?L l) \<subseteq> Collect is_node - range PcbList" by auto
  qed (use r in \<open>auto simp: s'_def side_list_def\<close>)
  let ?s1 = "s\<lparr>files := ?f, token := (token s)(FmMutex := token s FmMutex - 1), intr := relock s,
    heap := link_before (HashHead h) (FileLink e) (heap s)\<rparr>"
  have "nxt (heap ?s1) (SemBlock FmMutex) = Some (SemBlock FmMutex)"
    using rep_empty_iff [OF r d(2)] d(3) by simp
  note v = V_sem_none_waiting [OF this]
  have eq: "do_new_file name s = Inr (Returned s')"
    using room d(4,8) h(3) v
    by (simp add: do_new_file_def NR_MAX_FILE_def e_def [symmetric] Let_def P_sem_free on_heap_def s'_def relock_def)
  have e: "nat (fm_empty s') = Suc e" using d(8) by (simp add: s'_def e_def)
  have old: "files s' k = files s k" if "k < e" for k using that by (simp add: s'_def)
  have new: "fname (files s' e) = name" "fpos (files s' e) = word_of_nat e * NR_FILE_SIZE" by (simp_all add: s'_def)
  have b: "bucket s' j = (if j = h then bucket s j @ [FileLink e] else bucket s j)" for j
  proof -
    have "filter (\<lambda>k. hash_file_name (fname (files s' k)) = int j) [0..<e] = filter (\<lambda>k. hash_file_name (fname (files s k)) = int j) [0..<e]"
      by (rule filter_cong) (auto simp: old)
    then show ?thesis unfolding bucket_def e using h(2) by (auto simp: new e_def [symmetric])
  qed
  have "fm_inv s' H ?L" unfolding fm_inv_def
  proof (intro conjI allI impI)
    show "?L (HashHead j) = bucket s' j" if "j < 4" for j using d(6) [OF that] d(6) [OF h(1)] b by auto
    show "HashHead j \<in> H" if "j < 4" for j by (rule d(5) [OF that])
    show "range FileLink \<inter> linked H ?L \<subseteq> FileLink ` {..<nat (fm_empty s')}" unfolding lk e using d(7) by (auto simp: e_def [symmetric])
    show "fpos (files s' k) = word_of_nat k * NR_FILE_SIZE" if "k < nat (fm_empty s')" for k
      using that d(10) [of k] unfolding e by (cases "k = e") (auto simp: new old e_def [symmetric])
  qed (use pi d(2,3,4,8) room in \<open>simp_all add: s'_def NR_MAX_FILE_def\<close>)
  moreover have "file_names s' = file_names s @ [name]" unfolding file_names_def e by (simp add: new old e_def [symmetric])
  moreover have "\<exists>hp. s' = s\<lparr>files := ?f, heap := hp, intr := relock s, fm_empty := fm_empty s + 1\<rparr>" unfolding s'_def by blast
  ultimately show ?thesis using eq by blast
qed

lemmas do_new_file_ok = do_new_file_stores [OF _ _ disjI1]

text \<open>The number of the first file with a name.\<close>

definition file_index :: "u32 \<Rightarrow> 'a kfm_scheme \<Rightarrow> nat option" where
  "file_index name s = find (\<lambda>k. fname (files s k) = name) [0..<nat (fm_empty s)]"

lemma find_filter: "(\<And>x. p x \<Longrightarrow> q x) \<Longrightarrow> find p (filter q xs) = find p xs"
  by (induction xs) auto

lemma find_append: "find p (xs @ ys) = (case find p xs of None \<Rightarrow> find p ys | Some x \<Rightarrow> Some x)"
  by (induction xs) auto

lemma file_index_None: "file_index name s = None \<longleftrightarrow> name \<notin> set (file_names s)"
  by (auto simp: file_index_def file_names_def find_None_iff)

lemma file_index_names: "file_index name s = find (\<lambda>k. file_names s ! k = name) [0..<length (file_names s)]"
  unfolding file_index_def by (intro find_cong) (auto simp: file_names_def)

text \<open>A file created under a name in use is not found.\<close>

lemma file_index_append:
  assumes "file_names s' = file_names s @ [name]"
  shows "file_index name s' = Some (case file_index name s of None \<Rightarrow> length (file_names s) | Some k \<Rightarrow> k)"
proof -
  have "find (\<lambda>k. (file_names s @ [name]) ! k = name) [0..<length (file_names s)] = file_index name s"
    unfolding file_index_names by (intro find_cong) (auto simp: nth_append)
  then show ?thesis unfolding file_index_names [of _ s'] assms by (simp add: find_append split: option.splits)
qed

lemma do_read_eq:
  assumes inv: "fm_inv s H L" and name: "0 \<le> sint name"
  shows "do_read name b off len s =
    (case file_index name s of
       None \<Rightarrow> Inl (Panic ''There is no file'')
     | Some k \<Rightarrow> bindR (current_pid s) (\<lambda>self.
         dev_read ''ram'' self b (word_of_nat k * NR_FILE_SIZE + off) len (s\<lparr>intr := relock s\<rparr>)))"
proof -
  note d = fm_invD [OF inv]
  define h where "h = nat (hash_file_name name)"
  have h: "h < 4" "int h = hash_file_name name" "hash_head (hash_file_name name) = Inr (HashHead h)"
    using hash_bounds [OF name] by (simp_all add: h_def hash_head_def HASH_TABLE_SIZE_def)
  let ?s1 = "s\<lparr>token := (token s)(FmMutex := token s FmMutex - 1), intr := relock s\<rparr>"
  have "nxt (heap ?s1) (SemBlock FmMutex) = Some (SemBlock FmMutex)"
    using rep_empty_iff [OF proc_invD(1) [OF d(1)] d(2)] d(3) by simp
  then have v: "V_sem FmMutex ?s1 = Inr (s\<lparr>intr := relock s\<rparr>)" by (simp add: V_sem_none_waiting relock_def)
  have len: "length (L (HashHead h)) < NR_MAX_FILE + 1"
  proof -
    have "length (bucket s h) \<le> nat (fm_empty s)"
      unfolding bucket_def using length_filter_le [of _ "[0..<nat (fm_empty s)]"] by simp
    then show ?thesis using d(6) [OF h(1)] d(9) by (simp add: NR_MAX_FILE_def)
  qed
  have "find (file_named name ?s1) (bucket s h) = map_option FileLink (file_index name s)"
    unfolding bucket_def find_map file_index_def using h(2)
    by (subst find_filter) (auto simp: file_named_def)
  then have scan: "list_foreach_until (NR_MAX_FILE + 1) (heap ?s1) (file_named name ?s1) (HashHead h) =
      Inr (case file_index name s of None \<Rightarrow> HashHead h | Some k \<Rightarrow> FileLink k)"
    using list_foreach_until_rep [OF proc_invD(1) [OF d(1)] d(5) [OF h(1)] len] d(6) [OF h(1)]
    by (simp split: option.splits)
  have c: "current_pid (s\<lparr>intr := relock s\<rparr>) = current_pid s" by (simp add: current_pid_def cong del: bindR_weak_cong)
  show ?thesis
  proof (cases "file_index name s")
    case None
    then show ?thesis using d(4) h(3) v scan by (simp add: do_read_def P_sem_free Let_def)
  next
    case (Some k)
    then have "k < nat (fm_empty s)" by (auto simp: file_index_def find_Some_iff)
    then have "fpos (files s k) = word_of_nat k * NR_FILE_SIZE" by (rule d(10))
    then show ?thesis using Some d(4) h(3) v scan c
      by (simp add: do_read_def P_sem_free Let_def file_no_def cong del: bindR_weak_cong)
  qed
qed

section \<open>Initialisation\<close>

lemma proc_inv_new_sem:
  assumes inv: "proc_inv s H L" and new: "SemBlock x \<notin> linked H L" and x: "\<And>i. x \<noteq> MsgSem i" and v: "0 \<le> v"
  shows "proc_inv (s\<lparr>heap := self_link (SemBlock x) (heap s), token := (token s)(x := v), intr := b\<rparr>)
    (insert (SemBlock x) H) (L(SemBlock x := []))"
proof -
  have n: "SemBlock x \<notin> H" using new by (auto simp: linked_def)
  let ?H = "insert (SemBlock x) H" and ?L = "L(SemBlock x := [])"
  have same: "?L l = L l" if "l \<in> H" for l using that n by auto
  have lk: "linked H L \<subseteq> linked ?H ?L" using n by (auto simp: linked_def split: if_splits)
  have li: "lists_inv ?H ?L" using proc_invD(2) [OF inv] x lk n unfolding lists_inv_def by (auto simp: same)
  have st: "stat_inv (pcb_pool s) ?H ?L" using proc_invD(3) [OF inv] unfolding stat_inv_def by (auto simp: same)
  have se: "sem_inv ((token s)(x := v)) ?H ?L" using proc_invD(4) [OF inv] v unfolding sem_inv_def by auto
  have "current_inv (current s) ?L" using proc_invD(5) [OF inv] by (simp add: current_inv_def)
  then show ?thesis using rep_init [OF proc_invD(1) [OF inv] new] li st se proc_invD(6) [OF inv] by (simp add: proc_inv_def)
qed

definition fm_heads :: "laddr set \<Rightarrow> laddr set" where
  "fm_heads H = HashHead ` {..<4} \<union> insert (SemBlock FmMutex) H"

definition fm_lists :: "(laddr \<Rightarrow> laddr list) \<Rightarrow> laddr \<Rightarrow> laddr list" where
  "fm_lists L l = (if l = SemBlock FmMutex \<or> (\<exists>h<4. l = HashHead h) then [] else L l)"

text \<open>The loop of \<open>init_fm\<close> adds the heads of the hash table as empty lists.\<close>

lemma rep_hash_heads:
  assumes r: "rep h H L" and new: "\<And>k. HashHead k \<notin> linked H L"
  shows "rep (fold (\<lambda>i. self_link (HashHead i)) [0..<n] h) (HashHead ` {..<n} \<union> H) (\<lambda>l. if \<exists>k<n. l = HashHead k then [] else L l)"
proof (induction n)
  case 0
  then show ?case using r by simp
next
  case (Suc n)
  let ?L = "\<lambda>l. if \<exists>k<n. l = HashHead k then [] else L l"
  have "linked (HashHead ` {..<n} \<union> H) ?L \<subseteq> HashHead ` {..<n} \<union> linked H L" by (auto simp: linked_def split: if_splits)
  then have "HashHead n \<notin> linked (HashHead ` {..<n} \<union> H) ?L" using new by auto
  from rep_init [OF Suc this] have "rep (self_link (HashHead n) (fold (\<lambda>i. self_link (HashHead i)) [0..<n] h))
      (insert (HashHead n) (HashHead ` {..<n} \<union> H)) (?L(HashHead n := []))" .
  moreover have "insert (HashHead n) (HashHead ` {..<n} \<union> H) = HashHead ` {..<Suc n} \<union> H" by (auto simp: less_Suc_eq)
  moreover have "?L(HashHead n := []) = (\<lambda>l. if \<exists>k<Suc n. l = HashHead k then [] else L l)" by (auto simp: fun_eq_iff less_Suc_eq)
  ultimately show ?case by simp
qed

lemma linked_fm: "linked (fm_heads H) (fm_lists L) \<subseteq> HashHead ` {..<4} \<union> insert (SemBlock FmMutex) (linked H L)"
  by (auto simp: linked_def fm_lists_def fm_heads_def split: if_splits)

lemma init_table_ok:
  assumes inv: "proc_inv s H L" and new: "\<And>a. a = SemBlock FmMutex \<or> (\<exists>h. a = HashHead h) \<or> (\<exists>k. a = FileLink k) \<Longrightarrow> a \<notin> linked H L"
    and e: "fm_empty s = 0"
  obtains s' where "init_table s = Inr s'" and "fm_inv s' (fm_heads H) (fm_lists L)"
    and "s' = s\<lparr>heap := heap s', token := (token s)(FmMutex := 1), intr := relock s\<rparr>"
proof -
  let ?hm = "self_link (SemBlock FmMutex) (heap s)" and ?Hm = "insert (SemBlock FmMutex) H" and ?Lm = "L(SemBlock FmMutex := [])"
  let ?t = "s\<lparr>heap := ?hm, token := (token s)(FmMutex := 1), intr := relock s\<rparr>"
  define h where "h = fold (\<lambda>i. self_link (HashHead i)) [0..<4] ?hm"
  define s' where "s' = s\<lparr>heap := h, token := (token s)(FmMutex := 1), intr := relock s\<rparr>"
  have pi: "proc_inv ?t ?Hm ?Lm" by (rule proc_inv_new_sem [OF inv]) (use new in auto)
  have lk: "linked ?Hm ?Lm \<subseteq> insert (SemBlock FmMutex) (linked H L)" by (auto simp: linked_def split: if_splits)
  have "HashHead k \<notin> linked ?Hm ?Lm" for k using lk new by auto
  note r = rep_hash_heads [OF proc_invD(1) [OF pi] this, of 4]
  have L: "(\<lambda>l. if \<exists>k<4. l = HashHead k then [] else ?Lm l) = fm_lists L" by (auto simp: fm_lists_def fun_eq_iff)
  have rh: "rep h (fm_heads H) (fm_lists L)" using r unfolding L h_def fm_heads_def by simp
  have pi': "proc_inv s' (fm_heads H) (fm_lists L)"
  proof (rule proc_inv_side [OF pi])
    fix l assume l: "l \<in> fm_heads H" "side_list l"
    show "set (fm_lists L l) \<subseteq> Collect is_node - range PcbList"
    proof (cases "l \<in> ?Hm")
      case True
      with side_nodes [OF proc_invD(2) [OF pi] _ l(2)] show ?thesis by (auto simp: fm_lists_def split: if_splits)
    next
      case False
      with l show ?thesis by (auto simp: fm_heads_def fm_lists_def)
    qed
  qed (use rh in \<open>auto simp: s'_def fm_heads_def fm_lists_def side_list_def\<close>)
  have loop: "forR (\<lambda>i s. on_heap (list_init (Some (HashHead i))) s) [0..<n] t =
      Inr (t\<lparr>heap := fold (\<lambda>i. self_link (HashHead i)) [0..<n] (heap t)\<rparr>)" for n and t :: "'a kfm_scheme"
    by (induction n) (simp_all add: forR_append on_heap_def)
  have "nxt h (SemBlock FmMutex) = Some (SemBlock FmMutex)"
    using rep_empty_iff [OF rh, of "SemBlock FmMutex"] by (simp add: fm_heads_def fm_lists_def)
  then have "init_table s = Inr s'"
    by (simp add: init_table_def create_sem_eq P_sem_free loop V_sem_none_waiting HASH_TABLE_SIZE_def h_def [symmetric] s'_def
        relock_def del: upt_Suc)
  moreover have "range FileLink \<inter> linked (fm_heads H) (fm_lists L) = {}"
    using linked_fm [of H L] new by blast
  then have "fm_inv s' (fm_heads H) (fm_lists L)"
    using pi' e by (auto simp: fm_inv_def fm_heads_def fm_lists_def bucket_def s'_def)
  moreover have "heap s' = h" by (simp add: s'_def)
  then have "s' = s\<lparr>heap := heap s', token := (token s)(FmMutex := 1), intr := relock s\<rparr>" by (simp only: s'_def)
  ultimately show thesis by (intro that)
qed

section \<open>Properties\<close>

text \<open>
  C12: the file manager is a table of files in the order of their creation.  Creating a file
  appends it, and keeps the table consistent; a read of a file is a read of the RAM disk at
  the offset in the stretch of the first file of that name, and panics when there is none; the
  mutex is free again in every case.
\<close>

theorem file_manager_refines:
  assumes "fm_inv s H L" and "0 \<le> sint name"
  shows "(fm_empty s < 8 \<longrightarrow>
      (\<exists>s' L'. do_new_file name s = Inr (Returned s') \<and> fm_inv s' H L' \<and> file_names s' = file_names s @ [name])) \<and>
    do_read name b off len s =
      (if name \<in> set (file_names s) then bindR (current_pid s) (\<lambda>self.
         dev_read ''ram'' self b (word_of_nat (the (file_index name s)) * NR_FILE_SIZE + off) len (s\<lparr>intr := relock s\<rparr>))
       else Inl (Panic ''There is no file''))"
  using do_new_file_ok [OF assms(1) _ assms(2)] do_read_eq [OF assms, of b off len] file_index_None [of name s]
  by (cases "file_index name s") (auto cong del: bindR_weak_cong)

text \<open>
  C38: when the file manager writes outside its tables.  Neither limit is checked: the ninth
  file is written past the table of files, and, while there is room, a negative number that is
  no multiple of four has a negative hash and is linked to a list head before the table of
  hashes.  Every other number, the negative multiples of four included, is stored.
\<close>

theorem file_manager_overruns:
  assumes "fm_inv s H L"
  shows "(fm_empty s = 8 \<longrightarrow> do_new_file name s = Inl (OutOfBounds ''file'')) \<and>
    (fm_empty s < 8 \<and> sint name < 0 \<and> sint name mod 4 \<noteq> 0 \<longrightarrow>
      do_new_file name s = Inl (OutOfBounds ''ramdisk_hash_table'')) \<and>
    (fm_empty s < 8 \<and> (0 \<le> sint name \<or> sint name mod 4 = 0) \<longrightarrow>
      (\<exists>s' L'. do_new_file name s = Inr (Returned s') \<and> fm_inv s' H L' \<and> file_names s' = file_names s @ [name]))"
proof (intro conjI impI)
  show "do_new_file name s = Inl (OutOfBounds ''file'')" if "fm_empty s = 8"
    using that by (simp add: do_new_file_def NR_MAX_FILE_def)
  show "do_new_file name s = Inl (OutOfBounds ''ramdisk_hash_table'')"
    if a: "fm_empty s < 8 \<and> sint name < 0 \<and> sint name mod 4 \<noteq> 0"
  proof -
    from a have "hash_file_name name = - ((- sint name) mod 4)"
      by (simp add: hash_file_name_def HASH_TABLE_SIZE_def cmod_def cdiv_def minus_mult_div_eq_mod [symmetric])
    also have "\<dots> < 0" using a by (simp add: zmod_zminus1_eq_if)
    finally show ?thesis
      using a fm_invD(4,8) [OF assms] by (simp add: do_new_file_def NR_MAX_FILE_def Let_def P_sem_free hash_head_def)
  qed
  show "\<exists>s' L'. do_new_file name s = Inr (Returned s') \<and> fm_inv s' H L' \<and> file_names s' = file_names s @ [name]"
    if "fm_empty s < 8 \<and> (0 \<le> sint name \<or> sint name mod 4 = 0)"
    using do_new_file_stores [OF assms, of name] that by blast
qed

text \<open>The zero-filled kernel with two threads, in which the table of files is set up.\<close>

definition bss_kfm :: kfm where
  "bss_kfm = ktty.extend bss_ktty (kfm.fields 0 (\<lambda>_. \<lparr>fname = 0, fsize = 0, fpos = 0\<rparr>) 0)"

lemma kcore_more_kfm: "kcore.more s = kcore.more t \<Longrightarrow> fm_empty s = fm_empty t"
  by (cases s rule: kfm.cases_scheme, cases t rule: kfm.cases_scheme) (simp add: kcore.defs)

lemma fm_boot:
  obtains s t where "two_threads bss_kfm = Inr s" and "init_table s = Inr t" and "fm_inv t (fm_heads two_heads) (fm_lists two_lists)"
    and "fm_empty t = 0"
proof -
  have z: "current bss_kfm = idle" "lock_count bss_kfm = 0" "fm_empty bss_kfm = 0"
    by (simp_all add: bss_kfm_def bss_ktty_def bss_kdrv_def bss_kide_def bss_ktimer_def ktty.defs kdrv.defs kfm.defs kide.defs
        ktimer.defs khal.defs bss_khal_def kirq.defs bss_kirq_def kmsg.defs bss_kmsg_def kcore.defs bss_kcore_def)
  obtain s where s: "two_threads bss_kfm = Inr s" "proc_inv s two_heads two_lists" "kcore.more s = kcore.more bss_kfm"
    by (rule two_threads_ok [OF z(1,2)])
  have e: "fm_empty s = 0" using kcore_more_kfm [OF s(3)] z(3) by simp
  have "a \<notin> linked two_heads two_lists"
    if "a = SemBlock FmMutex \<or> (\<exists>h. a = HashHead h) \<or> (\<exists>k. a = FileLink k)" for a
    using that two_linked by (auto simp: two_heads_def born_heads_def boot_heads_def)
  from init_table_ok [OF s(2) this e] obtain t where "init_table s = Inr t" "fm_inv t (fm_heads two_heads) (fm_lists two_lists)"
    "t = s\<lparr>heap := heap t, token := (token s)(FmMutex := 1), intr := relock s\<rparr>" by blast
  moreover from arg_cong [OF this(3), of fm_empty] have "fm_empty t = 0" by (simp add: e)
  ultimately show thesis using s(1) by (intro that)
qed

theorem file_manager_refines_witness:
  "\<exists>s t u :: kfm. two_threads bss_kfm = Inr s \<and> init_table s = Inr t \<and> do_new_file 5 t = Inr (Returned u) \<and>
     file_names u = [5] \<and> do_read 5 0x1000 0 4 t = Inl (Panic ''There is no file'')"
proof (rule fm_boot)
  fix s t assume s: "two_threads bss_kfm = Inr s" "init_table s = Inr t" "fm_inv t (fm_heads two_heads) (fm_lists two_lists)"
    "fm_empty t = 0"
  have "file_names t = []" by (simp add: file_names_def s(4))
  with file_manager_refines [OF s(3), of 5 "0x1000" 0 4] s show ?thesis by auto
qed

theorem file_manager_overruns_witness:
  "\<exists>s t :: kfm. two_threads bss_kfm = Inr s \<and> init_table s = Inr t \<and>
     do_new_file (- 1) t = Inl (OutOfBounds ''ramdisk_hash_table'') \<and>
     (\<exists>u. do_new_file (- 4) t = Inr (Returned u) \<and> file_names u = [- 4])"
proof (rule fm_boot)
  fix s t assume s: "two_threads bss_kfm = Inr s" "init_table s = Inr t" "fm_inv t (fm_heads two_heads) (fm_lists two_lists)"
    "fm_empty t = 0"
  have "file_names t = []" by (simp add: file_names_def s(4))
  with s file_manager_overruns [OF s(3), of "- 1"] file_manager_overruns [OF s(3), of "- 4"] show ?thesis by auto
qed

end
