(* ===== verification/Mm.thy ===== *)
theory Mm
  imports Fm
begin

text \<open>
  The memory manager, \<open>service/mm.c\<close>: address spaces for user processes.  The page tables are
  words of the physical memory \<open>page_mem\<close>.  The kernel reaches the static table
  \<open>vmem_table\<close> through the window at \<open>KOFFSET\<close>, and uses the physical addresses it finds in
  \<open>cr3\<close> and in directory entries as pointers, through the identity mapping of the low
  memory; the theorem on \<open>init_page\<close> in \<open>Memory\<close> shows that the kernel's tables map both.
\<close>

section \<open>mm.c\<close>

definition N_KERNEL_PTE :: int where
  "N_KERNEL_PTE = 16 * 1024 * 4096 div int PD_SIZE"

definition MM_NEW_PROC :: u32 where
  "MM_NEW_PROC = 515"

definition MM_NEW_PAGE :: u32 where
  "MM_NEW_PAGE = 516"

record kmm = kfm +
  MM :: pid_t
  PM :: pid_t
  vmem_free :: int
  page_mem :: phys_mem

text \<open>
  An entry of \<open>vmem_table\<close> is three pages long: \<open>cr3\<close>, padded, the directory and one table.
  \<open>vt\<close> is the address of the table, \<open>kpdir\<close> that of the kernel's directory.
\<close>

definition VMemInfo :: "u32 \<Rightarrow> int \<Rightarrow> u32" where
  "VMemInfo vt n = vt + word_of_int (3 * 4096 * n)"

definition vm_pdir :: "u32 \<Rightarrow> u32" where
  "vm_pdir p = p + 4096"

definition vm_ptable :: "u32 \<Rightarrow> u32" where
  "vm_ptable p = p + 8192"

definition copy_pde :: "u32 \<Rightarrow> u32 \<Rightarrow> nat \<Rightarrow> phys_mem \<Rightarrow> phys_mem" where
  "copy_pde d k i ph = ph(entry_at d (i + unat KOFFSET div PD_SIZE) := ph (entry_at k (i + unat KOFFSET div PD_SIZE)))"

definition do_new_proc_vmem :: "u32 \<Rightarrow> u32 \<Rightarrow> 'a kmm_scheme \<Rightarrow> (u32 \<times> 'a kmm_scheme) res" where
  "do_new_proc_vmem vt kpdir s =
     (if vmem_free s < 0 \<or> N_KERNEL_PTE \<le> vmem_free s then Inl (OutOfBounds ''vmem_table'')
      else
        let p = VMemInfo vt (vmem_free s);
            s = s\<lparr>vmem_free := vmem_free s + 1\<rparr>;
            cr3_val = set_page_directory_base (drop_bit 12 (va_to_pa (vm_pdir p))) 0;
            ph = (page_mem s)(va_to_pa p := cr3_val);
            ph = fold (\<lambda>pdir_idx. make_pde (entry_at (va_to_pa (vm_pdir p)) pdir_idx) (va_to_pa (vm_ptable p))) [0..<NR_PDE] ph;
            ph = fold (copy_pde (va_to_pa (vm_pdir p)) (va_to_pa kpdir)) [0..<16] ph in
        Inr (cr3_val, s\<lparr>page_mem := ph\<rparr>))"

text \<open>The size is not used.\<close>

definition do_allocate_new_pages :: "pid_t \<Rightarrow> u32 \<Rightarrow> 'a kmm_scheme \<Rightarrow> (u32 \<times> 'a kmm_scheme) res" where
  "do_allocate_new_pages p va s =
     (if PCB_POOL_SIZE \<le> unat p then Inl (OutOfBounds ''pcb_pool'')
      else
        let cr3_val = PCB.cr3 (pcb_pool s (unat p));
            pde = (cr3_val AND NOT 0xfff) + 4 * drop_bit 22 va;
            ptable = page_mem s pde AND NOT 0xfff;
            ph = fold (\<lambda>ptable_idx. make_pte (entry_at ptable ptable_idx)
                   (push_bit 20 (word_of_int (32 + vmem_free s * 4)) + push_bit 12 (word_of_nat ptable_idx))) [0..<NR_PTE] (page_mem s);
            pa = (ph (entry_at ptable (unat (drop_bit 12 va AND 0x3ff))) AND NOT 0x3ff) + (va AND 0xfff) in
        Inr (pa, s\<lparr>page_mem := ph\<rparr>))"

definition mm_answer :: "u32 \<Rightarrow> Msg \<Rightarrow> 'a kmm_scheme \<Rightarrow> 'a kmm_scheme res" where
  "mm_answer ret m s =
     (let m = m\<lparr>mtype := ret, dest := PM s, src := MM s\<rparr> in
      bindR (send (dest m) m s) (\<lambda>(_, s). Inr s))"

text \<open>The body of the loop of \<open>mm_thread\<close>; \<open>m.i[0]\<close> is the word \<open>req_pid\<close>.\<close>

definition mm_thread :: "u32 \<Rightarrow> u32 \<Rightarrow> Msg \<Rightarrow> 'a kmm_scheme \<Rightarrow> 'a kmm_scheme res" where
  "mm_thread vt kpdir m s =
     (if mtype m = MM_NEW_PROC then
        bindR (do_new_proc_vmem vt kpdir s) (\<lambda>(ret, s). mm_answer ret m s)
      else if mtype m = MM_NEW_PAGE then
        bindR (do_allocate_new_pages (src m) (req_pid m) s) (\<lambda>(ret, s). mm_answer ret m s)
      else Inl (AssertFail ''0''))"

definition init_mm :: "u32 \<Rightarrow> (nat \<Rightarrow> u32) \<Rightarrow> 'a kmm_scheme \<Rightarrow> 'a kmm_scheme res" where
  "init_mm entry args s =
     bindR (create_kthread entry args s) (\<lambda>(p, s).
     let s = s\<lparr>MM := pid (pcb_pool s p)\<rparr> in
     wakeup (Some (PcbList p)) s)"

section \<open>The address space of a process\<close>

text \<open>Where user addresses of the process with entry \<open>n\<close> go: into its four megabytes.\<close>

definition user_frame :: "int \<Rightarrow> u32 \<Rightarrow> u32" where
  "user_frame n x = push_bit 20 (word_of_int (32 + (n + 1) * 4)) + (x AND 0x3FFFFF)"

definition kernel_window :: "u32 \<Rightarrow> bool" where
  "kernel_window x \<longleftrightarrow> 768 \<le> unat (drop_bit 22 x) \<and> unat (drop_bit 22 x) < 784"

text \<open>
  Entry \<open>n\<close> of the table is aligned, apart from the kernel's tables, which map the memory as
  \<open>init_page\<close> made them.
\<close>

definition vm_ready :: "u32 \<Rightarrow> u32 \<Rightarrow> u32 \<Rightarrow> 'a kmm_scheme \<Rightarrow> bool" where
  "vm_ready vt kpdir kpt s \<longleftrightarrow>
     0 \<le> vmem_free s \<and> vmem_free s < 16 \<and>
     (let p = va_to_pa (VMemInfo vt (vmem_free s)) in
      page_aligned p \<and> entries p 3072 \<inter> (entries (va_to_pa kpdir) 1024 \<union> entries kpt 32768) = {}) \<and>
     page_aligned kpt \<and> filled (va_to_pa kpdir) kpt 32 (page_mem s)"

lemma split_22: "push_bit 12 (drop_bit 12 x AND 0x3FF) + (x AND 0xFFF) = (x :: u32) AND 0x3FFFFF"
proof -
  have m: "(0x3FFFFF :: u32) = mask 22" by (simp add: mask_eq_exp_minus_1)
  have "x AND 0x3FFFFF = push_bit 12 (drop_bit 12 (take_bit 22 x)) + take_bit 12 (take_bit 22 x)"
    by (simp only: bits_ident m flip: take_bit_eq_mask)
  also have "drop_bit 12 (take_bit 22 x) = take_bit 10 (drop_bit 12 x)" by (simp add: drop_bit_take_bit)
  also have "take_bit 12 (take_bit 22 x) = take_bit 12 x" by simp
  finally show ?thesis by (simp only: page_mask take_bit_eq_mask)
qed

lemma page_base: "set_page_directory_base (drop_bit 12 a) 0 = a AND 0xFFFFF000"
  unfolding set_page_directory_base_def page_mask(2) by (rule bit_word_eqI) (auto simp: bit_set_bits bit_simps)

lemma not_masks: "(NOT 0xfff :: u32) = 0xFFFFF000"
  by simp

lemma page_entry_1k: "page_aligned a \<Longrightarrow> page_entry a AND NOT 0x3ff = a"
proof -
  assume "page_aligned a"
  then have t: "take_bit 12 a = 0" by (simp add: page_aligned_def page_mask(1) take_bit_eq_mask)
  have s: "(7 :: u32) = mask 3" by (simp add: mask_eq_exp_minus_1)
  show "page_entry a AND NOT 0x3ff = a"
  proof (rule bit_word_eqI)
    fix n assume "n < LENGTH(32)"
    then show "bit (page_entry a AND NOT 0x3ff) n = bit a n"
      using arg_cong [OF t, of "\<lambda>w. bit w n"] unfolding page_entry_def page_mask(2,3) s by (auto simp: bit_simps)
  qed
qed

text \<open>The directory and the table of a new process.\<close>

lemma make_pde_fun: "make_pde p a = (\<lambda>ph. ph(p := page_entry a))"
  by (simp add: fun_eq_iff make_pde_eq)

lemma make_pte_fun: "make_pte p a = (\<lambda>ph. ph(p := page_entry a))"
  by (simp add: fun_eq_iff make_pte_eq)

lemma copy_pdes_out: "n \<le> 16 \<Longrightarrow> a \<notin> entries d 1024 \<Longrightarrow> fold (copy_pde d k) [0..<n] ph a = ph a"
  by (induction n) (auto simp: copy_pde_def KOFFSET_pdes entries_def)

lemma copy_pdes_in:
  assumes "n \<le> 16" and "entries d 1024 \<inter> entries k 1024 = {}" and "i < 1024"
  shows "fold (copy_pde d k) [0..<n] ph (entry_at d i) = (if 768 \<le> i \<and> i < 768 + n then ph (entry_at k i) else ph (entry_at d i))"
  using assms(1)
proof (induction n)
  case (Suc n)
  have "entry_at k (n + 768) \<in> entries k 1024" using Suc.prems by (intro entry_in_entries) simp
  then have k: "fold (copy_pde d k) [0..<n] ph (entry_at k (n + 768)) = ph (entry_at k (n + 768))"
    using assms(2) Suc.prems by (intro copy_pdes_out) auto
  have "fold (copy_pde d k) [0..<Suc n] ph (entry_at d i) =
      (if i = n + 768 then ph (entry_at k (n + 768)) else fold (copy_pde d k) [0..<n] ph (entry_at d i))"
    using Suc.prems assms(3) k by (simp add: copy_pde_def KOFFSET_pdes entry_at_inj)
  then show ?case using Suc by auto
qed auto

text \<open>The three parts of an entry do not overlap.\<close>

lemma entries_apart:
  assumes "i + m \<le> j" and "j + n \<le> 3072"
  shows "entries (entry_at p i) m \<inter> entries (entry_at p j) n = {}"
  using assms by (auto simp: entries_def entry_at_add entry_at_inj)

lemma entries_within: "i + m \<le> n \<Longrightarrow> entries (entry_at p i) m \<subseteq> entries p n"
  by (auto simp: entries_def entry_at_add)

lemma vm_parts:
  "va_to_pa (vm_pdir p) = entry_at (va_to_pa p) 1024" "va_to_pa (vm_ptable p) = entry_at (va_to_pa p) 2048"
  "va_to_pa p = entry_at (va_to_pa p) 0"
  by (simp_all add: va_to_pa_def vm_pdir_def vm_ptable_def entry_at_def)

text \<open>After \<open>do_new_proc_vmem\<close>: the directory \<open>d\<close> of the new process, with its table \<open>t\<close>.\<close>

definition new_space :: "u32 \<Rightarrow> u32 \<Rightarrow> u32 \<Rightarrow> phys_mem \<Rightarrow> bool" where
  "new_space d t kpt ph \<longleftrightarrow>
     (\<forall>i<1024. ph (entry_at d i) = (if 768 \<le> i \<and> i < 784 then page_entry (entry_at kpt (1024 * (i - 768))) else page_entry t)) \<and>
     (\<forall>j<1024 * 32. ph (entry_at kpt j) = page_entry (push_bit 12 (word_of_nat j)))"

lemma do_new_proc_vmem_ok:
  assumes r: "vm_ready vt kpdir kpt s"
  defines "p \<equiv> va_to_pa (VMemInfo vt (vmem_free s))"
  obtains s' where "do_new_proc_vmem vt kpdir s = Inr (entry_at p 1024, s')"
    and "new_space (entry_at p 1024) (entry_at p 2048) kpt (page_mem s')" and "vmem_free s' = vmem_free s + 1"
    and "s' = s\<lparr>vmem_free := vmem_free s + 1, page_mem := page_mem s'\<rparr>"
proof -
  let ?d = "entry_at p 1024" and ?t = "entry_at p 2048" and ?k = "va_to_pa kpdir"
  have v: "0 \<le> vmem_free s" "vmem_free s < 16" "page_aligned p" "filled ?k kpt 32 (page_mem s)"
    and dis: "entries p 3072 \<inter> (entries ?k 1024 \<union> entries kpt 32768) = {}"
    using r by (simp_all add: vm_ready_def p_def Let_def)
  define ph0 where "ph0 = (page_mem s)(p := ?d)"
  define ph1 where "ph1 = fold (\<lambda>i ph. ph(entry_at ?d i := page_entry ?t)) [0..<1024] ph0"
  define ph2 where "ph2 = fold (copy_pde ?d ?k) [0..<16] ph1"
  define s' where "s' = s\<lparr>vmem_free := vmem_free s + 1, page_mem := ph2\<rparr>"
  have al: "page_aligned ?d" using page_aligned_entry [OF v(3), of 1] by simp
  have eq: "do_new_proc_vmem vt kpdir s = Inr (?d, s')"
    using v(1,2) by (simp add: do_new_proc_vmem_def N_KERNEL_PTE_def PD_SIZE_def NR_PTE_def NR_PDE_def PAGE_SIZE_def Let_def vm_parts(1,2)
      p_def [symmetric] page_base page_alignedD [OF al] make_pde_fun ph0_def ph1_def ph2_def s'_def)
  have in3: "entries ?d 1024 \<subseteq> entries p 3072" "p \<in> entries p 3072"
    using entries_within [of 1024 1024 3072 p] entry_in_entries [of 0 3072 p] by (simp_all add: entry_at_def)
  have out: "ph2 a = page_mem s a" if "a \<notin> entries p 3072" for a
  proof -
    have "a \<notin> entries ?d 1024" "a \<noteq> p" using that in3 by auto
    then show ?thesis by (simp add: ph2_def copy_pdes_out ph1_def fold_entries_out ph0_def)
  qed
  have k: "ph1 (entry_at ?k i) = page_mem s (entry_at ?k i)" if "i < 1024" for i
  proof -
    have "entry_at ?k i \<in> entries ?k 1024" using that by (rule entry_in_entries)
    then have "entry_at ?k i \<notin> entries ?d 1024" "entry_at ?k i \<noteq> p" using dis in3 by auto
    then show ?thesis by (simp add: ph1_def fold_entries_out ph0_def)
  qed
  have "ph2 (entry_at ?d i) = (if 768 \<le> i \<and> i < 784 then page_entry (entry_at kpt (1024 * (i - 768))) else page_entry ?t)" if "i < 1024" for i
  proof -
    have "ph1 (entry_at ?d i) = page_entry ?t" unfolding ph1_def using that by (intro fold_entries_in) simp_all
    moreover have "page_mem s (entry_at ?k i) = page_entry (entry_at kpt (1024 * (i - 768)))" if "768 \<le> i" "i < 784"
      using v(4) that \<open>i < 1024\<close> by (simp add: filled_def)
    moreover have "entries ?d 1024 \<inter> entries ?k 1024 = {}" using dis in3 by blast
    ultimately show ?thesis unfolding ph2_def using copy_pdes_in [of 16 ?d ?k i ph1] that k [OF that] by auto
  qed
  moreover have "ph2 (entry_at kpt j) = page_entry (push_bit 12 (word_of_nat j))" if "j < 1024 * 32" for j
  proof -
    have "entry_at kpt j \<in> entries kpt 32768" using that by (intro entry_in_entries) simp
    then have "entry_at kpt j \<notin> entries p 3072" using dis by blast
    then show ?thesis using out v(4) that by (simp add: filled_def)
  qed
  ultimately have "new_space ?d ?t kpt (page_mem s')" by (simp add: new_space_def s'_def)
  with eq show thesis by (intro that [of s']) (simp_all add: s'_def)
qed

text \<open>After \<open>do_allocate_new_pages\<close>: the table maps the four megabytes, and the directory is as before.\<close>

definition user_space :: "u32 \<Rightarrow> u32 \<Rightarrow> u32 \<Rightarrow> u32 \<Rightarrow> phys_mem \<Rightarrow> bool" where
  "user_space d t kpt base ph \<longleftrightarrow>
     new_space d t kpt ph \<and> (\<forall>j<1024. ph (entry_at t j) = page_entry (base + push_bit 12 (word_of_nat j)))"

lemma base_aligned: "page_aligned (push_bit 20 w + push_bit 12 v)"
proof -
  have "push_bit 20 w + push_bit 12 v = push_bit 12 (256 * w + v)" by (simp add: push_bit_eq_mult algebra_simps)
  then show ?thesis using page_aligned_frame by simp
qed

lemma do_allocate_ok:
  assumes sp: "new_space d t kpt (page_mem s)" and al: "page_aligned d" "page_aligned t"
    and p: "unat p < PCB_POOL_SIZE" "PCB.cr3 (pcb_pool s (unat p)) = d" and va: "\<not> kernel_window va"
    and dis: "entries t 1024 \<inter> (entries d 1024 \<union> entries kpt 32768) = {}"
  obtains s' where "do_allocate_new_pages p va s =
      Inr (push_bit 20 (word_of_int (32 + vmem_free s * 4)) + (va AND 0x3FFFFF), s')"
    and "user_space d t kpt (push_bit 20 (word_of_int (32 + vmem_free s * 4))) (page_mem s')"
    and "s' = s\<lparr>page_mem := page_mem s'\<rparr>"
proof -
  let ?b = "push_bit 20 (word_of_int (32 + vmem_free s * 4)) :: u32"
  let ?i = "unat (drop_bit 22 va)" and ?j = "unat (drop_bit 12 va AND 0x3FF)"
  note v = va_split [of va]
  define ph where "ph = fold (\<lambda>j ph. ph(entry_at t j := page_entry (?b + push_bit 12 (word_of_nat j)))) [0..<1024] (page_mem s)"
  define s' where "s' = s\<lparr>page_mem := ph\<rparr>"
  have "page_mem s (entry_at d ?i) = page_entry t"
    using sp v(2) va by (auto simp: new_space_def kernel_window_def)
  then have pt: "page_mem s ((d AND NOT 0xfff) + 4 * drop_bit 22 va) AND NOT 0xfff = t"
    by (simp only: not_masks page_alignedD [OF al(1)] entry_at_unat page_entry_frame page_alignedD [OF al(2)])
  have tab: "ph (entry_at t j) = page_entry (?b + push_bit 12 (word_of_nat j))" if "j < 1024" for j
    unfolding ph_def using that by (intro fold_entries_in) simp_all
  have "ph (entry_at t ?j) AND NOT 0x3ff = ?b + push_bit 12 (drop_bit 12 va AND 0x3FF)"
    unfolding tab [OF v(3)] page_entry_1k [OF base_aligned] by simp
  then have pa: "(ph (entry_at t ?j) AND NOT 0x3ff) + (va AND 0xfff) = ?b + (va AND 0x3FFFFF)"
    by (simp only: add.assoc split_22)
  have eq: "do_allocate_new_pages p va s = Inr (?b + (va AND 0x3FFFFF), s')"
    unfolding do_allocate_new_pages_def Let_def p(2) pt make_pte_fun NR_PTE_def ph_def [symmetric] pa s'_def using p(1) by simp
  have out: "ph a = page_mem s a" if "a \<notin> entries t 1024" for a unfolding ph_def by (rule fold_entries_out [OF that])
  have "ph (entry_at d i) = page_mem s (entry_at d i)" if "i < 1024" for i
  proof (rule out)
    have "entry_at d i \<in> entries d 1024" by (rule entry_in_entries [OF that])
    then show "entry_at d i \<notin> entries t 1024" using dis by blast
  qed
  moreover have "ph (entry_at kpt j) = page_mem s (entry_at kpt j)" if "j < 1024 * 32" for j
  proof (rule out)
    have "entry_at kpt j \<in> entries kpt 32768" using that by (intro entry_in_entries) simp
    then show "entry_at kpt j \<notin> entries t 1024" using dis by blast
  qed
  ultimately have "user_space d t kpt ?b (page_mem s')" using sp tab by (simp add: user_space_def new_space_def s'_def)
  with eq show thesis by (intro that [of s']) (simp_all add: s'_def)
qed

lemma translate_user:
  assumes sp: "user_space d t kpt (push_bit 20 w) ph" and al: "page_aligned d" "page_aligned t" "page_aligned kpt"
  shows "translate ph d x = Some (if kernel_window x then x - KOFFSET else push_bit 20 w + (x AND 0x3FFFFF))"
proof -
  let ?i = "unat (drop_bit 22 x)" and ?j = "unat (drop_bit 12 x AND 0x3FF)"
  note v = va_split [of x]
  have pde: "ph (entry_at (d AND 0xFFFFF000) ?i) = (if kernel_window x then page_entry (entry_at kpt (1024 * (?i - 768))) else page_entry t)"
    using sp v(2) by (simp add: user_space_def new_space_def kernel_window_def page_alignedD [OF al(1)])
  have hit: "translate ph d x = Some (f + (x AND 0xFFF))"
    if "ph (entry_at (d AND 0xFFFFF000) ?i) = page_entry u" "page_aligned u" "ph (entry_at u ?j) = page_entry f" "page_aligned f" for u f
    using that by (simp only: translate_def Let_def page_entry_present page_entry_frame page_alignedD entry_at_unat not_True_eq_False if_False)
  show ?thesis
  proof (cases "kernel_window x")
    case True
    let ?m = "1024 * (?i - 768) + ?j"
    have "?m < 1024 * 32" using True v(3) unfolding kernel_window_def by linarith
    then have "ph (entry_at (entry_at kpt (1024 * (?i - 768))) ?j) = page_entry (push_bit 12 (word_of_nat ?m))"
      using sp by (simp add: entry_at_add user_space_def new_space_def del: of_nat_add of_nat_mult)
    moreover have "push_bit 12 (word_of_nat ?m) + (x AND 0xFFF) = x - KOFFSET"
    proof -
      have "1024 * ?i + ?j = ?m + 786432" using True unfolding kernel_window_def by linarith
      then have "push_bit 12 (word_of_nat (1024 * ?i + ?j)) = push_bit 12 (word_of_nat ?m) + (KOFFSET :: u32)"
        by (simp add: push_bit_eq_mult KOFFSET_def algebra_simps)
      then show ?thesis using v(4) by (simp add: algebra_simps)
    qed
    ultimately show ?thesis
      using hit [OF _ page_aligned_entry [OF al(3)] _ page_aligned_frame, of "?i - 768" "word_of_nat ?m"] pde True by simp
  next
    case False
    have "ph (entry_at t ?j) = page_entry (push_bit 20 w + push_bit 12 (word_of_nat ?j))"
      using sp v(3) by (simp only: user_space_def)
    then have "ph (entry_at t ?j) = page_entry (push_bit 20 w + push_bit 12 (drop_bit 12 x AND 0x3FF))" by simp
    moreover have "ph (entry_at (d AND 0xFFFFF000) ?i) = page_entry t" using pde False by simp
    ultimately have "translate ph d x = Some (push_bit 20 w + push_bit 12 (drop_bit 12 x AND 0x3FF) + (x AND 0xFFF))"
      by (intro hit [OF _ al(2) _ base_aligned])
    then show ?thesis by (simp only: False if_False add.assoc split_22)
  qed
qed

lemma user_frame_unat:
  assumes "0 \<le> n" and "n < 16"
  shows "unat (user_frame n x) = (36 + 4 * nat n) * 1048576 + unat (x AND 0x3FFFFF)" and "unat (x AND 0x3FFFFF) < 4194304"
proof -
  have "x AND 0x3FFFFF = take_bit 22 x" by (simp add: take_bit_eq_mask mask_eq_exp_minus_1)
  then show lt: "unat (x AND 0x3FFFFF) < 4194304" by (simp add: take_bit_eq_mod unat_mod_distrib)
  have "push_bit 20 (word_of_int (32 + (n + 1) * 4)) = (word_of_nat ((36 + 4 * nat n) * 1048576) :: u32)"
    using assms(1) by (simp add: push_bit_eq_mult algebra_simps)
  then have "user_frame n x = word_of_nat ((36 + 4 * nat n) * 1048576) + (x AND 0x3FFFFF)" by (simp add: user_frame_def)
  moreover have "unat (word_of_nat ((36 + 4 * nat n) * 1048576) :: u32) = (36 + 4 * nat n) * 1048576"
    using assms by (intro unat_of_nat_u32) simp
  ultimately show "unat (user_frame n x) = (36 + 4 * nat n) * 1048576 + unat (x AND 0x3FFFFF)"
    using unat_plus_u32 [of "word_of_nat ((36 + 4 * nat n) * 1048576)" "x AND 0x3FFFFF"] lt assms by simp
qed

text \<open>
  Process \<open>p\<close> has an address space of its own: \<open>do_new_proc_vmem\<close> has made the directory
  \<open>d\<close> with the table \<open>t\<close>, and the PCB holds its address.
\<close>

definition has_space :: "pid_t \<Rightarrow> u32 \<Rightarrow> u32 \<Rightarrow> u32 \<Rightarrow> 'a kmm_scheme \<Rightarrow> bool" where
  "has_space p d t kpt s \<longleftrightarrow>
     new_space d t kpt (page_mem s) \<and> page_aligned d \<and> page_aligned t \<and> page_aligned kpt \<and>
     unat p < PCB_POOL_SIZE \<and> PCB.cr3 (pcb_pool s (unat p)) = d \<and>
     entries t 1024 \<inter> (entries d 1024 \<union> entries kpt 32768) = {}"

lemma allocate_at:
  assumes "has_space p d t kpt s" and "\<not> kernel_window va"
  obtains s' where "do_allocate_new_pages p va s = Inr (user_frame (vmem_free s - 1) va, s')"
    and "\<forall>x. \<not> kernel_window x \<longrightarrow> translate (page_mem s') d x = Some (user_frame (vmem_free s - 1) x)"
proof -
  have f: "push_bit 20 (word_of_int (32 + vmem_free s * 4)) + (x AND 0x3FFFFF) = user_frame (vmem_free s - 1) x" for x
    by (simp add: user_frame_def)
  have h: "new_space d t kpt (page_mem s)" "page_aligned d" "page_aligned t" "page_aligned kpt" "unat p < PCB_POOL_SIZE"
    "PCB.cr3 (pcb_pool s (unat p)) = d" "entries t 1024 \<inter> (entries d 1024 \<union> entries kpt 32768) = {}"
    using assms(1) unfolding has_space_def by blast+
  obtain s' where a: "do_allocate_new_pages p va s = Inr (push_bit 20 (word_of_int (32 + vmem_free s * 4)) + (va AND 0x3FFFFF), s')"
    "user_space d t kpt (push_bit 20 (word_of_int (32 + vmem_free s * 4))) (page_mem s')"
    by (rule do_allocate_ok [OF h(1-3,5,6) assms(2) h(7)])
  have "translate (page_mem s') d x = Some (user_frame (vmem_free s - 1) x)" if "\<not> kernel_window x" for x
    unfolding translate_user [OF a(2) h(2-4)] f using that by simp
  with a(1) show thesis unfolding f by (intro that [of s']) simp_all
qed

lemma new_proc_has_space:
  assumes "vm_ready vt kpdir kpt s" and "unat p < PCB_POOL_SIZE"
  obtains d t s' where "do_new_proc_vmem vt kpdir s = Inr (d, s')" and "vmem_free s' = vmem_free s + 1"
    and "has_space p d t kpt (upd_pcb (unat p) (\<lambda>q. q\<lparr>PCB.cr3 := d\<rparr>) s')"
proof -
  define e where "e = va_to_pa (VMemInfo vt (vmem_free s))"
  let ?d = "entry_at e 1024" and ?t = "entry_at e 2048"
  obtain s1 where s1: "do_new_proc_vmem vt kpdir s = Inr (?d, s1)" "new_space ?d ?t kpt (page_mem s1)" "vmem_free s1 = vmem_free s + 1"
    using do_new_proc_vmem_ok [OF assms(1)] unfolding e_def by blast
  have r: "page_aligned e" "page_aligned kpt" "entries e 3072 \<inter> entries kpt 32768 = {}"
    using assms(1) by (auto simp: vm_ready_def e_def Let_def)
  have al: "page_aligned ?d" "page_aligned ?t" using page_aligned_entry [OF r(1), of 1] page_aligned_entry [OF r(1), of 2] by simp_all
  have "entries ?t 1024 \<inter> (entries ?d 1024 \<union> entries kpt 32768) = {}"
    using entries_apart [of 1024 1024 2048 1024 e] entries_within [of 2048 1024 3072 e] r(3) by auto
  with s1 al r(2) assms(2) show thesis by (intro that [of ?d s1 ?t]) (simp_all add: has_space_def upd_pcb_def)
qed

text \<open>
  The frames depend on \<open>vmem_free\<close> at the time of the request and on nothing else: when both
  ask under the same count, two processes get the same four megabytes.
\<close>

lemma allocate_shared:
  assumes "has_space p d t kpt s" and "has_space q e u kpt s'" and "vmem_free s' = vmem_free s" and "\<not> kernel_window va"
  shows "\<exists>pa s1 s2. do_allocate_new_pages p va s = Inr (pa, s1) \<and> do_allocate_new_pages q va s' = Inr (pa, s2)"
  using allocate_at [OF assms(1,4)] allocate_at [OF assms(2,4)] assms(3) by metis

lemma address_space:
  assumes "vm_ready vt kpdir kpt s" and "unat p < PCB_POOL_SIZE" and "\<not> kernel_window va"
  shows "\<exists>cr s1 s2. do_new_proc_vmem vt kpdir s = Inr (cr, s1) \<and>
    do_allocate_new_pages p va (upd_pcb (unat p) (\<lambda>q. q\<lparr>PCB.cr3 := cr\<rparr>) s1) = Inr (user_frame (vmem_free s) va, s2) \<and>
    (\<forall>x. translate (page_mem s2) cr x = Some (if kernel_window x then x - KOFFSET else user_frame (vmem_free s) x))"
proof -
  define e where "e = va_to_pa (VMemInfo vt (vmem_free s))"
  let ?d = "entry_at e 1024" and ?t = "entry_at e 2048"
  obtain s1 where s1: "do_new_proc_vmem vt kpdir s = Inr (?d, s1)" "new_space ?d ?t kpt (page_mem s1)" "vmem_free s1 = vmem_free s + 1"
    using do_new_proc_vmem_ok [OF assms(1)] unfolding e_def by blast
  have r: "page_aligned e" "page_aligned kpt" "entries e 3072 \<inter> entries kpt 32768 = {}"
    using assms(1) by (auto simp: vm_ready_def e_def Let_def)
  have al: "page_aligned ?d" "page_aligned ?t" using page_aligned_entry [OF r(1), of 1] page_aligned_entry [OF r(1), of 2] by simp_all
  have "entries ?t 1024 \<inter> (entries ?d 1024 \<union> entries kpt 32768) = {}"
    using entries_apart [of 1024 1024 2048 1024 e] entries_within [of 2048 1024 3072 e] r(3) by auto
  note alloc = do_allocate_ok [where s = "upd_pcb (unat p) (\<lambda>q. q\<lparr>PCB.cr3 := ?d\<rparr>) s1", OF _ al assms(2) _ assms(3) this]
  obtain s2 where "do_allocate_new_pages p va (upd_pcb (unat p) (\<lambda>q. q\<lparr>PCB.cr3 := ?d\<rparr>) s1) = Inr (user_frame (vmem_free s) va, s2)"
    "user_space ?d ?t kpt (push_bit 20 (word_of_int (32 + (vmem_free s + 1) * 4))) (page_mem s2)"
    by (rule alloc) (use s1 in \<open>simp_all add: upd_pcb_def user_frame_def\<close>)
  then show ?thesis using s1(1) translate_user [OF _ al r(2)] by (auto simp: user_frame_def)
qed

section \<open>Properties\<close>

text \<open>
  C11: a process gets an address space of its own.  \<open>do_new_proc_vmem\<close> followed by
  \<open>do_allocate_new_pages\<close> makes the processor map the 64 megabytes from \<open>KOFFSET\<close> to the
  physical memory, as in the kernel, and every other address into the four megabytes of the
  process, by its last 22 bits: addresses that differ by a multiple of four megabytes are the
  same memory.  The address returned for a segment is where the process will see it.
\<close>

theorem process_address_space:
  assumes "vm_ready vt kpdir kpt s" and "unat p < PCB_POOL_SIZE" and "\<not> kernel_window va"
  shows "\<exists>cr s1 s2. do_new_proc_vmem vt kpdir s = Inr (cr, s1) \<and>
    do_allocate_new_pages p va (upd_pcb (unat p) (\<lambda>q. q\<lparr>PCB.cr3 := cr\<rparr>) s1) = Inr (user_frame (vmem_free s) va, s2) \<and>
    (\<forall>x. translate (page_mem s2) cr x = Some (if kernel_window x then x - KOFFSET else user_frame (vmem_free s) x))"
  using assms by (rule address_space)

text \<open>
  C37: where the memory of a process is.  A request for pages by a process that has an address
  space, made when \<open>n\<close> address spaces exist, returns the physical address at which the process
  will see the page, and puts every address outside the kernel's window into the four
  megabytes from 32 + 4n megabytes on, within the physical memory.  The number is the global
  \<open>vmem_free\<close> at the time of the request: the frames are those of the newest process, also when
  an older one asks (\<open>allocate_shared\<close>).
\<close>

theorem process_memory_bounds:
  assumes "has_space p d t kpt s" and "\<not> kernel_window va" and "1 \<le> vmem_free s" and "vmem_free s \<le> N_KERNEL_PTE"
  shows "\<exists>pa s'. do_allocate_new_pages p va s = Inr (pa, s') \<and> translate (page_mem s') d va = Some pa \<and>
    (\<forall>x. \<not> kernel_window x \<longrightarrow> (\<exists>y. translate (page_mem s') d x = Some y \<and> unat y < PHY_MEM \<and>
       (32 + 4 * nat (vmem_free s)) * 2 ^ 20 \<le> unat y \<and> unat y < (36 + 4 * nat (vmem_free s)) * 2 ^ 20))"
proof -
  obtain s' where s': "do_allocate_new_pages p va s = Inr (user_frame (vmem_free s - 1) va, s')"
    "\<forall>x. \<not> kernel_window x \<longrightarrow> translate (page_mem s') d x = Some (user_frame (vmem_free s - 1) x)"
    by (rule allocate_at [OF assms(1,2)])
  have n: "0 \<le> vmem_free s - 1" "vmem_free s - 1 < 16"
    using assms(3,4) by (simp_all add: N_KERNEL_PTE_def PD_SIZE_def NR_PTE_def PAGE_SIZE_def)
  have m: "nat (vmem_free s - 1) + 1 = nat (vmem_free s)" "nat (vmem_free s) \<le> 16" using n by simp_all
  have "unat (user_frame (vmem_free s - 1) x) < PHY_MEM \<and>
      (32 + 4 * nat (vmem_free s)) * 2 ^ 20 \<le> unat (user_frame (vmem_free s - 1) x) \<and>
      unat (user_frame (vmem_free s - 1) x) < (36 + 4 * nat (vmem_free s)) * 2 ^ 20" for x
    using user_frame_unat [OF n, of x] m by (simp add: PHY_MEM_def)
  then show ?thesis using s' assms(2) by (intro exI [of _ "user_frame (vmem_free s - 1) va"] exI [of _ s']) simp
qed

definition bss_kmm :: kmm where
  "bss_kmm = kfm.extend bss_kfm (kmm.fields 0 0 0 (fst (fill_pdir 0x100000 (\<lambda>_. 0, 0, 0x101000))))"

lemma bss_kmm_ready: "vm_ready 0xC0200000 0xC0100000 0x101000 bss_kmm"
proof -
  have e: "0x101000 = entry_at 0x100000 1024" "0x200000 = entry_at 0x100000 262144" by (simp_all add: entry_at_def)
  have d: "entries (entry_at b i) m \<inter> entries (entry_at b j) n = {}" if "i + m \<le> j" "j + n \<le> 1073741824" for b i j m n
    using that by (auto simp: entries_def entry_at_add entry_at_inj)
  have "entries 0x100000 1024 \<inter> entries 0x101000 32768 = {}" using d [of 0 1024 1024 32768 "0x100000"] by (simp add: entry_at_def)
  from fill_pdir_filled [OF this] have f: "filled 0x100000 0x101000 32 (fst (fill_pdir 0x100000 (\<lambda>_. 0, 0, 0x101000)))" by simp
  have "entries 0x200000 3072 \<inter> entries 0x100000 1024 = {}" "entries 0x200000 3072 \<inter> entries 0x101000 32768 = {}"
    using d [of 0 1024 262144 3072 "0x100000"] d [of 1024 32768 262144 3072 "0x100000"] by (auto simp: entry_at_def)
  then show ?thesis
    using f by (simp add: vm_ready_def bss_kmm_def kfm.defs kmm.defs VMemInfo_def va_to_pa_def KOFFSET_def page_aligned_def Int_Un_distrib)
qed

theorem process_address_space_witness:
  "\<exists>cr s1 s2. do_new_proc_vmem 0xC0200000 0xC0100000 bss_kmm = Inr (cr, s1) \<and>
    do_allocate_new_pages 7 0x8048000 (upd_pcb 7 (\<lambda>q. q\<lparr>PCB.cr3 := cr\<rparr>) s1) = Inr (0x2448000, s2) \<and>
    translate (page_mem s2) cr 0x8048123 = Some 0x2448123 \<and> translate (page_mem s2) cr 0xC0001000 = Some 0x1000"
proof -
  have k: "\<not> kernel_window 0x8048000" "\<not> kernel_window 0x8048123" "kernel_window 0xC0001000" "unat (7 :: pid_t) < PCB_POOL_SIZE" "vmem_free bss_kmm = 0"
    by (simp_all add: kernel_window_def PCB_POOL_SIZE_def bss_kmm_def kfm.defs kmm.defs)
  from process_address_space [OF bss_kmm_ready k(4,1)] obtain cr s1 s2 where
    "do_new_proc_vmem 0xC0200000 0xC0100000 bss_kmm = Inr (cr, s1)"
    "do_allocate_new_pages 7 0x8048000 (upd_pcb 7 (\<lambda>q. q\<lparr>PCB.cr3 := cr\<rparr>) s1) = Inr (user_frame 0 0x8048000, s2)"
    "\<And>x. translate (page_mem s2) cr x = Some (if kernel_window x then x - KOFFSET else user_frame 0 x)"
    by (auto simp: k(5))
  then show ?thesis by (intro exI [of _ cr] exI [of _ s1] exI [of _ s2]) (simp add: k user_frame_def KOFFSET_def)
qed

theorem process_memory_bounds_witness:
  "\<exists>d s1 s2 pa. do_new_proc_vmem 0xC0200000 0xC0100000 bss_kmm = Inr (d, s1) \<and>
     do_allocate_new_pages 7 0x8048000 (upd_pcb 7 (\<lambda>q. q\<lparr>PCB.cr3 := d\<rparr>) s1) = Inr (pa, s2) \<and>
     translate (page_mem s2) d 0x8048000 = Some pa \<and> 36 * 2 ^ 20 \<le> unat pa \<and> unat pa < 40 * 2 ^ 20"
proof -
  have k: "\<not> kernel_window 0x8048000" "unat (7 :: pid_t) < PCB_POOL_SIZE" "vmem_free bss_kmm = 0"
    by (simp_all add: kernel_window_def PCB_POOL_SIZE_def bss_kmm_def kfm.defs kmm.defs)
  obtain d t s1 where s1: "do_new_proc_vmem 0xC0200000 0xC0100000 bss_kmm = Inr (d, s1)" "vmem_free s1 = vmem_free bss_kmm + 1"
    "has_space 7 d t 0x101000 (upd_pcb (unat (7 :: pid_t)) (\<lambda>q. q\<lparr>PCB.cr3 := d\<rparr>) s1)"
    by (rule new_proc_has_space [OF bss_kmm_ready k(2)])
  have v: "vmem_free (upd_pcb 7 (\<lambda>q. q\<lparr>PCB.cr3 := d\<rparr>) s1) = 1" and u: "unat (7 :: pid_t) = 7"
    using s1(2) k(3) by (simp_all add: upd_pcb_def)
  from process_memory_bounds [OF s1(3) [unfolded u] k(1)] obtain pa s2 where
    "do_allocate_new_pages 7 0x8048000 (upd_pcb 7 (\<lambda>q. q\<lparr>PCB.cr3 := d\<rparr>) s1) = Inr (pa, s2)"
    "translate (page_mem s2) d 0x8048000 = Some pa" "36 * 2 ^ 20 \<le> unat pa" "unat pa < 40 * 2 ^ 20"
    using k(1) by (auto simp: v N_KERNEL_PTE_def PD_SIZE_def NR_PTE_def PAGE_SIZE_def)
  with s1(1) show ?thesis by blast
qed

end
