(* ===== verification/Pm.thy ===== *)
theory Pm
  imports Mm Elf
begin

text \<open>
  The process manager, \<open>service/pm.c\<close>: it loads a user process from the file manager into an
  address space of the memory manager.  Each request to a server is a \<open>send\<close> followed by the
  \<open>receive\<close> of the answer; the definitions take this pair as the argument \<open>call\<close>, which
  gives the answer and the state in which the process manager goes on.  \<open>serve\<close> is that pair
  with the server's own routine run in between.
\<close>

section \<open>pm.c\<close>

definition PM_NEW_PROC :: u32 where
  "PM_NEW_PROC = 514"

text \<open>The words \<open>m.i[0]\<close> and \<open>m.i[1]\<close> of the union are \<open>req_pid\<close> and \<open>dev_id\<close>.\<close>

definition create_process :: "u32 \<Rightarrow> Msg \<Rightarrow> 'a kmm_scheme \<Rightarrow> (Msg \<times> 'a kmm_scheme) res" where
  "create_process filename m s =
     bindR (current_pid s) (\<lambda>self.
     send (PM s) (m\<lparr>src := self, mtype := PM_NEW_PROC, req_pid := filename\<rparr>) s)"

type_synonym 's rpc = "Msg \<Rightarrow> 's \<Rightarrow> (Msg \<times> 's) res"

text \<open>
  One turn of the loop over the program headers, for the thread with PCB \<open>i\<close>.  The header is
  read from the buffer each time the code does.
\<close>

definition load_segment :: "'a kmm_scheme rpc \<Rightarrow> u32 \<Rightarrow> nat \<Rightarrow> Msg \<times> 'a kmm_scheme \<Rightarrow> (Msg \<times> 'a kmm_scheme) res" where
  "load_segment call ph i st =
     (let (m, s) = st;
          h = program_header (mem s) ph;
          m = m\<lparr>src := pid (pcb_pool s i), req_pid := p_vaddr h, dev_id := p_memsz h, dest := MM s, mtype := MM_NEW_PAGE\<rparr> in
      bindR (call m s) (\<lambda>(m, s).
      let pa = mtype m;
          h = program_header (mem s) ph;
          m = m\<lparr>req_pid := 1, buf := pa, offset := p_off h, mlen := p_filesz h, src := PM s, dest := FM s, mtype := FM_READ\<rparr> in
      bindR (call m s) (\<lambda>(m, s).
      case clear_rest ph pa (pa + p_filesz (program_header (mem s) ph)) (mem s) of
        None \<Rightarrow> Inl (NoReturn ''do_new_proc'')
      | Some mm \<Rightarrow> Inr (m, s\<lparr>mem := mm\<rparr>))))"

function load_all ::
    "'a kmm_scheme rpc \<Rightarrow> u32 \<Rightarrow> u32 \<Rightarrow> nat \<Rightarrow> nat \<Rightarrow> Msg \<times> 'a kmm_scheme \<Rightarrow> (Msg \<times> 'a kmm_scheme) res" where
  "load_all call b ph i entry st =
     (if entry < unat (e_phnum (elf_header (mem (snd st)) b))
      then bindR (load_segment call (ph + 32 * word_of_nat entry) i st) (load_all call b ph i (entry + 1))
      else Inr st)"
  by pat_completeness auto

termination
proof (relation "measure (\<lambda>(call, b, ph, i, entry, st). 65536 - entry)")
  fix call :: "'a kmm_scheme rpc" and b ph :: u32 and i entry :: nat and st st' :: "Msg \<times> 'a kmm_scheme"
  assume "entry < unat (e_phnum (elf_header (mem (snd st)) b))"
  then have "entry < 65536" using unsigned_less [where ?'a = nat and w = "e_phnum (elf_header (mem (snd st)) b)"] by simp
  then show "((call, b, ph, i, entry + 1, st'), call, b, ph, i, entry, st) \<in> measure (\<lambda>(call, b, ph, i, entry, st). 65536 - entry)" by auto
qed simp

declare load_all.simps [simp del]

text \<open>
  \<open>b\<close> is the address of the static buffer, \<open>junk\<close> the uninitialised message, \<open>args\<close> what
  \<open>create_kthread\<close> finds where its other arguments would be.  The file loaded is file 1,
  whatever \<open>filename\<close> is.
\<close>

definition do_new_proc ::
    "'a kmm_scheme rpc \<Rightarrow> u32 \<Rightarrow> (nat \<Rightarrow> u32) \<Rightarrow> Msg \<Rightarrow> u32 \<Rightarrow> 'a kmm_scheme \<Rightarrow> 'a kmm_scheme res" where
  "do_new_proc call b args junk filename s =
     bindR (call (junk\<lparr>req_pid := 1, src := PM s, dest := FM s, mtype := FM_NEW_FILE\<rparr>) s) (\<lambda>(m, s).
     bindR (call (m\<lparr>req_pid := 1, buf := b, offset := 0, mlen := 512, src := PM s, dest := FM s, mtype := FM_READ\<rparr>) s) (\<lambda>(m, s).
     if magic (elf_header (mem s) b) \<noteq> 0x464c457f then Inl (Panic ''Ileague ELF file.'')
     else
       bindR (create_kthread (e_entry (elf_header (mem s) b)) args s) (\<lambda>(i, s).
       bindR (call (m\<lparr>src := PM s, dest := MM s, mtype := MM_NEW_PROC\<rparr>) s) (\<lambda>(m, s).
       let s = upd_pcb i (\<lambda>q. q\<lparr>PCB.cr3 := mtype m\<rparr>) s;
           ph = b + e_phoff (elf_header (mem s) b) in
       bindR (load_all call b ph i 0 (m, s)) (\<lambda>(m, s).
       wakeup (Some (PcbList i)) s)))))"

definition pm_thread :: "'a kmm_scheme rpc \<Rightarrow> u32 \<Rightarrow> (nat \<Rightarrow> u32) \<Rightarrow> Msg \<Rightarrow> Msg \<Rightarrow> 'a kmm_scheme \<Rightarrow> 'a kmm_scheme res" where
  "pm_thread call b args junk m s =
     (if mtype m = PM_NEW_PROC then do_new_proc call b args junk (req_pid m) s else Inl (AssertFail ''0''))"

definition init_pm :: "u32 \<Rightarrow> (nat \<Rightarrow> u32) \<Rightarrow> 'a kmm_scheme \<Rightarrow> 'a kmm_scheme res" where
  "init_pm entry args s =
     bindR (create_kthread entry args s) (\<lambda>(p, s).
     let s = s\<lparr>PM := pid (pcb_pool s p)\<rparr> in
     wakeup (Some (PcbList p)) s)"

section \<open>The servers\<close>

text \<open>
  What comes back from the file manager and the memory manager: their routines on the request,
  with the answer in the first word.  A read of a file is the copy that the RAM disk at
  \<open>disk\<close> makes for the offset the file manager finds.
\<close>

definition serve_read :: "u32 \<Rightarrow> Msg \<Rightarrow> 'a kmm_scheme \<Rightarrow> 'a kmm_scheme res" where
  "serve_read disk r s =
     (case file_index (req_pid r) s of
        None \<Rightarrow> Inl (Panic ''There is no file'')
      | Some k \<Rightarrow> Inr (s\<lparr>mem := memcpy (buf r) (disk + (word_of_nat k * NR_FILE_SIZE + offset r)) (mlen r) (mem s)\<rparr>))"

definition serve :: "u32 \<Rightarrow> u32 \<Rightarrow> u32 \<Rightarrow> 'a kmm_scheme rpc" where
  "serve disk vt kpdir r s =
     (if mtype r = FM_NEW_FILE then
        bindR (do_new_file (req_pid r) s) (\<lambda>res. case res of
          Trapped s \<Rightarrow> Inl (NoReturn ''P'')
        | Returned s \<Rightarrow> Inr (r\<lparr>mtype := 0, dest := src r, src := FM s\<rparr>, s))
      else if mtype r = FM_READ then bindR (serve_read disk r s) (\<lambda>s. Inr (r\<lparr>mtype := mlen r, dest := src r, src := FM s\<rparr>, s))
      else if mtype r = MM_NEW_PROC then
        bindR (do_new_proc_vmem vt kpdir s) (\<lambda>(ret, s). Inr (r\<lparr>mtype := ret, dest := PM s, src := MM s\<rparr>, s))
      else if mtype r = MM_NEW_PAGE then
        bindR (do_allocate_new_pages (src r) (req_pid r) s) (\<lambda>(ret, s). Inr (r\<lparr>mtype := ret, dest := PM s, src := MM s\<rparr>, s))
      else Inl (AssertFail ''0''))"

text \<open>
  These answers are the messages that the threads of the servers send, from the state they
  send them in; for a read, the RAM disk's thread has made the copy.
\<close>

lemma serve_answers:
  "mtype r = MM_NEW_PROC \<or> mtype r = MM_NEW_PAGE \<Longrightarrow> mm_thread vt kpdir r s =
     bindR (serve disk vt kpdir r s) (\<lambda>(m, s). bindR (send (dest m) m s) (\<lambda>(_, s). Inr s))"
  "mtype r = FM_NEW_FILE \<Longrightarrow> serve disk vt kpdir r s = Inr (m, s') \<Longrightarrow> ramdisk_thread r s =
     bindR (send (dest m) m s') (\<lambda>(_, s). Inr (Returned s))"
  "mtype r = FM_READ \<Longrightarrow> serve disk vt kpdir r s = Inr (m, s') \<Longrightarrow> ramdisk_answer r s' = bindR (send (dest m) m s') (\<lambda>(_, s). Inr s)"
proof -
  show "mtype r = MM_NEW_PROC \<or> mtype r = MM_NEW_PAGE \<Longrightarrow> mm_thread vt kpdir r s =
     bindR (serve disk vt kpdir r s) (\<lambda>(m, s). bindR (send (dest m) m s) (\<lambda>(_, s). Inr s))"
    by (elim disjE) (simp_all add: mm_thread_def serve_def mm_answer_def bindR_def MM_NEW_PROC_def MM_NEW_PAGE_def FM_NEW_FILE_def FM_READ_def split: sum.split)
qed (auto simp: ramdisk_thread_def ramdisk_answer_def serve_def answer_def bindR_def FM_NEW_FILE_def FM_READ_def Let_def split: outcome.splits sum.splits)

lemma serve_read_copies:
  assumes "file_index (req_pid r) s = Some k" and "src q \<noteq> MSG_HARD_INTR" and "mtype q = DEV_READ"
    and "buf q = buf r" and "offset q = word_of_nat k * NR_FILE_SIZE + offset r" and "mlen q = mlen r"
  shows "\<exists>s'. serve_read disk r s = Inr s' \<and> ram_driver_thread disk q s = answer (mlen r) (RAMDISK s) q s'"
  using assms by (simp add: serve_read_def ram_driver_thread_def)

section \<open>Loading\<close>

text \<open>
  \<open>f\<close> is the contents of the file; its program headers lie in the first 512 bytes, which are
  read to the buffer.
\<close>

definition elf_of :: "(nat \<Rightarrow> u8) \<Rightarrow> ELFHeader" where
  "elf_of f = elf_header (\<lambda>a. f (unat a)) 0"

definition elf_segments :: "(nat \<Rightarrow> u8) \<Rightarrow> ProgramHeader list" where
  "elf_segments f = map (\<lambda>i. program_header (\<lambda>a. f (unat a)) (e_phoff (elf_of f) + 32 * word_of_nat i)) [0..<unat (e_phnum (elf_of f))]"

definition seg_place :: "ProgramHeader \<Rightarrow> nat" where
  "seg_place h = unat (p_vaddr h AND 0x3FFFFF)"

definition seg_ok :: "ProgramHeader \<Rightarrow> bool" where
  "seg_ok h \<longleftrightarrow> p_filesz h \<le> p_memsz h \<and> seg_place h + unat (p_memsz h) \<le> 4194304 \<and>
     unat (p_off h) + unat (p_filesz h) \<le> 131072 \<and> \<not> kernel_window (p_vaddr h)"

definition seg_apart :: "ProgramHeader \<Rightarrow> ProgramHeader \<Rightarrow> bool" where
  "seg_apart h h' \<longleftrightarrow> seg_place h + unat (p_memsz h) \<le> seg_place h' \<or> seg_place h' + unat (p_memsz h') \<le> seg_place h"

definition loadable :: "(nat \<Rightarrow> u8) \<Rightarrow> bool" where
  "loadable f \<longleftrightarrow> magic (elf_of f) = 0x464c457f \<and> unat (e_phoff (elf_of f)) + 32 * unat (e_phnum (elf_of f)) \<le> 512 \<and>
     (\<forall>h\<in>set (elf_segments f). seg_ok h) \<and> sorted_wrt seg_apart (elf_segments f)"

definition seg_in_memory :: "int \<Rightarrow> (nat \<Rightarrow> u8) \<Rightarrow> memory \<Rightarrow> ProgramHeader \<Rightarrow> bool" where
  "seg_in_memory n f m h \<longleftrightarrow> (\<forall>k<unat (p_memsz h). m (user_frame n (p_vaddr h) + word_of_nat k) =
     (if k < unat (p_filesz h) then f (unat (p_off h) + k) else 0))"

text \<open>
  The buffer \<open>b\<close> and the file at \<open>D\<close> are in the kernel's image, apart from each other: above
  \<open>KOFFSET\<close>, where the kernel sees the first 32 MB of physical memory a second time, so that no
  frame of a user process, all above 32 MB, is another name of one of their bytes.
\<close>

definition places :: "u32 \<Rightarrow> u32 \<Rightarrow> bool" where
  "places b D \<longleftrightarrow> KOFFSET \<le> b \<and> unat b + 512 \<le> 3254779904 \<and> KOFFSET \<le> D \<and> unat D + 131072 \<le> 3254779904 \<and>
     (unat b + 512 \<le> unat D \<or> unat D + 131072 \<le> unat b)"

definition bytes_at :: "nat \<Rightarrow> u32 \<Rightarrow> (nat \<Rightarrow> u8) \<Rightarrow> memory \<Rightarrow> bool" where
  "bytes_at n a f m \<longleftrightarrow> (\<forall>k<n. m (a + word_of_nat k) = f k)"

lemma bytes_at_kept:
  assumes "bytes_at n a f m" and "unat a + n \<le> 4294967296" and "\<And>x. unat a \<le> unat x \<Longrightarrow> m' x = m x"
  shows "bytes_at n a f m'"
  unfolding bytes_at_def
proof (intro allI impI)
  fix k assume k: "k < n"
  then have "unat (a + word_of_nat k) = unat a + k" using assms(2) unat_plus_u32 [of a "word_of_nat k"] by simp
  then show "m' (a + word_of_nat k) = f k" using assms(1,3) k by (simp add: bytes_at_def)
qed

lemma header_at:
  assumes "bytes_at 512 b f m" and "k + 32 \<le> 512"
  shows "program_header m (b + word_of_nat k) = program_header (\<lambda>a. f (unat a)) (word_of_nat k)"
proof (rule program_header_cong)
  fix j :: nat assume "j < 32"
  then have "k + j < 512" using assms(2) by simp
  then have "m (b + word_of_nat (k + j)) = f (k + j)" using assms(1) by (simp only: bytes_at_def)
  moreover have "b + word_of_nat k + word_of_nat j = b + word_of_nat (k + j)" by (simp add: add.assoc)
  moreover have "unat (word_of_nat k + word_of_nat j :: u32) = k + j" using \<open>k + j < 512\<close> unat_of_nat_u32 [of "k + j"] by simp
  ultimately show "m (b + word_of_nat k + word_of_nat j) = f (unat (word_of_nat k + word_of_nat j :: u32))" by (simp only:)
qed

lemma elf_at:
  assumes "bytes_at 512 b f m"
  shows "e_phoff (elf_header m b) = e_phoff (elf_of f)" and "e_phnum (elf_header m b) = e_phnum (elf_of f)"
    and "e_entry (elf_header m b) = e_entry (elf_of f)" and "magic (elf_header m b) = magic (elf_of f)"
  unfolding elf_of_def using assms by (intro elf_header_cong; simp add: bytes_at_def)+

text \<open>
  The instruction pointer in the frame that a thread is resumed from, and the state while the
  segments before \<open>e\<close> are in memory, for the thread with PCB \<open>i\<close>.
\<close>

definition resumes_at :: "nat \<Rightarrow> 'a kcore_scheme \<Rightarrow> u32" where
  "resumes_at i s = stackmem s (tf (pcb_pool s i) + 56)"

definition asleep :: "nat \<Rightarrow> u32 \<Rightarrow> 'a kcore_scheme \<Rightarrow> bool" where
  "asleep i a s \<longleftrightarrow> resumes_at i s = a \<and> (\<exists>H L. proc_inv s H L \<and> PcbList i \<in> set (L Block))"

definition loading ::
    "u32 \<Rightarrow> u32 \<Rightarrow> (nat \<Rightarrow> u8) \<Rightarrow> int \<Rightarrow> nat \<Rightarrow> u32 \<Rightarrow> u32 \<Rightarrow> u32 \<Rightarrow> nat \<Rightarrow> nat \<Rightarrow> 'a kmm_scheme \<Rightarrow> bool" where
  "loading b D f n kf d t kpt i e s \<longleftrightarrow>
     bytes_at 512 b f (mem s) \<and> bytes_at 131072 D f (mem s) \<and> file_index 1 s = Some kf \<and>
     vmem_free s = n + 1 \<and> new_space d t kpt (page_mem s) \<and>
     (0 < e \<longrightarrow> user_space d t kpt (push_bit 20 (word_of_int (32 + (n + 1) * 4))) (page_mem s)) \<and>
     PCB.cr3 (pcb_pool s i) = d \<and> pid (pcb_pool s i) = word_of_nat i \<and>
     (\<forall>h\<in>set (take e (elf_segments f)). seg_in_memory n f (mem s) h) \<and> asleep i (e_entry (elf_of f)) s"

lemma asleep_cong:
  assumes "asleep i a s" and "heap s' = heap s" "pcb_pool s' = pcb_pool s" "token s' = token s" "current s' = current s"
    "lock_count s' = lock_count s" "stackmem s' = stackmem s"
  shows "asleep i a s'"
  using assms unfolding asleep_def resumes_at_def proc_inv_def by metis

lemma file_index_cong: "files s' = files s \<Longrightarrow> fm_empty s' = fm_empty s \<Longrightarrow> file_index name s' = file_index name s"
  by (simp add: file_index_def)

text \<open>The memory after one segment: the copy, and the zeros after it.\<close>

definition with_segment :: "u32 \<Rightarrow> nat \<Rightarrow> nat \<Rightarrow> (nat \<Rightarrow> u8) \<Rightarrow> memory \<Rightarrow> memory" where
  "with_segment pa fsz msz g m x =
     (if unat pa \<le> unat x \<and> unat x < unat pa + fsz then g (unat x - unat pa)
      else if unat pa + fsz \<le> unat x \<and> unat x < unat pa + msz then 0 else m x)"

lemma with_segment_at:
  assumes "unat pa + msz \<le> 4294967296" and "k < msz"
  shows "with_segment pa fsz msz g m (pa + word_of_nat k) = (if k < fsz then g k else 0)"
proof -
  have "unat (pa + word_of_nat k) = unat pa + k" using assms unat_plus_u32 [of pa "word_of_nat k"] by simp
  then show ?thesis using assms(2) by (simp add: with_segment_def)
qed

lemma with_segment_off:
  assumes "fsz \<le> msz" and "\<not> (unat pa \<le> unat x \<and> unat x < unat pa + msz)"
  shows "with_segment pa fsz msz g m x = m x"
  using assms by (auto simp: with_segment_def)

lemma segment_memory:
  assumes D: "bytes_at 131072 D f m" "unat D + 131072 \<le> 4294967296" and off: "unat (p_off h) + unat (p_filesz h) \<le> 131072"
    and sz: "unat (p_filesz h) \<le> unat (p_memsz h)" and pa: "unat pa + unat (p_memsz h) \<le> unat KOFFSET"
    and k: "KOFFSET \<le> ph" "unat ph + 32 \<le> 4294967296" "KOFFSET \<le> D" and h: "program_header m ph = h"
  defines "m1 \<equiv> memcpy pa (D + p_off h) (p_filesz h) m"
  shows "program_header m1 ph = h"
    and "clear_rest ph pa (pa + p_filesz h) m1 =
      Some (with_segment pa (unat (p_filesz h)) (unat (p_memsz h)) (\<lambda>j. f (unat (p_off h) + j)) m)"
proof -
  let ?fs = "unat (p_filesz h)" and ?ms = "unat (p_memsz h)"
  have KO: "unat KOFFSET = 3221225472" by (simp add: KOFFSET_def)
  have ge: "unat KOFFSET \<le> unat ph" "unat KOFFSET \<le> unat D" using k by (simp_all add: word_le_nat_alt)
  have Do: "unat (D + p_off h) = unat D + unat (p_off h)" if "0 < ?fs" using D(2) off that by (intro unat_plus_u32) simp
  have m1: "m1 x = (if unat pa \<le> unat x \<and> unat x < unat pa + ?fs then f (unat (p_off h) + (unat x - unat pa)) else m x)" for x
  proof (cases "?fs = 0")
    case True
    then show ?thesis by (auto simp: m1_def memcpy_def)
  next
    case False
    then have Do: "unat (D + p_off h) = unat D + unat (p_off h)" using Do by simp
    have "m1 x = (if unat pa \<le> unat x \<and> unat x < unat pa + ?fs then m (D + p_off h + (x - pa)) else m x)"
      unfolding m1_def using D(2) off sz pa ge KO Do by (intro memcpy_range) linarith+
    moreover have "m (D + p_off h + (x - pa)) = f (unat (p_off h) + (unat x - unat pa))" if x: "unat pa \<le> unat x" "unat x < unat pa + ?fs"
    proof -
      have "unat (x - pa) = unat x - unat pa" using in_range(2) [of pa 0 x] x(1) unat_less_u32 [of pa] by simp
      moreover have "word_of_nat (unat (x - pa)) = x - pa" by simp
      ultimately have "x - pa = word_of_nat (unat x - unat pa)" by (simp only:)
      then have "D + p_off h + (x - pa) = D + word_of_nat (unat (p_off h) + (unat x - unat pa))" by (simp add: add.assoc)
      moreover have "unat (p_off h) + (unat x - unat pa) < 131072" using x off by linarith
      ultimately show ?thesis using D(1) by (simp only: bytes_at_def)
    qed
    ultimately show ?thesis by metis
  qed
  have hi: "unat (ph + word_of_nat j) = unat ph + j" if "j < 32" for j
    using that k(2) unat_plus_u32 [of ph "word_of_nat j"] by simp
  have "m1 (ph + word_of_nat j) = m (ph + word_of_nat j)" if "j < 32" for j
    using hi [OF that] ge(1) pa sz by (simp add: m1)
  then show h1: "program_header m1 ph = h" unfolding h [symmetric] by (rule program_header_cong)
  have u: "unat (pa + p_filesz h) = unat pa + ?fs" "unat (pa + p_memsz h) = unat pa + ?ms"
    using pa sz KO by (auto intro!: unat_plus_u32)
  have "clear_rest ph pa (pa + p_filesz h) m1 =
      Some (\<lambda>x. if unat (pa + p_filesz h) \<le> unat x \<and> unat x < unat (pa + p_filesz h) + (?ms - ?fs) then 0 else m1 x)"
  proof (rule clear_rest_ok)
    show "unat (pa + p_filesz h) + (?ms - ?fs) = unat (pa + p_memsz (program_header m1 ph))" using u sz h1 by simp
    show "\<not> (unat (pa + p_filesz h) \<le> unat (ph + word_of_nat j) \<and> unat (ph + word_of_nat j) < unat (pa + p_filesz h) + (?ms - ?fs))"
      if "j < 32" for j using hi [OF that] u sz pa ge(1) by simp
  qed
  moreover have "(\<lambda>x. if unat (pa + p_filesz h) \<le> unat x \<and> unat x < unat (pa + p_filesz h) + (?ms - ?fs) then 0 else m1 x) =
      with_segment pa ?fs ?ms (\<lambda>j. f (unat (p_off h) + j)) m"
    using u sz by (auto simp: fun_eq_iff with_segment_def m1)
  ultimately show "clear_rest ph pa (pa + p_filesz h) m1 = Some (with_segment pa ?fs ?ms (\<lambda>j. f (unat (p_off h) + j)) m)" by simp
qed

lemma segment_frame:
  assumes "0 \<le> n" and "n < 16" and "seg_place h + unat (p_memsz h) \<le> 4194304"
  shows "unat (user_frame n (p_vaddr h)) = (36 + 4 * nat n) * 1048576 + seg_place h"
    and "unat (user_frame n (p_vaddr h)) + unat (p_memsz h) \<le> unat KOFFSET"
    and "k < unat (p_memsz h) \<Longrightarrow> unat (user_frame n (p_vaddr h) + word_of_nat k) = (36 + 4 * nat n) * 1048576 + seg_place h + k"
proof -
  note u = user_frame_unat(1) [OF assms(1,2), of "p_vaddr h", folded seg_place_def]
  have b: "(36 + 4 * nat n) * 1048576 \<le> 100663296" using assms(1,2) by simp
  show "unat (user_frame n (p_vaddr h)) = (36 + 4 * nat n) * 1048576 + seg_place h" by (rule u)
  show "unat (user_frame n (p_vaddr h)) + unat (p_memsz h) \<le> unat KOFFSET" using u b assms(3) by (simp add: KOFFSET_def)
  show "unat (user_frame n (p_vaddr h) + word_of_nat k) = (36 + 4 * nat n) * 1048576 + seg_place h + k" if "k < unat (p_memsz h)"
    using that u b assms(3) unat_plus_u32 [of "user_frame n (p_vaddr h)" "word_of_nat k"] by simp
qed

lemma seg_in_memory_kept:
  assumes "0 \<le> n" and "n < 16" and "seg_ok h" and "seg_ok h'" and "seg_apart h h'" and "seg_in_memory n f m h"
  shows "seg_in_memory n f (with_segment (user_frame n (p_vaddr h')) (unat (p_filesz h')) (unat (p_memsz h')) g m) h"
  unfolding seg_in_memory_def
proof (intro allI impI)
  fix k assume k: "k < unat (p_memsz h)"
  let ?x = "user_frame n (p_vaddr h) + word_of_nat k"
  have ok: "seg_place h + unat (p_memsz h) \<le> 4194304" "seg_place h' + unat (p_memsz h') \<le> 4194304" "unat (p_filesz h') \<le> unat (p_memsz h')"
    using assms(3,4) by (simp_all add: seg_ok_def word_le_nat_alt)
  have "\<not> (unat (user_frame n (p_vaddr h')) \<le> unat ?x \<and> unat ?x < unat (user_frame n (p_vaddr h')) + unat (p_memsz h'))"
    unfolding segment_frame(1) [OF assms(1,2) ok(2)] segment_frame(3) [OF assms(1,2) ok(1) k]
    using assms(5) k by (auto simp: seg_apart_def)
  then have "with_segment (user_frame n (p_vaddr h')) (unat (p_filesz h')) (unat (p_memsz h')) g m ?x = m ?x"
    by (rule with_segment_off [OF ok(3)])
  then show "with_segment (user_frame n (p_vaddr h')) (unat (p_filesz h')) (unat (p_memsz h')) g m ?x =
      (if k < unat (p_filesz h) then f (unat (p_off h) + k) else 0)"
    using assms(6) k by (simp add: seg_in_memory_def)
qed

text \<open>What stays the same while a process is loaded: its tables, and where things are.\<close>

definition setting :: "u32 \<Rightarrow> u32 \<Rightarrow> u32 \<Rightarrow> (nat \<Rightarrow> u8) \<Rightarrow> int \<Rightarrow> nat \<Rightarrow> u32 \<Rightarrow> u32 \<Rightarrow> u32 \<Rightarrow> nat \<Rightarrow> bool" where
  "setting disk b D f n kf d t kpt i \<longleftrightarrow>
     places b D \<and> D = disk + word_of_nat kf * NR_FILE_SIZE \<and> loadable f \<and> 0 \<le> n \<and> n < 16 \<and> i < PCB_POOL_SIZE \<and>
     page_aligned d \<and> page_aligned t \<and> page_aligned kpt \<and> entries t 1024 \<inter> (entries d 1024 \<union> entries kpt 32768) = {}"

text \<open>The program header of a segment in the buffer: what it says and where it is.\<close>

lemma segment_header:
  assumes b: "bytes_at 512 b f m" and pl: "places b D" and l: "loadable f" and e: "e < length (elf_segments f)"
  defines "ph \<equiv> b + e_phoff (elf_of f) + 32 * word_of_nat e"
  shows "program_header m ph = elf_segments f ! e" and "KOFFSET \<le> ph" and "unat ph + 32 \<le> 4294967296"
proof -
  have en: "e < unat (e_phnum (elf_of f))" using e by (simp add: elf_segments_def)
  let ?o = "unat (e_phoff (elf_of f)) + 32 * e"
  have ph: "ph = b + word_of_nat ?o" by (simp add: ph_def add.assoc)
  have o: "?o + 32 \<le> 512" using l en by (simp add: loadable_def)
  show "program_header m ph = elf_segments f ! e"
    unfolding ph header_at [OF b o] using en by (simp add: elf_segments_def)
  have bs: "unat KOFFSET \<le> unat b" "unat b + 512 \<le> 4294967296" using pl by (simp_all add: places_def word_le_nat_alt)
  have "unat (word_of_nat ?o :: u32) = ?o" by (rule unat_of_nat_u32) (use o in simp)
  note w = unat_plus_u32 [of b "word_of_nat ?o", unfolded this]
  have "unat ph = unat b + ?o" unfolding ph by (rule w) (use o bs(2) in simp)
  then show "KOFFSET \<le> ph" "unat ph + 32 \<le> 4294967296" using bs o by (simp_all add: word_le_nat_alt)
qed

text \<open>A segment put into memory joins those that are there already.\<close>

lemma segments_join:
  assumes l: "loadable f" and n: "0 \<le> n" "n < 16" and e: "e < length (elf_segments f)"
    and old: "\<forall>h\<in>set (take e (elf_segments f)). seg_in_memory n f m h" and h: "h = elf_segments f ! e"
  shows "\<forall>h'\<in>set (take (Suc e) (elf_segments f)). seg_in_memory n f
    (with_segment (user_frame n (p_vaddr h)) (unat (p_filesz h)) (unat (p_memsz h)) (\<lambda>j. f (unat (p_off h) + j)) m) h'"
proof
  have s: "\<forall>h\<in>set (elf_segments f). seg_ok h" "sorted_wrt seg_apart (elf_segments f)" using l by (simp_all add: loadable_def)
  have ok: "seg_ok h" using s(1) e by (simp add: h)
  fix h' assume h': "h' \<in> set (take (Suc e) (elf_segments f))"
  show "seg_in_memory n f (with_segment (user_frame n (p_vaddr h)) (unat (p_filesz h)) (unat (p_memsz h)) (\<lambda>j. f (unat (p_off h) + j)) m) h'"
  proof (cases "h' \<in> set (take e (elf_segments f))")
    case True
    then obtain j' where j': "j' < e" "h' = elf_segments f ! j'" using e by (auto simp: in_set_conv_nth)
    then have "seg_apart h' h" using s(2) e by (simp add: h sorted_wrt_iff_nth_less)
    moreover have "seg_ok h'" using s(1) e j' by simp
    ultimately show ?thesis using seg_in_memory_kept [OF n _ ok] old True by blast
  next
    case False
    then have "h' = h" using h' e by (simp add: take_Suc_conv_app_nth h)
    moreover have "seg_place h + unat (p_memsz h) \<le> 4194304" using ok by (simp add: seg_ok_def)
    then have "unat (user_frame n (p_vaddr h)) + unat (p_memsz h) \<le> 4294967296"
      using segment_frame(2) [OF n] by (fastforce simp: KOFFSET_def)
    ultimately show ?thesis using with_segment_at by (simp add: seg_in_memory_def)
  qed
qed

lemma load_segment_ok:
  assumes J: "loading b D f n kf d t kpt i e s" and S: "setting disk b D f n kf d t kpt i" and e: "e < length (elf_segments f)"
  shows "\<exists>m' s'. load_segment (serve disk vt kpdir) (b + e_phoff (elf_of f) + 32 * word_of_nat e) i (m, s) = Inr (m', s') \<and>
    loading b D f n kf d t kpt i (Suc e) s'"
proof -
  define h where "h = elf_segments f ! e"
  have j: "bytes_at 512 b f (mem s)" "bytes_at 131072 D f (mem s)" "file_index 1 s = Some kf" "vmem_free s = n + 1"
    "new_space d t kpt (page_mem s)" "PCB.cr3 (pcb_pool s i) = d" "pid (pcb_pool s i) = word_of_nat i"
    "\<forall>h\<in>set (take e (elf_segments f)). seg_in_memory n f (mem s) h" "asleep i (e_entry (elf_of f)) s"
    using J by (simp_all add: loading_def)
  have c: "places b D" "D = disk + word_of_nat kf * NR_FILE_SIZE" "loadable f" "0 \<le> n" "n < 16" "i < PCB_POOL_SIZE"
    "page_aligned d" "page_aligned t" "entries t 1024 \<inter> (entries d 1024 \<union> entries kpt 32768) = {}"
    using S unfolding setting_def by blast+
  have ok: "seg_ok h" using c(3) e by (simp add: h_def loadable_def)
  then have o: "unat (p_filesz h) \<le> unat (p_memsz h)" "seg_place h + unat (p_memsz h) \<le> 4194304"
    "unat (p_off h) + unat (p_filesz h) \<le> 131072" "\<not> kernel_window (p_vaddr h)" by (simp_all add: seg_ok_def word_le_nat_alt)
  define ph where "ph = b + e_phoff (elf_of f) + 32 * word_of_nat e"
  note hd = segment_header [OF j(1) c(1,3) e, folded ph_def h_def]
  have bD: "unat KOFFSET \<le> unat b" "unat b + 512 \<le> 4294967296" "KOFFSET \<le> D" "unat D + 131072 \<le> 4294967296"
    using c(1) by (simp_all add: places_def word_le_nat_alt)
  define pa where "pa = user_frame n (p_vaddr h)"
  note fr = segment_frame(2) [OF c(4,5) o(2), folded pa_def]
  let ?p = "word_of_nat i :: pid_t"
  have ui: "unat ?p = i" using c(6) by (intro unat_of_nat_u32) (simp add: PCB_POOL_SIZE_def)
  obtain P where P: "do_allocate_new_pages ?p (p_vaddr h) s = Inr (pa, s\<lparr>page_mem := P\<rparr>)"
    "user_space d t kpt (push_bit 20 (word_of_int (32 + (n + 1) * 4))) P"
    using do_allocate_ok [of d t kpt s ?p "p_vaddr h"] j(4,5,6) c(6-9) o(4) unfolding ui pa_def user_frame_def by metis
  let ?M = "with_segment pa (unat (p_filesz h)) (unat (p_memsz h)) (\<lambda>j. f (unat (p_off h) + j)) (mem s)"
  let ?m1 = "memcpy pa (D + p_off h) (p_filesz h) (mem s)"
  note sm = segment_memory [OF j(2) bD(4) o(3,1) fr hd(2,3) bD(3) hd(1)]
  define s' where "s' = s\<lparr>page_mem := P, mem := ?M\<rparr>"
  have fi: "file_index 1 (s\<lparr>page_mem := P\<rparr>) = Some kf" using j(3) by (simp add: file_index_def)
  have "load_segment (serve disk vt kpdir) ph i (m, s) =
      Inr (m\<lparr>dev_id := p_memsz h, req_pid := 1, buf := pa, offset := p_off h, mlen := p_filesz h, mtype := p_filesz h, dest := PM s, src := FM s\<rparr>, s')"
    using P(1) fi sm hd(1) j(7) c(2) by (simp add: load_segment_def Let_def serve_def serve_read_def MM_NEW_PAGE_def MM_NEW_PROC_def FM_NEW_FILE_def
      FM_READ_def s'_def add.assoc)
  moreover have "loading b D f n kf d t kpt i (Suc e) s'"
  proof -
    have keep: "?M x = mem s x" if "unat KOFFSET \<le> unat x" for x
      using that fr by (intro with_segment_off [OF o(1)]) linarith
    note segments_join [OF c(3-5) e j(8) h_def, folded pa_def]
    moreover have "bytes_at 512 b f ?M" "bytes_at 131072 D f ?M"
      using bytes_at_kept [OF j(1) bD(2), of ?M] bytes_at_kept [OF j(2) bD(4), of ?M] keep bD by (auto simp: word_le_nat_alt)
    moreover have "asleep i (e_entry (elf_of f)) s'" by (rule asleep_cong [OF j(9)]) (simp_all add: s'_def)
    ultimately show ?thesis using j P(2) by (simp add: loading_def s'_def file_index_def user_space_def)
  qed
  ultimately show ?thesis unfolding ph_def by blast
qed

lemma load_all_ok:
  assumes "setting disk b D f n kf d t kpt i" and "loading b D f n kf d t kpt i e s" and "e \<le> length (elf_segments f)"
  shows "\<exists>m' s'. load_all (serve disk vt kpdir) b (b + e_phoff (elf_of f)) i e (m, s) = Inr (m', s') \<and>
    loading b D f n kf d t kpt i (length (elf_segments f)) s'"
  using assms(2,3)
proof (induction "length (elf_segments f) - e" arbitrary: e m s)
  case 0
  have "e_phnum (elf_header (mem s) b) = e_phnum (elf_of f)" using 0(2) by (intro elf_at(2)) (simp add: loading_def)
  moreover have "e = length (elf_segments f)" using 0(1,3) by simp
  ultimately show ?case using 0(2) by (subst load_all.simps) (simp add: elf_segments_def)
next
  case (Suc x)
  have "e_phnum (elf_header (mem s) b) = e_phnum (elf_of f)" using Suc.prems(1) by (intro elf_at(2)) (simp add: loading_def)
  moreover have e: "e < length (elf_segments f)" using Suc.hyps(2) by simp
  moreover obtain m1 s1 where "load_segment (serve disk vt kpdir) (b + e_phoff (elf_of f) + 32 * word_of_nat e) i (m, s) = Inr (m1, s1)"
    "loading b D f n kf d t kpt i (Suc e) s1" using load_segment_ok [OF Suc.prems(1) assms(1) e] by blast
  moreover have "x = length (elf_segments f) - Suc e" "Suc e \<le> length (elf_segments f)" using Suc.hyps(2) e by simp_all
  moreover from Suc.hyps(1) [OF this(1) \<open>loading b D f n kf d t kpt i (Suc e) s1\<close> this(2), of m1] obtain m2 s2 where
    "load_all (serve disk vt kpdir) b (b + e_phoff (elf_of f)) i (Suc e) (m1, s1) = Inr (m2, s2)"
    "loading b D f n kf d t kpt i (length (elf_segments f)) s2" by blast
  ultimately show ?case by (subst load_all.simps) (simp add: elf_segments_def)
qed

lemma seg_address:
  assumes "seg_ok h" and "k < unat (p_memsz h)"
  shows "user_frame n (p_vaddr h + word_of_nat k) = user_frame n (p_vaddr h) + word_of_nat k"
    and "\<not> kernel_window (p_vaddr h + word_of_nat k)"
proof -
  let ?v = "p_vaddr h"
  have tb: "x AND 0x3FFFFF = take_bit 22 x" for x :: u32 by (simp add: take_bit_eq_mask mask_eq_exp_minus_1)
  have um: "unat (x AND 0x3FFFFF) = unat x mod 4194304" for x :: u32 by (simp add: tb take_bit_eq_mod unat_mod_distrib)
  have r: "unat ?v mod 4194304 + k < 4194304" using assms by (simp add: seg_ok_def seg_place_def um)
  have "unat ?v div 4194304 < 1024" using unat_less_u32 [of ?v] by simp
  moreover have "unat ?v = 4194304 * (unat ?v div 4194304) + unat ?v mod 4194304" by simp
  ultimately have "unat ?v + k < 4294967296" using r by linarith
  then have u: "unat (?v + word_of_nat k) = unat ?v + k" using unat_plus_u32 [of ?v "word_of_nat k"] by simp
  have md: "(unat ?v + k) mod 4194304 = unat ?v mod 4194304 + k" using r by (metis mod_add_left_eq mod_less)
  have "unat ((?v AND 0x3FFFFF) + word_of_nat k) = unat ?v mod 4194304 + k"
    using r unat_plus_u32 [of "?v AND 0x3FFFFF" "word_of_nat k"] by (simp add: um)
  then have "(?v + word_of_nat k) AND 0x3FFFFF = (?v AND 0x3FFFFF) + word_of_nat k"
    by (intro unsigned_word_eqI [where ?'a = nat]) (simp add: um u md)
  then show "user_frame n (?v + word_of_nat k) = user_frame n ?v + word_of_nat k" by (simp add: user_frame_def add.assoc)
  have "(unat ?v + k) div 4194304 = unat ?v div 4194304 + (unat ?v mod 4194304 + k) div 4194304"
    using r md by (simp add: div_add1_eq [of "unat ?v" k])
  then have "(unat ?v + k) div 4194304 = unat ?v div 4194304" using r by simp
  then have "unat (drop_bit 22 (?v + word_of_nat k)) = unat (drop_bit 22 ?v)"
    by (simp add: drop_bit_eq_div unat_div_distrib u)
  then show "\<not> kernel_window (?v + word_of_nat k)" using assms(1) by (simp add: seg_ok_def kernel_window_def)
qed

lemma asleep_cr3:
  assumes "asleep i a s"
  shows "asleep i a (upd_pcb i (\<lambda>q. q\<lparr>PCB.cr3 := d\<rparr>) s)"
  using assms unfolding asleep_def resumes_at_def proc_inv_def stat_inv_def upd_pcb_def by (auto; blast)

lemma new_thread_asleep:
  assumes "proc_inv s H L" and "L Free = PcbList i # rest"
  obtains s' where "create_kthread a args s = Inr (i, s')" and "asleep i a s'" and "pid (pcb_pool s' i) = word_of_nat i" and "i < PCB_POOL_SIZE"
    and "\<exists>h p t m b. s' = s\<lparr>heap := h, pcb_pool := p, token := t, stackmem := m, intr := b\<rparr>"
proof -
  obtain s' where s': "create_kthread a args s = Inr (i, s')" "proc_inv s' (born_heads i H) (born i L)"
    "s' = s\<lparr>heap := self_link (SemBlock (MsgSem i)) (self_link (MsgList i) (requeue Block (PcbList i) (heap s))),
      pcb_pool := (pcb_pool s)(i := (pcb_pool s i)\<lparr>tf := fst (new_stack i a args s) - 68, locked := 0,
        stat := STAT_SLEEPING, pid := word_of_nat i, PCB.cr3 := kcr3 s\<rparr>),
      token := (token s)(MsgSem i := 0), stackmem := snd (new_stack i a args s), intr := intr s \<or> relock s\<rparr>"
    by (rule create_kthread_inv [OF assms])
  have "resumes_at i s' = a" by (simp add: resumes_at_def s'(3) new_stack_def build_frame_def split: prod.split)
  moreover have "PcbList i \<in> set (born i L Block)" by (simp add: born_def moved_def)
  ultimately have "asleep i a s'" using s'(2) unfolding asleep_def by blast
  moreover have "PcbList i \<in> threads"
    by (rule lists_invD(5) [OF proc_invD(2) [OF assms(1)] lists_invD(3) [OF proc_invD(2) [OF assms(1)]]]) (simp_all add: assms(2))
  then have "i < PCB_POOL_SIZE" by (auto elim: threadsE)
  moreover have "pid (pcb_pool s' i) = word_of_nat i" by (simp add: s'(3))
  ultimately show thesis using s'(1,3) by (intro that [of s']) blast+
qed

lemma read_header:
  assumes "places b D" and "bytes_at 131072 D f m"
  shows "bytes_at 512 b f (memcpy b D 512 m)" and "bytes_at 131072 D f (memcpy b D 512 m)"
proof -
  have p: "unat b + 512 \<le> 4294967296" "unat D + 131072 \<le> 4294967296" "unat b + 512 \<le> unat D \<or> unat D + 131072 \<le> unat b"
    using assms(1) by (simp_all add: places_def)
  have m: "memcpy b D 512 m x = (if unat b \<le> unat x \<and> unat x < unat b + 512 then m (D + (x - b)) else m x)" for x
    using memcpy_range [of b 512 D m x] p by auto
  show "bytes_at 512 b f (memcpy b D 512 m)"
    unfolding bytes_at_def
  proof (intro allI impI)
    fix k :: nat assume k: "k < 512"
    then have "unat (b + word_of_nat k) = unat b + k" using p(1) unat_plus_u32 [of b "word_of_nat k"] by simp
    then show "memcpy b D 512 m (b + word_of_nat k) = f k" using k assms(2) by (simp add: m bytes_at_def)
  qed
  show "bytes_at 131072 D f (memcpy b D 512 m)"
    unfolding bytes_at_def
  proof (intro allI impI)
    fix k :: nat assume k: "k < 131072"
    then have "unat (D + word_of_nat k) = unat D + k" using p(2) unat_plus_u32 [of D "word_of_nat k"] by simp
    then show "memcpy b D 512 m (D + word_of_nat k) = f k" using k p(3) assms(2) by (auto simp: m bytes_at_def)
  qed
qed

text \<open>The first file of number 1, once it is created.\<close>

definition file_one :: "'a kfm_scheme \<Rightarrow> nat" where
  "file_one s = (case file_index 1 s of None \<Rightarrow> nat (fm_empty s) | Some k \<Rightarrow> k)"

text \<open>The tables of the next address space are in their places.\<close>

lemma process_setting:
  assumes vm: "vm_ready vt kpdir kpt s" and "places b D" and "D = disk + word_of_nat kf * NR_FILE_SIZE" and "loadable f" and "i < PCB_POOL_SIZE"
  defines "p \<equiv> va_to_pa (VMemInfo vt (vmem_free s))"
  shows "setting disk b D f (vmem_free s) kf (entry_at p 1024) (entry_at p 2048) kpt i"
proof -
  have v: "0 \<le> vmem_free s" "vmem_free s < 16" "page_aligned p" "page_aligned kpt" "entries p 3072 \<inter> entries kpt 32768 = {}"
    using vm by (auto simp: vm_ready_def p_def Let_def)
  have "page_aligned (entry_at p 1024)" "page_aligned (entry_at p 2048)"
    using page_aligned_entry [OF v(3), of 1] page_aligned_entry [OF v(3), of 2] by simp_all
  moreover have "entries (entry_at p 2048) 1024 \<inter> (entries (entry_at p 1024) 1024 \<union> entries kpt 32768) = {}"
    using entries_apart [of 1024 1024 2048 1024 p] entries_within [of 2048 1024 3072 p] v(5) by auto
  ultimately show ?thesis unfolding setting_def using assms(2-5) v by blast
qed

lemma first_steps:
  assumes inv: "fm_inv s H L" and fr: "L Free = PcbList i # rest" and vm: "vm_ready vt kpdir kpt s" and room: "fm_empty s < 8"
    and D: "D = disk + word_of_nat (file_one s) * NR_FILE_SIZE" and pl: "places b D" and ba: "bytes_at 131072 D f (mem s)" and ld: "loadable f"
  defines "p \<equiv> va_to_pa (VMemInfo vt (vmem_free s))"
  obtains m t where
    "do_new_proc (serve disk vt kpdir) b args junk filename s =
       bindR (load_all (serve disk vt kpdir) b (b + e_phoff (elf_of f)) i 0 (m, t)) (\<lambda>(m, s). wakeup (Some (PcbList i)) s)"
    and "setting disk b D f (vmem_free s) (file_one s) (entry_at p 1024) (entry_at p 2048) kpt i"
    and "loading b D f (vmem_free s) (file_one s) (entry_at p 1024) (entry_at p 2048) kpt i 0 t"
proof -
  let ?c = "serve disk vt kpdir" and ?d = "entry_at p 1024" and ?t = "entry_at p 2048"
  obtain u fs hp where u: "do_new_file 1 s = Inr (Returned u)" "\<exists>L'. fm_inv u H L' \<and> L' Free = L Free" "file_names u = file_names s @ [1]"
    "u = s\<lparr>files := fs, heap := hp, intr := relock s, fm_empty := fm_empty s + 1\<rparr>"
    using do_new_file_ok [OF inv room, of 1] by fastforce
  have fi: "file_index 1 u = Some (file_one s)"
    using file_index_append [OF u(3)] by (simp add: file_one_def file_names_def split: option.splits)
  define v where "v = u\<lparr>mem := memcpy b D 512 (mem s)\<rparr>"
  obtain L' where pu: "proc_inv u H L'" "L' Free = PcbList i # rest" using u(2) fr fm_invD(1) by metis
  have pv: "proc_inv v H L'" using pu(1) by (simp add: proc_inv_def v_def)
  note rd = read_header [OF pl ba]
  have ev: "bytes_at 512 b f (mem v)" "bytes_at 131072 D f (mem v)" using rd by (simp_all add: v_def)
  obtain w h1 p1 t1 m1 b1 where w: "create_kthread (e_entry (elf_of f)) args v = Inr (i, w)" "asleep i (e_entry (elf_of f)) w"
    "pid (pcb_pool w i) = word_of_nat i" "i < PCB_POOL_SIZE"
    "w = v\<lparr>heap := h1, pcb_pool := p1, token := t1, stackmem := m1, intr := b1\<rparr>"
    using new_thread_asleep [OF pv pu(2), of "e_entry (elf_of f)" args] by metis
  have keep: "vmem_free w = vmem_free s" "page_mem w = page_mem s" "mem w = mem v" "files w = files u" "fm_empty w = fm_empty u"
    by (simp_all add: w(5) v_def u(4))
  have vmw: "vm_ready vt kpdir kpt w" using vm by (simp add: vm_ready_def keep)
  obtain y where y: "do_new_proc_vmem vt kpdir w = Inr (?d, y)" "new_space ?d ?t kpt (page_mem y)"
    "y = w\<lparr>vmem_free := vmem_free s + 1, page_mem := page_mem y\<rparr>"
    using do_new_proc_vmem_ok [OF vmw] unfolding keep(1) p_def [symmetric] by metis
  define z where "z = upd_pcb i (\<lambda>q. q\<lparr>PCB.cr3 := ?d\<rparr>) y"
  have yk: "mem y = mem v" "vmem_free y = vmem_free s + 1" "files y = files u" "fm_empty y = fm_empty u" "pcb_pool y = pcb_pool w"
    using keep arg_cong [OF y(3), of mem] arg_cong [OF y(3), of vmem_free] arg_cong [OF y(3), of files] arg_cong [OF y(3), of fm_empty]
      arg_cong [OF y(3), of pcb_pool] by simp_all
  have "asleep i (e_entry (elf_of f)) y" by (rule asleep_cong [OF w(2)]) (subst y(3); simp)+
  then have az: "asleep i (e_entry (elf_of f)) z" unfolding z_def by (rule asleep_cr3)
  have zk: "mem z = mem v" "vmem_free z = vmem_free s + 1" "page_mem z = page_mem y" "file_index 1 z = file_index 1 u"
    "PCB.cr3 (pcb_pool z i) = ?d" "pid (pcb_pool z i) = word_of_nat i"
    using w(3) yk by (simp_all add: z_def upd_pcb_def file_index_def)
  note process_setting [OF vm pl D ld w(4), folded p_def]
  moreover have "loading b D f (vmem_free s) (file_one s) ?d ?t kpt i 0 z"
    using ev y(2) zk fi az by (simp add: loading_def)
  moreover define m where "m = junk\<lparr>req_pid := 1, buf := b, offset := 0, mlen := 512, mtype := ?d, dest := PM y, src := MM y\<rparr>"
  have "do_new_proc ?c b args junk filename s =
      bindR (load_all ?c b (b + e_phoff (elf_of f)) i 0 (m, z)) (\<lambda>(m, s). wakeup (Some (PcbList i)) s)"
  proof -
    have r: "serve_read disk r u = Inr v" if "req_pid r = 1" "buf r = b" "offset r = 0" "mlen r = 512" for r
      using fi D that by (simp add: serve_read_def v_def u(4))
    have g: "magic (elf_header (mem v) b) = 0x464c457f" "e_entry (elf_header (mem v) b) = e_entry (elf_of f)"
      "e_phoff (elf_header (mem v) b) = e_phoff (elf_of f)"
      using elf_at [OF ev(1)] ld by (simp_all add: loadable_def)
    have ids: "PM w = PM s" "MM w = MM s" "FM v = FM s" "PM v = PM s" "PM u = PM s" "FM u = FM s" by (simp_all add: w(5) v_def u(4))
    have "mem (upd_pcb i k y) = mem v" for k using yk(1) by (simp add: upd_pcb_def)
    then show ?thesis using r g u(1) w(1) y(1) ids
      by (simp add: do_new_proc_def serve_def Let_def m_def z_def FM_NEW_FILE_def FM_READ_def MM_NEW_PROC_def)
  qed
  ultimately show thesis by (intro that [of m z])
qed

lemma program_loaded:
  assumes "fm_inv s H L" and "L Free = PcbList i # rest" and "vm_ready vt kpdir kpt s" and "fm_empty s < 8"
    and "places b (disk + word_of_nat (file_one s) * NR_FILE_SIZE)"
    and "bytes_at 131072 (disk + word_of_nat (file_one s) * NR_FILE_SIZE) f (mem s)" and "loadable f"
  shows "\<exists>s'. do_new_proc (serve disk vt kpdir) b args junk filename s = Inr s' \<and>
    (\<exists>H' L' ready. proc_inv s' H' L' \<and> L' Ready = ready @ [PcbList i]) \<and> resumes_at i s' = e_entry (elf_of f) \<and>
    (\<forall>h\<in>set (elf_segments f). \<forall>k<unat (p_memsz h). \<exists>y.
       translate (page_mem s') (PCB.cr3 (pcb_pool s' i)) (p_vaddr h + word_of_nat k) = Some y \<and>
       mem s' y = (if k < unat (p_filesz h) then f (unat (p_off h) + k) else 0))"
proof -
  define p where "p = va_to_pa (VMemInfo vt (vmem_free s))"
  define D where "D = disk + word_of_nat (file_one s) * NR_FILE_SIZE"
  let ?d = "entry_at p 1024" and ?t = "entry_at p 2048" and ?n = "vmem_free s" and ?c = "serve disk vt kpdir"
  obtain m t where t: "do_new_proc ?c b args junk filename s =
      bindR (load_all ?c b (b + e_phoff (elf_of f)) i 0 (m, t)) (\<lambda>(m, s). wakeup (Some (PcbList i)) s)"
    "setting disk b D f ?n (file_one s) ?d ?t kpt i" "loading b D f ?n (file_one s) ?d ?t kpt i 0 t"
    by (rule first_steps [OF assms(1-4) D_def assms(5-7) [folded D_def], folded p_def])
  obtain m' u where u: "load_all ?c b (b + e_phoff (elf_of f)) i 0 (m, t) = Inr (m', u)"
    "loading b D f ?n (file_one s) ?d ?t kpt i (length (elf_segments f)) u"
    using load_all_ok [OF t(2,3)] by blast
  have lu: "PCB.cr3 (pcb_pool u i) = ?d" "\<And>h. h \<in> set (elf_segments f) \<Longrightarrow> seg_in_memory ?n f (mem u) h"
    "asleep i (e_entry (elf_of f)) u" using u(2) by (simp_all add: loading_def)
  obtain H' L' where a: "proc_inv u H' L'" "PcbList i \<in> set (L' Block)" "resumes_at i u = e_entry (elf_of f)"
    using lu(3) unfolding asleep_def by blast
  obtain s' where s': "wakeup (Some (PcbList i)) u = Inr s'" "proc_inv s' H' (moved Block Ready (PcbList i) L')"
    "s' = u\<lparr>heap := requeue Ready (PcbList i) (heap u),
       pcb_pool := (pcb_pool u)(i := (pcb_pool u i)\<lparr>stat := STAT_READY\<rparr>), intr := relock u\<rparr>"
    by (rule wakeup_inv [OF a(1) lists_invD(2) [OF proc_invD(2) [OF a(1)]] _ a(2)]) simp_all
  have st: "page_aligned ?d" "page_aligned ?t" "page_aligned kpt" "\<forall>h\<in>set (elf_segments f). seg_ok h"
    using t(2) by (simp_all add: setting_def loadable_def)
  have seen: "\<exists>y. translate (page_mem s') (PCB.cr3 (pcb_pool s' i)) (p_vaddr h + word_of_nat k) = Some y \<and>
      mem s' y = (if k < unat (p_filesz h) then f (unat (p_off h) + k) else 0)"
    if h: "h \<in> set (elf_segments f)" and k: "k < unat (p_memsz h)" for h k
  proof -
    have "user_space ?d ?t kpt (push_bit 20 (word_of_int (32 + (?n + 1) * 4))) (page_mem u)"
      using u(2) h by (cases "elf_segments f") (simp_all add: loading_def)
    from translate_user [OF this st(1-3), of "p_vaddr h + word_of_nat k"]
    have "translate (page_mem u) ?d (p_vaddr h + word_of_nat k) = Some (user_frame ?n (p_vaddr h) + word_of_nat k)"
      using seg_address [OF _ k] st(4) h by (simp add: user_frame_def)
    then show ?thesis using lu(1) lu(2) [OF h] k by (simp add: s'(3) seg_in_memory_def)
  qed
  have "\<exists>H' L' ready. proc_inv s' H' L' \<and> L' Ready = ready @ [PcbList i]"
    using s'(2) by (intro exI conjI) (assumption, simp add: moved_def)
  moreover have "resumes_at i s' = e_entry (elf_of f)" using a(3) by (simp add: resumes_at_def s'(3))
  moreover have "do_new_proc ?c b args junk filename s = Inr s'" using t(1) u(1) s'(1) by simp
  ultimately show ?thesis using seen by blast
qed

section \<open>Properties\<close>

text \<open>
  C5: the process manager loads a program.  For an ELF file whose headers are in its first 512
  bytes and whose segments fit in the four megabytes of a process without meeting, the routine
  returns; the new thread is at the tail of the ready queue and will be resumed at the entry of
  the file; and through the page directory of the thread every address of a segment shows the
  byte of the file, or zero past the part that is stored in the file.
\<close>

theorem process_loaded:
  assumes "fm_inv s H L" and "L Free = PcbList i # rest" and "vm_ready vt kpdir kpt s" and "fm_empty s < 8"
    and "places b (disk + word_of_nat (file_one s) * NR_FILE_SIZE)"
    and "bytes_at 131072 (disk + word_of_nat (file_one s) * NR_FILE_SIZE) f (mem s)" and "loadable f"
  shows "\<exists>s'. do_new_proc (serve disk vt kpdir) b args junk filename s = Inr s' \<and>
    (\<exists>H' L' ready. proc_inv s' H' L' \<and> L' Ready = ready @ [PcbList i]) \<and> resumes_at i s' = e_entry (elf_of f) \<and>
    (\<forall>h\<in>set (elf_segments f). \<forall>k<unat (p_memsz h). \<exists>y.
       translate (page_mem s') (PCB.cr3 (pcb_pool s' i)) (p_vaddr h + word_of_nat k) = Some y \<and>
       mem s' y = (if k < unat (p_filesz h) then f (unat (p_off h) + k) else 0))"
  using assms by (rule program_loaded)

text \<open>A program of one segment: two bytes in the file, four in memory, to run at \<open>0x8048000\<close>.\<close>

definition demo_prog :: "nat \<Rightarrow> u8" where
  "demo_prog n =
     (case map_of [(0, 0x7F), (1, 0x45), (2, 0x4C), (3, 0x46), (25, 0x80), (26, 0x04), (27, 0x08), (28, 52), (44, 1), (57, 0x10),
        (61, 0x80), (62, 0x04), (63, 0x08), (68, 2), (72, 4), (4096, 7), (4097, 9)] n of None \<Rightarrow> 0 | Some b \<Rightarrow> b)"

lemma demo_prog_elf: "magic (elf_of demo_prog) = 0x464c457f" "e_phoff (elf_of demo_prog) = 52" "e_phnum (elf_of demo_prog) = 1"
  "e_entry (elf_of demo_prog) = 0x8048000"
  by (simp_all add: elf_of_def elf_header_def mem_u32_def mem_u16_def demo_prog_def le_word_def)

lemma demo_prog_segments:
  "elf_segments demo_prog = [\<lparr>p_type = 0, p_off = 4096, p_vaddr = 0x8048000, p_paddr = 0, p_filesz = 2, p_memsz = 4,
     p_flags = 0, p_align = 0\<rparr>]"
  by (simp add: elf_segments_def demo_prog_elf program_header_def mem_u32_def demo_prog_def le_word_def)

lemma demo_prog_loadable: "loadable demo_prog"
  by (simp add: loadable_def demo_prog_elf demo_prog_segments seg_ok_def seg_place_def kernel_window_def)

definition demo_mem :: memory where
  "demo_mem a = demo_prog (unat (a - 0xC0300000))"

lemma kcore_more_kmm:
  "kcore.more s = kcore.more t \<Longrightarrow> fm_empty s = fm_empty t \<and> vmem_free s = vmem_free t \<and> page_mem s = page_mem t"
  by (cases s rule: kmm.cases_scheme, cases t rule: kmm.cases_scheme) (simp add: kcore.defs)

lemma pm_boot:
  obtains s t where "two_threads bss_kmm = Inr s" and "init_table s = Inr t" and "fm_inv t (fm_heads two_heads) (fm_lists two_lists)"
    and "fm_empty t = 0" and "vm_ready 0xC0200000 0xC0100000 0x101000 t"
proof -
  have z: "current bss_kmm = idle" "lock_count bss_kmm = 0" "fm_empty bss_kmm = 0"
    by (simp_all add: bss_kmm_def kmm.defs bss_kfm_def bss_ktty_def bss_kdrv_def bss_kide_def bss_ktimer_def ktty.defs kdrv.defs
        kfm.defs kide.defs ktimer.defs khal.defs bss_khal_def kirq.defs bss_kirq_def kmsg.defs bss_kmsg_def kcore.defs bss_kcore_def)
  obtain s where s: "two_threads bss_kmm = Inr s" "proc_inv s two_heads two_lists" "kcore.more s = kcore.more bss_kmm"
    by (rule two_threads_ok [OF z(1,2)])
  note m = kcore_more_kmm [OF s(3)]
  have e: "fm_empty s = 0" using m z(3) by simp
  have "a \<notin> linked two_heads two_lists"
    if "a = SemBlock FmMutex \<or> (\<exists>h. a = HashHead h) \<or> (\<exists>k. a = FileLink k)" for a
    using that two_linked by (auto simp: two_heads_def born_heads_def boot_heads_def)
  from init_table_ok [OF s(2) this e] obtain t where t: "init_table s = Inr t" "fm_inv t (fm_heads two_heads) (fm_lists two_lists)"
    "t = s\<lparr>heap := heap t, token := (token s)(FmMutex := 1), intr := relock s\<rparr>" by blast
  have k: "fm_empty t = 0" "vmem_free t = vmem_free bss_kmm" "page_mem t = page_mem bss_kmm"
    using arg_cong [OF t(3), of fm_empty] arg_cong [OF t(3), of vmem_free] arg_cong [OF t(3), of page_mem] m e
    by simp_all
  have "vm_ready 0xC0200000 0xC0100000 0x101000 t" using bss_kmm_ready by (simp add: vm_ready_def k)
  then show thesis using s(1) t(1,2) k(1) by (intro that)
qed

lemma demo_disk:
  fixes t :: "'a kmm_scheme"
  assumes "fm_empty t = 0"
  defines "D \<equiv> 0xC0300000 + word_of_nat (file_one t) * NR_FILE_SIZE"
  shows "places 0xC0280000 D" and "bytes_at 131072 D demo_prog demo_mem"
proof -
  have "file_one t = 0" using assms(1) by (simp add: file_one_def file_index_def)
  then have D: "D = 0xC0300000" by (simp add: D_def)
  show "places 0xC0280000 D" unfolding D by (simp add: places_def KOFFSET_def)
  show "bytes_at 131072 D demo_prog demo_mem" unfolding D by (simp add: bytes_at_def demo_mem_def)
qed

lemma demo_seen:
  assumes "\<forall>h\<in>set (elf_segments demo_prog). \<forall>k<unat (p_memsz h). \<exists>y.
       translate ph dir (p_vaddr h + word_of_nat k) = Some y \<and> m y = (if k < unat (p_filesz h) then demo_prog (unat (p_off h) + k) else 0)"
    and "k < 4"
  shows "\<exists>y. translate ph dir (0x8048000 + word_of_nat k) = Some y \<and> m y = (if k < 2 then demo_prog (4096 + k) else 0)"
  using bspec [OF assms(1), THEN spec [of _ k], of "hd (elf_segments demo_prog)"] assms(2)
  by (cases "k < 2") (simp_all add: demo_prog_segments)

theorem process_loaded_witness:
  "\<exists>s t s' y y'. two_threads bss_kmm = Inr s \<and> init_table s = Inr t \<and>
     do_new_proc (serve 0xC0300000 0xC0200000 0xC0100000) 0xC0280000 (\<lambda>_. 0) (ten_bytes 0) 1 (t\<lparr>mem := demo_mem\<rparr>) = Inr s' \<and>
     resumes_at 3 s' = 0x8048000 \<and> translate (page_mem s') (PCB.cr3 (pcb_pool s' 3)) 0x8048001 = Some y \<and> mem s' y = 9 \<and>
     translate (page_mem s') (PCB.cr3 (pcb_pool s' 3)) 0x8048002 = Some y' \<and> mem s' y' = 0"
proof (rule pm_boot)
  fix s t assume s: "two_threads bss_kmm = Inr s" "init_table s = Inr t" "fm_inv t (fm_heads two_heads) (fm_lists two_lists)"
    "fm_empty t = 0" "vm_ready 0xC0200000 0xC0100000 0x101000 t"
  have f: "fm_lists two_lists Free = PcbList 3 # map PcbList [4..<PCB_POOL_SIZE]"
    using upt_conv_Cons [OF pool_two(3)] by (simp add: fm_lists_def)
  let ?t = "t\<lparr>mem := demo_mem\<rparr>"
  have i: "fm_inv ?t (fm_heads two_heads) (fm_lists two_lists)" "vm_ready 0xC0200000 0xC0100000 0x101000 ?t"
    using s(3,5) by (simp_all add: fm_inv_def proc_inv_def bucket_def vm_ready_def)
  have e: "fm_empty ?t = 0" using s(4) by simp
  have ba: "bytes_at 131072 (0xC0300000 + word_of_nat (file_one ?t) * NR_FILE_SIZE) demo_prog (mem ?t)" using demo_disk(2) [OF e] by simp
  from process_loaded [OF i(1) f i(2) _ demo_disk(1) [OF e] ba demo_prog_loadable, of "\<lambda>_. 0" "ten_bytes 0" 1] s(4)
  obtain s' where s': "do_new_proc (serve 0xC0300000 0xC0200000 0xC0100000) 0xC0280000 (\<lambda>_. 0) (ten_bytes 0) 1 ?t = Inr s'"
    "resumes_at 3 s' = e_entry (elf_of demo_prog)"
    "\<forall>h\<in>set (elf_segments demo_prog). \<forall>k<unat (p_memsz h). \<exists>y.
       translate (page_mem s') (PCB.cr3 (pcb_pool s' 3)) (p_vaddr h + word_of_nat k) = Some y \<and>
       mem s' y = (if k < unat (p_filesz h) then demo_prog (unat (p_off h) + k) else 0)" by auto
  note y = demo_seen [OF s'(3)]
  have "demo_prog 4097 = 9" by (simp add: demo_prog_def)
  then show ?thesis using s(1,2) s'(1,2) y [of 1] y [of 2] by (simp add: demo_prog_elf)
qed

end
