(* ===== verification/Ramdisk.thy ===== *)
theory Ramdisk
  imports Pm
begin

text \<open>
  The contents of the RAM disk that is linked into the kernel, \<open>drivers/ram/ramdisk.c\<close>: eight
  files of 128 KB, of which the first is the user program \<open>userproc/testproc.c\<close> in ELF format and
  the next three are texts.  The first process is loaded from it.
\<close>

section \<open>ramdisk.c: file\<close>

text \<open>The first file: its ELF header and program headers, and all the rest.\<close>

definition file0_headers :: "u8 list" where
  "file0_headers =
    [0x7f, 0x45, 0x4c, 0x46, 0x01, 0x01, 0x01, 0x00, 0x00, 0x00, 0x00, 0x00, 0x00, 0x00, 0x00, 0x00,
     0x02, 0x00, 0x03, 0x00, 0x01, 0x00, 0x00, 0x00, 0xa0, 0x80, 0x04, 0x08, 0x34, 0x00, 0x00, 0x00,
     0x50, 0x03, 0x00, 0x00, 0x00, 0x00, 0x00, 0x00, 0x34, 0x00, 0x20, 0x00, 0x03, 0x00, 0x28, 0x00,
     0x0e, 0x00, 0x0b, 0x00, 0x01, 0x00, 0x00, 0x00, 0x00, 0x00, 0x00, 0x00, 0x00, 0x80, 0x04, 0x08,
     0x00, 0x80, 0x04, 0x08, 0xec, 0x00, 0x00, 0x00, 0xec, 0x00, 0x00, 0x00, 0x05, 0x00, 0x00, 0x00,
     0x00, 0x10, 0x00, 0x00, 0x01, 0x00, 0x00, 0x00, 0xec, 0x00, 0x00, 0x00, 0xec, 0x90, 0x04, 0x08,
     0xec, 0x90, 0x04, 0x08, 0x00, 0x00, 0x00, 0x00, 0x04, 0x00, 0x00, 0x00, 0x06, 0x00, 0x00, 0x00,
     0x00, 0x10, 0x00, 0x00, 0x51, 0xe5, 0x74, 0x64, 0x00, 0x00, 0x00, 0x00, 0x00, 0x00, 0x00, 0x00,
     0x00, 0x00, 0x00, 0x00, 0x00, 0x00, 0x00, 0x00, 0x00, 0x00, 0x00, 0x00, 0x06, 0x00, 0x00, 0x00,
     0x10, 0x00, 0x00, 0x00, 0x00, 0x00, 0x00, 0x00, 0x00, 0x00, 0x00, 0x00, 0x00, 0x00, 0x00, 0x00]"

definition file0_rest :: "u8 list" where
  "file0_rest =
    [0x55, 0x89, 0xe5, 0x90, 0x8d, 0x74, 0x26, 0x00, 0xa1, 0xec, 0x90, 0x04, 0x08, 0x83, 0xc0, 0x01,
     0xa3, 0xec, 0x90, 0x04, 0x08, 0xeb, 0xf1, 0x00, 0x14, 0x00, 0x00, 0x00, 0x00, 0x00, 0x00, 0x00,
     0x01, 0x7a, 0x52, 0x00, 0x01, 0x7c, 0x08, 0x01, 0x1b, 0x0c, 0x04, 0x04, 0x88, 0x01, 0x00, 0x00,
     0x18, 0x00, 0x00, 0x00, 0x1c, 0x00, 0x00, 0x00, 0xc8, 0xff, 0xff, 0xff, 0x17, 0x00, 0x00, 0x00,
     0x00, 0x41, 0x0e, 0x08, 0x85, 0x02, 0x42, 0x0d, 0x05, 0x00, 0x00, 0x00, 0x47, 0x43, 0x43, 0x3a,
     0x20, 0x28, 0x55, 0x62, 0x75, 0x6e, 0x74, 0x75, 0x20, 0x34, 0x2e, 0x38, 0x2e, 0x32, 0x2d, 0x31,
     0x39, 0x75, 0x62, 0x75, 0x6e, 0x74, 0x75, 0x31, 0x29, 0x20, 0x34, 0x2e, 0x38, 0x2e, 0x32, 0x00,
     0x1c, 0x00, 0x00, 0x00, 0x02, 0x00, 0x00, 0x00, 0x00, 0x00, 0x04, 0x00, 0x00, 0x00, 0x00, 0x00,
     0xa0, 0x80, 0x04, 0x08, 0x17, 0x00, 0x00, 0x00, 0x00, 0x00, 0x00, 0x00, 0x00, 0x00, 0x00, 0x00,
     0x52, 0x00, 0x00, 0x00, 0x04, 0x00, 0x00, 0x00, 0x00, 0x00, 0x04, 0x01, 0x00, 0x00, 0x00, 0x00,
     0x01, 0x9c, 0x00, 0x00, 0x00, 0x70, 0x00, 0x00, 0x00, 0x00, 0x00, 0x00, 0x00, 0x00, 0x00, 0x00,
     0x00, 0x00, 0x00, 0x00, 0x00, 0x02, 0x97, 0x00, 0x00, 0x00, 0x01, 0x02, 0x3a, 0x00, 0x00, 0x00,
     0xa0, 0x80, 0x04, 0x08, 0x17, 0x00, 0x00, 0x00, 0x01, 0x9c, 0x03, 0x04, 0x05, 0x69, 0x6e, 0x74,
     0x00, 0x04, 0x78, 0x00, 0x01, 0x01, 0x50, 0x00, 0x00, 0x00, 0x05, 0x03, 0xec, 0x90, 0x04, 0x08,
     0x05, 0x3a, 0x00, 0x00, 0x00, 0x00, 0x01, 0x11, 0x01, 0x25, 0x0e, 0x13, 0x0b, 0x03, 0x0e, 0x1b,
     0x0e, 0x55, 0x17, 0x11, 0x01, 0x10, 0x17, 0x00, 0x00, 0x02, 0x2e, 0x00, 0x3f, 0x19, 0x03, 0x0e,
     0x3a, 0x0b, 0x3b, 0x0b, 0x49, 0x13, 0x11, 0x01, 0x12, 0x06, 0x40, 0x18, 0x97, 0x42, 0x19, 0x00,
     0x00, 0x03, 0x24, 0x00, 0x0b, 0x0b, 0x3e, 0x0b, 0x03, 0x08, 0x00, 0x00, 0x04, 0x34, 0x00, 0x03,
     0x08, 0x3a, 0x0b, 0x3b, 0x0b, 0x49, 0x13, 0x3f, 0x19, 0x02, 0x18, 0x00, 0x00, 0x05, 0x35, 0x00,
     0x49, 0x13, 0x00, 0x00, 0x00, 0x39, 0x00, 0x00, 0x00, 0x02, 0x00, 0x21, 0x00, 0x00, 0x00, 0x01,
     0x01, 0xfb, 0x0e, 0x0d, 0x00, 0x01, 0x01, 0x01, 0x01, 0x00, 0x00, 0x00, 0x01, 0x00, 0x00, 0x01,
     0x00, 0x74, 0x65, 0x73, 0x74, 0x70, 0x72, 0x6f, 0x63, 0x2e, 0x63, 0x00, 0x00, 0x00, 0x00, 0x00,
     0x00, 0x05, 0x02, 0xa0, 0x80, 0x04, 0x08, 0x13, 0x00, 0x02, 0x04, 0x01, 0x83, 0x02, 0x0f, 0x00,
     0x01, 0x01, 0x47, 0x4e, 0x55, 0x20, 0x43, 0x20, 0x34, 0x2e, 0x38, 0x2e, 0x32, 0x20, 0x2d, 0x6d,
     0x33, 0x32, 0x20, 0x2d, 0x6d, 0x74, 0x75, 0x6e, 0x65, 0x3d, 0x67, 0x65, 0x6e, 0x65, 0x72, 0x69,
     0x63, 0x20, 0x2d, 0x6d, 0x61, 0x72, 0x63, 0x68, 0x3d, 0x69, 0x36, 0x38, 0x36, 0x20, 0x2d, 0x67,
     0x67, 0x64, 0x62, 0x20, 0x2d, 0x4f, 0x32, 0x20, 0x2d, 0x66, 0x6e, 0x6f, 0x2d, 0x62, 0x75, 0x69,
     0x6c, 0x74, 0x69, 0x6e, 0x20, 0x2d, 0x66, 0x6e, 0x6f, 0x2d, 0x73, 0x74, 0x61, 0x63, 0x6b, 0x2d,
     0x70, 0x72, 0x6f, 0x74, 0x65, 0x63, 0x74, 0x6f, 0x72, 0x20, 0x2d, 0x66, 0x6e, 0x6f, 0x2d, 0x6f,
     0x6d, 0x69, 0x74, 0x2d, 0x66, 0x72, 0x61, 0x6d, 0x65, 0x2d, 0x70, 0x6f, 0x69, 0x6e, 0x74, 0x65,
     0x72, 0x00, 0x2f, 0x68, 0x6f, 0x6d, 0x65, 0x2f, 0x6b, 0x6c, 0x6f, 0x73, 0x65, 0x2f, 0x77, 0x6f,
     0x72, 0x6b, 0x73, 0x70, 0x61, 0x63, 0x65, 0x2f, 0x6f, 0x73, 0x2d, 0x6c, 0x61, 0x62, 0x33, 0x2f,
     0x75, 0x73, 0x65, 0x72, 0x70, 0x72, 0x6f, 0x63, 0x00, 0x6d, 0x61, 0x69, 0x6e, 0x00, 0x74, 0x65,
     0x73, 0x74, 0x70, 0x72, 0x6f, 0x63, 0x2e, 0x63, 0x00, 0xa0, 0x80, 0x04, 0x08, 0xb7, 0x80, 0x04,
     0x08, 0x00, 0x00, 0x00, 0x00, 0x00, 0x00, 0x00, 0x00, 0x00, 0x2e, 0x73, 0x79, 0x6d, 0x74, 0x61,
     0x62, 0x00, 0x2e, 0x73, 0x74, 0x72, 0x74, 0x61, 0x62, 0x00, 0x2e, 0x73, 0x68, 0x73, 0x74, 0x72,
     0x74, 0x61, 0x62, 0x00, 0x2e, 0x74, 0x65, 0x78, 0x74, 0x00, 0x2e, 0x65, 0x68, 0x5f, 0x66, 0x72,
     0x61, 0x6d, 0x65, 0x00, 0x2e, 0x62, 0x73, 0x73, 0x00, 0x2e, 0x63, 0x6f, 0x6d, 0x6d, 0x65, 0x6e,
     0x74, 0x00, 0x2e, 0x64, 0x65, 0x62, 0x75, 0x67, 0x5f, 0x61, 0x72, 0x61, 0x6e, 0x67, 0x65, 0x73,
     0x00, 0x2e, 0x64, 0x65, 0x62, 0x75, 0x67, 0x5f, 0x69, 0x6e, 0x66, 0x6f, 0x00, 0x2e, 0x64, 0x65,
     0x62, 0x75, 0x67, 0x5f, 0x61, 0x62, 0x62, 0x72, 0x65, 0x76, 0x00, 0x2e, 0x64, 0x65, 0x62, 0x75,
     0x67, 0x5f, 0x6c, 0x69, 0x6e, 0x65, 0x00, 0x2e, 0x64, 0x65, 0x62, 0x75, 0x67, 0x5f, 0x73, 0x74,
     0x72, 0x00, 0x2e, 0x64, 0x65, 0x62, 0x75, 0x67, 0x5f, 0x72, 0x61, 0x6e, 0x67, 0x65, 0x73, 0x00,
     0x00, 0x00, 0x00, 0x00, 0x00, 0x00, 0x00, 0x00, 0x00, 0x00, 0x00, 0x00, 0x00, 0x00, 0x00, 0x00,
     0x00, 0x00, 0x00, 0x00, 0x00, 0x00, 0x00, 0x00, 0x1b, 0x00, 0x00, 0x00, 0x01, 0x00, 0x00, 0x00,
     0x06, 0x00, 0x00, 0x00, 0xa0, 0x80, 0x04, 0x08, 0xa0, 0x00, 0x00, 0x00, 0x17, 0x00, 0x00, 0x00,
     0x00, 0x00, 0x00, 0x00, 0x00, 0x00, 0x00, 0x00, 0x10, 0x00, 0x00, 0x00, 0x00, 0x00, 0x00, 0x00,
     0x21, 0x00, 0x00, 0x00, 0x01, 0x00, 0x00, 0x00, 0x02, 0x00, 0x00, 0x00, 0xb8, 0x80, 0x04, 0x08,
     0xb8, 0x00, 0x00, 0x00, 0x34, 0x00, 0x00, 0x00, 0x00, 0x00, 0x00, 0x00, 0x00, 0x00, 0x00, 0x00,
     0x04, 0x00, 0x00, 0x00, 0x00, 0x00, 0x00, 0x00, 0x2b, 0x00, 0x00, 0x00, 0x08, 0x00, 0x00, 0x00,
     0x03, 0x00, 0x00, 0x00, 0xec, 0x90, 0x04, 0x08, 0xec, 0x00, 0x00, 0x00, 0x04, 0x00, 0x00, 0x00,
     0x00, 0x00, 0x00, 0x00, 0x00, 0x00, 0x00, 0x00, 0x04, 0x00, 0x00, 0x00, 0x00, 0x00, 0x00, 0x00,
     0x30, 0x00, 0x00, 0x00, 0x01, 0x00, 0x00, 0x00, 0x30, 0x00, 0x00, 0x00, 0x00, 0x00, 0x00, 0x00,
     0xec, 0x00, 0x00, 0x00, 0x24, 0x00, 0x00, 0x00, 0x00, 0x00, 0x00, 0x00, 0x00, 0x00, 0x00, 0x00,
     0x01, 0x00, 0x00, 0x00, 0x01, 0x00, 0x00, 0x00, 0x39, 0x00, 0x00, 0x00, 0x01, 0x00, 0x00, 0x00,
     0x00, 0x00, 0x00, 0x00, 0x00, 0x00, 0x00, 0x00, 0x10, 0x01, 0x00, 0x00, 0x20, 0x00, 0x00, 0x00,
     0x00, 0x00, 0x00, 0x00, 0x00, 0x00, 0x00, 0x00, 0x01, 0x00, 0x00, 0x00, 0x00, 0x00, 0x00, 0x00,
     0x48, 0x00, 0x00, 0x00, 0x01, 0x00, 0x00, 0x00, 0x00, 0x00, 0x00, 0x00, 0x00, 0x00, 0x00, 0x00,
     0x30, 0x01, 0x00, 0x00, 0x56, 0x00, 0x00, 0x00, 0x00, 0x00, 0x00, 0x00, 0x00, 0x00, 0x00, 0x00,
     0x01, 0x00, 0x00, 0x00, 0x00, 0x00, 0x00, 0x00, 0x54, 0x00, 0x00, 0x00, 0x01, 0x00, 0x00, 0x00,
     0x00, 0x00, 0x00, 0x00, 0x00, 0x00, 0x00, 0x00, 0x86, 0x01, 0x00, 0x00, 0x4f, 0x00, 0x00, 0x00,
     0x00, 0x00, 0x00, 0x00, 0x00, 0x00, 0x00, 0x00, 0x01, 0x00, 0x00, 0x00, 0x00, 0x00, 0x00, 0x00,
     0x62, 0x00, 0x00, 0x00, 0x01, 0x00, 0x00, 0x00, 0x00, 0x00, 0x00, 0x00, 0x00, 0x00, 0x00, 0x00,
     0xd5, 0x01, 0x00, 0x00, 0x3d, 0x00, 0x00, 0x00, 0x00, 0x00, 0x00, 0x00, 0x00, 0x00, 0x00, 0x00,
     0x01, 0x00, 0x00, 0x00, 0x00, 0x00, 0x00, 0x00, 0x6e, 0x00, 0x00, 0x00, 0x01, 0x00, 0x00, 0x00,
     0x30, 0x00, 0x00, 0x00, 0x00, 0x00, 0x00, 0x00, 0x12, 0x02, 0x00, 0x00, 0xa7, 0x00, 0x00, 0x00,
     0x00, 0x00, 0x00, 0x00, 0x00, 0x00, 0x00, 0x00, 0x01, 0x00, 0x00, 0x00, 0x01, 0x00, 0x00, 0x00,
     0x79, 0x00, 0x00, 0x00, 0x01, 0x00, 0x00, 0x00, 0x00, 0x00, 0x00, 0x00, 0x00, 0x00, 0x00, 0x00,
     0xb9, 0x02, 0x00, 0x00, 0x10, 0x00, 0x00, 0x00, 0x00, 0x00, 0x00, 0x00, 0x00, 0x00, 0x00, 0x00,
     0x01, 0x00, 0x00, 0x00, 0x00, 0x00, 0x00, 0x00, 0x11, 0x00, 0x00, 0x00, 0x03, 0x00, 0x00, 0x00,
     0x00, 0x00, 0x00, 0x00, 0x00, 0x00, 0x00, 0x00, 0xc9, 0x02, 0x00, 0x00, 0x87, 0x00, 0x00, 0x00,
     0x00, 0x00, 0x00, 0x00, 0x00, 0x00, 0x00, 0x00, 0x01, 0x00, 0x00, 0x00, 0x00, 0x00, 0x00, 0x00,
     0x01, 0x00, 0x00, 0x00, 0x02, 0x00, 0x00, 0x00, 0x00, 0x00, 0x00, 0x00, 0x00, 0x00, 0x00, 0x00,
     0x80, 0x05, 0x00, 0x00, 0x20, 0x01, 0x00, 0x00, 0x0d, 0x00, 0x00, 0x00, 0x0d, 0x00, 0x00, 0x00,
     0x04, 0x00, 0x00, 0x00, 0x10, 0x00, 0x00, 0x00, 0x09, 0x00, 0x00, 0x00, 0x03, 0x00, 0x00, 0x00,
     0x00, 0x00, 0x00, 0x00, 0x00, 0x00, 0x00, 0x00, 0xa0, 0x06, 0x00, 0x00, 0x2b, 0x00, 0x00, 0x00,
     0x00, 0x00, 0x00, 0x00, 0x00, 0x00, 0x00, 0x00, 0x01, 0x00, 0x00, 0x00, 0x00, 0x00, 0x00, 0x00,
     0x00, 0x00, 0x00, 0x00, 0x00, 0x00, 0x00, 0x00, 0x00, 0x00, 0x00, 0x00, 0x00, 0x00, 0x00, 0x00,
     0x00, 0x00, 0x00, 0x00, 0xa0, 0x80, 0x04, 0x08, 0x00, 0x00, 0x00, 0x00, 0x03, 0x00, 0x01, 0x00,
     0x00, 0x00, 0x00, 0x00, 0xb8, 0x80, 0x04, 0x08, 0x00, 0x00, 0x00, 0x00, 0x03, 0x00, 0x02, 0x00,
     0x00, 0x00, 0x00, 0x00, 0xec, 0x90, 0x04, 0x08, 0x00, 0x00, 0x00, 0x00, 0x03, 0x00, 0x03, 0x00,
     0x00, 0x00, 0x00, 0x00, 0x00, 0x00, 0x00, 0x00, 0x00, 0x00, 0x00, 0x00, 0x03, 0x00, 0x04, 0x00,
     0x00, 0x00, 0x00, 0x00, 0x00, 0x00, 0x00, 0x00, 0x00, 0x00, 0x00, 0x00, 0x03, 0x00, 0x05, 0x00,
     0x00, 0x00, 0x00, 0x00, 0x00, 0x00, 0x00, 0x00, 0x00, 0x00, 0x00, 0x00, 0x03, 0x00, 0x06, 0x00,
     0x00, 0x00, 0x00, 0x00, 0x00, 0x00, 0x00, 0x00, 0x00, 0x00, 0x00, 0x00, 0x03, 0x00, 0x07, 0x00,
     0x00, 0x00, 0x00, 0x00, 0x00, 0x00, 0x00, 0x00, 0x00, 0x00, 0x00, 0x00, 0x03, 0x00, 0x08, 0x00,
     0x00, 0x00, 0x00, 0x00, 0x00, 0x00, 0x00, 0x00, 0x00, 0x00, 0x00, 0x00, 0x03, 0x00, 0x09, 0x00,
     0x00, 0x00, 0x00, 0x00, 0x00, 0x00, 0x00, 0x00, 0x00, 0x00, 0x00, 0x00, 0x03, 0x00, 0x0a, 0x00,
     0x01, 0x00, 0x00, 0x00, 0x00, 0x00, 0x00, 0x00, 0x00, 0x00, 0x00, 0x00, 0x04, 0x00, 0xf1, 0xff,
     0x00, 0x00, 0x00, 0x00, 0x00, 0x00, 0x00, 0x00, 0x00, 0x00, 0x00, 0x00, 0x04, 0x00, 0xf1, 0xff,
     0x0c, 0x00, 0x00, 0x00, 0xec, 0x90, 0x04, 0x08, 0x04, 0x00, 0x00, 0x00, 0x11, 0x00, 0x03, 0x00,
     0x0e, 0x00, 0x00, 0x00, 0xec, 0x90, 0x04, 0x08, 0x00, 0x00, 0x00, 0x00, 0x10, 0x00, 0x03, 0x00,
     0x1a, 0x00, 0x00, 0x00, 0xa0, 0x80, 0x04, 0x08, 0x17, 0x00, 0x00, 0x00, 0x12, 0x00, 0x01, 0x00,
     0x1f, 0x00, 0x00, 0x00, 0xec, 0x90, 0x04, 0x08, 0x00, 0x00, 0x00, 0x00, 0x10, 0x00, 0x03, 0x00,
     0x26, 0x00, 0x00, 0x00, 0xf0, 0x90, 0x04, 0x08, 0x00, 0x00, 0x00, 0x00, 0x10, 0x00, 0x03, 0x00,
     0x00, 0x74, 0x65, 0x73, 0x74, 0x70, 0x72, 0x6f, 0x63, 0x2e, 0x63, 0x00, 0x78, 0x00, 0x5f, 0x5f,
     0x62, 0x73, 0x73, 0x5f, 0x73, 0x74, 0x61, 0x72, 0x74, 0x00, 0x6d, 0x61, 0x69, 0x6e, 0x00, 0x5f,
     0x65, 0x64, 0x61, 0x74, 0x61, 0x00, 0x5f, 0x65, 0x6e, 0x64, 0x00]"

text \<open>The array as it is initialised, with the zeros that C puts after the initialisers.\<close>

definition file_rows :: "u8 list list" where
  "file_rows =
     [file0_headers @ file0_rest,
      map char_byte ''This place is prepared for the first created file.'' @ [10],
      map char_byte ''-- I use filenames to locate files. (HASH) '' @ [10],
      map char_byte ''Hello, world!'' @ [10]]"

definition file_byte :: "nat \<Rightarrow> nat \<Rightarrow> u8" where
  "file_byte k j = (if k < length file_rows \<and> j < length (file_rows ! k) then file_rows ! k ! j else 0)"

definition disk_byte :: "nat \<Rightarrow> u8" where
  "disk_byte n = file_byte (n div 131072) (n mod 131072)"

section \<open>The first process\<close>

lemma length_headers [simp]: "length file0_headers = 160"
  by (simp add: file0_headers_def)

lemma header_bytes: "j < 160 \<Longrightarrow> file_byte 0 j = file0_headers ! j"
  and code_bytes: "j < length file0_rest \<Longrightarrow> file_byte 0 (160 + j) = file0_rest ! j"
  by (simp_all add: file_byte_def file_rows_def nth_append)

lemma header_words:
  assumes "k < 157"
  shows "mem_u32 (\<lambda>a. file_byte 0 (unat a)) (word_of_nat k) =
     le_word (file0_headers ! k) (file0_headers ! (k + 1)) (file0_headers ! (k + 2)) (file0_headers ! (k + 3))"
proof -
  have "file_byte 0 (unat (word_of_nat k + word_of_nat j :: u32)) = file0_headers ! (k + j)" if "j < 4" for j
    using header_bytes [of "k + j"] unat_of_nat_u32 [of "k + j"] assms that by simp
  from this [of 0] this [of 1] this [of 2] this [of 3] show ?thesis by (simp add: mem_u32_def)
qed

lemma builtin_elf:
  "magic (elf_of (file_byte 0)) = 0x464c457f" "e_phoff (elf_of (file_byte 0)) = 52" "e_phnum (elf_of (file_byte 0)) = 3"
  "e_entry (elf_of (file_byte 0)) = 0x80480a0"
  using header_words [of 0] header_words [of 24] header_words [of 28] header_bytes [of 44] header_bytes [of 45]
  by (simp_all add: elf_of_def elf_header_def mem_u16_def file0_headers_def le_word_def)

lemma builtin_segments:
  "elf_segments (file_byte 0) =
     [\<lparr>p_type = 1, p_off = 0, p_vaddr = 0x8048000, p_paddr = 0x8048000, p_filesz = 0xec, p_memsz = 0xec, p_flags = 5, p_align = 0x1000\<rparr>,
      \<lparr>p_type = 1, p_off = 0xec, p_vaddr = 0x80490ec, p_paddr = 0x80490ec, p_filesz = 0, p_memsz = 4, p_flags = 6, p_align = 0x1000\<rparr>,
      \<lparr>p_type = 0x6474e551, p_off = 0, p_vaddr = 0, p_paddr = 0, p_filesz = 0, p_memsz = 0, p_flags = 6, p_align = 16\<rparr>]"
  using header_words [of 52] header_words [of 56] header_words [of 60] header_words [of 64] header_words [of 68] header_words [of 72]
    header_words [of 76] header_words [of 80] header_words [of 84] header_words [of 88] header_words [of 92] header_words [of 96]
    header_words [of 100] header_words [of 104] header_words [of 108] header_words [of 112] header_words [of 116] header_words [of 120]
    header_words [of 124] header_words [of 128] header_words [of 132] header_words [of 136] header_words [of 140] header_words [of 144]
  by (simp add: elf_segments_def builtin_elf upt_rec [of _ 3] program_header_def file0_headers_def le_word_def)

lemma builtin_loadable: "loadable (file_byte 0)"
  by (simp add: loadable_def builtin_elf builtin_segments seg_ok_def seg_place_def kernel_window_def seg_apart_def)

lemma disk_bytes: "bytes_at 1048576 disk disk_byte m \<Longrightarrow> bytes_at 131072 disk (file_byte 0) m"
  by (simp add: bytes_at_def disk_byte_def)

section \<open>Properties\<close>

text \<open>
  C39: the first process runs the program that is built into the kernel.  With the RAM disk as
  it is linked and no file created, the process manager loads the first file of the RAM disk,
  whatever the name it is asked for: the new thread will start at \<open>main\<close>, where its page
  directory shows the 23 bytes of code of \<open>testproc.c\<close>, and its variable \<open>x\<close> is zero.
\<close>

theorem first_process:
  assumes "fm_inv s H L" and "L Free = PcbList i # rest" and "vm_ready vt kpdir kpt s" and "fm_empty s = 0"
    and "places b disk" and "bytes_at 1048576 disk disk_byte (mem s)"
  shows "\<exists>s'. do_new_proc (serve disk vt kpdir) b args junk filename s = Inr s' \<and> resumes_at i s' = 0x80480a0 \<and>
    (\<forall>k<23. \<exists>y. translate (page_mem s') (PCB.cr3 (pcb_pool s' i)) (0x80480a0 + word_of_nat k) = Some y \<and> mem s' y = file0_rest ! k) \<and>
    (\<forall>k<4. \<exists>y. translate (page_mem s') (PCB.cr3 (pcb_pool s' i)) (0x80490ec + word_of_nat k) = Some y \<and> mem s' y = 0)"
proof -
  have "file_one s = 0" using assms(4) by (simp add: file_one_def file_index_def)
  then have D: "disk + word_of_nat (file_one s) * NR_FILE_SIZE = disk" by simp
  have "fm_empty s < 8" using assms(4) by simp
  from program_loaded [OF assms(1-3) this, where disk = disk, unfolded D, OF assms(5) disk_bytes [OF assms(6)] builtin_loadable, of args junk filename]
  obtain s' where s': "do_new_proc (serve disk vt kpdir) b args junk filename s = Inr s'" "resumes_at i s' = 0x80480a0"
    "\<forall>h\<in>set (elf_segments (file_byte 0)). \<forall>k<unat (p_memsz h). \<exists>y.
       translate (page_mem s') (PCB.cr3 (pcb_pool s' i)) (p_vaddr h + word_of_nat k) = Some y \<and>
       mem s' y = (if k < unat (p_filesz h) then file_byte 0 (unat (p_off h) + k) else 0)"
    unfolding builtin_elf by blast
  note seg = bspec [OF s'(3), THEN spec, THEN mp]
  have "\<exists>y. translate (page_mem s') (PCB.cr3 (pcb_pool s' i)) (0x80480a0 + word_of_nat k) = Some y \<and> mem s' y = file0_rest ! k"
    if "k < 23" for k
  proof -
    have "file_byte 0 (160 + k) = file0_rest ! k" using that by (intro code_bytes) (simp add: file0_rest_def)
    moreover have "0x8048000 + word_of_nat (160 + k) = (0x80480a0 + word_of_nat k :: u32)" by simp
    ultimately show ?thesis using seg [of "elf_segments (file_byte 0) ! 0" "160 + k"] that by (simp add: builtin_segments)
  qed
  moreover have "\<exists>y. translate (page_mem s') (PCB.cr3 (pcb_pool s' i)) (0x80490ec + word_of_nat k) = Some y \<and> mem s' y = 0"
    if "k < 4" for k
    using seg [of "elf_segments (file_byte 0) ! 1" k] that by (simp add: builtin_segments)
  ultimately show ?thesis using s'(1,2) by blast
qed

theorem first_process_witness:
  "\<exists>s t s' y. two_threads bss_kmm = Inr s \<and> init_table s = Inr t \<and>
     do_new_proc (serve 0xC0300000 0xC0200000 0xC0100000) 0xC0280000 (\<lambda>_. 0) (ten_bytes 0) 1
       (t\<lparr>mem := \<lambda>a. disk_byte (unat (a - 0xC0300000))\<rparr>) = Inr s' \<and>
     translate (page_mem s') (PCB.cr3 (pcb_pool s' 3)) 0x80480a1 = Some y \<and> mem s' y = 0x89"
proof (rule pm_boot)
  fix s t assume s: "two_threads bss_kmm = Inr s" "init_table s = Inr t" "fm_inv t (fm_heads two_heads) (fm_lists two_lists)"
    "fm_empty t = 0" "vm_ready 0xC0200000 0xC0100000 0x101000 t"
  have f: "fm_lists two_lists Free = PcbList 3 # map PcbList [4..<PCB_POOL_SIZE]"
    using upt_conv_Cons [OF pool_two(3)] by (simp add: fm_lists_def)
  let ?t = "t\<lparr>mem := \<lambda>a. disk_byte (unat (a - 0xC0300000))\<rparr>"
  have i: "fm_inv ?t (fm_heads two_heads) (fm_lists two_lists)" "vm_ready 0xC0200000 0xC0100000 0x101000 ?t" "fm_empty ?t = 0"
    using s(3-5) by (simp_all add: fm_inv_def proc_inv_def bucket_def vm_ready_def)
  have ba: "bytes_at 1048576 0xC0300000 disk_byte (mem ?t)" by (simp add: bytes_at_def)
  have pl: "places 0xC0280000 0xC0300000" by (simp add: places_def KOFFSET_def)
  from first_process [OF i(1) f i(2,3) pl ba, of "\<lambda>_. 0" "ten_bytes 0" 1]
  obtain s' where s': "do_new_proc (serve 0xC0300000 0xC0200000 0xC0100000) 0xC0280000 (\<lambda>_. 0) (ten_bytes 0) 1 ?t = Inr s'"
    "\<forall>k<23. \<exists>y. translate (page_mem s') (PCB.cr3 (pcb_pool s' 3)) (0x80480a0 + word_of_nat k) = Some y \<and> mem s' y = file0_rest ! k"
    by blast
  have "file0_rest ! 1 = 0x89" by (simp add: file0_rest_def)
  then show ?thesis using s(1,2) s'(1) s'(2) [rule_format, of 1] by auto
qed

end
