(* ===== verification/Idt.thy ===== *)
theory Idt
  imports Memory Timer
begin

text \<open>
  The interrupt descriptor table of \<open>irq/idt.c\<close>, the entry stubs of \<open>irq/do_irq.S\<close>
  that its gates point to, and the programming of the interrupt controllers in
  \<open>irq/i8259.c\<close>.
\<close>

section \<open>idt.c\<close>

definition INTERRUPT_GATE_32 :: u32 where
  "INTERRUPT_GATE_32 = 0xE"

definition TRAP_GATE_32 :: u32 where
  "TRAP_GATE_32 = 0xF"

definition NR_IRQ :: nat where
  "NR_IRQ = 256"

record GateDesc =
  offset_15_0 :: "16 word"
  gate_segment :: "16 word"
  gate_pad0 :: "8 word"
  gate_type :: "4 word"
  gate_system :: "1 word"
  gate_dpl :: "2 word"
  gate_present :: "1 word"
  offset_31_16 :: "16 word"

definition set_intr :: "GateDesc \<Rightarrow> u32 \<Rightarrow> u32 \<Rightarrow> u32 \<Rightarrow> GateDesc" where
  "set_intr ptr selector off dpl =
     ptr\<lparr>offset_15_0 := ucast (off AND 0xFFFF),
         gate_segment := ucast selector,
         gate_pad0 := 0,
         gate_type := ucast INTERRUPT_GATE_32,
         gate_system := 0,
         gate_dpl := ucast dpl,
         gate_present := 1,
         offset_31_16 := ucast (drop_bit 16 off AND 0xFFFF)\<rparr>"

definition set_trap :: "GateDesc \<Rightarrow> u32 \<Rightarrow> u32 \<Rightarrow> u32 \<Rightarrow> GateDesc" where
  "set_trap ptr selector off dpl =
     ptr\<lparr>offset_15_0 := ucast (off AND 0xFFFF),
         gate_segment := ucast selector,
         gate_pad0 := 0,
         gate_type := ucast TRAP_GATE_32,
         gate_system := 0,
         gate_dpl := ucast dpl,
         gate_present := 1,
         offset_31_16 := ucast (drop_bit 16 off AND 0xFFFF)\<rparr>"

text \<open>The labels of \<open>do_irq.S\<close>; \<open>code\<close> gives their addresses.\<close>

datatype stub = Vec nat | Vecsys | Irq_entry nat | Irq_empty

definition kernel_code :: u32 where
  "kernel_code = push_bit 3 (word_of_nat SEG_KERNEL_CODE)"

definition put_trap :: "(stub \<Rightarrow> u32) \<Rightarrow> nat \<Rightarrow> stub \<Rightarrow> (nat \<Rightarrow> GateDesc) \<Rightarrow> (nat \<Rightarrow> GateDesc)" where
  "put_trap code i l idt = idt(i := set_trap (idt i) kernel_code (code l) DPL_KERNEL)"

definition put_intr :: "(stub \<Rightarrow> u32) \<Rightarrow> nat \<Rightarrow> stub \<Rightarrow> (nat \<Rightarrow> GateDesc) \<Rightarrow> (nat \<Rightarrow> GateDesc)" where
  "put_intr code i l idt = idt(i := set_intr (idt i) kernel_code (code l) DPL_KERNEL)"

text \<open>\<open>write_idtr\<close> loads the limit and the two halves of the address.\<close>

definition write_idtr :: "u32 \<Rightarrow> u32 \<Rightarrow> u16 list" where
  "write_idtr addr sz = [ucast (sz - 1), ucast addr, ucast (drop_bit 16 addr)]"

definition init_idt :: "(stub \<Rightarrow> u32) \<Rightarrow> u32 \<Rightarrow> (nat \<Rightarrow> GateDesc) \<Rightarrow> (nat \<Rightarrow> GateDesc) \<times> u16 list" where
  "init_idt code idt_addr idt =
     (let idt = fold (\<lambda>i. put_trap code i Irq_empty) [0..<NR_IRQ] idt;
          idt = put_trap code 0 (Vec 0) idt;
          idt = put_trap code 1 (Vec 1) idt;
          idt = put_trap code 2 (Vec 2) idt;
          idt = put_trap code 3 (Vec 3) idt;
          idt = put_trap code 4 (Vec 4) idt;
          idt = put_trap code 5 (Vec 5) idt;
          idt = put_trap code 6 (Vec 6) idt;
          idt = put_trap code 7 (Vec 7) idt;
          idt = put_trap code 8 (Vec 8) idt;
          idt = put_trap code 9 (Vec 9) idt;
          idt = put_trap code 10 (Vec 10) idt;
          idt = put_trap code 11 (Vec 11) idt;
          idt = put_trap code 12 (Vec 12) idt;
          idt = put_trap code 13 (Vec 13) idt;
          idt = put_trap code 14 (Vec 14) idt;
          idt = put_trap code 0x80 Vecsys idt;
          idt = put_intr code (32 + 0) (Irq_entry 0) idt;
          idt = put_intr code (32 + 1) (Irq_entry 1) idt;
          idt = put_intr code (32 + 14) (Irq_entry 14) idt in
      (idt, write_idtr idt_addr (word_of_nat (8 * NR_IRQ))))"

section \<open>do_irq.S\<close>

text \<open>The number that a stub pushes for \<open>irq_handle\<close>.\<close>

fun stub_irq :: "stub \<Rightarrow> u32" where
  "stub_irq (Vec n) = word_of_nat n"
| "stub_irq Vecsys = 0x80"
| "stub_irq (Irq_entry n) = 1000 + word_of_nat n"
| "stub_irq Irq_empty = - 1"

section \<open>i8259.c\<close>

definition PORT_PIC_MASTER :: u16 where
  "PORT_PIC_MASTER = 0x20"

definition PORT_PIC_SLAVE :: u16 where
  "PORT_PIC_SLAVE = 0xA0"

definition init_intr :: "'a ktimer_scheme \<Rightarrow> 'a ktimer_scheme" where
  "init_intr s =
     (let s = out_byte (PORT_PIC_MASTER + 1) 0xFF s;
          s = out_byte (PORT_PIC_SLAVE + 1) 0xFF s;
          s = out_byte PORT_PIC_MASTER 0x11 s;
          s = out_byte (PORT_PIC_MASTER + 1) 32 s;
          s = out_byte (PORT_PIC_MASTER + 1) (push_bit 2 1) s;
          s = out_byte (PORT_PIC_MASTER + 1) 0x3 s;
          s = out_byte PORT_PIC_SLAVE 0x11 s;
          s = out_byte (PORT_PIC_SLAVE + 1) (32 + 8) s;
          s = out_byte (PORT_PIC_SLAVE + 1) 2 s;
          s = out_byte (PORT_PIC_SLAVE + 1) 0x3 s;
          s = out_byte PORT_PIC_MASTER 0x68 s;
          s = out_byte PORT_PIC_MASTER 0x0A s;
          s = out_byte PORT_PIC_SLAVE 0x68 s;
          s = out_byte PORT_PIC_SLAVE 0x0A s in
      s)"

section \<open>Gates\<close>

text \<open>The address a gate leads to, as the processor puts it together.\<close>

definition gate_offset :: "GateDesc \<Rightarrow> u32" where
  "gate_offset g = push_bit 16 (ucast (offset_31_16 g)) OR ucast (offset_15_0 g)"

lemma halves:
  fixes w :: u32
  shows "push_bit 16 (ucast (ucast (drop_bit 16 w AND 0xFFFF) :: 16 word)) OR ucast (ucast (w AND 0xFFFF) :: 16 word) = w"
proof (rule bit_word_eqI)
  have m: "(0xFFFF :: u32) = mask 16" by (simp add: mask_eq_exp_minus_1)
  fix n assume "n < LENGTH(32)"
  then have n: "n < 32" by simp
  consider "n < 16" | "16 \<le> n" by linarith
  then show "bit (push_bit 16 (ucast (ucast (drop_bit 16 w AND 0xFFFF) :: 16 word)) OR
      ucast (ucast (w AND 0xFFFF) :: 16 word) :: u32) n = bit w n"
    by cases (use n in \<open>auto simp: bit_simps m\<close>)
qed

lemma gate_offset_trap [simp]: "gate_offset (set_trap g sel off dpl) = off"
  by (simp add: gate_offset_def set_trap_def halves)

lemma gate_offset_intr [simp]: "gate_offset (set_intr g sel off dpl) = off"
  by (simp add: gate_offset_def set_intr_def halves)

text \<open>The stub that serves a vector.\<close>

definition stub_of :: "nat \<Rightarrow> stub" where
  "stub_of v =
     (if v < 15 then Vec v
      else if v = 0x80 then Vecsys
      else if v = 32 \<or> v = 33 \<or> v = 46 then Irq_entry (v - 32)
      else Irq_empty)"

lemma fold_put_trap:
  "fold (\<lambda>i. put_trap code i l) [0..<n] idt v =
    (if v < n then set_trap (idt v) kernel_code (code l) DPL_KERNEL else idt v)"
  by (induction n) (auto simp: put_trap_def less_Suc_eq)

lemma init_idt_gates:
  assumes "v < 256"
  shows "fst (init_idt code a idt) v =
    (if v = 32 \<or> v = 33 \<or> v = 46
     then set_intr (set_trap (idt v) kernel_code (code Irq_empty) DPL_KERNEL) kernel_code (code (stub_of v)) DPL_KERNEL
     else if v < 15 \<or> v = 0x80
     then set_trap (set_trap (idt v) kernel_code (code Irq_empty) DPL_KERNEL) kernel_code (code (stub_of v)) DPL_KERNEL
     else set_trap (idt v) kernel_code (code Irq_empty) DPL_KERNEL)"
proof (cases "v < 15")
  case True
  then have "v = 0 \<or> v = 1 \<or> v = 2 \<or> v = 3 \<or> v = 4 \<or> v = 5 \<or> v = 6 \<or> v = 7 \<or> v = 8 \<or> v = 9 \<or> v = 10 \<or>
      v = 11 \<or> v = 12 \<or> v = 13 \<or> v = 14" by arith
  then show ?thesis
    by (elim disjE) (simp_all add: init_idt_def Let_def put_trap_def put_intr_def fold_put_trap NR_IRQ_def stub_of_def)
next
  case False
  then show ?thesis using assms
    by (simp add: init_idt_def Let_def put_trap_def put_intr_def fold_put_trap NR_IRQ_def stub_of_def)
qed

section \<open>Properties\<close>

text \<open>
  the interrupt table.  After \<open>init_idt\<close> every one of the 256 vectors has a present
  gate to the kernel's code segment; the address in the gate is that of a stub, and the
  number the stub pushes is the vector for the processor's exceptions and the system call,
  1000 plus the line for the three connected interrupt lines at 32, 33 and 46, which alone
  have interrupt gates, and -1 for every other vector.
\<close>

theorem init_idt_vectors:
  assumes "v < 256"
  shows "gate_present (fst (init_idt code a idt) v) = 1 \<and>
    gate_segment (fst (init_idt code a idt) v) = ucast (SELECTOR_KERNEL SEG_KERNEL_CODE) \<and>
    (\<exists>l. gate_offset (fst (init_idt code a idt) v) = code l \<and>
      stub_irq l = (if v < 15 \<or> v = 0x80 then word_of_nat v
        else if v = 32 \<or> v = 33 \<or> v = 46 then word_of_nat (1000 + (v - 32)) else - 1)) \<and>
    (gate_type (fst (init_idt code a idt) v) = ucast INTERRUPT_GATE_32 \<longleftrightarrow> v = 32 \<or> v = 33 \<or> v = 46)"
proof -
  have p: "gate_present (set_trap g sel off dpl) = 1" "gate_present (set_intr g sel off dpl) = 1"
    "gate_segment (set_trap g sel off dpl) = ucast sel" "gate_segment (set_intr g sel off dpl) = ucast sel"
    "gate_type (set_trap g sel off dpl) = 0xF" "gate_type (set_intr g sel off dpl) = 0xE" for g sel off dpl
    by (simp_all add: set_trap_def set_intr_def TRAP_GATE_32_def INTERRUPT_GATE_32_def)
  have k: "kernel_code = SELECTOR_KERNEL SEG_KERNEL_CODE"
    by (simp add: kernel_code_def SELECTOR_KERNEL_def DPL_KERNEL_def)
  have "gate_offset (fst (init_idt code a idt) v) = code (stub_of v)"
    by (auto simp: init_idt_gates [OF assms] stub_of_def)
  moreover have "stub_irq (stub_of v) = (if v < 15 \<or> v = 0x80 then word_of_nat v
      else if v = 32 \<or> v = 33 \<or> v = 46 then word_of_nat (1000 + (v - 32)) else - 1)"
    by (auto simp: stub_of_def)
  ultimately show ?thesis
    by (auto simp: init_idt_gates [OF assms] p k INTERRUPT_GATE_32_def)
qed

theorem init_idt_vectors_witness:
  "\<exists>l. gate_offset (fst (init_idt (\<lambda>l. stub_irq l * 16) 0 (\<lambda>_. \<lparr>offset_15_0 = 0, gate_segment = 0, gate_pad0 = 0,
     gate_type = 0, gate_system = 0, gate_dpl = 0, gate_present = 0, offset_31_16 = 0\<rparr>)) 46) = stub_irq l * 16 \<and>
     stub_irq l = 1014"
  using init_idt_vectors [of 46 "\<lambda>l. stub_irq l * 16" 0 "\<lambda>_. \<lparr>offset_15_0 = 0, gate_segment = 0, gate_pad0 = 0,
     gate_type = 0, gate_system = 0, gate_dpl = 0, gate_present = 0, offset_31_16 = 0\<rparr>"] by auto

end
