(* ===== verification/Printk.thy ===== *)
theory Printk
  imports Strings Disk
begin

text \<open>
  Formatted output: \<open>lib/printk.c\<close> and the serial port of \<open>lib/serial.c\<close>.  A routine that
  prints a character is a parameter of \<open>vfprintf\<close> as in the source; local arrays are lists
  with their bounds checked, and their initial contents are a parameter.
\<close>

section \<open>printk.c: numbers\<close>

definition put :: "nat \<Rightarrow> u8 \<Rightarrow> u8 list \<Rightarrow> u8 list res" where
  "put i v b = (if i < length b then Inr (b[i := v]) else Inl (OutOfBounds ''str''))"

text \<open>\<open>for (...) *(ptr++) = ...\<close>: characters one after the other from an index on.\<close>

fun put_all :: "nat \<Rightarrow> u8 list \<Rightarrow> u8 list \<Rightarrow> u8 list res" where
  "put_all i [] b = Inr b"
| "put_all i (v # vs) b = bindR (put i v b) (put_all (Suc i) vs)"

text \<open>The loop that collects the digits of \<open>int_to_dec\<close>, the last digit first.\<close>

function dec_digits :: "int \<Rightarrow> int list \<Rightarrow> int list res" where
  "dec_digits x digit =
     (if x = 0 then Inr digit
      else if length digit < 12 then dec_digits (cdiv x 10) (digit @ [cmod x 10])
      else Inl (OutOfBounds ''digit''))"
  by pat_completeness auto

termination dec_digits
  by (relation "measure (\<lambda>(x, digit). 12 - length digit)") auto

declare dec_digits.simps [simp del]

definition int_to_dec :: "u32 \<Rightarrow> u8 list \<Rightarrow> (nat \<times> u8 list) res" where
  "int_to_dec x str =
     (if x = 0 then
        bindR (put 0 (char_byte CHR ''0'') str) (\<lambda>str.
        bindR (put 1 0 str) (\<lambda>str. Inr (1, str)))
      else if x = 0x80000000 then
        bindR (put_all 0 (map char_byte ''-2147483648'' @ [0]) str) (\<lambda>str. Inr (11, str))
      else
        let symbol = sint x < 0;
            x = (if symbol then - sint x else sint x) in
        bindR (dec_digits x []) (\<lambda>digit.
        let n = length digit;
            out = (if symbol then [char_byte CHR ''-''] else []) @
                  map (\<lambda>d. word_of_int d + char_byte CHR ''0'') (rev digit) @ [0] in
        bindR (put_all 0 out str) (\<lambda>str.
        Inr (if symbol then n + 1 else n, str))))"

text \<open>The loop that collects the digits of \<open>int_to_hex\<close>, the last digit first.\<close>

function hex_digits :: "u32 \<Rightarrow> u8 list \<Rightarrow> u8 list res" where
  "hex_digits x t =
     (if x = 0 then Inr t
      else if length t < 8 then
        let d = x AND 0xf in
        hex_digits (drop_bit 4 x)
          (t @ [if d < 10 then ucast d + char_byte CHR ''0'' else ucast d - 10 + char_byte CHR ''A''])
      else Inl (OutOfBounds ''t''))"
  by pat_completeness auto

termination hex_digits
  by (relation "measure (\<lambda>(x, t). 8 - length t)") auto

declare hex_digits.simps [simp del]

definition int_to_hex :: "u32 \<Rightarrow> u8 list \<Rightarrow> (nat \<times> u8 list) res" where
  "int_to_hex x str =
     (if x = 0 then
        bindR (put 0 (char_byte CHR ''0'') str) (\<lambda>str.
        bindR (put 1 0 str) (\<lambda>str. Inr (1, str)))
      else
        bindR (hex_digits x []) (\<lambda>t.
        bindR (put_all 0 (rev t @ [0]) str) (\<lambda>str.
        Inr (length t, str))))"

section \<open>printk.c: formatting\<close>

text \<open>\<open>for (; *p != 0; p++) printer(*p);\<close> over the local buffer.\<close>

fun print_buf :: "(u8 \<Rightarrow> 's \<Rightarrow> 's res) \<Rightarrow> u8 list \<Rightarrow> 's \<Rightarrow> 's res" where
  "print_buf printer [] s = Inl (OutOfBounds ''buffer'')"
| "print_buf printer (b # bs) s = (if b = 0 then Inr s else bindR (printer b s) (print_buf printer bs))"

text \<open>The same loop over a string in memory, which the printer does not change.\<close>

definition print_str :: "(u8 \<Rightarrow> 's \<Rightarrow> 's res) \<Rightarrow> memory \<Rightarrow> u32 \<Rightarrow> 's \<Rightarrow> 's res" where
  "print_str printer m p s =
     (case strlen m p of
        None \<Rightarrow> Inl (NoReturn ''vfprintf'')
      | Some n \<Rightarrow> forR printer (map (\<lambda>i. m (p + word_of_nat i)) [0..<unat n]) s)"

definition next_arg :: "u32 list \<Rightarrow> u32 res" where
  "next_arg args = (case args of [] \<Rightarrow> Inl (OutOfBounds ''args'') | a # _ \<Rightarrow> Inr a)"

definition print_arg ::
    "(u8 \<Rightarrow> 's \<Rightarrow> 's res) \<Rightarrow> memory \<Rightarrow> (nat \<Rightarrow> u8) \<Rightarrow> char \<Rightarrow> u32 list \<Rightarrow> 's \<Rightarrow> (u32 list \<times> 's) res" where
  "print_arg printer m junk k args s =
     (let buffer = map junk [0..<13] in
      if k = CHR ''d'' then
        bindR (next_arg args) (\<lambda>a.
        bindR (int_to_dec a buffer) (\<lambda>(_, buffer).
        bindR (print_buf printer buffer s) (\<lambda>s. Inr (tl args, s))))
      else if k = CHR ''x'' then
        bindR (next_arg args) (\<lambda>a.
        bindR (int_to_hex a buffer) (\<lambda>(_, buffer).
        bindR (print_buf printer buffer s) (\<lambda>s. Inr (tl args, s))))
      else if k = CHR ''s'' then
        bindR (next_arg args) (\<lambda>a.
        bindR (print_str printer m a s) (\<lambda>s. Inr (tl args, s)))
      else if k = CHR ''c'' then
        bindR (next_arg args) (\<lambda>a.
        bindR (printer (ucast a) s) (\<lambda>s. Inr (tl args, s)))
      else Inr (args, s))"

text \<open>
  The control string is the list of its characters before the terminating zero; after a
  percent sign at its end the source steps over the zero.
\<close>

fun vfprintf ::
    "(u8 \<Rightarrow> 's \<Rightarrow> 's res) \<Rightarrow> memory \<Rightarrow> (nat \<Rightarrow> u8) \<Rightarrow> string \<Rightarrow> u32 list \<Rightarrow> 's \<Rightarrow> 's res" where
  "vfprintf printer m junk [] args s = Inr s"
| "vfprintf printer m junk [c] args s =
     (if c \<noteq> CHR ''%'' then printer (char_byte c) s else Inl (OutOfBounds ''ctl''))"
| "vfprintf printer m junk (c # k # str) args s =
     (if c \<noteq> CHR ''%'' then bindR (printer (char_byte c) s) (vfprintf printer m junk (k # str) args)
      else bindR (print_arg printer m junk k args s) (\<lambda>(args, s). vfprintf printer m junk str args s))"

section \<open>serial.c\<close>

definition SERIAL_PORT :: u16 where
  "SERIAL_PORT = 0x3F8"

definition init_serial :: "'d ports \<Rightarrow> 'd \<Rightarrow> 'd" where
  "init_serial io d =
     (let d = outb io (SERIAL_PORT + 1) 0x00 d;
          d = outb io (SERIAL_PORT + 3) 0x80 d;
          d = outb io (SERIAL_PORT + 0) 0x01 d;
          d = outb io (SERIAL_PORT + 1) 0x00 d;
          d = outb io (SERIAL_PORT + 3) 0x03 d;
          d = outb io (SERIAL_PORT + 2) 0xC7 d;
          d = outb io (SERIAL_PORT + 4) 0x0B d in
      d)"

definition serial_idle :: "'d ports \<Rightarrow> 'd \<Rightarrow> bool \<times> 'd" where
  "serial_idle io d = (let (v, d) = inb io (SERIAL_PORT + 5) d in (v AND 0x20 \<noteq> 0, d))"

partial_function (option) serial_wait :: "'d ports \<Rightarrow> 'd \<Rightarrow> 'd option" where
  "serial_wait io d = (let (idle, d) = serial_idle io d in if \<not> idle then serial_wait io d else Some d)"

definition serial_printc :: "'d ports \<Rightarrow> u8 \<Rightarrow> 'd \<Rightarrow> 'd res" where
  "serial_printc io ch d =
     (case serial_wait io d of
        None \<Rightarrow> Inl (NoReturn ''serial_printc'')
      | Some d \<Rightarrow> Inr (outb io SERIAL_PORT ch d))"

definition printk :: "'d ports \<Rightarrow> memory \<Rightarrow> (nat \<Rightarrow> u8) \<Rightarrow> string \<Rightarrow> u32 list \<Rightarrow> 'd \<Rightarrow> 'd res" where
  "printk io m junk ctl args d = vfprintf (serial_printc io) m junk ctl args d"

section \<open>Digits\<close>

lemma put_all_eq:
  "i + length vs \<le> length b \<Longrightarrow> put_all i vs b = Inr (take i b @ vs @ drop (i + length vs) b)"
proof (induction vs arbitrary: i b)
  case (Cons v vs)
  then have i: "i < length b" by simp
  then have "put_all i (v # vs) b = put_all (Suc i) vs (b[i := v])" by (simp add: put_def)
  also have "\<dots> = Inr (take (Suc i) (b[i := v]) @ vs @ drop (Suc i + length vs) (b[i := v]))"
    using Cons.prems by (intro Cons.IH) simp
  also have "take (Suc i) (b[i := v]) = take i b @ [v]"
    using i by (simp add: take_Suc_conv_app_nth)
  finally show ?case by simp
qed simp

text \<open>The value of a list of decimal or hexadecimal digits, the last one first.\<close>

fun dvalue :: "int list \<Rightarrow> int" where
  "dvalue [] = 0"
| "dvalue (d # digit) = d + 10 * dvalue digit"

lemma dvalue_append: "dvalue (xs @ ys) = dvalue xs + 10 ^ length xs * dvalue ys"
  by (induction xs) (simp_all add: algebra_simps)

lemma dec_digits_ok:
  assumes "0 \<le> x" and "x < 10 ^ k" and "length acc + k \<le> 12"
  shows "\<exists>digit. dec_digits x acc = Inr (acc @ digit) \<and> length digit \<le> k \<and> dvalue digit = x \<and>
    (\<forall>d\<in>set digit. 0 \<le> d \<and> d < 10) \<and> (x \<noteq> 0 \<longrightarrow> digit \<noteq> [])"
  using assms
proof (induction k arbitrary: x acc)
  case 0
  then show ?case by (simp add: dec_digits.simps)
next
  case (Suc k)
  show ?case
  proof (cases "x = 0")
    case True
    then show ?thesis by (simp add: dec_digits.simps)
  next
    case False
    from Suc.prems have "0 \<le> x div 10" "x div 10 < 10 ^ k" "length (acc @ [x mod 10]) + k \<le> 12" by auto
    from Suc.IH [OF this] obtain digit where d: "dec_digits (x div 10) (acc @ [x mod 10]) = Inr ((acc @ [x mod 10]) @ digit)"
      "length digit \<le> k" "dvalue digit = x div 10" "\<forall>d\<in>set digit. 0 \<le> d \<and> d < 10"
      by auto
    have "dec_digits x acc = Inr (acc @ (x mod 10 # digit))"
      using False Suc.prems d(1) by (subst dec_digits.simps) (simp add: cdiv_nonneg cmod_nonneg)
    then show ?thesis using d(2-4) by (intro exI [of _ "x mod 10 # digit"]) auto
  qed
qed

text \<open>The number that a printed text denotes.\<close>

definition parse_dec :: "u8 list \<Rightarrow> int" where
  "parse_dec bs =
     (if bs \<noteq> [] \<and> hd bs = char_byte CHR ''-'' then - dvalue (map (\<lambda>b. uint b - 48) (rev (tl bs)))
      else dvalue (map (\<lambda>b. uint b - 48) (rev bs)))"

definition digit_byte :: "int \<Rightarrow> u8" where
  "digit_byte d = word_of_int d + char_byte CHR ''0''"

lemma char_bytes: "char_byte CHR ''0'' = 48" "char_byte CHR ''-'' = 45" "char_byte CHR ''A'' = 65"
  by (simp_all add: char_byte_def)

lemma digit_byte_value: "0 \<le> d \<Longrightarrow> d < 10 \<Longrightarrow> uint (digit_byte d) = d + 48"
proof -
  assume d: "0 \<le> d" "d < 10"
  have "uint (word_of_int (d + 48) :: u8) = d + 48"
    using d by (simp only: uint_word_of_int) simp
  then show ?thesis by (simp add: digit_byte_def char_bytes)
qed

lemma digit_byte_bounds: "0 \<le> d \<Longrightarrow> d < 10 \<Longrightarrow> digit_byte d \<noteq> 0 \<and> digit_byte d \<noteq> 45"
  using digit_byte_value [of d] by auto

lemma dvalue_text:
  "\<forall>d\<in>set digit. 0 \<le> d \<and> d < 10 \<Longrightarrow> dvalue (map (\<lambda>b. uint b - 48) (map digit_byte digit)) = dvalue digit"
  by (induction digit) (auto simp: digit_byte_value)

text \<open>What \<open>int_to_dec\<close> and \<open>int_to_hex\<close> leave in the buffer: a text and a zero.\<close>

definition printed :: "u8 list \<Rightarrow> nat \<Rightarrow> u8 list \<Rightarrow> u8 list \<Rightarrow> bool" where
  "printed cs n buf b \<longleftrightarrow> n = length cs \<and> 0 \<notin> set cs \<and> b = cs @ 0 # drop (Suc n) buf"

lemma put_text:
  assumes "length cs < length buf" and "0 \<notin> set cs"
  shows "\<exists>b. put_all 0 (cs @ [0]) buf = Inr b \<and> printed cs (length cs) buf b"
  using assms put_all_eq [of 0 "cs @ [0]" buf] by (simp add: printed_def)

lemma zero_text:
  assumes "11 < length buf"
  shows "\<exists>b. bindR (put 0 48 buf) (\<lambda>str. bindR (put 1 0 str) (\<lambda>str. Inr (1 :: nat, str))) = Inr (1, b) \<and> printed [48] 1 buf b"
proof -
  from assms obtain c d cs where "buf = c # d # cs" by (cases buf; cases "tl buf") auto
  then show ?thesis by (simp add: put_def printed_def)
qed

text \<open>Numbers that are printed digit by digit.\<close>

lemma int_to_dec_digits:
  assumes "11 < length buf" and "x \<noteq> 0" and "x \<noteq> 0x80000000"
  shows "\<exists>cs b. int_to_dec x buf = Inr (length cs, b) \<and> printed cs (length cs) buf b \<and>
    0 < length cs \<and> length cs \<le> 11 \<and> parse_dec cs = sint x"
proof -
  let ?v = "\<bar>sint x\<bar>"
  have r: "- 2147483648 \<le> sint x" "sint x < 2147483648"
    using sint_greater_eq [of x] sint_less [of x] by simp_all
  have "?v < 10 ^ 10" using r by simp
  then obtain digit where d: "dec_digits ?v [] = Inr digit" "length digit \<le> 10" "dvalue digit = ?v"
    "\<forall>d\<in>set digit. 0 \<le> d \<and> d < 10" "?v \<noteq> 0 \<longrightarrow> digit \<noteq> []"
    using dec_digits_ok [of ?v 10 "[]"] by auto
  let ?neg = "sint x < 0"
  let ?t = "(if ?neg then [45] else []) @ map digit_byte (rev digit)"
  have nz: "?v \<noteq> 0" using assms(2) by (simp add: signed_eq_0_iff)
  have dg: "\<forall>d\<in>set digit. digit_byte d \<noteq> 0 \<and> digit_byte d \<noteq> 45" using d(4) digit_byte_bounds by blast
  then have "0 \<notin> set ?t" by auto
  then obtain b where b: "put_all 0 (?t @ [0]) buf = Inr b" "printed ?t (length ?t) buf b"
    using put_text [of ?t buf] assms(1) d(2) by (cases ?neg) auto
  have "parse_dec ?t = sint x"
  proof (cases ?neg)
    case True
    then show ?thesis using d(3) dvalue_text [OF d(4)] by (simp add: parse_dec_def char_bytes rev_map)
  next
    case False
    have "digit \<noteq> []" using d(5) nz by simp
    then have "hd (map digit_byte (rev digit)) \<noteq> 45" using dg by (auto simp: hd_map hd_rev)
    then show ?thesis using False d(3) dvalue_text [OF d(4)] by (simp add: parse_dec_def char_bytes rev_map)
  qed
  moreover have "int_to_dec x buf = Inr (length ?t, b)"
  proof -
    have "(\<lambda>d. word_of_int d + 48) = digit_byte" by (simp add: fun_eq_iff digit_byte_def char_bytes)
    then show ?thesis using assms(2,3) b(1) d(1)
      by (cases ?neg) (simp_all add: int_to_dec_def Let_def char_bytes del: put_all.simps cong del: bindR_weak_cong)
  qed
  ultimately show ?thesis using b(2) d(2,5) nz by (intro exI [of _ ?t] exI [of _ b]) auto
qed

lemma int_to_dec_text:
  assumes "11 < length buf"
  shows "\<exists>cs b. int_to_dec x buf = Inr (length cs, b) \<and> printed cs (length cs) buf b \<and>
    0 < length cs \<and> length cs \<le> 11 \<and> parse_dec cs = sint x"
proof -
  consider "x = 0" | "x = 0x80000000" | "x \<noteq> 0" "x \<noteq> 0x80000000" by blast
  then show ?thesis
  proof cases
    case 1
    obtain b where z: "bindR (put 0 48 buf) (\<lambda>str. bindR (put 1 0 str) (\<lambda>str. Inr (1 :: nat, str))) = Inr (1, b)"
      "printed [48] 1 buf b" using zero_text [OF assms] by blast
    have "parse_dec [48] = 0" by (simp add: parse_dec_def char_bytes)
    then show ?thesis using z 1
      by - (rule exI [of _ "[48]"], rule exI [of _ b], simp add: int_to_dec_def char_bytes cong del: bindR_weak_cong)
  next
    case 2
    let ?t = "map char_byte ''-2147483648''"
    have "0 \<notin> set ?t" by (simp add: char_byte_def)
    then obtain b where b: "put_all 0 (?t @ [0]) buf = Inr b" "printed ?t (length ?t) buf b"
      using put_text [of ?t buf] assms by auto
    have "parse_dec ?t = sint x" by (simp add: 2 parse_dec_def char_byte_def)
    then show ?thesis using b 2 by (intro exI [of _ ?t] exI [of _ b]) (simp add: int_to_dec_def)
  next
    case 3
    then show ?thesis by (rule int_to_dec_digits [OF assms])
  qed
qed

text \<open>Hexadecimal digits.\<close>

definition hex_byte :: "u32 \<Rightarrow> u8" where
  "hex_byte d = (if d < 10 then ucast d + char_byte CHR ''0'' else ucast d - 10 + char_byte CHR ''A'')"

definition unhex :: "u8 \<Rightarrow> nat" where
  "unhex b = (if unat b < 58 then unat b - 48 else unat b - 55)"

fun hvalue :: "nat list \<Rightarrow> nat" where
  "hvalue [] = 0"
| "hvalue (d # t) = d + 16 * hvalue t"

definition parse_hex :: "u8 list \<Rightarrow> nat" where
  "parse_hex bs = hvalue (map unhex (rev bs))"

lemma hex_byte_ok: "unhex (hex_byte (x AND 0xf)) = unat x mod 16" "hex_byte (x AND 0xf) \<noteq> 0"
proof -
  have "\<forall>d\<in>set [0..<16]. unhex (hex_byte (word_of_nat d)) = d \<and> hex_byte (word_of_nat d) \<noteq> 0" by code_simp
  moreover have "unat (x AND 0xf) = unat x mod 16"
  proof -
    have "x AND 0xf = take_bit 4 x" by (simp add: take_bit_eq_mask mask_eq_exp_minus_1)
    then show ?thesis by (simp add: take_bit_eq_mod unat_mod_distrib)
  qed
  moreover have "x AND 0xf = word_of_nat (unat (x AND 0xf))" by simp
  ultimately show "unhex (hex_byte (x AND 0xf)) = unat x mod 16" "hex_byte (x AND 0xf) \<noteq> 0"
    by (metis atLeastLessThan_iff mod_less_divisor set_upt zero_le zero_less_numeral)+
qed

lemma hex_digits_ok:
  assumes "unat x < 16 ^ k" and "length acc + k \<le> 8"
  shows "\<exists>t. hex_digits x acc = Inr (acc @ t) \<and> length t \<le> k \<and> hvalue (map unhex t) = unat x \<and>
    0 \<notin> set t \<and> (x \<noteq> 0 \<longrightarrow> t \<noteq> [])"
  using assms
proof (induction k arbitrary: x acc)
  case 0
  then have "x = 0" by (simp add: unat_eq_zero)
  then show ?case by (simp add: hex_digits.simps)
next
  case (Suc k)
  show ?case
  proof (cases "x = 0")
    case True
    then show ?thesis by (simp add: hex_digits.simps)
  next
    case False
    have q: "unat (drop_bit 4 x) = unat x div 16" unfolding unat_drop_bit_eq by (simp add: drop_bit_eq_div)
    with Suc.prems have "unat (drop_bit 4 x) < 16 ^ k" by (simp add: less_mult_imp_div_less mult.commute)
    moreover have "length (acc @ [hex_byte (x AND 0xf)]) + k \<le> 8" using Suc.prems by simp
    ultimately obtain t where t: "hex_digits (drop_bit 4 x) (acc @ [hex_byte (x AND 0xf)]) =
        Inr ((acc @ [hex_byte (x AND 0xf)]) @ t)" "length t \<le> k" "hvalue (map unhex t) = unat (drop_bit 4 x)" "0 \<notin> set t"
      using Suc.IH by blast
    have "hex_digits x acc = Inr (acc @ (hex_byte (x AND 0xf) # t))"
      using False Suc.prems t(1) by (subst hex_digits.simps) (simp add: Let_def hex_byte_def [symmetric])
    then show ?thesis using t(2-4) hex_byte_ok [of x] q by (intro exI [of _ "hex_byte (x AND 0xf) # t"]) auto
  qed
qed

lemma int_to_hex_text:
  assumes "11 < length buf"
  shows "\<exists>cs b. int_to_hex x buf = Inr (length cs, b) \<and> printed cs (length cs) buf b \<and>
    0 < length cs \<and> length cs \<le> 8 \<and> parse_hex cs = unat x"
proof (cases "x = 0")
  case True
  obtain b where z: "bindR (put 0 48 buf) (\<lambda>str. bindR (put 1 0 str) (\<lambda>str. Inr (1 :: nat, str))) = Inr (1, b)"
    "printed [48] 1 buf b" using zero_text [OF assms] by blast
  have "parse_hex [48] = 0" by (simp add: parse_hex_def unhex_def)
  then show ?thesis using z True by - (rule exI [of _ "[48]"], rule exI [of _ b], simp add: int_to_hex_def char_bytes cong del: bindR_weak_cong)
next
  case False
  have "unat x < 16 ^ 8" using unsigned_less [where ?'a = nat and w = x] by simp
  then obtain t where t: "hex_digits x [] = Inr t" "length t \<le> 8" "hvalue (map unhex t) = unat x" "0 \<notin> set t" "t \<noteq> []"
    using hex_digits_ok [of x 8 "[]"] False by auto
  then obtain b where b: "put_all 0 (rev t @ [0]) buf = Inr b" "printed (rev t) (length (rev t)) buf b"
    using put_text [of "rev t" buf] assms by auto
  then show ?thesis using t False
    by (intro exI [of _ "rev t"] exI [of _ b]) (simp add: int_to_hex_def parse_hex_def)
qed

section \<open>Formats\<close>

text \<open>A control string with its arguments as a sequence of pieces.\<close>

datatype piece = Lit char | Dec u32 | Hex u32 | Str u32 | Chr u32

fun ctl_of :: "piece list \<Rightarrow> string" where
  "ctl_of [] = []"
| "ctl_of (Lit c # ps) = c # ctl_of ps"
| "ctl_of (Dec a # ps) = CHR ''%'' # CHR ''d'' # ctl_of ps"
| "ctl_of (Hex a # ps) = CHR ''%'' # CHR ''x'' # ctl_of ps"
| "ctl_of (Str a # ps) = CHR ''%'' # CHR ''s'' # ctl_of ps"
| "ctl_of (Chr a # ps) = CHR ''%'' # CHR ''c'' # ctl_of ps"

fun args_of :: "piece list \<Rightarrow> u32 list" where
  "args_of [] = []"
| "args_of (Lit c # ps) = args_of ps"
| "args_of (Dec a # ps) = a # args_of ps"
| "args_of (Hex a # ps) = a # args_of ps"
| "args_of (Str a # ps) = a # args_of ps"
| "args_of (Chr a # ps) = a # args_of ps"

text \<open>The texts a piece may print as: numbers by what they denote, strings by their bytes.\<close>

fun renders :: "memory \<Rightarrow> piece \<Rightarrow> u8 list \<Rightarrow> bool" where
  "renders m (Lit c) cs \<longleftrightarrow> c \<noteq> CHR ''%'' \<and> cs = [char_byte c]"
| "renders m (Dec a) cs \<longleftrightarrow> cs \<noteq> [] \<and> parse_dec cs = sint a"
| "renders m (Hex a) cs \<longleftrightarrow> cs \<noteq> [] \<and> parse_hex cs = unat a"
| "renders m (Str a) cs \<longleftrightarrow> cstring m a cs"
| "renders m (Chr a) cs \<longleftrightarrow> cs = [ucast a]"

lemma print_buf_text: "0 \<notin> set cs \<Longrightarrow> print_buf printer (cs @ 0 # rest) s = forR printer cs s"
  by (induction cs arbitrary: s) (auto simp: bindR_def split: sum.splits)

lemma vfprintf_lit:
  "c \<noteq> CHR ''%'' \<Longrightarrow> vfprintf printer m junk (c # str) args s = bindR (printer (char_byte c) s) (vfprintf printer m junk str args)"
  by (cases str) (auto simp: bindR_def split: sum.splits)

lemma length_buffer: "11 < length (map junk [0..<13])" by simp

lemma print_number:
  assumes "k = CHR ''d'' \<and> p = Dec a \<or> k = CHR ''x'' \<and> p = Hex a"
  shows "\<exists>cs. renders m p cs \<and> (\<forall>printer s. print_arg printer m junk k (a # args) s =
    bindR (forR printer cs s) (\<lambda>s. Inr (args, s)))"
  using assms
proof (elim disjE conjE)
  assume k: "k = CHR ''d''" "p = Dec a"
  obtain cs b where t: "int_to_dec a (map junk [0..<13]) = Inr (length cs, b)" "0 \<notin> set cs"
    "b = cs @ 0 # drop (Suc (length cs)) (map junk [0..<13])" "cs \<noteq> []" "parse_dec cs = sint a"
    using int_to_dec_text [OF length_buffer, of a junk] by (auto simp: printed_def)
  then show ?thesis using k by (intro exI [of _ cs]) (auto simp: print_arg_def Let_def next_arg_def t(3) print_buf_text cong del: bindR_weak_cong)
next
  assume k: "k = CHR ''x''" "p = Hex a"
  obtain cs b where t: "int_to_hex a (map junk [0..<13]) = Inr (length cs, b)" "0 \<notin> set cs"
    "b = cs @ 0 # drop (Suc (length cs)) (map junk [0..<13])" "cs \<noteq> []" "parse_hex cs = unat a"
    using int_to_hex_text [OF length_buffer, of a junk] by (auto simp: printed_def)
  then show ?thesis using k by (intro exI [of _ cs]) (auto simp: print_arg_def Let_def next_arg_def t(3) print_buf_text cong del: bindR_weak_cong)
qed

lemma print_string:
  assumes "cstring m a cs" and "length cs < 4294967296"
  shows "print_arg printer m junk CHR ''s'' (a # args) s = bindR (forR printer cs s) (\<lambda>s. Inr (args, s))"
proof -
  have "map (\<lambda>i. m (a + word_of_nat i)) [0..<length cs] = cs"
    using assms(1) by (intro nth_equalityI) (auto simp: cstring_def)
  then show ?thesis using assms(2)
    by (simp add: print_arg_def next_arg_def print_str_def strlen_cstring [OF assms(1)] cong del: bindR_weak_cong)
qed

section \<open>Properties\<close>

text \<open>
  C30: printing of numbers is faithful and stays in its buffer.  For every 32-bit value
  \<open>int_to_dec\<close> and \<open>int_to_hex\<close> return, write a zero-terminated text into the 13 bytes
  that \<open>vfprintf\<close> gives them without leaving the digit arrays, return its length, and the
  text read back is the signed, respectively unsigned, value.
\<close>

theorem printed_numbers_read_back:
  assumes "length buf = 13"
  shows "(\<exists>cs b. int_to_dec x buf = Inr (length cs, b) \<and> printed cs (length cs) buf b \<and>
      length cs \<le> 11 \<and> parse_dec cs = sint x) \<and>
    (\<exists>cs b. int_to_hex x buf = Inr (length cs, b) \<and> printed cs (length cs) buf b \<and>
      length cs \<le> 8 \<and> parse_hex cs = unat x)"
  using int_to_dec_text [of buf x] int_to_hex_text [of buf x] assms by auto

theorem printed_numbers_read_back_witness:
  "\<exists>cs b. int_to_dec (- 120) (replicate 13 7) = Inr (length cs, b) \<and> parse_dec cs = - 120"
  using printed_numbers_read_back [of "replicate 13 7" "- 120"] by auto

text \<open>
  C31: \<open>vfprintf\<close> prints what the control string says.  For a control string made of literal
  characters and of \<open>%d\<close>, \<open>%x\<close>, \<open>%s\<close> and \<open>%c\<close> with their arguments, the printer is
  called on the texts of the pieces in their order, and on nothing else.
\<close>

theorem vfprintf_prints_pieces:
  assumes "\<forall>p\<in>set ps. (\<forall>a. p = Str a \<longrightarrow> (\<exists>cs. cstring m a cs \<and> length cs < 4294967296)) \<and> p \<noteq> Lit CHR ''%''"
  shows "\<exists>css. list_all2 (renders m) ps css \<and>
    (\<forall>(printer :: u8 \<Rightarrow> 's \<Rightarrow> 's res) s. vfprintf printer m junk (ctl_of ps) (args_of ps) s = forR printer (concat css) s)"
  using assms
proof (induction ps)
  case Nil
  then show ?case by simp
next
  case (Cons p ps)
  then obtain css where css: "list_all2 (renders m) ps css"
    "\<And>(printer :: u8 \<Rightarrow> 's \<Rightarrow> 's res) s. vfprintf printer m junk (ctl_of ps) (args_of ps) s = forR printer (concat css) s" by auto
  have "\<exists>cs. renders m p cs \<and> (\<forall>(printer :: u8 \<Rightarrow> 's \<Rightarrow> 's res) s. vfprintf printer m junk (ctl_of (p # ps)) (args_of (p # ps)) s =
      bindR (forR printer cs s) (vfprintf printer m junk (ctl_of ps) (args_of ps)))"
  proof (cases p)
    case (Lit c)
    with Cons.prems have "c \<noteq> CHR ''%''" by auto
    with Lit show ?thesis
      by (intro exI [of _ "[char_byte c]"]) (auto simp: vfprintf_lit bindR_def split: sum.splits)
  next
    case (Dec a)
    then obtain cs where "renders m p cs" "\<forall>(printer :: u8 \<Rightarrow> 's \<Rightarrow> 's res) s. print_arg printer m junk CHR ''d'' (a # args_of ps) s =
        bindR (forR printer cs s) (\<lambda>s. Inr (args_of ps, s))"
      using print_number [of "CHR ''d''" p a m junk "args_of ps"] by blast
    with Dec show ?thesis by (intro exI [of _ cs]) (simp add: bindR_assoc cong del: bindR_weak_cong)
  next
    case (Hex a)
    then obtain cs where "renders m p cs" "\<forall>(printer :: u8 \<Rightarrow> 's \<Rightarrow> 's res) s. print_arg printer m junk CHR ''x'' (a # args_of ps) s =
        bindR (forR printer cs s) (\<lambda>s. Inr (args_of ps, s))"
      using print_number [of "CHR ''x''" p a m junk "args_of ps"] by blast
    with Hex show ?thesis by (intro exI [of _ cs]) (simp add: bindR_assoc cong del: bindR_weak_cong)
  next
    case (Str a)
    with Cons.prems obtain cs where cs: "cstring m a cs" "length cs < 4294967296" by auto
    with Str show ?thesis
      by (intro exI [of _ cs]) (simp add: print_string [OF cs] bindR_assoc cong del: bindR_weak_cong)
  next
    case (Chr a)
    then show ?thesis
      by (intro exI [of _ "[ucast a]"]) (auto simp: print_arg_def Let_def next_arg_def bindR_def split: sum.splits)
  qed
  then obtain cs where "renders m p cs" "\<And>(printer :: u8 \<Rightarrow> 's \<Rightarrow> 's res) s. vfprintf printer m junk (ctl_of (p # ps)) (args_of (p # ps)) s =
      bindR (forR printer cs s) (vfprintf printer m junk (ctl_of ps) (args_of ps))" by blast
  moreover have "vfprintf printer m junk (ctl_of ps) (args_of ps) = forR printer (concat css)" for printer :: "u8 \<Rightarrow> 's \<Rightarrow> 's res"
    using css(2) by (simp add: fun_eq_iff)
  ultimately show ?case using css(1)
    by (intro exI [of _ "cs # css"]) (simp add: forR_append cong del: bindR_weak_cong)
qed

theorem vfprintf_prints_pieces_witness:
  "\<exists>css. list_all2 (renders (\<lambda>_. 0)) [Lit CHR ''#'', Dec 42] css \<and>
     vfprintf (\<lambda>c s. Inr (s @ [c])) (\<lambda>_. 0) (\<lambda>_. 0) ''#%d'' [42] [] = forR (\<lambda>c s. Inr (s @ [c])) (concat css) []"
proof -
  have "ctl_of [Lit CHR ''#'', Dec 42] = ''#%d''" "args_of [Lit CHR ''#'', Dec 42] = [42]" by simp_all
  moreover have "\<forall>p\<in>set [Lit CHR ''#'', Dec 42]. (\<forall>a. p = Str a \<longrightarrow>
      (\<exists>cs. cstring (\<lambda>_. 0) a cs \<and> length cs < 4294967296)) \<and> p \<noteq> Lit CHR ''%''" by simp
  ultimately show ?thesis
    using vfprintf_prints_pieces [of "[Lit CHR ''#'', Dec 42]" "\<lambda>_. 0" "\<lambda>_. 0"] by metis
qed

end
