(* ===== verification/Init.thy ===== *)
theory Init
  imports Ramdisk Ide Idt Printk
begin

text \<open>
  Start-up: \<open>kernel/main.c\<close> and \<open>drivers/drivers.c\<close>.  The boot context initialises the
  processor's tables, the process lists, the drivers and the servers in order and then asks the
  process manager for the first process.
\<close>

section \<open>drivers.c\<close>

text \<open>
  \<open>code n\<close> is the address of the thread function named \<open>n\<close>, \<open>args n\<close> the words that
  \<open>create_kthread\<close> finds above its first argument when it is called with it.
\<close>

definition init_driver ::
    "(string \<Rightarrow> u32) \<Rightarrow> (string \<Rightarrow> nat \<Rightarrow> u32) \<Rightarrow> (u8 \<Rightarrow> u8) \<Rightarrow>
     'a kmm_scheme \<times> 'd cdisk \<Rightarrow> (Dev list \<times> 'a kmm_scheme \<times> 'd cdisk) res" where
  "init_driver code args cmos =
     (\<lambda>(s, st).
       bindR (init_hal s) (\<lambda>s.
       bindR (init_timer (code ''timer_driver_thread'') (args ''timer_driver_thread'') cmos s) (\<lambda>s.
       bindR (init_tty (code ''ttyd'') (code ''getty'') (args ''ttyd'') s) (\<lambda>s.
       bindR (init_ide (code ''ide_driver_thread'') (args ''ide_driver_thread'') (s, st)) (\<lambda>(s, st).
       bindR (init_mem (code ''mem_driver_thread'') (args ''mem_driver_thread'') s) (\<lambda>s.
       bindR (init_kmem (code ''kmem_driver_thread'') (args ''kmem_driver_thread'') s) (\<lambda>s.
       bindR (init_null (code ''null_driver_thread'') (args ''null_driver_thread'') s) (\<lambda>s.
       bindR (init_zero (code ''zero_driver_thread'') (args ''zero_driver_thread'') s) (\<lambda>s.
       bindR (init_random (code ''random_driver_thread'') (args ''random_driver_thread'') s) (\<lambda>s.
       bindR (init_ramdisk (code ''ram_driver_thread'') (args ''ram_driver_thread'') s) (\<lambda>s.
       bindR (init_fm (code ''ramdisk_thread'') (args ''ramdisk_thread'') s) (\<lambda>s.
       bindR (init_mm (code ''mm_thread'') (args ''mm_thread'') s) (\<lambda>s.
       bindR (init_pm (code ''pm_thread'') (args ''pm_thread'') s) (\<lambda>s.
       bindR (hal_list s) (\<lambda>(devs, s).
       Inr (devs, s, st))))))))))))))))"

section \<open>main.c\<close>

definition print_welcome :: "'p ports \<Rightarrow> memory \<Rightarrow> (nat \<Rightarrow> u8) \<Rightarrow> 'p \<Rightarrow> 'p res" where
  "print_welcome io m junk = printk io m junk (''Hello, OS World!'' @ [CHR 0x0A]) []"

text \<open>
  The addresses the linker gives to the tables and functions, and what is on the stack above
  the first argument of \<open>create_kthread\<close>; and the whole machine: the tables of the processor,
  the kernel's variables, the disk with its cache and the serial port.
\<close>

record linkage =
  kpdir_addr :: u32
  kptable_addr :: u32
  gdt_addr :: u32
  tss_addr :: u32
  idt_addr :: u32
  stub_addr :: "stub \<Rightarrow> u32"
  thread_addr :: "string \<Rightarrow> u32"
  thread_args :: "string \<Rightarrow> nat \<Rightarrow> u32"

record ('a, 'd, 'p) machine =
  segments :: ksegs
  idt :: "nat \<Rightarrow> GateDesc"
  idtr :: "u16 list"
  kernel :: "'a kmm_scheme"
  disk_cache :: "'d cdisk"
  serial :: 'p

text \<open>
  \<open>msg\<close> is the static message of \<open>create_process\<close>, \<open>junk\<close> the uninitialised buffer of
  \<open>printk\<close>.  The state returned is the one in which the idle loop is entered, with the devices
  that \<open>hal_list\<close> has printed.
\<close>

definition os_init_cont ::
    "linkage \<Rightarrow> 'p ports \<Rightarrow> (u8 \<Rightarrow> u8) \<Rightarrow> (nat \<Rightarrow> u8) \<Rightarrow> Msg \<Rightarrow> ('a, 'd, 'p) machine \<Rightarrow> (Dev list \<times> ('a, 'd, 'p) machine) res" where
  "os_init_cont lk io cmos junk msg m =
     (let m = m\<lparr>segments := init_segment (gdt_addr lk) (tss_addr lk) (segments m)\<rparr>;
          m = m\<lparr>serial := init_serial io (serial m)\<rparr>;
          (gates, r) = init_idt (stub_addr lk) (idt_addr lk) (idt m);
          m = m\<lparr>idt := gates, idtr := r\<rparr>;
          s = init_intr (kernel m) in
      bindR (init_proc s) (\<lambda>s.
      bindR (print_welcome io (mem s) junk (serial m)) (\<lambda>p.
      bindR (init_driver (thread_addr lk) (thread_args lk) cmos (s, disk_cache m)) (\<lambda>(devs, s, st).
      let s = s\<lparr>intr := True\<rparr> in
      bindR (create_process 1 msg s) (\<lambda>(_, s).
      Inr (devs, m\<lparr>kernel := s, disk_cache := st, serial := p\<rparr>))))))"

text \<open>
  \<open>init_page\<close> builds the page tables in the memory that the kernel goes on with and sets
  \<open>kcr3\<close>; then the code jumps to \<open>os_init_cont\<close> at its high address.
\<close>

definition os_init ::
    "linkage \<Rightarrow> 'p ports \<Rightarrow> (u8 \<Rightarrow> u8) \<Rightarrow> (nat \<Rightarrow> u8) \<Rightarrow> Msg \<Rightarrow> mmu \<times> ('a, 'd, 'p) machine \<Rightarrow>
     (Dev list \<times> mmu \<times> ('a, 'd, 'p) machine) res" where
  "os_init lk io cmos junk msg =
     (\<lambda>(u, m).
       let u = init_page (kpdir_addr lk) (kptable_addr lk) u;
           s = (kernel m)\<lparr>page_mem := phys u, kcr3 := kcr3_val u, cr3_reg := mmu.cr3 u\<rparr> in
       bindR (os_init_cont lk io cmos junk msg (m\<lparr>kernel := s\<rparr>)) (\<lambda>(devs, m). Inr (devs, u, m)))"

section \<open>The state while threads and devices are added\<close>

text \<open>What the start of a thread or a device changes in the state.\<close>

definition touched :: "'a khal_scheme \<Rightarrow> 'a khal_scheme \<Rightarrow> bool" where
  "touched s t \<longleftrightarrow> (\<exists>h p k m b d. t = s\<lparr>heap := h, pcb_pool := p, token := k, stackmem := m, intr := b, dev_pool := d\<rparr>)"

lemma touchedI:
  "t = s\<lparr>heap := heap t, pcb_pool := pcb_pool t, token := token t, stackmem := stackmem t, intr := intr t, dev_pool := dev_pool t\<rparr> \<Longrightarrow> touched s t"
  unfolding touched_def by blast

lemma touched_trans: "touched s t \<Longrightarrow> touched t u \<Longrightarrow> touched s u"
  by (elim touched_def [THEN iffD1, elim_format] exE, rule touchedI, simp)

definition fm_places :: "laddr set" where
  "fm_places = {SemBlock FmMutex} \<union> range HashHead \<union> range FileLink"

text \<open>
  \<open>n\<close> is the first free PCB, \<open>rdy\<close> the ready queue, \<open>blk\<close> the threads created and not yet
  woken, \<open>regs\<close> the devices in the order of registration.  No message has been sent.
\<close>

definition quiet :: "nat \<Rightarrow> laddr set \<Rightarrow> (laddr \<Rightarrow> laddr list) \<Rightarrow> bool" where
  "quiet n H L \<longleftrightarrow>
     (\<forall>i. L (MsgList i) = [] \<and> L (SemBlock (MsgSem i)) = []) \<and>
     (\<forall>i. 1 \<le> i \<and> i < n \<longrightarrow> MsgList i \<in> H \<and> SemBlock (MsgSem i) \<in> H) \<and> range MsgNode \<inter> linked H L = {}"

definition booting :: "bool \<Rightarrow> nat \<Rightarrow> nat list \<Rightarrow> nat list \<Rightarrow> (string \<times> pid_t \<times> u32) list \<Rightarrow> 'a kfm_scheme \<Rightarrow> bool" where
  "booting fm n rdy blk regs s \<longleftrightarrow>
     (\<exists>H L. hal_inv s H L \<and> registry s L = regs \<and> L Free = map PcbList [n..<PCB_POOL_SIZE] \<and> L Ready = map PcbList rdy \<and>
        L Block = map PcbList blk \<and> quiet n H L \<and> (if fm then fm_inv s H L else fm_places \<inter> linked H L = {}))"

lemma boot_moved:
  assumes "l \<in> H" and "m \<in> H" and "d \<in> set (L l)"
  shows "linked H (moved l m d L) \<subseteq> linked H L"
proof -
  have "set (moved l m d L x) \<subseteq> insert d (set (L x))" for x
    using set_remove1_subset [of d "L l"] by (auto simp: moved_def)
  moreover have "set (L x) \<subseteq> linked H L" "x \<in> linked H L" if "x \<in> H" for x using that by (auto simp: linked_def)
  moreover have "d \<in> linked H L" using assms(1,3) by (auto simp: linked_def)
  ultimately have "set (x # moved l m d L x) \<subseteq> linked H L" if "x \<in> H" for x using that by fastforce
  then show ?thesis unfolding linked_def [of H "moved l m d L"] by blast
qed

lemma boot_born:
  assumes "Free \<in> H" and "Block \<in> H" and "PcbList i \<in> set (L Free)"
  shows "linked (born_heads i H) (born i L) \<subseteq> insert (SemBlock (MsgSem i)) (insert (MsgList i) (linked H L))"
proof -
  have "linked (born_heads i H) (born i L) \<subseteq> insert (SemBlock (MsgSem i)) (insert (MsgList i) (linked H (moved Free Block (PcbList i) L)))"
    by (auto simp: linked_def born_heads_def born_def split: if_splits)
  then show ?thesis using boot_moved [OF assms(1,2), of "PcbList i" L] assms(3) by blast
qed

lemma registry_cong: "dev_pool t = dev_pool s \<Longrightarrow> L' Devices = L Devices \<Longrightarrow> registry t L' = registry s L"
  by (simp add: registry_def dev_at_def)

lemma hal_inv_cong:
  assumes "hal_inv s H L" and "proc_inv t H' L'" and "H \<subseteq> H'" and "dev_pool t = dev_pool s" and "L' Devices = L Devices" and "L' FreeDev = L FreeDev"
  shows "hal_inv t H' L'"
  using assms by (auto simp: hal_inv_def dev_at_def comp_def)

lemma fm_inv_cong:
  assumes "fm_inv s H L" and "proc_inv t H' L'" and "H \<subseteq> H'" and "\<And>h. L' (HashHead h) = L (HashHead h)" and "L' (SemBlock FmMutex) = L (SemBlock FmMutex)"
    and "range FileLink \<inter> linked H' L' \<subseteq> range FileLink \<inter> linked H L" and "token t FmMutex = token s FmMutex" and "fm_empty t = fm_empty s" and "files t = files s"
  shows "fm_inv t H' L'"
proof -
  have "range FileLink \<inter> linked H' L' \<subseteq> FileLink ` {..<nat (fm_empty s)}" using assms(6) fm_invD(7) [OF assms(1)] by blast
  then show ?thesis using assms(1-5,7-9) unfolding fm_inv_def bucket_def by auto
qed

lemma boot_create:
  assumes "booting fm n rdy blk regs s" and "n < PCB_POOL_SIZE"
  obtains t where "create_kthread a args s = Inr (n, t)" and "booting fm (Suc n) rdy (blk @ [n]) regs t" and "pid (pcb_pool t n) = word_of_nat n"
    and "touched s t"
proof -
  obtain H L where s: "hal_inv s H L" "registry s L = regs" "L Free = map PcbList [n..<PCB_POOL_SIZE]" "L Ready = map PcbList rdy"
    "L Block = map PcbList blk" "quiet n H L" "if fm then fm_inv s H L else fm_places \<inter> linked H L = {}"
    using assms(1) unfolding booting_def by blast
  have f: "L Free = PcbList n # map PcbList [Suc n..<PCB_POOL_SIZE]" using s(3) upt_conv_Cons [OF assms(2)] by simp
  note pi = hal_invD(1) [OF s(1)]
  obtain t where t: "create_kthread a args s = Inr (n, t)" "proc_inv t (born_heads n H) (born n L)"
    "t = s\<lparr>heap := self_link (SemBlock (MsgSem n)) (self_link (MsgList n) (requeue Block (PcbList n) (heap s))),
      pcb_pool := (pcb_pool s)(n := (pcb_pool s n)\<lparr>tf := fst (new_stack n a args s) - 68, locked := 0,
        stat := STAT_SLEEPING, pid := word_of_nat n, PCB.cr3 := kcr3 s\<rparr>),
      token := (token s)(MsgSem n := 0), stackmem := snd (new_stack n a args s), intr := intr s \<or> relock s\<rparr>"
    by (rule create_kthread_inv [OF pi f])
  have heads: "Free \<in> H" "Block \<in> H" using lists_invD(2,3) [OF proc_invD(2) [OF pi]] by simp_all
  have lk: "linked (born_heads n H) (born n L) \<subseteq> insert (SemBlock (MsgSem n)) (insert (MsgList n) (linked H L))"
    by (rule boot_born [OF heads]) (simp add: f)
  have sub: "H \<subseteq> born_heads n H" by (auto simp: born_heads_def)
  have "hal_inv t (born_heads n H) (born n L)"
    by (rule hal_inv_cong [OF s(1) t(2) sub]) (simp_all add: t(3) born_def moved_def)
  moreover have "registry t (born n L) = regs" unfolding s(2) [symmetric] by (rule registry_cong) (simp_all add: t(3) born_def moved_def)
  moreover have "quiet (Suc n) (born_heads n H) (born n L)"
    using s(6) lk unfolding quiet_def by (auto simp: born_def moved_def born_heads_def less_Suc_eq)
  moreover have "if fm then fm_inv t (born_heads n H) (born n L) else fm_places \<inter> linked (born_heads n H) (born n L) = {}"
  proof (cases fm)
    case True
    have "range FileLink \<inter> linked (born_heads n H) (born n L) \<subseteq> range FileLink \<inter> linked H L" using lk by auto
    then have "fm_inv t (born_heads n H) (born n L)"
      using s(7) True by (intro fm_inv_cong [OF _ t(2) sub]) (simp_all add: t(3) born_def moved_def)
    then show ?thesis using True by simp
  next
    case False
    then show ?thesis using s(7) lk by (auto simp: fm_places_def)
  qed
  moreover have "born n L Free = map PcbList [Suc n..<PCB_POOL_SIZE]" "born n L Ready = map PcbList rdy" "born n L Block = map PcbList (blk @ [n])"
    using f s(4,5) by (simp_all add: born_def moved_def)
  ultimately have "booting fm (Suc n) rdy (blk @ [n]) regs t" unfolding booting_def by blast
  moreover have "touched s t" by (rule touchedI) (simp add: t(3))
  moreover have "pid (pcb_pool t n) = word_of_nat n" by (simp add: t(3))
  ultimately show thesis using t(1) by (intro that)
qed

lemma boot_wakeup:
  assumes "booting fm n rdy [i] regs s"
  obtains t where "wakeup (Some (PcbList i)) s = Inr t" and "booting fm n (rdy @ [i]) [] regs t" and "touched s t"
    and "pid (pcb_pool t j) = pid (pcb_pool s j)"
proof -
  obtain H L where s: "hal_inv s H L" "registry s L = regs" "L Free = map PcbList [n..<PCB_POOL_SIZE]" "L Ready = map PcbList rdy"
    "L Block = [PcbList i]" "quiet n H L" "if fm then fm_inv s H L else fm_places \<inter> linked H L = {}"
    using assms(1) unfolding booting_def by auto
  note pi = hal_invD(1) [OF s(1)]
  let ?L = "moved Block Ready (PcbList i) L"
  have heads: "Block \<in> H" "Ready \<in> H" using lists_invD(1,2) [OF proc_invD(2) [OF pi]] by simp_all
  obtain t where t: "wakeup (Some (PcbList i)) s = Inr t" "proc_inv t H ?L"
    "t = s\<lparr>heap := requeue Ready (PcbList i) (heap s),
       pcb_pool := (pcb_pool s)(i := (pcb_pool s i)\<lparr>stat := STAT_READY\<rparr>), intr := relock s\<rparr>"
    by (rule wakeup_inv [OF pi heads(1), of i]) (simp_all add: s(5))
  have lk: "linked H ?L \<subseteq> linked H L" by (rule boot_moved [OF heads]) (simp add: s(5))
  have "hal_inv t H ?L" by (rule hal_inv_cong [OF s(1) t(2)]) (simp_all add: t(3) moved_def)
  moreover have "registry t ?L = regs" unfolding s(2) [symmetric] by (rule registry_cong) (simp_all add: t(3) moved_def)
  moreover have "quiet n H ?L" using s(6) lk unfolding quiet_def by (auto simp: moved_def)
  moreover have "if fm then fm_inv t H ?L else fm_places \<inter> linked H ?L = {}"
  proof (cases fm)
    case True
    then have "fm_inv t H ?L" using s(7) lk by (intro fm_inv_cong [OF _ t(2)]) (auto simp: t(3) moved_def)
    then show ?thesis using True by simp
  qed (use s(7) lk in auto)
  moreover have "?L Free = map PcbList [n..<PCB_POOL_SIZE]" "?L Ready = map PcbList (rdy @ [i])" "?L Block = map PcbList []"
    using s(3-5) by (simp_all add: moved_def)
  ultimately have "booting fm n (rdy @ [i]) [] regs t" unfolding booting_def by blast
  moreover have "touched s t" by (rule touchedI) (simp add: t(3))
  moreover have "pid (pcb_pool t j) = pid (pcb_pool s j)" by (simp add: t(3))
  ultimately show thesis using t(1) by (intro that)
qed

lemma boot_register:
  assumes "booting False n rdy blk regs s" and "length regs < NR_DEV" and "name \<notin> fst ` set regs"
  obtains t where "hal_register name p d s = Inr t" and "booting False n rdy blk (regs @ [(name, p, d)]) t" and "touched s t"
    and "pcb_pool t = pcb_pool s"
proof -
  obtain H L where s: "hal_inv s H L" "registry s L = regs" "L Free = map PcbList [n..<PCB_POOL_SIZE]" "L Ready = map PcbList rdy"
    "L Block = map PcbList blk" "quiet n H L" "fm_places \<inter> linked H L = {}"
    using assms(1) unfolding booting_def by auto
  have new: "map_of (registry s L) name = None" using assms(3) s(2) by (simp add: map_of_eq_None_iff)
  obtain a as where f: "L FreeDev = a # as"
    using registry_size [OF s(1)] assms(2) s(2) by (cases "L FreeDev") (auto simp: registry_def)
  let ?L = "moved FreeDev Devices a L"
  obtain t where t: "hal_register name p d s = Inr t" "hal_inv t H ?L" "registry t ?L = regs @ [(name, p, d)]"
    using hal_register_ok [OF s(1) f new] s(2) by metis
  have eq: "t = s\<lparr>heap := requeue Devices a (heap s), dev_pool := (dev_pool s)(dev_idx a := \<lparr>dname = name, dpid = p, ddev_id = d\<rparr>), intr := relock s\<rparr>"
    using hal_register_eq [OF s(1), of name p d] f new t(1) by simp
  have lk: "linked H ?L \<subseteq> linked H L" by (rule boot_moved [OF hal_invD(2,3) [OF s(1)]]) (simp add: f)
  have "quiet n H ?L" using s(6) lk unfolding quiet_def by (auto simp: moved_def)
  moreover have "fm_places \<inter> linked H ?L = {}" using s(7) lk by blast
  moreover have "?L Free = map PcbList [n..<PCB_POOL_SIZE]" "?L Ready = map PcbList rdy" "?L Block = map PcbList blk"
    using s(3-5) by (simp_all add: moved_def)
  ultimately have "booting False n rdy blk (regs @ [(name, p, d)]) t" using t(2,3) unfolding booting_def by auto
  moreover have "touched s t" by (rule touchedI) (simp add: eq)
  moreover have "pcb_pool t = pcb_pool s" by (simp add: eq)
  ultimately show thesis using t(1) by (intro that)
qed

text \<open>
  The interrupt routines attached so far, and the parts of the state that the start of a driver
  leaves alone.
\<close>

definition starting ::
    "bool \<Rightarrow> nat \<Rightarrow> nat list \<Rightarrow> nat list \<Rightarrow> (string \<times> pid_t \<times> u32) list \<Rightarrow> nat \<Rightarrow> (nat \<Rightarrow> routine list) \<Rightarrow> 'a kmm_scheme \<Rightarrow> bool" where
  "starting fm n rdy blk regs c A s \<longleftrightarrow> booting fm n rdy blk regs s \<and> irq_inv s \<and> handle_count s = c \<and> attached s = A"

definition kept :: "'a kmm_scheme \<Rightarrow> 'a kmm_scheme \<Rightarrow> bool" where
  "kept s t \<longleftrightarrow>
     current t = current s \<and> lock_count t = lock_count s \<and> mem t = mem s \<and> p_free t = p_free s \<and> files t = files s \<and> fm_empty t = fm_empty s \<and>
     vmem_free t = vmem_free s \<and> page_mem t = page_mem s"

definition aside :: "'a kmm_scheme \<Rightarrow> 'a kmm_scheme \<Rightarrow> bool" where
  "aside s t \<longleftrightarrow>
     kept s t \<and> heap t = heap s \<and> pcb_pool t = pcb_pool s \<and> token t = token s \<and> dev_pool t = dev_pool s \<and>
     handle_pool t = handle_pool s \<and> handles t = handles s \<and> handle_count t = handle_count s"

lemma kept_trans: "kept s t \<Longrightarrow> kept t u \<Longrightarrow> kept s u"
  by (simp add: kept_def)

lemma touched_kept:
  assumes "touched s t"
  shows "kept s t" and "handle_pool t = handle_pool s \<and> handles t = handles s \<and> handle_count t = handle_count s"
    and "ttys t = ttys s \<and> current_consl t = current_consl s"
  using assms by (auto simp: touched_def kept_def)

lemma attached_cong: "handle_pool t = handle_pool s \<Longrightarrow> handles t = handles s \<Longrightarrow> attached t = attached s"
  by (rule ext) (simp only: attached_def)

lemma booting_aside:
  assumes "booting fm n rdy blk regs s" and "aside s t"
  shows "booting fm n rdy blk regs t"
proof -
  have pi: "proc_inv t H L = proc_inv s H L" for H L using assms(2) by (simp add: proc_inv_def aside_def kept_def)
  have "hal_inv t H L = hal_inv s H L" "registry t L = registry s L" "fm_inv t H L = fm_inv s H L" for H L
    using assms(2) pi by (simp_all add: hal_inv_def registry_def dev_at_def [abs_def] comp_def fm_inv_def bucket_def aside_def kept_def)
  then show ?thesis using assms(1) unfolding booting_def by (simp only:)
qed

lemma starting_aside: "starting fm n rdy blk regs c A s \<Longrightarrow> aside s t \<Longrightarrow> starting fm n rdy blk regs c A t"
  using booting_aside [of fm n rdy blk regs s t] attached_cong [of t s]
  by (auto simp: starting_def aside_def irq_inv_def)

lemma starting_touched:
  "starting fm n rdy blk regs c A s \<Longrightarrow> touched s t \<Longrightarrow> booting fm' n' rdy' blk' regs' t \<Longrightarrow> starting fm' n' rdy' blk' regs' c A t"
  using touched_kept(2) [of s t] attached_cong [of t s] by (auto simp: starting_def irq_inv_def)

lemma start_create:
  assumes "starting fm n rdy blk regs c A s" and "n < PCB_POOL_SIZE"
  obtains t where "create_kthread a args s = Inr (n, t)" and "starting fm (Suc n) rdy (blk @ [n]) regs c A t" and "pid (pcb_pool t n) = word_of_nat n"
    and "touched s t"
proof -
  have "booting fm n rdy blk regs s" using assms(1) by (simp add: starting_def)
  then show thesis
    by (rule boot_create [OF _ assms(2), of fm rdy blk regs s a args]) (rule that, assumption, rule starting_touched [OF assms(1)])
qed

lemma start_wakeup:
  assumes "starting fm n rdy [i] regs c A s"
  obtains t where "wakeup (Some (PcbList i)) s = Inr t" and "starting fm n (rdy @ [i]) [] regs c A t" and "touched s t"
proof -
  have "booting fm n rdy [i] regs s" using assms(1) by (simp add: starting_def)
  then show thesis
    by (rule boot_wakeup) (rule that, assumption, rule starting_touched [OF assms(1)])
qed

lemma start_register:
  assumes "starting False n rdy blk regs c A s" and "length regs < NR_DEV" and "name \<notin> fst ` set regs"
  obtains t where "hal_register name p d s = Inr t" and "starting False n rdy blk (regs @ [(name, p, d)]) c A t" and "touched s t"
    and "pcb_pool t = pcb_pool s"
proof -
  have "booting False n rdy blk regs s" using assms(1) by (simp add: starting_def)
  then show thesis
    by (rule boot_register [OF _ assms(2,3), where p = p and d = d]) (rule that, assumption, rule starting_touched [OF assms(1)])
qed

lemma start_handler:
  assumes "starting fm n rdy blk regs c A s" and "c < NR_IRQ_HANDLE" and "0 \<le> k" and "k < NR_HARD_INTR"
  obtains t where "add_irq_handle k func s = Inr t" and "starting fm n rdy blk regs (Suc c) (A(nat k := func # A (nat k))) t"
    and "kept s t" and "ttys t = ttys s" and "current_consl t = current_consl s"
proof -
  have i: "irq_inv s" "handle_count s < NR_IRQ_HANDLE" "attached s = A" "handle_count s = c" using assms by (simp_all add: starting_def)
  have "\<exists>t. add_irq_handle k func s = Inr t \<and> irq_inv t \<and> attached t = A(nat k := func # A (nat k)) \<and> handle_count t = Suc c"
    by (rule add_irq_handle_ok [OF i(1,2) assms(3,4), where func = func]) (auto simp: fun_eq_iff i(3,4))
  then obtain t where t: "add_irq_handle k func s = Inr t" "irq_inv t" "attached t = A(nat k := func # A (nat k))" "handle_count t = Suc c" by blast
  have eq: "t = s\<lparr>handle_count := handle_count s + 1,
      handle_pool := (handle_pool s)(handle_count s := \<lparr>routine_of = func, hnext = handles s (nat k)\<rparr>),
      handles := (handles s)(nat k := Some (handle_count s))\<rparr>"
    using t(1) i(2) assms(3,4) by (simp add: add_irq_handle_def Let_def)
  have pi: "proc_inv t H L = proc_inv s H L" for H L by (simp add: proc_inv_def eq)
  have "hal_inv t H L = hal_inv s H L" "registry t L = registry s L" "fm_inv t H L = fm_inv s H L" for H L
    using pi by (simp_all add: eq hal_inv_def registry_def dev_at_def [abs_def] comp_def fm_inv_def bucket_def)
  then have "booting fm n rdy blk regs t" using assms(1) unfolding starting_def booting_def by (simp only:)
  then have "starting fm n rdy blk regs (Suc c) (A(nat k := func # A (nat k))) t" using t(2-4) by (simp add: starting_def)
  moreover have "kept s t" "ttys t = ttys s" "current_consl t = current_consl s" by (simp_all add: eq kept_def)
  ultimately show thesis using t(1) by (intro that)
qed

section \<open>The drivers\<close>

lemma boot_hal:
  assumes "proc_inv s boot_heads boot_lists" and "irq_inv s" and "handle_count s = 0" and "attached s = (\<lambda>_. [])"
  obtains t where "init_hal s = Inr t" and "starting False 1 [] [] [] 0 (\<lambda>_. []) t" and "kept s t" and "ttys t = ttys s"
    and "current_consl t = current_consl s"
proof -
  let ?H = "insert Devices (insert FreeDev boot_heads)" and ?L = "boot_lists(FreeDev := map DevNode [0..<NR_DEV], Devices := [])"
  have lk: "linked boot_heads boot_lists \<subseteq> boot_heads \<union> range PcbList"
    by (auto simp: linked_def boot_lists_def split: if_splits)
  then have u: "FreeDev \<notin> linked boot_heads boot_lists" "Devices \<notin> linked boot_heads boot_lists" "dev_nodes \<inter> linked boot_heads boot_lists = {}"
    by (auto simp: boot_heads_def dev_nodes_def)
  obtain t where t: "init_hal s = Inr t" "hal_inv t ?H ?L" "registry t ?L = []" "t = s\<lparr>heap := heap t\<rparr>"
    by (rule init_hal_ok [OF assms(1) u])
  have "linked ?H ?L \<subseteq> insert Devices (insert FreeDev (linked boot_heads boot_lists \<union> range DevNode))"
    by (auto simp: linked_def split: if_splits)
  with lk have lk': "linked ?H ?L \<subseteq> insert Devices (insert FreeDev (boot_heads \<union> range PcbList \<union> range DevNode))" by blast
  have "quiet 1 ?H ?L" using lk' by (auto simp: quiet_def boot_lists_def boot_heads_def)
  moreover have "fm_places \<inter> linked ?H ?L = {}" using lk' by (auto simp: fm_places_def boot_heads_def)
  ultimately have "booting False 1 [] [] [] t"
    unfolding booting_def using t(2,3) by (intro exI [of _ ?H] exI [of _ ?L]) (simp add: boot_lists_def)
  moreover have h: "handle_pool t = handle_pool s" "handles t = handles s" "handle_count t = handle_count s"
    using arg_cong [OF t(4), of handle_pool] arg_cong [OF t(4), of handles] arg_cong [OF t(4), of handle_count] by simp_all
  ultimately have "starting False 1 [] [] [] 0 (\<lambda>_. []) t"
    using assms(2-4) attached_cong [OF h(1,2)] by (simp add: starting_def irq_inv_def)
  moreover have "kept s t" "ttys t = ttys s" "current_consl t = current_consl s" unfolding kept_def by (subst t(4); simp)+
  ultimately show thesis using t(1) by (intro that)
qed

lemma boot_driver:
  assumes "starting False n rdy [] regs c A s" and "n < PCB_POOL_SIZE" and "length regs < NR_DEV" and "name \<notin> fst ` set regs"
    and "\<And>s. aside s (set_pid (word_of_nat n) s)" and "\<And>s. aside s (prepare s)"
  obtains t where "start_driver a args name set_pid prepare s = Inr t"
    and "starting False (Suc n) (rdy @ [n]) [] (regs @ [(name, word_of_nat n, 0)]) c A t" and "kept s t"
proof -
  obtain t where t: "create_kthread a args s = Inr (n, t)" "starting False (Suc n) rdy [n] regs c A t" "pid (pcb_pool t n) = word_of_nat n" "touched s t"
    using start_create [OF assms(1,2), of a args] by auto
  let ?t = "set_pid (word_of_nat n) t"
  obtain u where u: "hal_register name (word_of_nat n) 0 ?t = Inr u" "starting False (Suc n) rdy [n] (regs @ [(name, word_of_nat n, 0)]) c A u"
    "touched ?t u" by (rule start_register [OF starting_aside [OF t(2) assms(5)] assms(3,4)])
  obtain v where v: "wakeup (Some (PcbList n)) (prepare u) = Inr v"
    "starting False (Suc n) (rdy @ [n]) [] (regs @ [(name, word_of_nat n, 0)]) c A v" "touched (prepare u) v"
    by (rule start_wakeup [OF starting_aside [OF u(2) assms(6)]])
  have "start_driver a args name set_pid prepare s = Inr v" using t(1,3) u(1) v(1) by (simp add: start_driver_def Let_def)
  moreover have "kept s v"
    using touched_kept(1) [OF t(4)] touched_kept(1) [OF u(3)] touched_kept(1) [OF v(3)] assms(5) [of t] assms(6) [of u]
    by (simp add: kept_def aside_def)
  ultimately show thesis using v(2) by (intro that)
qed

lemma boot_service:
  assumes "starting fm n rdy [] regs c A s" and "n < PCB_POOL_SIZE" and "\<And>s. aside s (set_pid (word_of_nat n) s)"
  obtains t where "bindR (create_kthread a args s) (\<lambda>(p, s). let s = set_pid (pid (pcb_pool s p)) s in wakeup (Some (PcbList p)) s) = Inr t"
    and "starting fm (Suc n) (rdy @ [n]) [] regs c A t" and "kept s t" and "\<exists>u v. touched s u \<and> v = set_pid (word_of_nat n) u \<and> touched v t"
proof -
  obtain t where t: "create_kthread a args s = Inr (n, t)" "starting fm (Suc n) rdy [n] regs c A t" "pid (pcb_pool t n) = word_of_nat n" "touched s t"
    using start_create [OF assms(1,2), of a args] by auto
  obtain v where v: "wakeup (Some (PcbList n)) (set_pid (word_of_nat n) t) = Inr v"
    "starting fm (Suc n) (rdy @ [n]) [] regs c A v" "touched (set_pid (word_of_nat n) t) v"
    by (rule start_wakeup [OF starting_aside [OF t(2) assms(3)]])
  have "kept s v" using touched_kept(1) [OF t(4)] touched_kept(1) [OF v(3)] assms(3) [of t] by (simp add: kept_def aside_def)
  then show thesis using t v by (intro that [of v]) auto
qed

lemma aside_init_rt: "aside s (init_rt cmos s)" "ttys (init_rt cmos s) = ttys s" "current_consl (init_rt cmos s) = current_consl s"
  "pcb_pool (init_rt cmos s) = pcb_pool s"
  by (simp_all add: aside_def kept_def init_rt_def get_time_part_def out_byte_def Let_def)

lemma boot_timer:
  assumes "starting False n rdy [] regs c A s" and "n < PCB_POOL_SIZE" and "length regs < NR_DEV" and "''timer'' \<notin> fst ` set regs" and "c < NR_IRQ_HANDLE"
  obtains t where "init_timer a args cmos s = Inr t" and "starting False (Suc n) (rdy @ [n]) [] (regs @ [(''timer'', word_of_nat n, 0)]) (Suc c)
      (A(0 := Update_jiffy # A 0)) t" and "kept s t" and "ttys t = ttys s" and "current_consl t = current_consl s"
proof -
  obtain s1 where s1: "init_i8253 s = Inr s1" "aside s s1" "ttys s1 = ttys s" "current_consl s1 = current_consl s"
    by (simp add: init_i8253_def FREQ_8253_def HZ_def cdiv_def Let_def aside_def kept_def out_byte_def)
  note a1 = starting_aside [OF starting_aside [OF assms(1) s1(2)] aside_init_rt(1) [of _ cmos]]
  obtain s2 where s2: "add_irq_handle 0 Update_jiffy (init_rt cmos s1) = Inr s2"
    "starting False n rdy [] regs (Suc c) (A(nat 0 := Update_jiffy # A (nat 0))) s2" "kept (init_rt cmos s1) s2" "ttys s2 = ttys (init_rt cmos s1)"
    "current_consl s2 = current_consl (init_rt cmos s1)"
    by (rule start_handler [OF a1 assms(5), of 0 Update_jiffy]) (simp_all add: NR_HARD_INTR_def)
  obtain s3 where s3: "create_kthread a args s2 = Inr (n, s3)" "starting False (Suc n) rdy [n] regs (Suc c) (A(0 := Update_jiffy # A 0)) s3"
    "pid (pcb_pool s3 n) = word_of_nat n" "touched s2 s3"
    using start_create [OF s2(2) assms(2), of a args] by auto
  have "aside s3 (s3\<lparr>TIMER_PID := word_of_nat n\<rparr>)" by (simp add: aside_def kept_def)
  from start_wakeup [OF starting_aside [OF s3(2) this]] obtain s4 where
    s4: "wakeup (Some (PcbList n)) (s3\<lparr>TIMER_PID := word_of_nat n\<rparr>) = Inr s4"
    "starting False (Suc n) (rdy @ [n]) [] regs (Suc c) (A(0 := Update_jiffy # A 0)) s4" "touched (s3\<lparr>TIMER_PID := word_of_nat n\<rparr>) s4" by blast
  have tp: "TIMER_PID s4 = word_of_nat n" using s4(3) by (auto simp: touched_def)
  obtain s5 where s5: "hal_register ''timer'' (word_of_nat n) 0 s4 = Inr s5"
    "starting False (Suc n) (rdy @ [n]) [] (regs @ [(''timer'', word_of_nat n, 0)]) (Suc c) (A(0 := Update_jiffy # A 0)) s5" "touched s4 s5"
    by (rule start_register [OF s4(2) assms(3,4)])
  have "init_timer a args cmos s = Inr (init_rt cmos s5)"
    using s1(1) s2(1) s3(1,3) s4(1) s5(1) tp by (simp add: init_timer_def Let_def)
  moreover note starting_aside [OF s5(2) aside_init_rt(1) [of _ cmos]]
  moreover have "kept s (init_rt cmos s5)"
    using s1(2) s2(3) touched_kept(1) [OF s3(4)] touched_kept(1) [OF s4(3)] touched_kept(1) [OF s5(3)] aside_init_rt(1) [of s1 cmos] aside_init_rt(1) [of s5 cmos]
    by (simp add: kept_def aside_def)
  moreover have "ttys (init_rt cmos s5) = ttys s" "current_consl (init_rt cmos s5) = current_consl s"
    using s1(3,4) s2(4,5) touched_kept(3) [OF s3(4)] touched_kept(3) [OF s4(3)] touched_kept(3) [OF s5(3)] by (simp_all add: aside_init_rt)
  ultimately show thesis by (intro that)
qed

lemma boot_ide:
  assumes "starting False n rdy [] regs c A s" and "n < PCB_POOL_SIZE" and "length regs < NR_DEV" and "''hda'' \<notin> fst ` set regs" and "Suc c < NR_IRQ_HANDLE"
  obtains t where "init_ide a args (s, st) = Inr (t, cache_init st)" and "starting False (Suc n) (rdy @ [n]) [] (regs @ [(''hda'', word_of_nat n, 0)])
      (Suc (Suc c)) (A(14 := Ide_intr # A 14, 0 := Time_intr # A 0)) t" and "kept s t"
proof -
  let ?A = "A(14 := Ide_intr # A 14, 0 := Time_intr # A 0)"
  obtain s1 where s1: "add_irq_handle 14 Ide_intr s = Inr s1" "starting False n rdy [] regs (Suc c) (A(14 := Ide_intr # A 14)) s1" "kept s s1"
    by (rule start_handler [OF assms(1), of 14 Ide_intr]) (use assms(5) in \<open>simp_all add: NR_HARD_INTR_def\<close>)
  obtain s2 where s2: "add_irq_handle 0 Time_intr s1 = Inr s2" "starting False n rdy [] regs (Suc (Suc c)) ?A s2" "kept s1 s2"
    by (rule start_handler [OF s1(2) assms(5), of 0 Time_intr]) (simp_all add: NR_HARD_INTR_def)
  obtain s3 where s3: "create_kthread a args s2 = Inr (n, s3)" "starting False (Suc n) rdy [n] regs (Suc (Suc c)) ?A s3"
    "pid (pcb_pool s3 n) = word_of_nat n" "touched s2 s3"
    using start_create [OF s2(2) assms(2), of a args] by auto
  have "aside s3 (s3\<lparr>IDE_PID := word_of_nat n\<rparr>)" by (simp add: aside_def kept_def)
  from start_register [OF starting_aside [OF s3(2) this] assms(3,4), of "word_of_nat n" 0] obtain s4 where
    s4: "hal_register ''hda'' (word_of_nat n) 0 (s3\<lparr>IDE_PID := word_of_nat n\<rparr>) = Inr s4"
    "starting False (Suc n) rdy [n] (regs @ [(''hda'', word_of_nat n, 0)]) (Suc (Suc c)) ?A s4" "touched (s3\<lparr>IDE_PID := word_of_nat n\<rparr>) s4" by blast
  obtain s5 where s5: "wakeup (Some (PcbList n)) s4 = Inr s5"
    "starting False (Suc n) (rdy @ [n]) [] (regs @ [(''hda'', word_of_nat n, 0)]) (Suc (Suc c)) ?A s5" "touched s4 s5"
    by (rule start_wakeup [OF s4(2)])
  have "init_ide a args (s, st) = Inr (s5, cache_init st)"
    using s1(1) s2(1) s3(1,3) s4(1) s5(1) by (simp add: init_ide_def Let_def)
  moreover have "kept s s5"
    using s1(3) s2(3) touched_kept(1) [OF s3(4)] touched_kept(1) [OF s4(3)] touched_kept(1) [OF s5(3)] by (simp add: kept_def)
  ultimately show thesis using s5(2) by (intro that)
qed

definition tty_memory :: "(nat \<Rightarrow> Console) \<Rightarrow> bool" where
  "tty_memory ts \<longleftrightarrow> (\<forall>t<NR_TTY. length (vbuf (ts t)) = 3840 \<and> length (lbuf (ts t)) = 257 \<and> length (cbuf (ts t)) = 1025)"

lemma boot_consl:
  assumes "length (vbuf (ttys s k)) = 3840" and "length (lbuf (ttys s k)) = 257" and "length (cbuf (ttys s k)) = 1025" and "length (banner s) = 81"
    and "current_consl s = None"
  obtains t where "init_consl_at k s = Inr t" and "aside s t" and "\<And>j. j \<noteq> k \<Longrightarrow> ttys t j = ttys s j" and "TTY t = TTY s" and "banner t = banner s"
    and "current_consl t = None"
proof -
  obtain c where c: "init_consl (ttynames ! k) (vbuf (ttys s k)) (ttys s k) = Inr c"
    using init_consl_ok [OF assms(1-3), of "ttynames ! k"] by blast
  let ?a = "\<lambda>j. push_bit 12 C_BLUE OR push_bit 8 C_LWHITE OR scast (banner s ! j) :: u16"
  let ?vm = "\<lambda>j. if 0 \<le> j \<and> j < 80 then ?a (j - 0) else vmem s j"
  have "bindR (rd (banner s) (int j)) (\<lambda>b. Inr (vm(0 + j := push_bit 12 C_BLUE OR push_bit 8 C_LWHITE OR scast b))) = Inr (vm(0 + j := ?a j))"
    if "j < 80" for j and vm :: "nat \<Rightarrow> u16" using that assms(4) by (simp add: rd_def)
  from forR_cells [of 80 _ 0, OF this, where vm = "vmem s", unfolded add_0]
  have "consl_sync k (set_tty k c s) = Inr ((set_tty k c s)\<lparr>vmem := ?vm\<rparr>)"
    using assms(5) by (simp add: consl_sync_def set_tty_def SCR_W_def)
  then have "init_consl_at k s = Inr ((set_tty k c s)\<lparr>vmem := ?vm\<rparr>)" using c by (simp add: init_consl_at_def)
  then show thesis by (rule that) (simp_all add: aside_def kept_def set_tty_def assms(5))
qed

definition tty_regs :: "nat \<Rightarrow> pid_t \<Rightarrow> (string \<times> pid_t \<times> u32) list" where
  "tty_regs k p = map (\<lambda>t. (ttynames ! t, p, word_of_nat t)) [0..<k]"

lemma ttynames_distinct: "distinct ttynames" "length ttynames = NR_TTY"
  by (simp_all add: ttynames_def NR_TTY_def)

lemma boot_consls:
  assumes "starting False n rdy [] regs c A s" and "length regs + NR_TTY \<le> NR_DEV" and "set ttynames \<inter> fst ` set regs = {}"
    and "tty_memory (ttys s)" and "length (banner s) = 81" and "current_consl s = None" and "k \<le> NR_TTY"
  shows "\<exists>t. forR (\<lambda>t s. bindR (init_consl_at t s) (hal_register (ttynames ! t) (TTY s) (word_of_nat t))) [0..<k] s = Inr t \<and>
    starting False n rdy [] (regs @ tty_regs k (TTY s)) c A t \<and> kept s t \<and> TTY t = TTY s \<and> length (banner t) = 81 \<and> current_consl t = None \<and>
    (\<forall>j. k \<le> j \<longrightarrow> ttys t j = ttys s j)"
  using assms(7)
proof (induction k)
  case 0
  then show ?case using assms by (auto simp: tty_regs_def kept_def)
next
  case (Suc k)
  then obtain t where t: "forR (\<lambda>t s. bindR (init_consl_at t s) (hal_register (ttynames ! t) (TTY s) (word_of_nat t))) [0..<k] s = Inr t"
    "starting False n rdy [] (regs @ tty_regs k (TTY s)) c A t" "kept s t" "TTY t = TTY s" "length (banner t) = 81" "current_consl t = None"
    "\<And>j. k \<le> j \<Longrightarrow> ttys t j = ttys s j" by auto
  have m: "length (vbuf (ttys t k)) = 3840" "length (lbuf (ttys t k)) = 257" "length (cbuf (ttys t k)) = 1025"
    using assms(4) Suc.prems t(7) [of k] by (auto simp: tty_memory_def)
  obtain u where u: "init_consl_at k t = Inr u" "aside t u" "\<And>j. j \<noteq> k \<Longrightarrow> ttys u j = ttys t j" "TTY u = TTY t" "banner u = banner t" "current_consl u = None"
    by (rule boot_consl [OF m t(5,6)]) (rule that)
  have len: "length (regs @ tty_regs k (TTY s)) < NR_DEV" using assms(2) Suc.prems by (simp add: tty_regs_def)
  have "ttynames ! k \<noteq> ttynames ! j" if "j < k" for j
    using that Suc.prems ttynames_distinct nth_eq_iff_index_eq [OF ttynames_distinct(1), of k j] by simp
  moreover have "ttynames ! k \<in> set ttynames" using Suc.prems ttynames_distinct(2) by simp
  ultimately have new: "ttynames ! k \<notin> fst ` set (regs @ tty_regs k (TTY s))" using assms(3) by (force simp: tty_regs_def)
  obtain v where v: "hal_register (ttynames ! k) (TTY s) (word_of_nat k) u = Inr v"
    "starting False n rdy [] ((regs @ tty_regs k (TTY s)) @ [(ttynames ! k, TTY s, word_of_nat k)]) c A v" "touched u v"
    by (rule start_register [OF starting_aside [OF t(2) u(2)] len new])
  have "forR (\<lambda>t s. bindR (init_consl_at t s) (hal_register (ttynames ! t) (TTY s) (word_of_nat t))) [0..<Suc k] s = Inr v"
    using t(1,4) u(1) v(1) by (simp only: forR_upt_Suc bindR_Inr)
  moreover have "starting False n rdy [] (regs @ tty_regs (Suc k) (TTY s)) c A v" using v(2) by (simp add: tty_regs_def)
  moreover have "kept s v" using t(3) u(2) touched_kept(1) [OF v(3)] by (simp add: kept_def aside_def)
  moreover have "TTY v = TTY s" "length (banner v) = 81" "current_consl v = None" "\<forall>j. Suc k \<le> j \<longrightarrow> ttys v j = ttys s j"
    using v(3) t(4,5,7) u(3-6) by (auto simp: touched_def)
  ultimately show ?case by blast
qed

lemma boot_gettys:
  assumes "starting False n rdy [] regs c A s" and "n + k \<le> PCB_POOL_SIZE"
  shows "\<exists>t. forR (\<lambda>_ s. bindR (create_kthread a args s) (\<lambda>(p, s). wakeup (Some (PcbList p)) s)) [0..<k] s = Inr t \<and>
    starting False (n + k) (rdy @ [n..<n + k]) [] regs c A t \<and> touched s t"
  using assms(2)
proof (induction k)
  case 0
  have "touched s s" by (rule touchedI) simp
  then show ?case using assms(1) by simp
next
  case (Suc k)
  then obtain t where t: "forR (\<lambda>_ s. bindR (create_kthread a args s) (\<lambda>(p, s). wakeup (Some (PcbList p)) s)) [0..<k] s = Inr t"
    "starting False (n + k) (rdy @ [n..<n + k]) [] regs c A t" "touched s t" by auto
  have l: "n + k < PCB_POOL_SIZE" using Suc.prems by simp
  obtain u where u: "create_kthread a args t = Inr (n + k, u)" "starting False (Suc (n + k)) (rdy @ [n..<n + k]) [n + k] regs c A u" "touched t u"
    using start_create [OF t(2) l, of a args] by auto
  obtain v where v: "wakeup (Some (PcbList (n + k))) u = Inr v" "starting False (Suc (n + k)) ((rdy @ [n..<n + k]) @ [n + k]) [] regs c A v" "touched u v"
    by (rule start_wakeup [OF u(2)])
  have "forR (\<lambda>_ s. bindR (create_kthread a args s) (\<lambda>(p, s). wakeup (Some (PcbList p)) s)) [0..<Suc k] s = Inr v"
    using t(1) u(1) v(1) by (simp only: forR_upt_Suc bindR_Inr prod.case)
  then show ?case using v(2) touched_trans [OF touched_trans [OF t(3) u(3)] v(3)] by simp
qed

lemma boot_tty:
  assumes "starting False n rdy [] regs c A s" and "n + 5 \<le> PCB_POOL_SIZE" and "length regs + NR_TTY \<le> NR_DEV" and "set ttynames \<inter> fst ` set regs = {}"
    and "tty_memory (ttys s)" and "current_consl s = None" and "Suc c < NR_IRQ_HANDLE"
  obtains t where "init_tty a g args s = Inr t" and "starting False (n + 5) (rdy @ [n..<n + 5]) [] (regs @ tty_regs NR_TTY (word_of_nat n)) (Suc (Suc c))
      (A(1 := Send_keymsg # A 1, 0 := Send_updatemsg # A 0)) t" and "kept s t"
proof -
  obtain s1 where s1: "add_irq_handle 1 Send_keymsg s = Inr s1" "starting False n rdy [] regs (Suc c) (A(1 := Send_keymsg # A 1)) s1" "kept s s1"
    "ttys s1 = ttys s" "current_consl s1 = current_consl s"
    by (rule start_handler [OF assms(1), of 1 Send_keymsg]) (use assms(7) in \<open>simp_all add: NR_HARD_INTR_def\<close>)
  have n: "n < PCB_POOL_SIZE" using assms(2) by simp
  obtain s2 where s2: "create_kthread a args s1 = Inr (n, s2)" "starting False (Suc n) rdy [n] regs (Suc c) (A(1 := Send_keymsg # A 1)) s2"
    "pid (pcb_pool s2 n) = word_of_nat n" "touched s1 s2"
    using start_create [OF s1(2) n, of a args] by auto
  have "aside s2 (s2\<lparr>TTY := word_of_nat n\<rparr>)" by (simp add: aside_def kept_def)
  from start_wakeup [OF starting_aside [OF s2(2) this]] obtain s3 where
    s3: "wakeup (Some (PcbList n)) (s2\<lparr>TTY := word_of_nat n\<rparr>) = Inr s3"
    "starting False (Suc n) (rdy @ [n]) [] regs (Suc c) (A(1 := Send_keymsg # A 1)) s3" "touched (s2\<lparr>TTY := word_of_nat n\<rparr>) s3" by blast
  let ?b = "s3\<lparr>banner := replicate (nat SCR_W) (char_byte CHR '' '') @ [0]\<rparr>"
  have s3': "TTY s3 = word_of_nat n" "ttys s3 = ttys s" "current_consl s3 = None"
    using s3(3) s2(4) s1(4,5) assms(6) by (auto simp: touched_def)
  have "aside s3 ?b" by (simp add: aside_def kept_def)
  from boot_consls [OF starting_aside [OF s3(2) this] assms(3,4), of NR_TTY] s3' assms(5)
  obtain s4 where s4: "forR (\<lambda>t s. bindR (init_consl_at t s) (hal_register (ttynames ! t) (TTY s) (word_of_nat t))) [0..<NR_TTY] ?b = Inr s4"
    "starting False (Suc n) (rdy @ [n]) [] (regs @ tty_regs NR_TTY (word_of_nat n)) (Suc c) (A(1 := Send_keymsg # A 1)) s4" "kept ?b s4"
    by (auto simp: SCR_W_def)
  have "aside s4 (s4\<lparr>current_consl := Some 0\<rparr>)" by (simp add: aside_def kept_def)
  from start_handler [OF starting_aside [OF s4(2) this] assms(7), of 0 Send_updatemsg] obtain s5 where
    s5: "add_irq_handle 0 Send_updatemsg (s4\<lparr>current_consl := Some 0\<rparr>) = Inr s5" "starting False (Suc n) (rdy @ [n]) []
      (regs @ tty_regs NR_TTY (word_of_nat n)) (Suc (Suc c)) (A(1 := Send_keymsg # A 1, 0 := Send_updatemsg # A 0)) s5" "kept (s4\<lparr>current_consl := Some 0\<rparr>) s5"
    by (auto simp: NR_HARD_INTR_def)
  have "Suc n + NR_TTY \<le> PCB_POOL_SIZE" using assms(2) by (simp add: NR_TTY_def)
  from boot_gettys [OF s5(2) this, of g args] obtain s6 where
    s6: "init_getty g args s5 = Inr s6" "starting False (Suc n + NR_TTY) ((rdy @ [n]) @ [Suc n..<Suc n + NR_TTY]) []
      (regs @ tty_regs NR_TTY (word_of_nat n)) (Suc (Suc c)) (A(1 := Send_keymsg # A 1, 0 := Send_updatemsg # A 0)) s6" "touched s5 s6"
    unfolding init_getty_def by blast
  have "init_tty a g args s = Inr s6"
    using s1(1) s2(1,3) s3(1) s4(1) s5(1) s6(1) by (simp add: init_tty_def init_console_def Let_def)
  moreover have "starting False (n + 5) (rdy @ [n..<n + 5]) [] (regs @ tty_regs NR_TTY (word_of_nat n)) (Suc (Suc c))
      (A(1 := Send_keymsg # A 1, 0 := Send_updatemsg # A 0)) s6"
  proof -
    have "(rdy @ [n]) @ [Suc n..<Suc n + NR_TTY] = rdy @ [n..<n + 5]" using upt_conv_Cons [of n "n + 5"] by (simp add: NR_TTY_def add.commute)
    moreover have "Suc n + NR_TTY = n + 5" by (simp add: NR_TTY_def)
    ultimately show ?thesis using s6(2) by (simp only:)
  qed
  moreover have "kept s s6"
    using s1(3) touched_kept(1) [OF s2(4)] touched_kept(1) [OF s3(3)] s4(3) s5(3) touched_kept(1) [OF s6(3)] by (simp add: kept_def)
  ultimately show thesis by (intro that)
qed

lemma boot_table:
  assumes "starting False n rdy blk regs c A s" and "fm_empty s = 0"
  obtains t where "init_table s = Inr t" and "starting True n rdy blk regs c A t" and "kept s t"
proof -
  obtain H L where s: "hal_inv s H L" "registry s L = regs" "L Free = map PcbList [n..<PCB_POOL_SIZE]" "L Ready = map PcbList rdy"
    "L Block = map PcbList blk" "quiet n H L" "fm_places \<inter> linked H L = {}"
    using assms(1) unfolding starting_def booting_def by auto
  have new: "a \<notin> linked H L" if "a = SemBlock FmMutex \<or> (\<exists>h. a = HashHead h) \<or> (\<exists>k. a = FileLink k)" for a
    using that s(7) by (auto simp: fm_places_def)
  obtain t where t: "init_table s = Inr t" "fm_inv t (fm_heads H) (fm_lists L)" "t = s\<lparr>heap := heap t, token := (token s)(FmMutex := 1), intr := relock s\<rparr>"
    by (rule init_table_ok [OF hal_invD(1) [OF s(1)] new assms(2)])
  have d: "dev_pool t = dev_pool s" "handle_pool t = handle_pool s" "handles t = handles s" "handle_count t = handle_count s" "kept s t"
    unfolding kept_def by (subst t(3); simp)+
  have "hal_inv t (fm_heads H) (fm_lists L)"
    by (rule hal_inv_cong [OF s(1) fm_invD(1) [OF t(2)]]) (auto simp: fm_heads_def fm_lists_def d)
  moreover have "registry t (fm_lists L) = regs" unfolding s(2) [symmetric] by (rule registry_cong) (simp_all add: d fm_lists_def)
  moreover have "linked (fm_heads H) (fm_lists L) \<subseteq> fm_places \<union> linked H L"
    by (auto simp: linked_def fm_lists_def fm_heads_def fm_places_def split: if_splits)
  then have "range MsgNode \<inter> linked (fm_heads H) (fm_lists L) = {}" using s(6) by (auto simp: quiet_def fm_places_def)
  then have "quiet n (fm_heads H) (fm_lists L)" using s(6) by (auto simp: quiet_def fm_heads_def fm_lists_def)
  ultimately have "booting True n rdy blk regs t" unfolding booting_def
    using t(2) s(3-5) by (intro exI [of _ "fm_heads H"] exI [of _ "fm_lists L"]) (simp add: fm_lists_def)
  then have "starting True n rdy blk regs c A t"
    using assms(1) attached_cong [OF d(2,3)] d(2-4) by (auto simp: starting_def irq_inv_def)
  then show thesis using t(1) d(5) by (intro that)
qed

text \<open>The devices in the order of registration, with their process and device numbers, and the routines.\<close>

definition all_devices :: "(string \<times> pid_t \<times> u32) list" where
  "all_devices = [(''timer'', 1, 0), (''tty1'', 2, 0), (''tty2'', 2, 1), (''tty3'', 2, 2), (''tty4'', 2, 3), (''hda'', 7, 0), (''mem'', 8, 0),
     (''kmem'', 9, 0), (''null'', 10, 0), (''zero'', 11, 0), (''random'', 12, 0), (''ram'', 13, 0)]"

definition all_routines :: "nat \<Rightarrow> routine list" where
  "all_routines = (\<lambda>_. [])(0 := [Time_intr, Send_updatemsg, Update_jiffy], 1 := [Send_keymsg], 14 := [Ide_intr])"

lemma boot_services:
  assumes "starting True 15 rdy [] regs c A s"
  obtains t where "bindR (init_mm a args s) (init_pm b brgs) = Inr t" and "starting True 17 (rdy @ [15, 16]) [] regs c A t"
    and "kept s t" and "MM t = 15" and "PM t = 16" and "FM t = FM s"
proof -
  have n: "15 < PCB_POOL_SIZE" "Suc 15 < PCB_POOL_SIZE" by (simp_all add: PCB_POOL_SIZE_def)
  have as: "\<And>s. aside s (s\<lparr>MM := w\<rparr>)" "\<And>s. aside s (s\<lparr>PM := w\<rparr>)" for w by (simp_all add: aside_def kept_def)
  obtain s1 where s1: "init_mm a args s = Inr s1" "starting True (Suc 15) (rdy @ [15]) [] regs c A s1" "kept s s1"
    "\<exists>u v. touched s u \<and> v = u\<lparr>MM := word_of_nat 15\<rparr> \<and> touched v s1"
    using boot_service [OF assms n(1), of "\<lambda>w s. s\<lparr>MM := w\<rparr>" a args, OF as(1)] unfolding init_mm_def by blast
  obtain s2 where s2: "init_pm b brgs s1 = Inr s2" "starting True (Suc (Suc 15)) ((rdy @ [15]) @ [Suc 15]) [] regs c A s2" "kept s1 s2"
    "\<exists>u v. touched s1 u \<and> v = u\<lparr>PM := word_of_nat (Suc 15)\<rparr> \<and> touched v s2"
    using boot_service [OF s1(2) n(2), of "\<lambda>w s. s\<lparr>PM := w\<rparr>" b brgs, OF as(2)] unfolding init_pm_def by blast
  have "MM s2 = 15" "PM s2 = 16" "FM s2 = FM s" using s1(4) s2(4) by (auto simp: touched_def)
  moreover have "starting True 17 (rdy @ [15, 16]) [] regs c A s2" using s2(2) by (simp add: eval_nat_numeral)
  ultimately show thesis using s1(1,3) s2(1,3) kept_trans by (intro that [of s2]) auto
qed

lemma device_step:
  assumes "all_devices ! k = (name, p, d)" and "k < 12"
  shows "length (take k all_devices) < NR_DEV" and "name \<notin> fst ` set (take k all_devices)"
    and "take k all_devices @ [(name, p, d)] = take (Suc k) all_devices"
proof -
  have l: "length all_devices = 12" "distinct (map fst all_devices)" by (simp_all add: all_devices_def)
  then show "length (take k all_devices) < NR_DEV" using assms(2) by (simp add: NR_DEV_def)
  show st: "take k all_devices @ [(name, p, d)] = take (Suc k) all_devices" using assms l(1) by (simp add: take_Suc_conv_app_nth)
  have "distinct (map fst (take (Suc k) all_devices))" using l(2) by (simp add: take_map [symmetric] del: take_Suc)
  then show "name \<notin> fst ` set (take k all_devices)" unfolding st [symmetric] by auto
qed

lemma next_driver:
  assumes "starting False n [1..<n] [] (take k all_devices) c A s" and "1 \<le> n" and "n < PCB_POOL_SIZE"
    and "all_devices ! k = (name, word_of_nat n, 0)" and "k < 12" and "\<And>s. aside s (set_pid (word_of_nat n) s)" and "\<And>s. aside s (prepare s)"
  obtains t where "start_driver a args name set_pid prepare s = Inr t" and "starting False (Suc n) [1..<Suc n] [] (take (Suc k) all_devices) c A t" and "kept s t"
proof -
  have "[1..<n] @ [n] = [1..<Suc n]" using assms(2) by simp
  note b = boot_driver [OF assms(1,3) device_step(1,2) [OF assms(4,5)], of set_pid prepare a args, unfolded device_step(3) [OF assms(4,5)] this]
  show thesis by (rule b) (use assms(6,7) that in blast)+
qed

lemma aside_srand: "aside s (srand s)"
  by (simp add: aside_def kept_def srand_def rand_def Let_def)

lemma boot_devices:
  assumes "starting False 8 [1..<8] [] (take 6 all_devices) c A s"
  obtains t where "bindR (init_mem a1 r1 s) (\<lambda>s. bindR (init_kmem a2 r2 s) (\<lambda>s. bindR (init_null a3 r3 s) (\<lambda>s.
      bindR (init_zero a4 r4 s) (\<lambda>s. bindR (init_random a5 r5 s) (init_ramdisk a6 r6))))) = Inr t"
    and "starting False 14 [1..<14] [] all_devices c A t" and "kept s t"
proof -
  have p: "n < PCB_POOL_SIZE" if "n < 20" for n using that by (simp add: PCB_POOL_SIZE_def)
  have as: "\<And>s. aside s (s\<lparr>MEM := w\<rparr>)" "\<And>s. aside s (s\<lparr>DEV_KMEM := w\<rparr>)" "\<And>s. aside s (s\<lparr>DEV_NULL := w\<rparr>)" "\<And>s. aside s (s\<lparr>DEV_ZERO := w\<rparr>)"
    "\<And>s. aside s (s\<lparr>RANDOM := w\<rparr>)" "\<And>s. aside s (s\<lparr>RAMDISK := w\<rparr>)" "\<And>s. aside s s" for w by (simp_all add: aside_def kept_def)
  obtain s1 where s1: "init_mem a1 r1 s = Inr s1" "starting False (Suc 8) [1..<Suc 8] [] (take (Suc 6) all_devices) c A s1" "kept s s1"
    unfolding init_mem_def by (rule next_driver [OF assms _ p, of "''mem''" "\<lambda>w s. s\<lparr>MEM := w\<rparr>" "\<lambda>s. s"]) (simp_all add: all_devices_def as)
  obtain s2 where s2: "init_kmem a2 r2 s1 = Inr s2" "starting False 10 [1..<10] [] (take 8 all_devices) c A s2" "kept s1 s2"
    unfolding init_kmem_def by (rule next_driver [OF s1(2) _ p, of "''kmem''" "\<lambda>w s. s\<lparr>DEV_KMEM := w\<rparr>" "\<lambda>s. s"]) (simp_all add: all_devices_def as)
  obtain s3 where s3: "init_null a3 r3 s2 = Inr s3" "starting False 11 [1..<11] [] (take 9 all_devices) c A s3" "kept s2 s3"
    unfolding init_null_def by (rule next_driver [OF s2(2) _ p, of "''null''" "\<lambda>w s. s\<lparr>DEV_NULL := w\<rparr>" "\<lambda>s. s"]) (simp_all add: all_devices_def as)
  obtain s4 where s4: "init_zero a4 r4 s3 = Inr s4" "starting False 12 [1..<12] [] (take 10 all_devices) c A s4" "kept s3 s4"
    unfolding init_zero_def by (rule next_driver [OF s3(2) _ p, of "''zero''" "\<lambda>w s. s\<lparr>DEV_ZERO := w\<rparr>" "\<lambda>s. s"]) (simp_all add: all_devices_def as)
  obtain s5 where s5: "init_random a5 r5 s4 = Inr s5" "starting False 13 [1..<13] [] (take 11 all_devices) c A s5" "kept s4 s5"
    unfolding init_random_def by (rule next_driver [OF s4(2) _ p, of "''random''" "\<lambda>w s. s\<lparr>RANDOM := w\<rparr>" srand]) (simp_all add: all_devices_def as aside_srand)
  obtain s6 where s6: "init_ramdisk a6 r6 s5 = Inr s6" "starting False 14 [1..<14] [] (take 12 all_devices) c A s6" "kept s5 s6"
    unfolding init_ramdisk_def by (rule next_driver [OF s5(2) _ p, of "''ram''" "\<lambda>w s. s\<lparr>RAMDISK := w\<rparr>" "\<lambda>s. s"]) (simp_all add: all_devices_def as)
  have "take 12 all_devices = all_devices" by (simp add: all_devices_def)
  then show thesis using s1 s2(1) s3(1) s4(1) s5(1) s6(1,2)
    kept_trans [OF kept_trans [OF kept_trans [OF kept_trans [OF kept_trans [OF s1(3) s2(3)] s3(3)] s4(3)] s5(3)] s6(3)] by (intro that [of s6]) simp_all
qed

text \<open>The registry and the four drivers that have interrupt routines.\<close>

lemma interrupt_drivers_up:
  assumes "proc_inv s boot_heads boot_lists" and "irq_inv s" and "handle_count s = 0" and "attached s = (\<lambda>_. [])"
    and "tty_memory (ttys s)" and "current_consl s = None"
  obtains s1 s2 s3 s4 where "init_hal s = Inr s1" and "init_timer (code ''timer_driver_thread'') (args ''timer_driver_thread'') cmos s1 = Inr s2"
    and "init_tty (code ''ttyd'') (code ''getty'') (args ''ttyd'') s2 = Inr s3"
    and "init_ide (code ''ide_driver_thread'') (args ''ide_driver_thread'') (s3, st) = Inr (s4, cache_init st)"
    and "starting False 8 [1..<8] [] (take 6 all_devices) 5 all_routines s4" and "kept s s4"
proof -
  let ?B = "(\<lambda>_ :: nat. [])(0 := [Update_jiffy])"
  have p: "n < PCB_POOL_SIZE" if "n < 20" for n using that by (simp add: PCB_POOL_SIZE_def)
  obtain s1 where s1: "init_hal s = Inr s1" "starting False 1 [] [] [] 0 (\<lambda>_. []) s1" "kept s s1" "ttys s1 = ttys s" "current_consl s1 = current_consl s"
    by (rule boot_hal [OF assms(1-4)])
  obtain s2 where s2: "init_timer (code ''timer_driver_thread'') (args ''timer_driver_thread'') cmos s1 = Inr s2"
    "starting False 2 [1] [] (take 1 all_devices) 1 ?B s2" "kept s1 s2" "ttys s2 = ttys s1" "current_consl s2 = current_consl s1"
    by (rule boot_timer [OF s1(2) p]) (simp_all add: NR_DEV_def NR_IRQ_HANDLE_def all_devices_def numeral_2_eq_2)
  obtain s3 where s3: "init_tty (code ''ttyd'') (code ''getty'') (args ''ttyd'') s2 = Inr s3"
    "starting False 7 [1..<7] [] (take 5 all_devices) 3 ((\<lambda>_. [])(0 := [Send_updatemsg, Update_jiffy], 1 := [Send_keymsg])) s3" "kept s2 s3"
  proof (rule boot_tty [OF s2(2), where a = "code ''ttyd''" and g = "code ''getty''" and args = "args ''ttyd''"])
    fix t assume t: "init_tty (code ''ttyd'') (code ''getty'') (args ''ttyd'') s2 = Inr t" "kept s2 t"
      "starting False (2 + 5) ([1] @ [2..<2 + 5]) [] (take 1 all_devices @ tty_regs NR_TTY (word_of_nat 2)) (Suc (Suc 1))
        (?B(1 := Send_keymsg # ?B 1,
          0 := Send_updatemsg # ?B 0)) t"
    have "take 1 all_devices @ tty_regs NR_TTY (word_of_nat 2) = take 5 all_devices"
      by (simp add: all_devices_def tty_regs_def NR_TTY_def ttynames_def upt_rec)
    moreover have "[1] @ [2..<2 + 5] = [1..<7]" "(2 :: nat) + 5 = 7" "Suc (Suc 1) = 3" by (simp_all add: upt_rec)
    moreover have "?B(1 := Send_keymsg # ?B 1,
          0 := Send_updatemsg # ?B 0) = (\<lambda>_ :: nat. [])(0 := [Send_updatemsg, Update_jiffy], 1 := [Send_keymsg])"
      by (auto simp: fun_eq_iff)
    ultimately show thesis using t by (intro that [of t]) (simp_all only:)
  qed (use s2(4,5) s1(4,5) assms(5,6) in \<open>simp_all add: PCB_POOL_SIZE_def NR_DEV_def NR_TTY_def NR_IRQ_HANDLE_def all_devices_def ttynames_def\<close>)
  let ?A = "(\<lambda>_ :: nat. [])(0 := [Send_updatemsg, Update_jiffy], 1 := [Send_keymsg])"
  obtain s4 where s4: "init_ide (code ''ide_driver_thread'') (args ''ide_driver_thread'') (s3, st) = Inr (s4, cache_init st)"
    "starting False 8 [1..<8] [] (take 6 all_devices) 5 all_routines s4" "kept s3 s4"
  proof (rule boot_ide [OF s3(2) p, where a = "code ''ide_driver_thread''" and args = "args ''ide_driver_thread''" and st = st])
    fix t assume t: "init_ide (code ''ide_driver_thread'') (args ''ide_driver_thread'') (s3, st) = Inr (t, cache_init st)" "kept s3 t"
      "starting False (Suc 7) ([1..<7] @ [7]) [] (take 5 all_devices @ [(''hda'', word_of_nat 7, 0)]) (Suc (Suc 3)) (?A(14 := Ide_intr # ?A 14, 0 := Time_intr # ?A 0)) t"
    have "take 5 all_devices @ [(''hda'', word_of_nat 7, 0)] = take 6 all_devices" by (simp add: all_devices_def)
    moreover have "[1..<7] @ [7] = [1..<8]" "Suc 7 = 8" "Suc (Suc 3) = 5" by (simp_all add: upt_rec)
    moreover have "?A(14 := Ide_intr # ?A 14, 0 := Time_intr # ?A 0) = all_routines" by (auto simp: fun_eq_iff all_routines_def)
    ultimately show thesis using t by (intro that [of t]) (simp_all only:)
  qed (simp_all add: NR_DEV_def NR_IRQ_HANDLE_def all_devices_def)
  have "kept s s4" using s1(3) s2(3) s3(3) s4(3) by (simp add: kept_def)
  with s1(1) s2(1) s3(1) s4(1,2) show thesis by (rule that)
qed

lemma drivers_up:
  assumes "proc_inv s boot_heads boot_lists" and "irq_inv s" and "handle_count s = 0" and "attached s = (\<lambda>_. [])"
    and "tty_memory (ttys s)" and "current_consl s = None" and "fm_empty s = 0"
  obtains devs t where "init_driver code args cmos (s, st) = Inr (devs, t, cache_init st)" and "starting True 17 [1..<17] [] all_devices 5 all_routines t"
    and "kept s t" and "FM t = 14" and "MM t = 15" and "PM t = 16" and "map (\<lambda>d. (dname d, dpid d, ddev_id d)) devs = all_devices"
proof -
  have p: "n < PCB_POOL_SIZE" if "n < 20" for n using that by (simp add: PCB_POOL_SIZE_def)
  obtain s1 s2 s3 s4 where s4: "init_hal s = Inr s1" "init_timer (code ''timer_driver_thread'') (args ''timer_driver_thread'') cmos s1 = Inr s2"
    "init_tty (code ''ttyd'') (code ''getty'') (args ''ttyd'') s2 = Inr s3"
    "init_ide (code ''ide_driver_thread'') (args ''ide_driver_thread'') (s3, st) = Inr (s4, cache_init st)"
    "starting False 8 [1..<8] [] (take 6 all_devices) 5 all_routines s4" "kept s s4"
    by (rule interrupt_drivers_up [OF assms(1-6)])
  obtain s5 where s5: "bindR (init_mem (code ''mem_driver_thread'') (args ''mem_driver_thread'') s4) (\<lambda>s.
      bindR (init_kmem (code ''kmem_driver_thread'') (args ''kmem_driver_thread'') s) (\<lambda>s.
      bindR (init_null (code ''null_driver_thread'') (args ''null_driver_thread'') s) (\<lambda>s.
      bindR (init_zero (code ''zero_driver_thread'') (args ''zero_driver_thread'') s) (\<lambda>s.
      bindR (init_random (code ''random_driver_thread'') (args ''random_driver_thread'') s)
        (init_ramdisk (code ''ram_driver_thread'') (args ''ram_driver_thread'')))))) = Inr s5"
    "starting False 14 [1..<14] [] all_devices 5 all_routines s5" "kept s4 s5"
    by (rule boot_devices [OF s4(5)])
  have e: "fm_empty s5 = 0" using assms(7) s4(6) s5(3) by (simp add: kept_def)
  obtain s6 where s6: "init_table s5 = Inr s6" "starting True 14 [1..<14] [] all_devices 5 all_routines s6" "kept s5 s6"
    by (rule boot_table [OF s5(2) e])
  have "\<And>s. aside s (s\<lparr>FM := w\<rparr>)" for w by (simp add: aside_def kept_def)
  from boot_service [OF s6(2) p, of "\<lambda>w s. s\<lparr>FM := w\<rparr>" "code ''ramdisk_thread''" "args ''ramdisk_thread''", OF _ this]
  obtain s7 where s7: "bindR (create_kthread (code ''ramdisk_thread'') (args ''ramdisk_thread'') s6) (\<lambda>(p, s).
      let s = s\<lparr>FM := pid (pcb_pool s p)\<rparr> in wakeup (Some (PcbList p)) s) = Inr s7"
    "starting True (Suc 14) ([1..<14] @ [14]) [] all_devices 5 all_routines s7" "kept s6 s7"
    "\<exists>u v. touched s6 u \<and> v = u\<lparr>FM := word_of_nat 14\<rparr> \<and> touched v s7" by auto
  have fm: "init_fm (code ''ramdisk_thread'') (args ''ramdisk_thread'') s5 = Inr s7" "FM s7 = 14"
    using s6(1) s7(1,4) by (auto simp: init_fm_def touched_def)
  have "starting True 15 [1..<15] [] all_devices 5 all_routines s7" using s7(2) upt_Suc_append [of 1 14] by simp
  from boot_services [OF this, of "code ''mm_thread''" "args ''mm_thread''" "code ''pm_thread''" "args ''pm_thread''"]
  obtain s8 where s8: "bindR (init_mm (code ''mm_thread'') (args ''mm_thread'') s7) (init_pm (code ''pm_thread'') (args ''pm_thread'')) = Inr s8"
    "starting True 17 ([1..<15] @ [15, 16]) [] all_devices 5 all_routines s8" "kept s7 s8" "MM s8 = 15" "PM s8 = 16" "FM s8 = FM s7" by blast
  obtain H L where h: "hal_inv s8 H L" "registry s8 L = all_devices" using s8(2) by (auto simp: starting_def booting_def)
  let ?d = "map (dev_at s8) (L Devices)" and ?t = "s8\<lparr>intr := relock s8\<rparr>"
  have "init_driver code args cmos (s, st) = Inr (?d, ?t, cache_init st)"
    using s4(1-4) s5(1) fm(1) s8(1) hal_list_eq [OF h(1)] by (auto simp: init_driver_def bindR_Inr_iff)
  moreover have "starting True 17 [1..<17] [] all_devices 5 all_routines ?t"
  proof (rule starting_aside)
    show "starting True 17 [1..<17] [] all_devices 5 all_routines s8" using s8(2) upt_Suc_append [of 1 15] upt_Suc_append [of 1 16] by simp
  qed (simp add: aside_def kept_def)
  moreover have "kept s ?t" using s4(6) s5(3) s6(3) s7(3) s8(3) by (simp add: kept_def)
  moreover have "map (\<lambda>d. (dname d, dpid d, ddev_id d)) ?d = all_devices" using h(2) by (simp add: registry_def comp_def)
  ultimately show thesis using fm(2) s8(4-6) by (intro that [of ?d ?t]) simp_all
qed

section \<open>The whole start\<close>

lemma print_welcome_ok:
  assumes "\<And>d. serial_wait io d \<noteq> None"
  shows "\<exists>d'. print_welcome io m junk d = Inr d'"
proof -
  have ok: "\<exists>d'. serial_printc io b d = Inr d'" for b d using assms [of d] by (auto simp: serial_printc_def)
  have all: "CHR ''%'' \<notin> set str \<Longrightarrow> \<exists>d'. vfprintf (serial_printc io) m junk str [] d = Inr d'" for str d
  proof (induction str arbitrary: d)
    case (Cons c str)
    obtain d1 where "serial_printc io (char_byte c) d = Inr d1" using ok by blast
    moreover have "c \<noteq> CHR ''%''" "CHR ''%'' \<notin> set str" using Cons.prems by auto
    ultimately show ?case using Cons.IH [of d1] by (simp add: vfprintf_lit)
  qed simp
  show ?thesis unfolding print_welcome_def printk_def by (rule all) simp
qed

text \<open>A request sent while the system starts, to a thread that has not run.\<close>

lemma boot_send:
  assumes "booting True n rdy [] regs s" and "1 \<le> i" "i < n" "i < PCB_POOL_SIZE" and "current s = PcbList 0" and "p_free s < MSG_POOL_SIZE"
  obtains q t H L where "send (word_of_nat i) m s = Inr (q, t)" and "hal_inv t H L" and "registry t L = regs" and "fm_inv t H L"
    and "L Free = map PcbList [n..<PCB_POOL_SIZE]" and "L Ready = map PcbList rdy" and "mbox t L i = [q]" and "token t (MsgSem i) = token s (MsgSem i) + 1"
    and "q = addressed (pid (pcb_pool s 0)) (word_of_nat i) m" and "\<exists>h p w k. t = s\<lparr>heap := h, msg_pool := p, p_free := w, token := k, intr := relock s\<rparr>"
proof -
  obtain H L where s: "hal_inv s H L" "registry s L = regs" "L Free = map PcbList [n..<PCB_POOL_SIZE]" "L Ready = map PcbList rdy"
    "quiet n H L" "fm_inv s H L" using assms(1) unfolding booting_def by auto
  let ?L = "posted i (p_free s) L" and ?q = "addressed (pid (pcb_pool s 0)) (word_of_nat i) m" and ?h = "link_before (MsgList i) (MsgNode (p_free s)) (heap s)"
  have ui: "unat (word_of_nat i :: pid_t) = i" using assms(4) by (intro unat_of_nat_u32) (simp add: PCB_POOL_SIZE_def)
  have mi: "msg_inv s H L" using hal_invD(1) [OF s(1)] assms(6) s(5) by (simp add: msg_inv_def quiet_def)
  have q: "MsgList i \<in> H" "SemBlock (MsgSem i) \<in> H" "L (SemBlock (MsgSem i)) = []" "L (MsgList i) = []" "MsgNode (p_free s) \<notin> linked H L"
    using s(5) assms(2,3) by (auto simp: quiet_def disjoint_iff)
  have vl: "v_lists (MsgSem i) ?L = ?L" using q(3) by (simp add: v_lists_def posted_def)
  obtain t where t: "send (word_of_nat i) m s = Inr (?q, t)" "msg_inv t H ?L"
    "\<And>j. MsgList j \<in> H \<Longrightarrow> mbox t ?L j = mbox s L j @ (if j = i then [?q] else [])" "token t = v_token (MsgSem i) L (token s)"
    by (rule send_delivers [OF mi ui assms(4) q(1,2,5) assms(5), of m, unfolded vl]) (rule that)
  let ?t = "s\<lparr>heap := ?h, msg_pool := (msg_pool s)(p_free s := ?q), p_free := next_slot (p_free s), token := (token s)(MsgSem i := token s (MsgSem i) + 1), intr := relock s\<rparr>"
  have "rep ?h H ?L" using proc_invD(1) [OF msg_invD(1) [OF posted_inv [OF mi q(1,5)]]] by simp
  then have nx: "nxt ?h (SemBlock (MsgSem i)) = Some (SemBlock (MsgSem i))"
    using rep_empty_iff [of ?h H ?L "SemBlock (MsgSem i)"] q(2,3) by (simp add: posted_def)
  have "0 < PCB_POOL_SIZE" using assms(4) by simp
  from send_copy_eq [OF assms(5) this] have "send (word_of_nat i) m s = Inr (?q, ?t)"
    using assms(4) ui nx by (simp add: send_def fetch_pcb_def send_link_eq V_sem_none_waiting relock_def)
  then have eq: "t = ?t" using t(1) by simp
  have lk: "linked H ?L \<subseteq> insert (MsgNode (p_free s)) (linked H L)" by (auto simp: linked_def posted_def split: if_splits)
  have "hal_inv t H ?L" by (rule hal_inv_cong [OF s(1) msg_invD(1) [OF t(2)]]) (simp_all add: eq posted_def)
  moreover have "registry t ?L = regs" unfolding s(2) [symmetric] by (rule registry_cong) (simp_all add: eq posted_def)
  moreover have "fm_inv t H ?L"
    using lk by (intro fm_inv_cong [OF s(6) msg_invD(1) [OF t(2)]]) (auto simp: eq posted_def)
  moreover have "mbox t ?L i = [?q]" using t(3) [OF q(1)] q(4) by (simp add: mbox_def)
  moreover have "\<exists>h p w k. t = s\<lparr>heap := h, msg_pool := p, p_free := w, token := k, intr := relock s\<rparr>" unfolding eq by blast
  ultimately show thesis using t(1) s(3,4) by (intro that [of ?q t H ?L]) (simp_all add: posted_def eq)
qed

text \<open>The variables of the kernel as they are linked, and the tables in physical memory.\<close>

definition fresh_kernel :: "'a kmm_scheme \<Rightarrow> bool" where
  "fresh_kernel s \<longleftrightarrow>
     current s = idle \<and> lock_count s = 0 \<and> handle_count s = 0 \<and> (\<forall>n. handles s n = None) \<and> tty_memory (ttys s) \<and> current_consl s = None \<and>
     fm_empty s = 0 \<and> vmem_free s = 0 \<and> p_free s < MSG_POOL_SIZE"

definition tables_apart :: "linkage \<Rightarrow> u32 \<Rightarrow> bool" where
  "tables_apart lk vt \<longleftrightarrow>
     (let d = va_to_pa (kpdir_addr lk); t = va_to_pa (kptable_addr lk); v = va_to_pa vt in
      page_aligned d \<and> page_aligned t \<and> page_aligned v \<and> entries d 1024 \<inter> entries t 32768 = {} \<and> entries v 3072 \<inter> (entries d 1024 \<union> entries t 32768) = {})"

lemma kcore_more_fields:
  assumes "kcore.more s = kcore.more t"
  shows "handle_pool s = handle_pool t" and "handles s = handles t" and "handle_count s = handle_count t" and "ttys s = ttys t"
    and "current_consl s = current_consl t" and "fm_empty s = fm_empty t" and "vmem_free s = vmem_free t" and "page_mem s = page_mem t" and "p_free s = p_free t"
  using assms
  by (cases s rule: kmm.cases_scheme, cases t rule: kmm.cases_scheme, simp add: kcore.defs)+

lemma init_proc_mem: "init_proc s = Inr s' \<Longrightarrow> mem s' = mem s"
  by (auto simp: init_proc_def forR_on_heap Let_def on_heap_def upd_pcb_def)

lemma procs_up:
  assumes "fresh_kernel s"
  obtains t where "init_proc (init_intr s) = Inr t" and "proc_inv t boot_heads boot_lists" and "irq_inv t" and "handle_count t = 0" and "attached t = (\<lambda>_. [])"
    and "tty_memory (ttys t)" and "current_consl t = None" and "fm_empty t = 0" and "vmem_free t = 0" and "p_free t < MSG_POOL_SIZE"
    and "page_mem t = page_mem s" and "mem t = mem s" and "current t = PcbList 0"
proof -
  let ?s = "init_intr s"
  have i: "current ?s = current s" "lock_count ?s = lock_count s" "handle_pool ?s = handle_pool s" "handles ?s = handles s" "handle_count ?s = handle_count s"
    "ttys ?s = ttys s" "current_consl ?s = current_consl s" "fm_empty ?s = fm_empty s" "vmem_free ?s = vmem_free s" "page_mem ?s = page_mem s"
    "p_free ?s = p_free s" "mem ?s = mem s"
    by (simp_all add: init_intr_def out_byte_def Let_def)
  have f: "current ?s = idle" "lock_count ?s = 0" using assms i by (simp_all add: fresh_kernel_def)
  obtain t where t: "init_proc ?s = Inr t" "proc_inv t boot_heads boot_lists" "current t = idle" "kcore.more t = kcore.more ?s"
    by (rule init_proc_boots [OF f])
  note k = kcore_more_fields [OF t(4)]
  have "handles t n = None" "handle_count t = 0" for n using assms k i by (simp_all add: fresh_kernel_def)
  then have "irq_inv t" "attached t = (\<lambda>_. [])" by (simp_all add: irq_inv_def attached_def fun_eq_iff)
  then show thesis using t(1-3) k i assms init_proc_mem [OF t(1)] by (intro that [of t]) (simp_all add: fresh_kernel_def idle_def)
qed

lemma page_tables_filled:
  assumes "page_aligned (va_to_pa kpdir)" and "entries (va_to_pa kpdir) 1024 \<inter> entries (va_to_pa kptable) 32768 = {}"
  shows "filled (va_to_pa kpdir) (va_to_pa kptable) 32 (phys (init_page kpdir kptable u))"
proof -
  let ?ph = "fold (\<lambda>i ph. ph(entry_at (va_to_pa kpdir) i := 0)) [0..<1024] (phys u)"
  have "\<forall>i<1024. ?ph (entry_at (va_to_pa kpdir) i) = 0"
    using fold_entries_in [of _ 1024 "va_to_pa kpdir" "\<lambda>_. 0" "phys u"] by simp
  from fill_pdir_filled [OF assms(2) this] show ?thesis by (simp add: init_page_eq [OF assms(1)] del: fun_upd_apply)
qed

section \<open>Properties\<close>

text \<open>
  C3: the system starts.  From the kernel as it is linked, with the tables of the linker apart
  and a serial port that becomes ready, \<open>os_init\<close> runs to its idle loop, in the run in which no
  interrupt is taken on the way: the sixteen threads of
  the drivers, terminals and servers are ready in the order of their creation, the twelve devices
  are registered with their processes, the interrupt routines are attached to the clock, the
  keyboard and the disk, the table of files is empty, the page tables are those of the kernel,
  the memory is as it was, and the process manager, thread 16, has one message: the request for
  the first process.
\<close>

theorem system_boots:
  assumes "fresh_kernel (kernel m)" and "tables_apart lk vt" and "\<And>d. serial_wait io d \<noteq> None"
  shows "\<exists>devs u' m' H L q. os_init lk io cmos junk msg (u, m) = Inr (devs, u', m') \<and>
    map (\<lambda>d. (dname d, dpid d, ddev_id d)) devs = all_devices \<and> hal_inv (kernel m') H L \<and> registry (kernel m') L = all_devices \<and>
    L Ready = map PcbList [1..<17] \<and> L Free = map PcbList [17..<PCB_POOL_SIZE] \<and> attached (kernel m') = all_routines \<and>
    fm_inv (kernel m') H L \<and> fm_empty (kernel m') = 0 \<and> vm_ready vt (kpdir_addr lk) (va_to_pa (kptable_addr lk)) (kernel m') \<and>
    mem (kernel m') = mem (kernel m) \<and> FM (kernel m') = 14 \<and> MM (kernel m') = 15 \<and> PM (kernel m') = 16 \<and>
    mbox (kernel m') L 16 = [q] \<and> mtype q = PM_NEW_PROC \<and> req_pid q = 1"
proof -
  define u' where "u' = init_page (kpdir_addr lk) (kptable_addr lk) u"
  define s where "s = (kernel m)\<lparr>page_mem := phys u', kcr3 := kcr3_val u', cr3_reg := mmu.cr3 u'\<rparr>"
  have fs: "fresh_kernel s" using assms(1) by (simp add: fresh_kernel_def s_def)
  obtain t where t: "init_proc (init_intr s) = Inr t" "proc_inv t boot_heads boot_lists" "irq_inv t" "handle_count t = 0" "attached t = (\<lambda>_. [])"
    "tty_memory (ttys t)" "current_consl t = None" "fm_empty t = 0" "vmem_free t = 0" "p_free t < MSG_POOL_SIZE" "page_mem t = page_mem s" "mem t = mem s"
    "current t = PcbList 0" by (rule procs_up [OF fs])
  obtain p where p: "print_welcome io (mem t) junk (init_serial io (serial m)) = Inr p" using print_welcome_ok [OF assms(3)] by blast
  obtain devs v where v: "init_driver (thread_addr lk) (thread_args lk) cmos (t, disk_cache m) = Inr (devs, v, cache_init (disk_cache m))"
    "starting True 17 [1..<17] [] all_devices 5 all_routines v" "kept t v" "FM v = 14" "MM v = 15" "PM v = 16"
    "map (\<lambda>d. (dname d, dpid d, ddev_id d)) devs = all_devices"
    by (rule drivers_up [OF t(2-8)])
  let ?v = "v\<lparr>intr := True\<rparr>" and ?m = "msg\<lparr>src := pid (pcb_pool v 0), mtype := PM_NEW_PROC, req_pid := 1\<rparr>"
  have av: "starting True 17 [1..<17] [] all_devices 5 all_routines ?v" by (rule starting_aside [OF v(2)]) (simp add: aside_def kept_def)
  then have bv: "booting True 17 [1..<17] [] all_devices ?v" by (simp add: starting_def)
  have cv: "current ?v = PcbList 0" "p_free ?v < MSG_POOL_SIZE" using v(3) t(10,13) by (simp_all add: kept_def)
  have i: "(1 :: nat) \<le> 16" "(16 :: nat) < 17" "16 < PCB_POOL_SIZE" "0 < PCB_POOL_SIZE" by (simp_all add: PCB_POOL_SIZE_def)
  obtain q w H L where w: "send (word_of_nat 16) ?m ?v = Inr (q, w)" "hal_inv w H L" "registry w L = all_devices" "fm_inv w H L"
    "L Free = map PcbList [17..<PCB_POOL_SIZE]" "L Ready = map PcbList [1..<17]" "mbox w L 16 = [q]" "q = addressed (pid (pcb_pool ?v 0)) (word_of_nat 16) ?m"
    "\<exists>h p x k. w = ?v\<lparr>heap := h, msg_pool := p, p_free := x, token := k, intr := relock ?v\<rparr>"
    by (rule boot_send [OF bv i(1-3) cv, of ?m]) (rule that)
  have "create_process 1 msg ?v = Inr (q, w)" using w(1) v(6) cv(1) i(4) by (simp add: create_process_def current_pid_def pcb_index_def)
  then have run: "os_init lk io cmos junk msg (u, m) = Inr (devs, u', m\<lparr>segments := init_segment (gdt_addr lk) (tss_addr lk) (segments m),
      serial := p, idt := fst (init_idt (stub_addr lk) (idt_addr lk) (idt m)), idtr := snd (init_idt (stub_addr lk) (idt_addr lk) (idt m)),
      kernel := w, disk_cache := cache_init (disk_cache m)\<rparr>)"
    using t(1) p v(1) by (simp add: os_init_def os_init_cont_def Let_def u'_def [symmetric] s_def [symmetric] case_prod_beta)
  obtain h0 p0 x0 k0 where eq: "w = ?v\<lparr>heap := h0, msg_pool := p0, p_free := x0, token := k0, intr := relock ?v\<rparr>" using w(9) by blast
  have k: "fm_empty w = 0" "vmem_free w = 0" "page_mem w = phys u'" "mem w = mem (kernel m)" "FM w = 14" "MM w = 15" "PM w = 16"
    using v(3-6) t(8,9,11,12) by (simp_all add: eq kept_def s_def)
  have at: "attached w = all_routines" using v(2) attached_cong [of w v] by (simp add: eq starting_def)
  have ta: "page_aligned (va_to_pa (kpdir_addr lk))" "page_aligned (va_to_pa (kptable_addr lk))" "page_aligned (va_to_pa vt)"
    "entries (va_to_pa (kpdir_addr lk)) 1024 \<inter> entries (va_to_pa (kptable_addr lk)) 32768 = {}"
    "entries (va_to_pa vt) 3072 \<inter> (entries (va_to_pa (kpdir_addr lk)) 1024 \<union> entries (va_to_pa (kptable_addr lk)) 32768) = {}"
    using assms(2) by (simp_all add: tables_apart_def Let_def)
  have "vm_ready vt (kpdir_addr lk) (va_to_pa (kptable_addr lk)) w"
    using ta k(2,3) page_tables_filled [OF ta(1,4), of u] by (simp add: vm_ready_def Let_def VMemInfo_def u'_def)
  then show ?thesis using run v(7) w(2-8) k(1,4-7) at by (fastforce simp: addressed_def)
qed

text \<open>The machine with all variables zero, and a serial port that keeps what is written to it.\<close>

definition demo_machine :: "(unit, unit, u8 list) machine" where
  "demo_machine =
     \<lparr>segments = \<lparr>gdt = [], tss = \<lparr>prev = 0, esp0 = 0, ss0 = 0, dont_care = []\<rparr>, gdtr = [], tr = 0\<rparr>,
      idt = (\<lambda>_. \<lparr>offset_15_0 = 0, gate_segment = 0, gate_pad0 = 0, gate_type = 0, gate_system = 0, gate_dpl = 0, gate_present = 0, offset_31_16 = 0\<rparr>),
      idtr = [], kernel = bss_kmm, disk_cache = \<lparr>cache = (\<lambda>_. \<lparr>sector = 0, used = False, dirty = False, content = []\<rparr>), drive = ()\<rparr>, serial = []\<rparr>"

definition demo_serial :: "u8 list ports" where
  "demo_serial = \<lparr>inb = (\<lambda>_ d. (0x20, d)), outb = (\<lambda>p b d. if p = SERIAL_PORT then d @ [b] else d), inl = (\<lambda>_ d. (0, d)), outl = (\<lambda>_ _ d. d), irqs = (\<lambda>d. ([], d))\<rparr>"

definition demo_linkage :: linkage where
  "demo_linkage = \<lparr>kpdir_addr = 0xC0100000, kptable_addr = 0xC0101000, gdt_addr = 0xC0110000, tss_addr = 0xC0120000, idt_addr = 0xC0130000,
     stub_addr = (\<lambda>_. 0xC0140000), thread_addr = (\<lambda>_. 0xC0150000), thread_args = (\<lambda>_ _. 0)\<rparr>"

lemma demo_tables: "tables_apart demo_linkage 0xC0200000"
proof -
  have d: "entries (entry_at b i) m \<inter> entries (entry_at b j) n = {}" if "i + m \<le> j" "j + n \<le> 1073741824" for b i j m n
    using that by (auto simp: entries_def entry_at_add entry_at_inj)
  have "entries 0x100000 1024 \<inter> entries 0x101000 32768 = {}" "entries 0x200000 3072 \<inter> entries 0x100000 1024 = {}"
    "entries 0x200000 3072 \<inter> entries 0x101000 32768 = {}"
    using d [of 0 1024 1024 32768 "0x100000"] d [of 0 1024 262144 3072 "0x100000"] d [of 1024 32768 262144 3072 "0x100000"] by (auto simp: entry_at_def)
  then show ?thesis by (simp add: tables_apart_def demo_linkage_def va_to_pa_def KOFFSET_def page_aligned_def Int_Un_distrib)
qed

lemma demo_fresh: "fresh_kernel (kernel demo_machine)"
  by (simp add: fresh_kernel_def demo_machine_def tty_memory_def bss_kmm_def kmm.defs bss_kfm_def bss_ktty_def bss_console_def bss_kdrv_def bss_kide_def
      bss_ktimer_def ktty.defs kdrv.defs kfm.defs kide.defs ktimer.defs khal.defs bss_khal_def kirq.defs bss_kirq_def kmsg.defs bss_kmsg_def kcore.defs
      bss_kcore_def MSG_POOL_SIZE_def)

theorem system_boots_witness:
  "\<exists>devs u' m' L q. os_init demo_linkage demo_serial (\<lambda>_. 0) (\<lambda>_. 0) (ten_bytes 0)
       (\<lparr>phys = (\<lambda>_. 0), cr0 = 1, cr3 = 0, kcr3_val = 0\<rparr>, demo_machine) = Inr (devs, u', m') \<and>
     map dname devs = map fst all_devices \<and> L Ready = map PcbList [1..<17] \<and> mbox (kernel m') L 16 = [q] \<and> req_pid q = 1"
proof -
  have w: "serial_wait demo_serial d \<noteq> None" for d
    by (subst serial_wait.simps) (simp add: serial_idle_def demo_serial_def)
  from system_boots [OF demo_fresh demo_tables w, of "\<lambda>_. 0" "\<lambda>_. 0" "ten_bytes 0" "\<lparr>phys = (\<lambda>_. 0), cr0 = 1, cr3 = 0, kcr3_val = 0\<rparr>"]
  obtain devs u' m' L q where x: "os_init demo_linkage demo_serial (\<lambda>_. 0) (\<lambda>_. 0) (ten_bytes 0)
       (\<lparr>phys = (\<lambda>_. 0), cr0 = 1, cr3 = 0, kcr3_val = 0\<rparr>, demo_machine) = Inr (devs, u', m')"
    "map (\<lambda>d. (dname d, dpid d, ddev_id d)) devs = all_devices" "L Ready = map PcbList [1..<17]" "mbox (kernel m') L 16 = [q]" "req_pid q = 1"
    by blast
  have "map dname devs = map fst all_devices" unfolding x(2) [symmetric] by simp
  with x show ?thesis by blast
qed

end
