(* ===== verification/Ring.thy ===== *)
theory Ring
  imports Prelude
begin

text \<open>
  The five message-passing test threads of \<open>process/util.c\<close>: \<open>E\<close> routes a message around
  \<open>A\<close>, \<open>B\<close>, \<open>C\<close> and \<open>D\<close>, each of which prints its letter when it gets it.  Every
  interleaving of the single statements of the five threads is a run.  The mailboxes are the
  abstract ones that \<open>send\<close> and \<open>receive\<close> implement: \<open>send\<close> appends to the mailbox of
  the receiver, \<open>receive\<close> takes the first message of the wanted sender and blocks while there
  is none.  Of a message only its sender matters here.  \<open>screen\<close> holds the texts of the calls of
  \<open>printk\<close> in their order.
\<close>

section \<open>The threads\<close>

datatype who = TA | TB | TC | TD | TE

lemma all_threads: "(\<forall>w. P w) \<longleftrightarrow> P TA \<and> P TB \<and> P TC \<and> P TD \<and> P TE"
  by (metis who.exhaust)

lemma ex_thread: "(\<exists>w. P w) \<longleftrightarrow> P TA \<or> P TB \<or> P TC \<or> P TD \<or> P TE"
  by (metis who.exhaust)

text \<open>There are five threads: predicates over all of them can be computed.\<close>

instantiation who :: enum
begin

definition enum_who_def: "enum_class.enum = [TA, TB, TC, TD, TE]"

definition enum_all_who_def: "enum_class.enum_all P \<longleftrightarrow> P TA \<and> P TB \<and> P TC \<and> P TD \<and> P TE"

definition enum_ex_who_def: "enum_class.enum_ex P \<longleftrightarrow> P TA \<or> P TB \<or> P TC \<or> P TD \<or> P TE"

instance
proof
  show "(UNIV :: who set) = set enum_class.enum" using who.exhaust by (auto simp: enum_who_def)
qed (simp_all add: enum_who_def enum_all_who_def enum_ex_who_def all_threads ex_thread)

end

text \<open>
  The statement a thread is about to execute: the \<open>receive\<close> before the loop, and those of the
  loop.  \<open>x\<close> is the counter of the loop, a signed 32-bit number.
\<close>

datatype ring_pc = First | Test | Print | Send | Recv | Inc

datatype router_pc = E_recv | E_route who | E_print char who | E_send who

record ring =
  pc :: "who \<Rightarrow> ring_pc"
  xs :: "who \<Rightarrow> u32"
  epc :: router_pc
  box :: "who \<Rightarrow> who list"
  screen :: "string list"

definition letter :: "who \<Rightarrow> char" where
  "letter w = (case w of TA \<Rightarrow> CHR ''a'' | TB \<Rightarrow> CHR ''b'' | TC \<Rightarrow> CHR ''c'' | TD \<Rightarrow> CHR ''d'' | TE \<Rightarrow> CHR ''e'')"

text \<open>\<open>E\<close> saves the cursor, prints its character in the corner of the screen and restores the cursor.\<close>

definition corner :: "char \<Rightarrow> string" where
  "corner c = [CHR 0x1B] @ ''[s'' @ [CHR 0x1B] @ ''[1000;1000H'' @ [c] @ [CHR 0x1B] @ ''[u''"

definition ring_send :: "who \<Rightarrow> who \<Rightarrow> ring \<Rightarrow> ring" where
  "ring_send me to s = s\<lparr>box := (box s)(to := box s to @ [me])\<rparr>"

text \<open>\<open>receive(pidE, &m2)\<close>, and \<open>receive(ANY, &m1)\<close> with the sender it finds.\<close>

definition ring_receive :: "who \<Rightarrow> ring \<Rightarrow> ring option" where
  "ring_receive me s = (if TE \<in> set (box s me) then Some (s\<lparr>box := (box s)(me := remove1 TE (box s me))\<rparr>) else None)"

definition ring_receive_any :: "ring \<Rightarrow> (who \<times> ring) option" where
  "ring_receive_any s = (case box s TE of [] \<Rightarrow> None | w # ws \<Rightarrow> Some (w, s\<lparr>box := (box s)(TE := ws)\<rparr>))"

text \<open>One statement of \<open>A\<close>, \<open>B\<close>, \<open>C\<close> or \<open>D\<close>; \<open>None\<close> when it is blocked.\<close>

definition ring_thread :: "who \<Rightarrow> ring \<Rightarrow> ring option" where
  "ring_thread w s =
     (case pc s w of
        First \<Rightarrow> map_option (\<lambda>s. s\<lparr>pc := (pc s)(w := Test)\<rparr>) (ring_receive w s)
      | Test \<Rightarrow> Some (s\<lparr>pc := (pc s)(w := if cmod (sint (xs s w)) 10000000 = 0 then Print else Inc)\<rparr>)
      | Print \<Rightarrow> Some (s\<lparr>screen := screen s @ [[letter w]], pc := (pc s)(w := Send)\<rparr>)
      | Send \<Rightarrow> Some ((ring_send w TE s)\<lparr>pc := (pc s)(w := Recv)\<rparr>)
      | Recv \<Rightarrow> map_option (\<lambda>s. s\<lparr>pc := (pc s)(w := Inc)\<rparr>) (ring_receive w s)
      | Inc \<Rightarrow> Some (s\<lparr>xs := (xs s)(w := xs s w + 1), pc := (pc s)(w := Test)\<rparr>))"

text \<open>One statement of \<open>E\<close>.\<close>

definition E_thread :: "ring \<Rightarrow> ring res option" where
  "E_thread s =
     (case epc s of
        E_recv \<Rightarrow> map_option (\<lambda>(w, s). Inr (s\<lparr>epc := E_route w\<rparr>)) (ring_receive_any s)
      | E_route w \<Rightarrow> Some (case w of
            TA \<Rightarrow> Inr (s\<lparr>epc := E_print CHR ''|'' TB\<rparr>)
          | TB \<Rightarrow> Inr (s\<lparr>epc := E_print CHR ''/'' TC\<rparr>)
          | TC \<Rightarrow> Inr (s\<lparr>epc := E_print CHR ''-'' TD\<rparr>)
          | TD \<Rightarrow> Inr (s\<lparr>epc := E_print (CHR 0x5C) TA\<rparr>)
          | TE \<Rightarrow> Inl (AssertFail ''0''))
      | E_print c d \<Rightarrow> Some (Inr (s\<lparr>screen := screen s @ [corner c], epc := E_send d\<rparr>))
      | E_send d \<Rightarrow> Some (Inr ((ring_send TE d s)\<lparr>epc := E_recv\<rparr>)))"

text \<open>The five threads as they are created.\<close>

definition ring_start :: ring where
  "ring_start = \<lparr>pc = (\<lambda>w. if w = TA then Test else First), xs = (\<lambda>_. 0), epc = E_recv, box = (\<lambda>_. []), screen = []\<rparr>"

inductive ring_reach :: "ring \<Rightarrow> bool" where
  start: "ring_reach ring_start"
| thread: "ring_reach s \<Longrightarrow> w \<noteq> TE \<Longrightarrow> ring_thread w s = Some s' \<Longrightarrow> ring_reach s'"
| router: "ring_reach s \<Longrightarrow> E_thread s = Some (Inr s') \<Longrightarrow> ring_reach s'"

section \<open>The order of the ring\<close>

fun succ_of :: "who \<Rightarrow> who" where
  "succ_of TA = TB" | "succ_of TB = TC" | "succ_of TC = TD" | "succ_of TD = TA" | "succ_of TE = TE"

fun sign_of :: "who \<Rightarrow> char" where
  "sign_of TA = CHR ''|''" | "sign_of TB = CHR ''/''" | "sign_of TC = CHR ''-''" | "sign_of TD = CHR 0x5C" | "sign_of TE = CHR 0x00"

fun place_of :: "who \<Rightarrow> nat" where
  "place_of TA = 0" | "place_of TB = 2" | "place_of TC = 4" | "place_of TD = 6" | "place_of TE = 0"

definition ring_text :: "nat \<Rightarrow> string list" where
  "ring_text n =
     map (\<lambda>k. [''a'', corner CHR ''|'', ''b'', corner CHR ''/'', ''c'', corner CHR ''-'', ''d'', corner (CHR 0x5C)] ! (k mod 8)) [0..<n]"

lemma length_ring_text [simp]: "length (ring_text n) = n"
  by (simp add: ring_text_def)

lemma ring_text_letter: "w \<noteq> TE \<Longrightarrow> n mod 8 = place_of w \<Longrightarrow> ring_text n @ [[letter w]] = ring_text (Suc n)"
  by (cases w) (simp_all add: ring_text_def letter_def)

lemma ring_text_sign: "w \<noteq> TE \<Longrightarrow> n mod 8 = Suc (place_of w) \<Longrightarrow> ring_text n @ [corner (sign_of w)] = ring_text (Suc n)"
  by (cases w) (simp_all add: ring_text_def)

lemma place_next: "w \<noteq> TE \<Longrightarrow> n mod 8 = place_of w \<Longrightarrow> Suc n mod 8 = Suc (place_of w)"
  "w \<noteq> TE \<Longrightarrow> n mod 8 = Suc (place_of w) \<Longrightarrow> Suc n mod 8 = place_of (succ_of w)"
  by (cases w; simp add: mod_Suc)+

lemma succ_ring: "w \<noteq> TE \<Longrightarrow> succ_of w \<noteq> TE" by (cases w) simp_all

text \<open>
  Where the message is: with the thread \<open>h\<close> that computes, in the mailbox of \<open>E\<close>, with
  \<open>E\<close>, or in the mailbox of the next thread.  All the others wait.
\<close>

definition waits :: "ring \<Rightarrow> who \<Rightarrow> bool" where
  "waits s h \<longleftrightarrow> (\<forall>v. v \<noteq> h \<longrightarrow> v \<noteq> TE \<longrightarrow> pc s v = First \<or> pc s v = Recv)"

definition computes :: "who \<Rightarrow> ring \<Rightarrow> bool" where
  "computes h s \<longleftrightarrow> epc s = E_recv \<and> box s = (\<lambda>_. []) \<and> waits s h \<and>
     (pc s h \<in> {Test, Inc, Print} \<and> length (screen s) mod 8 = place_of h \<or> pc s h = Send \<and> length (screen s) mod 8 = Suc (place_of h))"

definition routed :: "who \<Rightarrow> ring \<Rightarrow> bool" where
  "routed h s \<longleftrightarrow> waits s TE \<and>
     (epc s = E_recv \<and> box s = (\<lambda>_. [])(TE := [h]) \<and> length (screen s) mod 8 = Suc (place_of h) \<or>
      epc s = E_route h \<and> box s = (\<lambda>_. []) \<and> length (screen s) mod 8 = Suc (place_of h) \<or>
      epc s = E_print (sign_of h) (succ_of h) \<and> box s = (\<lambda>_. []) \<and> length (screen s) mod 8 = Suc (place_of h) \<or>
      epc s = E_send (succ_of h) \<and> box s = (\<lambda>_. []) \<and> length (screen s) mod 8 = place_of (succ_of h) \<or>
      epc s = E_recv \<and> box s = (\<lambda>_. [])(succ_of h := [TE]) \<and> length (screen s) mod 8 = place_of (succ_of h))"

definition ring_inv :: "ring \<Rightarrow> bool" where
  "ring_inv s \<longleftrightarrow> screen s = ring_text (length (screen s)) \<and> (\<exists>h. h \<noteq> TE \<and> (computes h s \<or> routed h s))"

lemma ring_start_inv: "ring_inv ring_start"
  by (auto simp: ring_inv_def ring_start_def ring_text_def computes_def waits_def intro!: exI [of _ TA])

lemma computing_step:
  assumes "computes h s" and "h \<noteq> TE" and "screen s = ring_text (length (screen s))"
  shows "w \<noteq> TE \<Longrightarrow> ring_thread w s = Some s' \<Longrightarrow> ring_inv s' \<and> w = h" and "E_thread s = None"
proof -
  have c: "epc s = E_recv" "box s = (\<lambda>_. [])" "waits s h" using assms(1) by (simp_all add: computes_def)
  then show "E_thread s = None" by (simp add: E_thread_def ring_receive_any_def)
  assume w: "w \<noteq> TE" "ring_thread w s = Some s'"
  have "w = h" using w c(2,3) by (auto simp: ring_thread_def ring_receive_def waits_def split: ring_pc.splits if_splits)
  moreover have "ring_inv s'"
  proof (cases "pc s h")
    case Print
    then have s': "s' = s\<lparr>screen := screen s @ [[letter h]], pc := (pc s)(h := Send)\<rparr>" using w \<open>w = h\<close> by (simp add: ring_thread_def)
    have m: "length (screen s) mod 8 = place_of h" using assms(1) Print by (simp add: computes_def)
    have "screen s' = ring_text (length (screen s'))" using assms(3) ring_text_letter [OF assms(2) m] by (simp add: s')
    moreover have "computes h s'" using c place_next(1) [OF assms(2) m] by (simp add: s' computes_def waits_def)
    ultimately show ?thesis using assms(2) unfolding ring_inv_def by blast
  next
    case Send
    then have s': "s' = (ring_send h TE s)\<lparr>pc := (pc s)(h := Recv)\<rparr>" using w \<open>w = h\<close> by (simp add: ring_thread_def)
    have "routed h s'" using assms(1) Send c by (auto simp: s' routed_def computes_def waits_def ring_send_def)
    then show ?thesis using assms(2,3) unfolding ring_inv_def by (auto simp: s' ring_send_def)
  next
    case Test
    then have "computes h s'" "screen s' = screen s" using assms(1) w \<open>w = h\<close> by (auto simp: ring_thread_def computes_def waits_def)
    then show ?thesis using assms(2,3) unfolding ring_inv_def by auto
  next
    case Inc
    then have "computes h s'" "screen s' = screen s" using assms(1) w \<open>w = h\<close> by (auto simp: ring_thread_def computes_def waits_def)
    then show ?thesis using assms(2,3) unfolding ring_inv_def by auto
  qed (use assms(1) in \<open>auto simp: computes_def\<close>)
  ultimately show "ring_inv s' \<and> w = h" by simp
qed

lemma routed_thread_step:
  assumes "routed h s" and "h \<noteq> TE" and "screen s = ring_text (length (screen s))"
  shows "w \<noteq> TE \<Longrightarrow> ring_thread w s = Some s' \<Longrightarrow> ring_inv s' \<and> w = succ_of h \<and> epc s = E_recv \<and> box s TE = []"
proof -
  note n = succ_ring [OF assms(2)]
  assume w: "w \<noteq> TE" "ring_thread w s = Some s'"
  have "pc s w = First \<or> pc s w = Recv" using assms(1) w(1) by (simp add: routed_def waits_def)
  then have "TE \<in> set (box s w)" using w(2) by (auto simp: ring_thread_def ring_receive_def split: if_splits)
  then have wn: "w = succ_of h" and c: "epc s = E_recv" "box s = (\<lambda>_. [])(succ_of h := [TE])" "length (screen s) mod 8 = place_of (succ_of h)" "waits s TE"
    using assms(1,2) w(1) n by (auto simp: routed_def split: if_splits)
  have "computes (succ_of h) s'" "screen s' = screen s"
    using w c n unfolding wn by (auto simp: ring_thread_def ring_receive_def computes_def waits_def split: ring_pc.splits)
  then show "ring_inv s' \<and> w = succ_of h \<and> epc s = E_recv \<and> box s TE = []"
    using n assms(3) wn c unfolding ring_inv_def by auto
qed

lemma routed_router_step:
  assumes "routed h s" and "h \<noteq> TE" and "screen s = ring_text (length (screen s))" and r: "E_thread s = Some r"
  shows "(\<exists>s'. r = Inr s' \<and> ring_inv s') \<and> box s (succ_of h) = []"
proof -
  note n = succ_ring [OF assms(2)]
  have W: "waits s TE" using assms(1) by (simp add: routed_def)
  have "\<exists>s'. r = Inr s' \<and> ring_inv s' \<and> box s (succ_of h) = []"
  proof (cases "epc s")
    case E_recv
    then have c: "box s = (\<lambda>_. [])(TE := [h])" "length (screen s) mod 8 = Suc (place_of h)"
      using assms(1) r n by (auto simp: routed_def E_thread_def ring_receive_any_def)
    then have "r = Inr (s\<lparr>box := (\<lambda>_. []), epc := E_route h\<rparr>)"
      using r E_recv by (auto simp: E_thread_def ring_receive_any_def fun_eq_iff)
    moreover have "routed h (s\<lparr>box := (\<lambda>_. []), epc := E_route h\<rparr>)" using W c by (simp add: routed_def waits_def)
    ultimately show ?thesis using assms(2,3) c n unfolding ring_inv_def by auto
  next
    case (E_route v)
    then have c: "v = h" "box s = (\<lambda>_. [])" "length (screen s) mod 8 = Suc (place_of h)" using assms(1) by (auto simp: routed_def)
    then have "r = Inr (s\<lparr>epc := E_print (sign_of h) (succ_of h)\<rparr>)" using r E_route assms(2) by (cases h) (auto simp: E_thread_def)
    moreover have "routed h (s\<lparr>epc := E_print (sign_of h) (succ_of h)\<rparr>)" using W c by (simp add: routed_def waits_def)
    ultimately show ?thesis using assms(2,3) c unfolding ring_inv_def by auto
  next
    case (E_print k v)
    then have c: "k = sign_of h" "v = succ_of h" "box s = (\<lambda>_. [])" "length (screen s) mod 8 = Suc (place_of h)"
      using assms(1) by (auto simp: routed_def)
    let ?s = "s\<lparr>screen := screen s @ [corner (sign_of h)], epc := E_send (succ_of h)\<rparr>"
    have "r = Inr ?s" using r E_print c by (simp add: E_thread_def)
    moreover have "routed h ?s" using W c place_next(2) [OF assms(2) c(4)] by (simp add: routed_def waits_def)
    moreover have "screen ?s = ring_text (length (screen ?s))" using assms(3) ring_text_sign [OF assms(2) c(4)] by simp
    ultimately show ?thesis using assms(2) c(3) unfolding ring_inv_def by auto
  next
    case (E_send v)
    then have c: "v = succ_of h" "box s = (\<lambda>_. [])" "length (screen s) mod 8 = place_of (succ_of h)" using assms(1) by (auto simp: routed_def)
    let ?s = "(ring_send TE (succ_of h) s)\<lparr>epc := E_recv\<rparr>"
    have "r = Inr ?s" using r E_send c by (simp add: E_thread_def)
    moreover have "routed h ?s" using W c by (simp add: routed_def waits_def ring_send_def)
    moreover have "screen ?s = screen s" by (simp add: ring_send_def)
    ultimately show ?thesis using assms(2,3) c unfolding ring_inv_def by auto
  qed
  then show ?thesis by blast
qed

lemmas routed_step = routed_thread_step routed_router_step

lemma ring_reach_inv: "ring_reach s \<Longrightarrow> ring_inv s"
proof (induction rule: ring_reach.induct)
  case start
  show ?case by (rule ring_start_inv)
next
  case (thread s w s')
  then show ?case using computing_step(1) routed_step(1) unfolding ring_inv_def [of s] by metis
next
  case (router s s')
  then show ?case using computing_step(2) routed_step(2) unfolding ring_inv_def [of s] by (metis Inr_inject option.distinct(1))
qed

section \<open>Progress\<close>

definition can_step :: "who \<Rightarrow> ring \<Rightarrow> bool" where
  "can_step w s \<longleftrightarrow> (if w = TE then E_thread s \<noteq> None else ring_thread w s \<noteq> None)"

inductive ring_step :: "ring \<Rightarrow> ring \<Rightarrow> bool" where
  thread: "w \<noteq> TE \<Longrightarrow> ring_thread w s = Some s' \<Longrightarrow> ring_step s s'"
| router: "E_thread s = Some (Inr s') \<Longrightarrow> ring_step s s'"

inductive_cases ring_stepE: "ring_step s s'"

lemma one_can_step:
  assumes "ring_inv s"
  shows "\<exists>!w. can_step w s"
proof -
  obtain h where h: "h \<noteq> TE" "computes h s \<or> routed h s" "screen s = ring_text (length (screen s))" using assms by (auto simp: ring_inv_def)
  note n = succ_ring [OF h(1)]
  from h(2) show ?thesis
  proof
    assume c: "computes h s"
    have "ring_thread h s \<noteq> None" using c by (auto simp: computes_def ring_thread_def)
    moreover have "w = h" if "can_step w s" for w
      using that computing_step [OF c h(1,3)] by (auto simp: can_step_def split: if_splits)
    ultimately show ?thesis using h(1) by (intro ex1I [of _ h]) (simp_all add: can_step_def)
  next
    assume r: "routed h s"
    then have wt: "pc s (succ_of h) = First \<or> pc s (succ_of h) = Recv" using n by (simp add: routed_def waits_def)
    show ?thesis
    proof (cases "E_thread s")
      case None
      then have "box s = (\<lambda>_. [])(succ_of h := [TE])"
        using r h(1) n by (auto simp: routed_def E_thread_def ring_receive_any_def)
      then have "ring_thread (succ_of h) s \<noteq> None" using wt by (auto simp: ring_thread_def ring_receive_def)
      moreover have "w = succ_of h" if "can_step w s" for w
        using that None routed_step(1) [OF r h(1,3)] by (auto simp: can_step_def split: if_splits)
      ultimately show ?thesis using n by (intro ex1I [of _ "succ_of h"]) (simp_all add: can_step_def)
    next
      case (Some x)
      have "w = TE" if c: "can_step w s" for w
      proof (rule ccontr)
        assume w: "w \<noteq> TE"
        then obtain s' where s': "ring_thread w s = Some s'" using c by (auto simp: can_step_def)
        from routed_step(1) [OF r h(1,3) w s'] have "E_thread s = None" by (auto simp: E_thread_def ring_receive_any_def)
        then show False using Some by simp
      qed
      moreover have "can_step TE s" using Some by (simp add: can_step_def)
      ultimately show ?thesis by blast
    qed
  qed
qed

text \<open>The next state does not depend on the scheduler.\<close>

lemma ring_step_deterministic:
  assumes "ring_inv s" and "ring_step s t" and "ring_step s t'"
  shows "t = t'"
proof -
  have moved: "can_step w s \<and> (if w = TE then E_thread s = Some (Inr u) else ring_thread w s = Some u)"
    if "w \<noteq> TE \<and> ring_thread w s = Some u \<or> w = TE \<and> E_thread s = Some (Inr u)" for w u
    using that by (auto simp: can_step_def)
  obtain v where v: "\<And>w. can_step w s \<Longrightarrow> w = v" using one_can_step [OF assms(1)] by auto
  have "if v = TE then E_thread s = Some (Inr u) else ring_thread v s = Some u" if "ring_step s u" for u
    using that by (elim ring_stepE) (use v moved in metis)+
  from this [OF assms(2)] this [OF assms(3)] show ?thesis by (simp split: if_splits)
qed

definition grows :: "ring \<Rightarrow> bool" where
  "grows s \<longleftrightarrow> (\<exists>s'. ring_step\<^sup>*\<^sup>* s s' \<and> length (screen s') = Suc (length (screen s)))"

lemma grows_later: "ring_step s t \<Longrightarrow> grows t \<Longrightarrow> screen t = screen s \<Longrightarrow> grows s"
  unfolding grows_def by (metis converse_rtranclp_into_rtranclp)

lemma grows_now: "ring_step s t \<Longrightarrow> length (screen t) = Suc (length (screen s)) \<Longrightarrow> grows s"
  unfolding grows_def by blast

lemma step_of:
  assumes "h \<noteq> TE"
  shows "pc s h = Test \<Longrightarrow> ring_step s (s\<lparr>pc := (pc s)(h := if cmod (sint (xs s h)) 10000000 = 0 then Print else Inc)\<rparr>)"
    and "pc s h = Inc \<Longrightarrow> ring_step s (s\<lparr>xs := (xs s)(h := xs s h + 1), pc := (pc s)(h := Test)\<rparr>)"
    and "pc s h = Print \<Longrightarrow> ring_step s (s\<lparr>screen := screen s @ [[letter h]], pc := (pc s)(h := Send)\<rparr>)"
  using assms by (auto intro!: ring_step.thread [of h] simp: ring_thread_def)

lemma print_grows: "h \<noteq> TE \<Longrightarrow> pc s h = Print \<Longrightarrow> grows s"
  by (rule grows_now [OF step_of(3)]) simp_all

lemma test_grows: "h \<noteq> TE \<Longrightarrow> pc s h = Test \<Longrightarrow> grows s"
proof (induction "unat (- xs s h)" arbitrary: s rule: less_induct)
  case less
  let ?t = "s\<lparr>pc := (pc s)(h := if cmod (sint (xs s h)) 10000000 = 0 then Print else Inc)\<rparr>"
  have "grows ?t"
  proof (cases "cmod (sint (xs s h)) 10000000 = 0")
    case True
    then show ?thesis using less.prems(1) by (intro print_grows [of h]) simp_all
  next
    case False
    then have x: "xs s h \<noteq> 0" by (auto simp: cmod_def cdiv_def)
    let ?u = "?t\<lparr>xs := (xs ?t)(h := xs ?t h + 1), pc := (pc ?t)(h := Test)\<rparr>"
    have "- xs s h \<noteq> 0" using x by simp
    then have "unat (- xs s h - 1) < unat (- xs s h)" by (simp add: unat_minus_one unat_gt_0)
    moreover have "- (xs s h + 1) = - xs s h - 1" by simp
    ultimately have "unat (- xs ?u h) < unat (- xs s h)" by simp
    then have "grows ?u" by (rule less.hyps) (use less.prems(1) in simp_all)
    have st: "ring_step ?t ?u" by (rule step_of(2)) (use False less.prems(1) in simp_all)
    show ?thesis by (rule grows_later [OF st \<open>grows ?u\<close>]) simp
  qed
  from grows_later [OF step_of(1) [OF less.prems] this] show ?case by simp
qed

lemma computing_grows:
  assumes "h \<noteq> TE" and "pc s h = Test \<or> pc s h = Inc \<or> pc s h = Print"
  shows "grows s"
  using assms(2)
proof (elim disjE)
  assume i: "pc s h = Inc"
  let ?t = "s\<lparr>xs := (xs s)(h := xs s h + 1), pc := (pc s)(h := Test)\<rparr>"
  have "grows ?t" by (rule test_grows [OF assms(1)]) simp
  from grows_later [OF step_of(2) [OF assms(1) i] this] show ?thesis by simp
qed (use assms(1) test_grows print_grows in blast)+

lemma router_grows:
  assumes "h \<noteq> TE" and "epc s = E_print (sign_of h) (succ_of h) \<or> epc s = E_route h \<or> epc s = E_recv \<and> box s TE = [h]"
  shows "grows s"
proof -
  have p: "grows t" if "epc t = E_print k d" for t k d
    by (rule grows_now [of t "t\<lparr>screen := screen t @ [corner k], epc := E_send d\<rparr>"]) (auto intro!: ring_step.router simp: E_thread_def that)
  have r: "grows t" if t: "epc t = E_route h" for t
  proof (rule grows_later)
    show "ring_step t (t\<lparr>epc := E_print (sign_of h) (succ_of h)\<rparr>)"
      using assms(1) by (cases h) (auto intro!: ring_step.router simp: E_thread_def t)
    show "grows (t\<lparr>epc := E_print (sign_of h) (succ_of h)\<rparr>)" by (rule p) simp
  qed simp
  have v: "grows s" if s: "epc s = E_recv" "box s TE = [h]"
  proof (rule grows_later)
    show "ring_step s (s\<lparr>box := (box s)(TE := []), epc := E_route h\<rparr>)"
      by (auto intro!: ring_step.router simp: E_thread_def ring_receive_any_def s)
    show "grows (s\<lparr>box := (box s)(TE := []), epc := E_route h\<rparr>)" by (rule r) simp
  qed simp
  show ?thesis using assms(2) p r v by blast
qed

lemma delivered_grows:
  assumes "h \<noteq> TE" and "box s h = [TE]" and "pc s h = First \<or> pc s h = Recv"
  shows "grows s"
proof -
  let ?t = "s\<lparr>box := (box s)(h := []), pc := (pc s)(h := if pc s h = First then Test else Inc)\<rparr>"
  have "ring_step s ?t" using assms by (auto intro!: ring_step.thread [of h] simp: ring_thread_def ring_receive_def)
  moreover have "grows ?t" by (rule computing_grows [OF assms(1)]) simp
  ultimately show ?thesis by (rule grows_later) simp
qed

lemma ring_grows:
  assumes "ring_inv s"
  shows "grows s"
proof -
  obtain h where h: "h \<noteq> TE" "computes h s \<or> routed h s" using assms by (auto simp: ring_inv_def)
  note n = succ_ring [OF h(1)]
  from h(2) show ?thesis
  proof
    assume c: "computes h s"
    show ?thesis
    proof (cases "pc s h = Send")
      case True
      let ?t = "(ring_send h TE s)\<lparr>pc := (pc s)(h := Recv)\<rparr>"
      have "ring_step s ?t" using h(1) True by (auto intro!: ring_step.thread [of h] simp: ring_thread_def)
      moreover have "grows ?t" using c by (intro router_grows [OF h(1)]) (simp add: computes_def ring_send_def)
      ultimately show ?thesis by (rule grows_later) (simp add: ring_send_def)
    next
      case False
      then show ?thesis using c by (intro computing_grows [OF h(1)]) (auto simp: computes_def)
    qed
  next
    assume r: "routed h s"
    then have w: "pc s (succ_of h) = First \<or> pc s (succ_of h) = Recv" using n by (simp add: routed_def waits_def)
    consider "epc s = E_print (sign_of h) (succ_of h) \<or> epc s = E_route h \<or> epc s = E_recv \<and> box s TE = [h]"
      | "epc s = E_send (succ_of h)" "box s = (\<lambda>_. [])" | "box s = (\<lambda>_. [])(succ_of h := [TE])"
      using r by (auto simp: routed_def)
    then show ?thesis
    proof cases
      case 1
      then show ?thesis by (rule router_grows [OF h(1)])
    next
      case 2
      let ?t = "(ring_send TE (succ_of h) s)\<lparr>epc := E_recv\<rparr>"
      have "ring_step s ?t" using 2 by (auto intro!: ring_step.router simp: E_thread_def)
      moreover have "grows ?t" using 2 w by (intro delivered_grows [OF n]) (simp_all add: ring_send_def)
      ultimately show ?thesis by (rule grows_later) (simp add: ring_send_def)
    next
      case 3
      then show ?thesis using w by (intro delivered_grows [OF n]) simp_all
    qed
  qed
qed

section \<open>Properties\<close>

text \<open>
  C16: the test of the messages prints \<open>a\<close>, \<open>|\<close>, \<open>b\<close>, \<open>/\<close>, \<open>c\<close>, \<open>-\<close>,
  \<open>d\<close>, \<open>\\<close> over and over, the signs in the corner of the screen.  Under every interleaving of
  the five threads the output is a beginning of this endless sequence, and the assertion of \<open>E\<close>
  never fails.
\<close>

theorem ring_order:
  assumes "ring_reach s"
  shows "screen s = ring_text (length (screen s)) \<and> E_thread s \<noteq> Some (Inl e)"
proof -
  note i = ring_reach_inv [OF assms]
  then obtain h where h: "h \<noteq> TE" "computes h s \<or> routed h s" "screen s = ring_text (length (screen s))" by (auto simp: ring_inv_def)
  show ?thesis
    using h(2,3) computing_step(2) [OF _ h(1,3)] routed_step(2) [OF _ h(1,3)] by (metis Inl_Inr_False option.distinct(1))
qed

text \<open>
  C17: the ring never stops.  In every reachable state exactly one of the five threads is not
  blocked, so that no choice of the scheduler matters: there is at most one next state, and running on prints the next text,
  whatever the counters of the threads are.
\<close>

theorem ring_never_stops:
  assumes "ring_reach s"
  shows "(\<exists>!w. can_step w s) \<and> (\<forall>t t'. ring_step s t \<longrightarrow> ring_step s t' \<longrightarrow> t = t') \<and>
    (\<exists>s'. ring_step\<^sup>*\<^sup>* s s' \<and> length (screen s') = Suc (length (screen s)))"
proof -
  note i = ring_reach_inv [OF assms]
  show ?thesis using one_can_step [OF i] ring_step_deterministic [OF i] ring_grows [OF i] unfolding grows_def by blast
qed

definition demo_ring :: ring where
  "demo_ring = the (ring_thread TA (the (ring_thread TA ring_start)))"

lemma demo_ring_reach: "ring_reach demo_ring" "screen demo_ring = [''a'']"
proof -
  have a: "ring_thread TA ring_start = Some (ring_start\<lparr>pc := (pc ring_start)(TA := Print)\<rparr>)"
    by (simp add: ring_thread_def ring_start_def cmod_def cdiv_def)
  have b: "ring_thread TA (ring_start\<lparr>pc := (pc ring_start)(TA := Print)\<rparr>) =
      Some (ring_start\<lparr>pc := (pc ring_start)(TA := Send), screen := [''a'']\<rparr>)"
    by (simp add: ring_thread_def ring_start_def letter_def)
  show "screen demo_ring = [''a'']" by (simp add: demo_ring_def a b)
  show "ring_reach demo_ring"
    unfolding demo_ring_def a option.sel b
    by (rule ring_reach.thread [OF ring_reach.thread [OF ring_reach.start _ a] _ b]) simp_all
qed

theorem ring_order_witness: "screen demo_ring = ring_text 1 \<and> E_thread demo_ring \<noteq> Some (Inl (AssertFail ''0''))"
  using ring_order [OF demo_ring_reach(1), of "AssertFail ''0''"] by (simp add: demo_ring_reach(2))

theorem ring_never_stops_witness: "\<exists>s'. ring_step\<^sup>*\<^sup>* demo_ring s' \<and> length (screen s') = 2"
  using ring_never_stops [OF demo_ring_reach(1)] by (simp add: demo_ring_reach(2) numeral_2_eq_2)

end
