(* ===== verification/Rpc.thy ===== *)
theory Rpc
  imports Hal
begin

text \<open>
  A request and its answer, end to end: a thread sends a message to a server that waits for
  one, waits for the answer and traps; the scheduler gives the processor to the server, which
  finds the request in its mailbox.  The answer goes the same way back.  Each half is one and
  the same chain of routines (\<open>send\<close>, \<open>receive\<close> up to its trap, \<open>int $0x80\<close>, \<open>receive\<close>
  of the other thread from its trap on), and the state after it is the state before with
  the two threads changed over.
\<close>

section \<open>Threads at rest\<close>

text \<open>
  \<open>running c\<close>: the thread \<open>c\<close> is the only ready one, no message is under way and no lock is held;
  the bit 2 of \<open>lock_flag\<close> may be left from a thread that went to sleep.
  \<open>waiting i\<close>: the thread \<open>i\<close> sleeps in the \<open>P\<close> of its \<open>receive\<close>, with the lock it took there.
\<close>

definition running :: "nat \<Rightarrow> 'a kmsg_scheme \<Rightarrow> laddr set \<Rightarrow> (laddr \<Rightarrow> laddr list) \<Rightarrow> bool" where
  "running c s H L \<longleftrightarrow> msg_inv s H L \<and> current s = PcbList c \<and> L Ready = [PcbList c] \<and> L (SemBlock (MsgSem c)) = [] \<and>
     token s (MsgSem c) = 0 \<and> lock_count s = 0 \<and> lock_flag s \<in> {0, 2} \<and> range MsgNode \<inter> linked H L = {}"

definition waiting :: "nat \<Rightarrow> 'a kmsg_scheme \<Rightarrow> laddr set \<Rightarrow> (laddr \<Rightarrow> laddr list) \<Rightarrow> bool" where
  "waiting i s H L \<longleftrightarrow> SemBlock (MsgSem i) \<in> H \<and> L (SemBlock (MsgSem i)) = [PcbList i] \<and> locked (pcb_pool s i) = 1"

definition changed_over :: "nat \<Rightarrow> nat \<Rightarrow> (laddr \<Rightarrow> laddr list) \<Rightarrow> laddr \<Rightarrow> laddr list" where
  "changed_over c i L = L(Ready := [PcbList i], SemBlock (MsgSem i) := [], SemBlock (MsgSem c) := [PcbList c])"

lemma changed_back:
  assumes "running c s H L" and "waiting i s H L" and "c \<noteq> i"
  shows "changed_over i c (changed_over c i L) = L"
  using assms by (auto simp: changed_over_def running_def waiting_def fun_eq_iff)

lemma running_thread:
  assumes "running c s H L"
  shows "c < PCB_POOL_SIZE" and "c \<noteq> 0" and "MsgList c \<in> H" and "SemBlock (MsgSem c) \<in> H" and "pid (pcb_pool s c) = word_of_nat c"
proof -
  note pi = msg_invD(1) [OF running_def [THEN iffD1, OF assms, THEN conjunct1]]
  note li = proc_invD(2) [OF pi]
  have rd: "L Ready = [PcbList c]" using assms by (simp add: running_def)
  have t: "PcbList c \<in> threads" using lists_invD(5) [OF li lists_invD(1) [OF li], of "PcbList c"] rd by simp
  have f: "PcbList c \<notin> set (L Free)" using proc_invD(5) [OF pi] assms by (simp add: current_inv_def running_def)
  show "c < PCB_POOL_SIZE" "c \<noteq> 0" using t by simp_all
  show "MsgList c \<in> H" "SemBlock (MsgSem c) \<in> H" using li t f unfolding lists_inv_def by blast+
  show "pid (pcb_pool s c) = word_of_nat c" using proc_invD(3) [OF pi] t f by (simp add: stat_inv_def)
qed

lemma waiting_thread:
  assumes "msg_inv s H L" and "waiting i s H L"
  shows "i < PCB_POOL_SIZE" and "i \<noteq> 0" and "MsgList i \<in> H" and "SemBlock (MsgSem i) \<in> H" and "pid (pcb_pool s i) = word_of_nat i"
    and "token s (MsgSem i) = 0"
proof -
  note pi = msg_invD(1) [OF assms(1)]
  note li = proc_invD(2) [OF pi]
  have w: "SemBlock (MsgSem i) \<in> H" "L (SemBlock (MsgSem i)) = [PcbList i]" using assms(2) by (simp_all add: waiting_def)
  have t: "PcbList i \<in> threads" using lists_invD(5) [OF li w(1), of "PcbList i"] w(2) by simp
  have f: "PcbList i \<notin> set (L Free)"
    using rep_once [OF proc_invD(1) [OF pi] w(1) lists_invD(3) [OF li], of "PcbList i"] w(2) by auto
  show "i < PCB_POOL_SIZE" "i \<noteq> 0" "SemBlock (MsgSem i) \<in> H" using t w(1) by simp_all
  show "MsgList i \<in> H" using li t f unfolding lists_inv_def by blast
  show "pid (pcb_pool s i) = word_of_nat i" using proc_invD(3) [OF pi] t f by (simp add: stat_inv_def)
  show "token s (MsgSem i) = 0" using proc_invD(4) [OF pi] w by (simp add: sem_inv_def)
qed

text \<open>A word holds the number of a thread without loss.\<close>

lemma unat_thread: "i < PCB_POOL_SIZE \<Longrightarrow> unat (word_of_nat i :: pid_t) = i"
  by (intro unat_of_nat_u32) (simp add: PCB_POOL_SIZE_def)

lemma thread_word_nonzero: "i < PCB_POOL_SIZE \<Longrightarrow> i \<noteq> 0 \<Longrightarrow> (word_of_nat i :: pid_t) \<noteq> 0"
  by (metis unat_0 unat_thread)

lemma thread_not_hard:
  assumes "i < PCB_POOL_SIZE"
  shows "word_of_nat i \<noteq> MSG_HARD_INTR"
proof
  assume "word_of_nat i = MSG_HARD_INTR"
  then have "i = unat (- 2 :: pid_t)" using unat_thread [OF assms] by (simp add: MSG_HARD_INTR_def)
  then show False using assms by (simp add: PCB_POOL_SIZE_def)
qed

section \<open>Half a conversation\<close>

lemma send_to_waiting:
  fixes m :: Msg and s :: "'a kmsg_scheme"
  assumes inv: "msg_inv s H L" and c: "current s = PcbList c" "c < PCB_POOL_SIZE" and w: "waiting i s H L"
    and fr: "MsgNode (p_free s) \<notin> linked H L"
  defines "q \<equiv> addressed (pid (pcb_pool s c)) (word_of_nat i) m"
  obtains h t where "send (word_of_nat i) m s = Inr (q, t)"
    and "t = s\<lparr>heap := h, pcb_pool := (pcb_pool s)(i := (pcb_pool s i)\<lparr>stat := STAT_READY\<rparr>),
      msg_pool := (msg_pool s)(p_free s := q), p_free := next_slot (p_free s), intr := relock s\<rparr>"
    and "msg_inv t H (moved (SemBlock (MsgSem i)) Ready (PcbList i) (posted i (p_free s) L))"
proof -
  note wi = waiting_thread [OF inv w]
  define t where "t = s\<lparr>heap := link_before (MsgList i) (MsgNode (p_free s)) (heap s),
    msg_pool := (msg_pool s)(p_free s := q), p_free := next_slot (p_free s), intr := relock s\<rparr>"
  let ?L = "posted i (p_free s) L"
  have t: "msg_inv t H ?L" unfolding t_def by (rule posted_inv [OF inv wi(3) fr])
  have "?L (SemBlock (MsgSem i)) = PcbList i # []" using w by (simp add: posted_def waiting_def)
  from V_sem_wakes [OF msg_invD(1) [OF t] wi(4) this] obtain u where
    u: "V_sem (MsgSem i) t = Inr u" "proc_inv u H (moved (SemBlock (MsgSem i)) Ready (PcbList i) ?L)"
      "u = t\<lparr>heap := requeue Ready (PcbList i) (heap t),
        pcb_pool := (pcb_pool t)(i := (pcb_pool t i)\<lparr>stat := STAT_READY\<rparr>), intr := relock t\<rparr>" by auto
  have link: "send_link i (s\<lparr>msg_pool := (msg_pool s)(p_free s := q)\<rparr>) = Inr t"
    by (simp add: send_link_eq t_def relock_def)
  have "send (word_of_nat i) m s = Inr (q, u)"
    using u(1) link unat_thread [OF wi(1)] wi(1) by (simp add: send_def fetch_pcb_def send_copy_eq [OF c] q_def)
  moreover have "u = s\<lparr>heap := heap u, pcb_pool := (pcb_pool s)(i := (pcb_pool s i)\<lparr>stat := STAT_READY\<rparr>),
      msg_pool := (msg_pool s)(p_free s := q), p_free := next_slot (p_free s), intr := relock s\<rparr>"
    by (simp add: u(3) t_def relock_def)
  moreover have "msg_inv u H (moved (SemBlock (MsgSem i)) Ready (PcbList i) ?L)"
    using msg_invD(2,3) [OF t] u(2) by (simp add: u(3) msg_inv_def moved_def)
  ultimately show thesis by (rule that)
qed

text \<open>
  What happens from the \<open>receive\<close> of a thread that has to wait to the \<open>receive\<close> of the
  thread that the scheduler chooses: the trap, with the frame \<open>f\<close> pushed at \<open>a\<close>, and the rest of
  the \<open>receive\<close> in which the other thread was waiting.
\<close>

definition pass_on ::
    "(routine \<Rightarrow> 'a kirq_scheme \<Rightarrow> 'a kirq_scheme res) \<Rightarrow> u32 \<times> TrapFrame \<Rightarrow> pid_t \<Rightarrow> 'a kirq_scheme received \<Rightarrow>
     (Msg \<times> TrapFrame \<times> 'a kirq_scheme) res" where
  "pass_on call af p r =
     (case r of
        Waiting s \<Rightarrow>
          bindR (asm_do_irq call (fst af) (snd af) s) (\<lambda>(g, s).
          bindR (receive_resume p s) (\<lambda>r. case r of
            Got m s \<Rightarrow> Inr (m, g, s)
          | Waiting s \<Rightarrow> Inl (NoReturn ''receive'')
          | Retry s \<Rightarrow> Inl (NoReturn ''receive'')))
      | Got m s \<Rightarrow> Inl (NoReturn ''receive'')
      | Retry s \<Rightarrow> Inl (NoReturn ''receive''))"

text \<open>The thread that was waiting goes on: it leaves its \<open>P\<close> and takes the message.\<close>

lemma wakes_and_takes:
  assumes inv: "msg_inv s H L" and c: "current s = PcbList i" and H: "MsgList i \<in> H" and mb: "mbox s L i = [m]" and w: "wanted p m"
    and k: "lock_count s = 1" "lock_flag s = 2"
  obtains h where "receive_resume p s = Inr (Got m (s\<lparr>heap := h, lock_count := 0, lock_flag := 0, intr := True\<rparr>))"
    and "msg_inv (s\<lparr>heap := h, lock_count := 0, lock_flag := 0, intr := True\<rparr>) H (L(MsgList i := []))"
proof -
  let ?s = "s\<lparr>lock_count := 0, lock_flag := 0, intr := True\<rparr>"
  have pr: "P_resume s = ?s" using k by (simp add: P_resume_def kdefs Let_def unlock_intr_def)
  have inv': "msg_inv ?s H L" using inv by (simp add: msg_inv_def proc_inv_def)
  have "mbox ?s L i = [m]" using mb by (subst mbox_pool [of _ s]) simp_all
  then have f: "find (wanted p) (mbox ?s L i) = Some m" using w by simp
  obtain t a where t: "receive_take p ?s = Inr (Got m t)" "msg_inv t H (dropped i a L)"
    "\<forall>j. mbox t (dropped i a L) j = (if j = i then drop_first (wanted p) (mbox ?s L i) else mbox ?s L j)"
    "t = ?s\<lparr>heap := unlink_node a (heap ?s), intr := relock ?s\<rparr>"
    by (rule receive_takes [OF inv' _ H f]) (use c in simp)
  have "length (L (MsgList i)) = 1" using arg_cong [OF mb, of length] by (simp add: mbox_def)
  moreover have "mbox t (dropped i a L) i = []" using t(3) f \<open>mbox ?s L i = [m]\<close> w by simp
  then have "dropped i a L (MsgList i) = []" by (simp add: mbox_def)
  ultimately have d: "dropped i a L = L(MsgList i := [])" by (auto simp: dropped_def fun_eq_iff)
  have "t = s\<lparr>heap := unlink_node a (heap s), lock_count := 0, lock_flag := 0, intr := True\<rparr>" by (simp add: t(4) relock_def)
  then show thesis using that t(1,2) d pr by (simp add: receive_resume_def)
qed

text \<open>The trap of the thread \<open>c\<close>, when the scheduler chooses another thread \<open>i\<close>.\<close>

definition trapped :: "nat \<Rightarrow> nat \<Rightarrow> u32 \<Rightarrow> TrapFrame \<Rightarrow> 'a kcore_scheme \<Rightarrow> 'a kcore_scheme" where
  "trapped c i a f s = s\<lparr>stackmem := write_frame a f (stackmem s),
     pcb_pool := (pcb_pool s)(c := (pcb_pool s c)\<lparr>tf := a, locked := lock_count s\<rparr>),
     current := PcbList i, cr3_reg := cr3 (pcb_pool s i), lock_count := locked (pcb_pool s i), lock_flag := (lock_flag s OR 1) AND 0xfffffffe,
     intr := bit (eflags (read_frame (write_frame a f (stackmem s)) (tf (pcb_pool s i)))) 9\<rparr>"

lemma trap_to:
  assumes inv: "proc_inv s H L" and c: "current s = PcbList c" and f: "irq f = 0x80" and n: "c \<noteq> i"
    and pick: "sched_choice (L Ready) (PcbList c) = PcbList i" and k: "0 \<le> locked (pcb_pool s i)"
  shows "asm_do_irq call a f s = Inr (read_frame (write_frame a f (stackmem s)) (tf (pcb_pool s i)), trapped c i a f s)"
    and "proc_inv (trapped c i a f s) H L"
proof -
  show "asm_do_irq call a f s = Inr (read_frame (write_frame a f (stackmem s)) (tf (pcb_pool s i)), trapped c i a f s)"
    unfolding int80_switches [OF inv c f] c pick using n by (simp add: trapped_def)
  have "stat_inv ((pcb_pool s)(c := (pcb_pool s c)\<lparr>tf := a, locked := lock_count s\<rparr>)) H L"
    using proc_invD(3) [OF inv] by (auto simp: stat_inv_def)
  moreover have "proc_inv (s\<lparr>current := PcbList i, cr3_reg := 0\<rparr>) H L" using schedule_inv [OF inv, of 0] unfolding c pick .
  ultimately show "proc_inv (trapped c i a f s) H L" using k by (simp add: proc_inv_def trapped_def)
qed

text \<open>The state after a hand-over from \<open>c\<close> to \<open>i\<close>.\<close>

definition handed ::
    "nat \<Rightarrow> nat \<Rightarrow> u32 \<Rightarrow> TrapFrame \<Rightarrow> Msg \<Rightarrow> laddr links \<Rightarrow> 'a kmsg_scheme \<Rightarrow> 'a kmsg_scheme" where
  "handed c i a f q h s = s\<lparr>heap := h,
     pcb_pool := (pcb_pool s)(i := (pcb_pool s i)\<lparr>stat := STAT_READY\<rparr>,
       c := (pcb_pool s c)\<lparr>stat := STAT_SLEEPING, tf := a, locked := 1\<rparr>),
     msg_pool := (msg_pool s)(p_free s := q), p_free := next_slot (p_free s),
     stackmem := write_frame a f (stackmem s), current := PcbList i, cr3_reg := cr3 (pcb_pool s i), lock_flag := 0, intr := True\<rparr>"

lemma no_mail:
  assumes "running c s H L" and "MsgList j \<in> H"
  shows "L (MsgList j) = []"
proof -
  have "set (L (MsgList j)) \<subseteq> slots" using msg_invD(3) [OF _ assms(2)] assms(1) unfolding running_def by blast
  then have "set (L (MsgList j)) \<subseteq> range MsgNode" by (auto simp: slots_def)
  moreover have "set (L (MsgList j)) \<subseteq> linked H L" using assms(2) by (auto simp: linked_def)
  ultimately have "set (L (MsgList j)) \<subseteq> range MsgNode \<inter> linked H L" by blast
  moreover have "range MsgNode \<inter> linked H L = {}" using assms(1) by (simp add: running_def)
  ultimately show ?thesis by simp
qed

lemma changed_lists:
  assumes "running c s H L" and "waiting i s H L" and "c \<noteq> i" and "MsgList i \<in> H"
  shows "(moved Ready (SemBlock (MsgSem c)) (PcbList c) (moved (SemBlock (MsgSem i)) Ready (PcbList i) (posted i k L)))(MsgList i := []) =
    changed_over c i L"
  using assms no_mail [OF assms(1,4)] by (auto simp: moved_def posted_def changed_over_def running_def waiting_def fun_eq_iff)

lemma hand_over:
  fixes s :: "'a kirq_scheme"
  assumes r: "running c s H L" and w: "waiting i s H L" and n: "c \<noteq> i" and f: "irq f = 0x80"
    and q: "q = addressed (word_of_nat c) (word_of_nat i) m" and want: "wanted p' q"
  obtains h t u where "send (word_of_nat i) m s = Inr (q, t)" and "receive p t = Inr (Waiting u)"
    and "pass_on call (a, f) p' (Waiting u) = Inr (q, read_frame (write_frame a f (stackmem s)) (tf (pcb_pool s i)), handed c i a f q h s)"
    and "msg_inv (handed c i a f q h s) H (changed_over c i L)"
proof -
  have rs: "msg_inv s H L" "current s = PcbList c" "L Ready = [PcbList c]" "token s (MsgSem c) = 0" "lock_count s = 0" "lock_flag s = 0 \<or> lock_flag s = 2"
    "MsgNode (p_free s) \<notin> linked H L" using r by (auto simp: running_def)
  note C = running_thread [OF r] and I = waiting_thread [OF rs(1) w]
  let ?L = "moved (SemBlock (MsgSem i)) Ready (PcbList i) (posted i (p_free s) L)"
  let ?M = "moved Ready (SemBlock (MsgSem c)) (PcbList c) ?L"
  obtain h1 t where t: "send (word_of_nat i) m s = Inr (q, t)" "msg_inv t H ?L"
    "t = s\<lparr>heap := h1, pcb_pool := (pcb_pool s)(i := (pcb_pool s i)\<lparr>stat := STAT_READY\<rparr>),
      msg_pool := (msg_pool s)(p_free s := q), p_free := next_slot (p_free s), intr := relock s\<rparr>"
    using send_to_waiting [OF rs(1,2) C(1) w rs(7), of m] unfolding C(5) q by metis
  have ft: "\<not> 0 < token t (MsgSem c)" "current t = PcbList c" "PcbList c \<in> set (?L Ready)"
    using rs n by (simp_all add: t(3) moved_def posted_def)
  obtain u where u: "P_sem (MsgSem c) t = Inr (Trapped u)" "proc_inv u H ?M"
    "u = t\<lparr>heap := requeue (SemBlock (MsgSem c)) (PcbList c) (heap t),
      pcb_pool := (pcb_pool t)(c := (pcb_pool t c)\<lparr>stat := STAT_SLEEPING\<rparr>),
      lock_flag := lock_flag t OR 2, lock_count := lock_count t + 1, intr := (lock_flag t AND 1 = 0)\<rparr>"
    by (rule P_sem_blocks [OF msg_invD(1) [OF t(2)] C(4) ft]) (rule that)
  have rc: "receive p t = Inr (Waiting u)" using u(1) ft(2) C(1) by (simp add: receive_def)
  have pick: "sched_choice (?M Ready) (PcbList c) = PcbList i"
    using w rs(3) n by (simp add: sched_choice_def next_ready_def moved_def posted_def waiting_def)
  have cu: "current u = PcbList c" by (simp add: u(3) t(3) rs(2))
  have lk: "locked (pcb_pool u i) = 1" using w n by (simp add: u(3) t(3) waiting_def)
  define v where "v = trapped c i a f u"
  note trap = trap_to [OF u(2) cu f n pick, where a = a, folded v_def]
  have gr: "read_frame (write_frame a f (stackmem u)) (tf (pcb_pool u i)) = read_frame (write_frame a f (stackmem s)) (tf (pcb_pool s i))"
    using n by (simp add: u(3) t(3))
  have "proc_inv v H ?M" using trap(2) lk by simp
  moreover have "p_free v = p_free t" by (simp add: v_def trapped_def u(3))
  moreover have "?M (MsgList j) = ?L (MsgList j)" for j by (simp add: moved_def)
  ultimately have iv: "msg_inv v H ?M" using msg_invD(2,3) [OF t(2)] unfolding msg_inv_def by metis
  have mb: "mbox v ?M i = [q]" using no_mail [OF r I(3)] by (simp add: mbox_def slot_def v_def trapped_def u(3) t(3) moved_def posted_def)
  have lv: "current v = PcbList i" "lock_count v = 1" "lock_flag v = 2"
    using lk rs(6) by (auto simp: v_def trapped_def u(3) t(3))
  obtain h where h: "receive_resume p' v = Inr (Got q (v\<lparr>heap := h, lock_count := 0, lock_flag := 0, intr := True\<rparr>))"
    "msg_inv (v\<lparr>heap := h, lock_count := 0, lock_flag := 0, intr := True\<rparr>) H (?M(MsgList i := []))"
    by (rule wakes_and_takes [OF iv lv(1) I(3) mb want lv(2,3)]) (rule that)
  have "v\<lparr>heap := h, lock_count := 0, lock_flag := 0, intr := True\<rparr> = handed c i a f q h s"
    using n rs(2,5) by (simp add: v_def trapped_def u(3) t(3) handed_def fun_upd_twist)
  then show thesis
    using that [OF t(1) rc] trap(1) lk gr h changed_lists [OF r w n I(3)] by (simp add: pass_on_def)
qed

lemma handed_fields [simp]:
  "mem (handed c i a f q h s) = mem s" "token (handed c i a f q h s) = token s" "lock_count (handed c i a f q h s) = lock_count s"
  "lock_flag (handed c i a f q h s) = 0" "current (handed c i a f q h s) = PcbList i"
  "kmsg.more (handed c i a f q h s) = kmsg.more s" "p_free (handed c i a f q h s) = next_slot (p_free s)"
  "stackmem (handed c i a f q h s) = write_frame a f (stackmem s)"
  "tf (pcb_pool (handed c i a f q h s) k) = (if k = c then a else tf (pcb_pool s k))"
  "locked (pcb_pool (handed c i a f q h s) k) = (if k = c then 1 else locked (pcb_pool s k))"
  by (auto simp: handed_def)

text \<open>The two threads have changed over; every other thread waits as before.\<close>

lemma handed_over:
  assumes r: "running c s H L" and w: "waiting i s H L" and n: "c \<noteq> i"
    and inv: "msg_inv (handed c i a f q h s) H (changed_over c i L)"
  shows "running i (handed c i a f q h s) H (changed_over c i L)" and "waiting c (handed c i a f q h s) H (changed_over c i L)"
    and "waiting j s H L \<Longrightarrow> j \<noteq> i \<Longrightarrow> waiting j (handed c i a f q h s) H (changed_over c i L)"
proof -
  have rs: "msg_inv s H L" "lock_count s = 0" "range MsgNode \<inter> linked H L = {}" using r by (auto simp: running_def)
  have "a \<notin> range MsgNode" if "a \<in> linked H (changed_over c i L)" for a
  proof -
    have "a \<in> linked H L \<or> a \<in> {PcbList i, PcbList c}" using that by (auto simp: linked_def changed_over_def split: if_splits)
    then show ?thesis using rs(3) by auto
  qed
  then have "range MsgNode \<inter> linked H (changed_over c i L) = {}" by blast
  then show "running i (handed c i a f q h s) H (changed_over c i L)"
    using inv n rs(2) waiting_thread(6) [OF rs(1) w] by (simp add: running_def changed_over_def)
  show "waiting c (handed c i a f q h s) H (changed_over c i L)"
    using running_thread(4) [OF r] by (simp add: waiting_def changed_over_def)
  assume j: "waiting j s H L" "j \<noteq> i"
  then have "j \<noteq> c" using r by (auto simp: running_def waiting_def)
  then show "waiting j (handed c i a f q h s) H (changed_over c i L)" using j by (simp add: waiting_def changed_over_def)
qed

section \<open>A whole conversation\<close>

text \<open>
  A state has only \<open>talked\<close> since another when it differs in nothing but what conversations change: the links, the
  message slots, the stacks and what the context switch keeps of a thread.
\<close>

abbreviation fixed_vars :: "'a kcore_scheme \<Rightarrow> u32 \<times> u32 \<times> segregs" where
  "fixed_vars s \<equiv> (kcr3 s, pcb_pool_addr s, segs s)"

definition talked :: "'a kmsg_scheme \<Rightarrow> 'a kmsg_scheme \<Rightarrow> bool" where
  "talked s t \<longleftrightarrow> mem t = mem s \<and> token t = token s \<and> fixed_vars t = fixed_vars s \<and> kmsg.more t = kmsg.more s \<and>
     (\<forall>k. pid (pcb_pool t k) = pid (pcb_pool s k) \<and> cr3 (pcb_pool t k) = cr3 (pcb_pool s k))"

lemma handed_talked: "talked s (handed c i a f q h s)"
  by (auto simp: talked_def) (auto simp: handed_def)

text \<open>
  The server \<open>i\<close> has just got the request of the client \<open>c\<close> in the state \<open>t\<close>: it runs, the client waits with
  its frame \<open>f\<close> saved at \<open>a\<close>, and the other threads wait as before.
\<close>

definition entered ::
    "nat \<Rightarrow> nat \<Rightarrow> u32 \<Rightarrow> TrapFrame \<Rightarrow> 'a kmsg_scheme \<Rightarrow> 'a kmsg_scheme \<Rightarrow> laddr set \<Rightarrow> (laddr \<Rightarrow> laddr list) \<Rightarrow> bool" where
  "entered c i a f s t H L \<longleftrightarrow> talked s t \<and> running i t H (changed_over c i L) \<and> waiting c t H (changed_over c i L) \<and>
     (\<forall>j. waiting j s H L \<longrightarrow> j \<noteq> i \<longrightarrow> waiting j t H (changed_over c i L)) \<and>
     stackmem t = write_frame a f (stackmem s) \<and> (\<forall>j. tf (pcb_pool t j) = (if j = c then a else tf (pcb_pool s j)))"

lemma enteredD:
  assumes "entered c i a f s t H L"
  shows "talked s t" and "running i t H (changed_over c i L)" and "waiting c t H (changed_over c i L)"
    and "waiting j s H L \<Longrightarrow> j \<noteq> i \<Longrightarrow> waiting j t H (changed_over c i L)"
    and "stackmem t = write_frame a f (stackmem s)" and "tf (pcb_pool t j) = (if j = c then a else tf (pcb_pool s j))"
  using assms by (simp_all add: entered_def)

lemma hand_over_entered:
  fixes s :: "'a kirq_scheme"
  assumes "running c s H L" and "waiting i s H L" and "c \<noteq> i" and "irq f = 0x80"
    and "q = addressed (word_of_nat c) (word_of_nat i) m" and "wanted p' q"
  obtains t u v where "send (word_of_nat i) m s = Inr (q, t)" and "receive p t = Inr (Waiting u)"
    and "pass_on call (a, f) p' (Waiting u) = Inr (q, read_frame (write_frame a f (stackmem s)) (tf (pcb_pool s i)), v)"
    and "entered c i a f s v H L"
proof -
  from hand_over [OF assms, of p call a] obtain h t u where t: "send (word_of_nat i) m s = Inr (q, t)" "receive p t = Inr (Waiting u)"
    "pass_on call (a, f) p' (Waiting u) = Inr (q, read_frame (write_frame a f (stackmem s)) (tf (pcb_pool s i)), handed c i a f q h s)"
    "msg_inv (handed c i a f q h s) H (changed_over c i L)" by metis
  have "entered c i a f s (handed c i a f q h s) H L"
    using handed_over [OF assms(1-3) t(4)] handed_talked [of s] by (simp add: entered_def)
  with t(1-3) show thesis by (rule that)
qed

definition frame_words :: "u32 \<Rightarrow> u32 set" where
  "frame_words a = {a, a + 4, a + 8, a + 12, a + 16, a + 20, a + 24, a + 28, a + 32, a + 36, a + 40, a + 44, a + 48, a + 52, a + 56, a + 60, a + 64}"

lemma write_frame_other: "x \<notin> frame_words b \<Longrightarrow> write_frame b g m x = m x"
  by (simp add: write_frame_def frame_words_def)

lemma read_frame_cong: "(\<And>x. x \<in> frame_words a \<Longrightarrow> m x = n x) \<Longrightarrow> read_frame m a = read_frame n a"
  by (simp add: read_frame_def frame_words_def)

lemma read_frame_below:
  assumes "frame_words a \<inter> frame_words b = {}"
  shows "read_frame (write_frame b g (write_frame a f m)) a = f"
proof -
  have "read_frame (write_frame b g (write_frame a f m)) a = read_frame (write_frame a f m) a"
    by (rule read_frame_cong, rule write_frame_other) (use assms in blast)
  then show ?thesis by (simp add: read_write_frame)
qed

text \<open>
  Between two states only the words \<open>W\<close> of the stacks and the saved stack pointers of the threads \<open>T\<close> have changed.
\<close>

definition undisturbed :: "u32 set \<Rightarrow> nat set \<Rightarrow> 'a kcore_scheme \<Rightarrow> 'b kcore_scheme \<Rightarrow> bool" where
  "undisturbed W T s t \<longleftrightarrow> fixed_vars t = fixed_vars s \<and> (\<forall>x. x \<notin> W \<longrightarrow> stackmem t x = stackmem s x) \<and> (\<forall>j. j \<notin> T \<longrightarrow> tf (pcb_pool t j) = tf (pcb_pool s j)) \<and>
     (\<forall>j. pid (pcb_pool t j) = pid (pcb_pool s j) \<and> cr3 (pcb_pool t j) = cr3 (pcb_pool s j))"

lemma undisturbed_trans:
  "undisturbed W T s t \<Longrightarrow> undisturbed W' T' t u \<Longrightarrow> W \<union> W' \<subseteq> W'' \<Longrightarrow> T \<union> T' \<subseteq> T'' \<Longrightarrow> undisturbed W'' T'' s u"
  unfolding undisturbed_def subset_iff Un_iff by (elim conjE, intro conjI allI impI) metis+

lemma undisturbed_frame: "undisturbed W T s t \<Longrightarrow> frame_words a \<inter> W = {} \<Longrightarrow> read_frame (stackmem t) a = read_frame (stackmem s) a"
  by (intro read_frame_cong) (auto simp: undisturbed_def)

lemma entered_undisturbed:
  assumes "entered c i a f s t H L"
  shows "undisturbed (frame_words a) {c} s t"
  using enteredD [OF assms] by (simp add: undisturbed_def talked_def write_frame_other)

text \<open>
  From the \<open>receive\<close> in which the client waits: the server gets the request, works on it
  (\<open>body\<close> is the body of its loop) and waits for the next one, and the client gets the answer.
\<close>

definition conversation ::
    "(routine \<Rightarrow> 'a kirq_scheme \<Rightarrow> 'a kirq_scheme res) \<Rightarrow> (Msg \<Rightarrow> 'a kirq_scheme \<Rightarrow> 'a kirq_scheme res) \<Rightarrow>
     u32 \<times> TrapFrame \<Rightarrow> u32 \<times> TrapFrame \<Rightarrow> pid_t \<Rightarrow> 'a kirq_scheme received \<Rightarrow> (Msg \<times> TrapFrame \<times> 'a kirq_scheme) res" where
  "conversation call body there back p r =
     bindR (pass_on call there ANY r) (\<lambda>(q, _, s).
     bindR (body q s) (\<lambda>s.
     bindR (receive ANY s) (pass_on call back p)))"

text \<open>
  What the server does between request and answer: it leaves threads, stacks and mailboxes alone.
\<close>

definition works :: "'a kmsg_scheme \<Rightarrow> 'a kmsg_scheme \<Rightarrow> bool" where
  "works s t \<longleftrightarrow> heap t = heap s \<and> pcb_pool t = pcb_pool s \<and> token t = token s \<and> current t = current s \<and> lock_count t = lock_count s \<and>
     lock_flag t = lock_flag s \<and> stackmem t = stackmem s \<and> msg_pool t = msg_pool s \<and> p_free t = p_free s \<and> fixed_vars t = fixed_vars s"

lemma works_rest:
  assumes "works s t"
  shows "running c s H L \<Longrightarrow> running c t H L" and "waiting i s H L \<Longrightarrow> waiting i t H L"
  using assms unfolding works_def running_def waiting_def msg_inv_def proc_inv_def by metis+

lemma works_undisturbed: "works s t \<Longrightarrow> undisturbed {} {} s t"
  by (simp add: works_def undisturbed_def)

text \<open>
  The body of the server may itself hold conversations; \<open>v'\<close> is the state in which it answers.
\<close>

lemma conversation_via:
  fixes s :: "'a kirq_scheme"
  assumes r: "running c s H L" and w: "waiting i s H L" and n: "c \<noteq> i" and f: "irq f = 0x80" and g: "irq g = 0x80"
    and q: "q = addressed (word_of_nat c) (word_of_nat i) m"
    and body: "\<And>v. entered c i a f s v H L \<Longrightarrow> \<exists>v'. body q v = bindR (send (word_of_nat c) reply v') (\<lambda>(_, s). Inr s) \<and>
      running i v' H (changed_over c i M) \<and> waiting c v' H (changed_over c i M) \<and> tf (pcb_pool v' c) = a \<and> after v v'"
    and ans: "e = addressed (word_of_nat i) (word_of_nat c) reply" "wanted p e"
  obtains t u v v' fin where "send (word_of_nat i) m s = Inr (q, t)" and "receive p t = Inr (Waiting u)"
    and "conversation call body (a, f) (b, g) p (Waiting u) = Inr (e, read_frame (write_frame b g (stackmem v')) a, fin)"
    and "entered c i a f s v H L" and "after v v'" and "entered i c b g v' fin H (changed_over c i M)"
proof -
  have "wanted ANY q" by (simp add: wanted_def)
  from hand_over_entered [OF r w n f q this, of p call a]
  obtain t u v where t: "send (word_of_nat i) m s = Inr (q, t)" "receive p t = Inr (Waiting u)"
    "pass_on call (a, f) ANY (Waiting u) = Inr (q, read_frame (write_frame a f (stackmem s)) (tf (pcb_pool s i)), v)"
    "entered c i a f s v H L" by metis
  from body [OF t(4)] obtain v' where v': "body q v = bindR (send (word_of_nat c) reply v') (\<lambda>(_, s). Inr s)"
    "running i v' H (changed_over c i M)" "waiting c v' H (changed_over c i M)" "tf (pcb_pool v' c) = a" "after v v'" by blast
  from hand_over_entered [OF v'(2,3) not_sym [OF n] g ans, of ANY call b]
  obtain t' u' fin where t': "send (word_of_nat c) reply v' = Inr (e, t')" "receive ANY t' = Inr (Waiting u')"
    "pass_on call (b, g) p (Waiting u') = Inr (e, read_frame (write_frame b g (stackmem v')) a, fin)"
    "entered i c b g v' fin H (changed_over c i M)" unfolding v'(4) by metis
  have "conversation call body (a, f) (b, g) p (Waiting u) = Inr (e, read_frame (write_frame b g (stackmem v')) a, fin)"
    using t(3) v'(1) t'(1-3) by (simp add: conversation_def)
  with t(1,2) show thesis using t(4) v'(5) t'(4) by (rule that)
qed

text \<open>A server that works by itself.\<close>

lemma conversation_ok:
  fixes s :: "'a kirq_scheme"
  assumes r: "running c s H L" and w: "waiting i s H L" and n: "c \<noteq> i" and f: "irq f = 0x80" and g: "irq g = 0x80"
    and q: "q = addressed (word_of_nat c) (word_of_nat i) m"
    and body: "\<And>t. talked s t \<Longrightarrow> works t (work t) \<and> body q t = bindR (send (word_of_nat c) reply (work t)) (\<lambda>(_, s). Inr s)"
    and ans: "e = addressed (word_of_nat i) (word_of_nat c) reply" "wanted p e"
  obtains t u v fin where "send (word_of_nat i) m s = Inr (q, t)" and "receive p t = Inr (Waiting u)"
    and "conversation call body (a, f) (b, g) p (Waiting u) = Inr (e, read_frame (write_frame b g (write_frame a f (stackmem s))) a, fin)"
    and "talked s v" and "talked (work v) fin" and "running c fin H L" and "\<And>j. waiting j s H L \<Longrightarrow> waiting j fin H L"
    and "undisturbed (frame_words a \<union> frame_words b) {c, i} s fin"
proof -
  note bk = changed_back [OF r w n]
  have step: "\<exists>v'. body q v = bindR (send (word_of_nat c) reply v') (\<lambda>(_, s). Inr s) \<and>
      running i v' H (changed_over c i L) \<and> waiting c v' H (changed_over c i L) \<and> tf (pcb_pool v' c) = a \<and> v' = work v"
    if v: "entered c i a f s v H L" for v
    using body [OF enteredD(1) [OF v]] works_rest [of v "work v"] enteredD [OF v] by (auto simp: works_def)
  obtain t u v v' fin where x: "send (word_of_nat i) m s = Inr (q, t)" "receive p t = Inr (Waiting u)"
    "conversation call body (a, f) (b, g) p (Waiting u) = Inr (e, read_frame (write_frame b g (stackmem v')) a, fin)"
    "entered c i a f s v H L" "v' = work v" "entered i c b g v' fin H (changed_over c i L)"
    by (rule conversation_via [where after = "\<lambda>v v'. v' = work v" and body = body and M = L and call = call and a = a and b = b,
          OF r w n f g q step ans])
  note v = enteredD [OF x(4)] and fin = enteredD [OF x(6), unfolded bk x(5)]
  note wk = body [OF v(1), THEN conjunct1]
  have sw: "stackmem (work v) = write_frame a f (stackmem s)" using wk v(5) by (simp add: works_def)
  have "waiting j fin H L" if j: "waiting j s H L" for j
  proof (cases "j = i")
    case False
    moreover have "j \<noteq> c" using j r by (auto simp: running_def waiting_def)
    ultimately show ?thesis using fin(4) works_rest(2) [OF wk v(4) [OF j]] by blast
  qed (simp add: fin(3))
  moreover have "undisturbed (frame_words a \<union> frame_words b) {c, i} s fin"
    using undisturbed_trans [OF undisturbed_trans [OF entered_undisturbed [OF x(4)] works_undisturbed [OF wk] order_refl order_refl]
        entered_undisturbed [OF x(6), unfolded x(5)]] by auto
  ultimately show thesis using that [OF x(1,2) x(3) [unfolded x(5) sw] v(1) fin(1,2)] by blast
qed

section \<open>The first wait of a server\<close>

text \<open>
  A new thread gets the processor, calls \<open>receive\<close>, finds no message, and the thread before goes on:
  from then on the server is waiting.
\<close>

lemma first_wait:
  fixes s :: "'a kirq_scheme"
  assumes inv: "msg_inv s H L" and c: "current s = PcbList c" and rd: "L Ready = [PcbList c, PcbList i]"
    and sb: "L (SemBlock (MsgSem c)) = []" "L (SemBlock (MsgSem i)) = []" and tok: "token s (MsgSem c) = 0" "token s (MsgSem i) = 0"
    and lk: "lock_count s = 0" "lock_flag s \<in> {0, 2}" "locked (pcb_pool s i) = 0" and fr: "range MsgNode \<inter> linked H L = {}"
    and H: "SemBlock (MsgSem i) \<in> H" and fg: "irq f = 0x80" "irq g = 0x80"
  obtains x t u y v L' where "asm_do_irq call a f s = Inr (x, t)" and "receive ANY t = Inr (Waiting u)" and "asm_do_irq call b g u = Inr (y, v)"
    and "running c v H L'" and "waiting i v H L'" and "talked s v" and "L' = moved Ready (SemBlock (MsgSem i)) (PcbList i) L"
    and "\<And>j. j \<noteq> c \<Longrightarrow> j \<noteq> i \<Longrightarrow> locked (pcb_pool v j) = locked (pcb_pool s j)"
proof -
  note pi = msg_invD(1) [OF inv]
  note li = proc_invD(2) [OF pi] and r = proc_invD(1) [OF pi]
  have n: "c \<noteq> i" using rep_distinct [OF r lists_invD(1) [OF li]] rd by simp
  have pick: "sched_choice (L Ready) (PcbList c) = PcbList i" by (simp add: sched_choice_def next_ready_def rd)
  define t where "t = trapped c i a f s"
  note t = trap_to [OF pi c fg(1) n pick, where a = a, folded t_def]
  have tf: "current t = PcbList i" "\<not> 0 < token t (MsgSem i)" "PcbList i \<in> set (L Ready)" "lock_count t = 0" "lock_flag t \<in> {0, 2}"
    using tok lk rd by (auto simp: t_def trapped_def)
  let ?M = "moved Ready (SemBlock (MsgSem i)) (PcbList i) L"
  have i: "i < PCB_POOL_SIZE" using lists_invD(5) [OF li lists_invD(1) [OF li], of "PcbList i"] rd by simp
  have pt: "proc_inv t H L" using t(2) lk by simp
  obtain u where u: "P_sem (MsgSem i) t = Inr (Trapped u)" "proc_inv u H ?M"
    "u = t\<lparr>heap := requeue (SemBlock (MsgSem i)) (PcbList i) (heap t), pcb_pool := (pcb_pool t)(i := (pcb_pool t i)\<lparr>stat := STAT_SLEEPING\<rparr>),
      lock_flag := lock_flag t OR 2, lock_count := lock_count t + 1, intr := (lock_flag t AND 1 = 0)\<rparr>"
    by (rule P_sem_blocks [OF pt H tf(2,1,3)]) (rule that)
  have rc: "receive ANY t = Inr (Waiting u)" using u(1) tf(1) i by (simp add: receive_def)
  have pick': "sched_choice (?M Ready) (PcbList i) = PcbList c" using n by (simp add: sched_choice_def next_ready_def moved_def rd)
  have cu: "current u = PcbList i" "locked (pcb_pool u c) = 0" using tf(1) n lk by (simp_all add: u(3) t_def trapped_def)
  define v where "v = trapped i c b g u"
  note v = trap_to [OF u(2) cu(1) fg(2) not_sym [OF n] pick', where a = b, folded v_def]
  have ml: "?M Ready = [PcbList c]" "?M (SemBlock (MsgSem c)) = []" "?M (SemBlock (MsgSem i)) = [PcbList i]" "?M (MsgList j) = L (MsgList j)" for j
    using n rd sb by (simp_all add: moved_def)
  have vf: "current v = PcbList c" "token v = token s" "lock_count v = 0" "lock_flag v = 2" "p_free v = p_free s" "locked (pcb_pool v i) = 1"
    using cu tf(4,5) n lk by (auto simp: v_def trapped_def u(3) t_def)
  have "linked H ?M = linked H L" by (rule linked_moved [OF r lists_invD(1) [OF li] H _ tf(3)]) simp
  then have "running c v H ?M"
    using v(2) cu(2) msg_invD(2,3) [OF inv] fr tok ml vf by (simp add: running_def msg_inv_def)
  moreover have "waiting i v H ?M" using H vf ml by (simp add: waiting_def)
  moreover have "talked s v" by (auto simp: talked_def v_def trapped_def u(3) t_def)
  moreover have "locked (pcb_pool v j) = locked (pcb_pool s j)" if "j \<noteq> c" "j \<noteq> i" for j
    using that by (simp add: v_def trapped_def u(3) t_def)
  ultimately show thesis using that t(1) rc v(1) lk cu(2) by simp
qed

text \<open>
  A running thread starts a server: \<open>create_kthread\<close>, \<open>wakeup\<close>, and the server's way to its first
  \<open>receive\<close>.  The variables of the components are as before.
\<close>

definition served_by :: "nat \<Rightarrow> laddr list \<Rightarrow> (laddr \<Rightarrow> laddr list) \<Rightarrow> laddr \<Rightarrow> laddr list" where
  "served_by i rest L = L(Free := rest, MsgList i := [], SemBlock (MsgSem i) := [PcbList i])"

lemma server_starts:
  fixes s :: "'a kirq_scheme"
  assumes r: "running c s H L" and free: "L Free = PcbList i # rest" and fg: "irq f = 0x80" "irq g = 0x80"
  obtains t u x1 v y w z where "create_kthread entry args s = Inr (i, t)" and "wakeup (Some (PcbList i)) t = Inr u"
    and "asm_do_irq call a f u = Inr (x1, v)" and "receive ANY v = Inr (Waiting y)" and "asm_do_irq call b g y = Inr (z, w)"
    and "running c w (born_heads i H) (served_by i rest L)" and "waiting i w (born_heads i H) (served_by i rest L)"
    and "\<And>j. waiting j s H L \<Longrightarrow> waiting j w (born_heads i H) (served_by i rest L)"
    and "kmsg.more w = kmsg.more s" and "mem w = mem s" and "token w = (token s)(MsgSem i := 0)"
proof -
  have rs: "msg_inv s H L" "current s = PcbList c" "L Ready = [PcbList c]" "L (SemBlock (MsgSem c)) = []" "token s (MsgSem c) = 0"
    "lock_count s = 0" "lock_flag s \<in> {0, 2}" "range MsgNode \<inter> linked H L = {}" using r by (simp_all add: running_def)
  note pi = msg_invD(1) [OF rs(1)]
  note rp = proc_invD(1) [OF pi] and li = proc_invD(2) [OF pi]
  let ?H = "born_heads i H" and ?N = "moved Block Ready (PcbList i) (born i L)"
  have heads: "Ready \<in> H" "Block \<in> H" "Free \<in> H" by (rule lists_invD [OF li])+
  have i: "PcbList i \<in> set (L Free)" using free by simp
  have once: "PcbList i \<notin> set (L l)" if "l \<in> H" "l \<noteq> Free" for l using rep_once [OF rp heads(3) that(1) i] that(2) by blast
  have n: "c \<noteq> i" using once [OF heads(1)] rs(3) by auto
  obtain t where t: "create_kthread entry args s = Inr (i, t)" "proc_inv t ?H (born i L)"
    "t = s\<lparr>heap := self_link (SemBlock (MsgSem i)) (self_link (MsgList i) (requeue Block (PcbList i) (heap s))),
      pcb_pool := (pcb_pool s)(i := (pcb_pool s i)\<lparr>tf := fst (new_stack i entry args s) - 68, locked := 0,
        stat := STAT_SLEEPING, pid := word_of_nat i, cr3 := kcr3 s\<rparr>),
      token := (token s)(MsgSem i := 0), stackmem := snd (new_stack i entry args s), intr := intr s \<or> relock s\<rparr>"
    by (rule create_kthread_inv [OF pi free])
  have b: "Block \<in> ?H" "PcbList i \<in> set (born i L Block)" using heads by (simp_all add: born_heads_def born_def moved_def)
  obtain u where u: "wakeup (Some (PcbList i)) t = Inr u" "proc_inv u ?H ?N"
    "u = t\<lparr>heap := requeue Ready (PcbList i) (heap t), pcb_pool := (pcb_pool t)(i := (pcb_pool t i)\<lparr>stat := STAT_READY\<rparr>), intr := relock t\<rparr>"
    by (rule wakeup_inv [OF t(2) b(1) _ b(2)]) (use that in auto)
  have N: "?N = L(Ready := [PcbList c, PcbList i], Free := rest, MsgList i := [], SemBlock (MsgSem i) := [])"
    using free rs(3) once [OF heads(2)] by (auto simp: born_def moved_def fun_eq_iff remove1_append)
  have lk: "linked ?H ?N \<subseteq> linked H L \<union> {PcbList i, MsgList i, SemBlock (MsgSem i)}"
    unfolding N using free rs(3) by (auto simp: linked_def born_heads_def split: if_splits)
  then have fr: "range MsgNode \<inter> linked ?H ?N = {}" using rs(8) by blast
  have mi: "msg_inv u ?H ?N"
    using u(2) msg_invD(2,3) [OF rs(1)] unfolding msg_inv_def N by (auto simp: u(3) t(3) born_heads_def)
  have uf: "current u = PcbList c" "token u (MsgSem c) = 0" "token u (MsgSem i) = 0" "lock_count u = 0" "lock_flag u \<in> {0, 2}" "locked (pcb_pool u i) = 0"
    using rs(2,5-7) by (simp_all add: u(3) t(3))
  have nl: "?N Ready = [PcbList c, PcbList i]" "?N (SemBlock (MsgSem c)) = []" "?N (SemBlock (MsgSem i)) = []" "SemBlock (MsgSem i) \<in> ?H"
    using n rs(4) by (simp_all add: N born_heads_def)
  obtain x1 v y z w M where w: "asm_do_irq call a f u = Inr (x1, v)" "receive ANY v = Inr (Waiting y)" "asm_do_irq call b g y = Inr (z, w)"
    "running c w ?H M" "waiting i w ?H M" "talked u w" "M = moved Ready (SemBlock (MsgSem i)) (PcbList i) ?N"
    "\<And>j. j \<noteq> c \<Longrightarrow> j \<noteq> i \<Longrightarrow> locked (pcb_pool w j) = locked (pcb_pool u j)"
    by (rule first_wait [OF mi uf(1) nl(1-3) uf(2-6) fr nl(4) fg, of call a b]) (rule that)
  have M: "M = served_by i rest L" unfolding w(7) N using n rs(3) by (auto simp: moved_def served_by_def fun_eq_iff)
  have "waiting j w ?H M" if j: "waiting j s H L" for j
  proof -
    have "j \<noteq> c" "j \<noteq> i" using j rs(4) once [of "SemBlock (MsgSem j)"] by (auto simp: waiting_def)
    then show ?thesis using j w(8) by (simp add: waiting_def M served_by_def u(3) t(3) born_heads_def)
  qed
  moreover have "kmsg.more w = kmsg.more s" "mem w = mem s" "token w = (token s)(MsgSem i := 0)"
    using w(6) by (simp_all add: talked_def u(3) t(3))
  ultimately show thesis using that [OF t(1) u(1) w(1-3) w(4,5) [unfolded M]] unfolding M by blast
qed

section \<open>Access to a device\<close>

text \<open>
  \<open>dev_rw\<close> from its call to its return: the server \<open>body\<close> serves the request while the
  caller waits.  The value returned is the word \<open>ret\<close> (\<open>mtype\<close>) of the answer.
\<close>

definition device_access ::
    "(routine \<Rightarrow> 'a khal_scheme \<Rightarrow> 'a khal_scheme res) \<Rightarrow> (Msg \<Rightarrow> 'a khal_scheme \<Rightarrow> 'a khal_scheme res) \<Rightarrow>
     u32 \<times> TrapFrame \<Rightarrow> u32 \<times> TrapFrame \<Rightarrow> u32 \<Rightarrow> string \<Rightarrow> pid_t \<Rightarrow> u32 \<Rightarrow> u32 \<Rightarrow> u32 \<Rightarrow> 'a khal_scheme \<Rightarrow>
     (u32 \<times> TrapFrame \<times> 'a khal_scheme) res" where
  "device_access call body there back type name rp b off len s =
     bindR (hal_get_id name s) (\<lambda>((p, _), _).
     bindR (dev_rw name type rp b off len s) (\<lambda>r.
     bindR (conversation call body there back p r) (\<lambda>(m, g, s).
     Inr (mtype m, g, s))))"

lemma works_intr: "works s (s\<lparr>intr := b\<rparr>)"
  by (simp add: works_def)

lemma more_khal:
  fixes s t :: "'a khal_scheme"
  shows "kmsg.more s = kmsg.more t \<Longrightarrow> dev_pool s = dev_pool t"
  by (cases s, cases t) simp

text \<open>
  A driver that answers the requests of a type by a change of the memory: \<open>ret\<close> is the value it
  returns, \<open>work\<close> what it does to the memory, \<open>me\<close> its process.
\<close>

locale memory_driver =
  fixes serve :: "Msg \<Rightarrow> 'a khal_scheme \<Rightarrow> 'a khal_scheme res"
    and type :: u32
    and me :: "'a khal_scheme \<Rightarrow> pid_t"
    and ret :: "Msg \<Rightarrow> u32"
    and work :: "Msg \<Rightarrow> memory \<Rightarrow> memory"
  assumes serves: "src q \<noteq> MSG_HARD_INTR \<Longrightarrow> mtype q = type \<Longrightarrow> serve q s =
      bindR (send (src q) (q\<lparr>mtype := ret q, dest := src q, src := me s\<rparr>) (s\<lparr>mem := work q (mem s)\<rparr>)) (\<lambda>(_, s). Inr s)"
    and me_static: "kmsg.more s = kmsg.more t \<Longrightarrow> me s = me t"
begin

lemma access_returns:
  assumes hi: "hal_inv s H L" and r: "running c s H L" and w: "waiting i s H L" and n: "c \<noteq> i"
    and reg: "map_of (registry s L) name = Some (word_of_nat i, d)" and me: "me s = word_of_nat i"
    and fg: "irq f = 0x80" "irq g = 0x80"
    and q: "q = \<lparr>src = word_of_nat c, dest = word_of_nat i, mtype = type, req_pid = rp, dev_id = d, buf = b, offset = off, mlen = len\<rparr>"
  obtains fin where "device_access call serve (a, f) (z, g) type name rp b off len s =
      Inr (ret q, read_frame (write_frame z g (write_frame a f (stackmem s))) a, fin)"
    and "mem fin = work q (mem s)" and "kmsg.more fin = kmsg.more s" and "hal_inv fin H L" and "running c fin H L"
    and "\<And>j. waiting j s H L \<Longrightarrow> waiting j fin H L"
    and "undisturbed (frame_words a \<union> frame_words z) {c, i} s fin" and "token fin = token s"
proof -
  let ?s = "s\<lparr>intr := relock s\<rparr>" and ?r = "q\<lparr>mtype := ret q, dest := src q, src := word_of_nat i\<rparr>"
  note C = running_thread [OF r] and I = waiting_thread [OF _ w]
  have mi: "msg_inv s H L" using r by (simp add: running_def)
  note I = I [OF mi]
  have r': "running c ?s H L" and w': "waiting j s H L \<Longrightarrow> waiting j ?s H L" for j using works_rest [OF works_intr] r by blast+
  obtain k where k: "find (\<lambda>a. dname (dev_at s a) = name) (L Devices) = Some k" "dpid (dev_at s k) = word_of_nat i" "ddev_id (dev_at s k) = d"
    using reg by (auto simp: registry_find)
  let ?m = "dev_request (dev_at s k) type (word_of_nat c) rp b off len"
  have nz: "(word_of_nat c :: pid_t) \<noteq> 0" "(word_of_nat i :: pid_t) \<noteq> 0" using thread_word_nonzero C(1,2) I(1,2) by blast+
  have qa: "q = addressed (word_of_nat c) (word_of_nat i) ?m" using nz k(3) by (simp add: q addressed_def dev_request_def)
  have ra: "?r = addressed (word_of_nat i) (word_of_nat c) ?r" using nz by (simp add: q addressed_def)
  have hard: "src q \<noteq> MSG_HARD_INTR" "src q = word_of_nat c" "mtype q = type"
    using thread_not_hard [OF C(1)] by (simp_all add: q)
  have body: "works t (t\<lparr>mem := work q (mem t)\<rparr>) \<and>
      serve q t = bindR (send (word_of_nat c) ?r (t\<lparr>mem := work q (mem t)\<rparr>)) (\<lambda>(_, s). Inr s)" if "talked ?s t" for t
    using serves [OF hard(1,3), of t] me_static [of t s] me that hard(2) by (simp add: talked_def works_def)
  obtain t u v fin where x: "send (word_of_nat i) ?m ?s = Inr (q, t)" "receive (word_of_nat i) t = Inr (Waiting u)"
    "conversation call serve (a, f) (z, g) (word_of_nat i) (Waiting u) =
       Inr (?r, read_frame (write_frame z g (write_frame a f (stackmem ?s))) a, fin)"
    "talked ?s v" "talked (v\<lparr>mem := work q (mem v)\<rparr>) fin" "running c fin H L" "\<And>j. waiting j ?s H L \<Longrightarrow> waiting j fin H L"
    "undisturbed (frame_words a \<union> frame_words z) {c, i} ?s fin"
    by (rule conversation_ok [where work = "\<lambda>t. t\<lparr>mem := work q (mem t)\<rparr>" and reply = ?r and body = serve and p = "word_of_nat i"
          and call = call and a = a and b = z, OF r' w' [OF w] n fg qa body ra]) (simp_all add: wanted_def)
  have cp: "current_pid ?s = Inr (word_of_nat c)" using r C(1,5) by (simp add: current_pid_def running_def)
  have "device_access call serve (a, f) (z, g) type name rp b off len s =
      Inr (ret q, read_frame (write_frame z g (write_frame a f (stackmem s))) a, fin)"
    using x(1-3) cp k reg hal_get_id_eq [OF hi, of name]
    by (simp add: device_access_def dev_rw_def hal_get_eq [OF hi] dev_at_def Let_def)
  moreover have mo: "mem fin = work q (mem s)" "kmsg.more fin = kmsg.more s" using x(4,5) by (simp_all add: talked_def)
  moreover have "hal_inv fin H L"
    using hi x(6) more_khal [OF mo(2)] by (auto simp: hal_inv_def running_def msg_inv_def dev_at_def comp_def)
  moreover have "waiting j fin H L" if "waiting j s H L" for j using x(7) w' [OF that] by blast
  moreover have "undisturbed (frame_words a \<union> frame_words z) {c, i} s fin" using x(8) by (simp add: undisturbed_def)
  moreover have "token fin = token s" using x(4,5) by (simp add: talked_def)
  ultimately show thesis using x(6) by (intro that)
qed

end

end
