(* ===== verification/Calls.thy ===== *)
theory Calls
  imports Rpc Pm
begin

text \<open>
  The servers of the system behind complete calls: reads and writes of the devices in memory
  from the call of \<open>dev_read\<close> or \<open>dev_write\<close> to its return, and the requests of the
  process manager to the memory manager.
\<close>

section \<open>The devices in memory\<close>

lemma more_kdrv:
  fixes s t :: "'a kdrv_scheme"
  shows "kmsg.more s = kmsg.more t \<Longrightarrow> DEV_NULL s = DEV_NULL t \<and> DEV_ZERO s = DEV_ZERO t \<and> MEM s = MEM t \<and> DEV_KMEM s = DEV_KMEM t \<and> RAMDISK s = RAMDISK t"
  by (cases s, cases t) simp

lemmas driver_defs = null_driver_thread_def zero_driver_thread_def mem_driver_thread_def kmem_driver_thread_def ram_driver_thread_def
  answer_def Let_def DEV_READ_def DEV_WRITE_def

text \<open>The drivers by the names they register, and the processes they keep in their variables.\<close>

definition driver_of :: "u32 \<Rightarrow> string \<Rightarrow> Msg \<Rightarrow> 'a kdrv_scheme \<Rightarrow> 'a kdrv_scheme res" where
  "driver_of disk name =
     (if name = ''null'' then null_driver_thread
      else if name = ''zero'' then zero_driver_thread
      else if name = ''mem'' then mem_driver_thread
      else if name = ''kmem'' then kmem_driver_thread
      else ram_driver_thread disk)"

definition driver_pid :: "string \<Rightarrow> 'a kdrv_scheme \<Rightarrow> pid_t" where
  "driver_pid name s =
     (if name = ''null'' then DEV_NULL s
      else if name = ''zero'' then DEV_ZERO s
      else if name = ''mem'' then MEM s
      else if name = ''kmem'' then DEV_KMEM s
      else RAMDISK s)"

definition memory_devices :: "string list" where
  "memory_devices = [''null'', ''zero'', ''mem'', ''kmem'', ''ram'']"

text \<open>
  The specification: the value that an access returns, and the memory after it.  \<open>null\<close> and \<open>zero\<close> swallow what
  is written; the other three are ranges of the address space.
\<close>

definition dev_base :: "u32 \<Rightarrow> string \<Rightarrow> u32" where
  "dev_base disk name = (if name = ''mem'' then 0 else if name = ''kmem'' then KOFFSET else disk)"

definition dev_ret :: "u32 \<Rightarrow> string \<Rightarrow> u32 \<Rightarrow> u32" where
  "dev_ret type name n = (if name = ''null'' \<or> name = ''zero'' \<and> type = DEV_WRITE then 0 else n)"

definition dev_mem :: "u32 \<Rightarrow> u32 \<Rightarrow> string \<Rightarrow> u32 \<Rightarrow> u32 \<Rightarrow> u32 \<Rightarrow> memory \<Rightarrow> memory" where
  "dev_mem disk type name b off n m =
     (if name = ''null'' then m
      else if name = ''zero'' then (if type = DEV_READ then memset b 0 n m else m)
      else if type = DEV_READ then memcpy b (dev_base disk name + off) n m
      else memcpy (dev_base disk name + off) b n m)"

text \<open>All five drivers, for both kinds of requests, are memory drivers with this specification.\<close>

lemma driver_pid_static: "kmsg.more s = kmsg.more t \<Longrightarrow> driver_pid name s = driver_pid name t"
  by (drule more_kdrv) (simp add: driver_pid_def)

lemma driver_serves:
  assumes "src q \<noteq> MSG_HARD_INTR" and "mtype q = type" and "type = DEV_READ \<or> type = DEV_WRITE"
  shows "driver_of disk name q s = bindR (send (src q) (q\<lparr>mtype := dev_ret type name (mlen q), dest := src q, src := driver_pid name s\<rparr>)
    (s\<lparr>mem := dev_mem disk type name (buf q) (offset q) (mlen q) (mem s)\<rparr>)) (\<lambda>(_, s). Inr s)"
  using assms by (auto simp: driver_defs driver_of_def driver_pid_def dev_ret_def dev_mem_def dev_base_def add.commute)

interpretation reader: memory_driver "driver_of disk name" DEV_READ "driver_pid name" "\<lambda>q. dev_ret DEV_READ name (mlen q)"
    "\<lambda>q. dev_mem disk DEV_READ name (buf q) (offset q) (mlen q)" for disk name
  by unfold_locales (erule driver_serves, assumption, simp, rule driver_pid_static)

interpretation writer: memory_driver "driver_of disk name" DEV_WRITE "driver_pid name" "\<lambda>q. dev_ret DEV_WRITE name (mlen q)"
    "\<lambda>q. dev_mem disk DEV_WRITE name (buf q) (offset q) (mlen q)" for disk name
  by unfold_locales (erule driver_serves, assumption, simp, rule driver_pid_static)

text \<open>
  The situation of a call: the caller runs, the driver of the device waits, and the two frames of the
  traps do not overlap.
\<close>

definition can_call :: "string \<Rightarrow> nat \<Rightarrow> nat \<Rightarrow> u32 \<Rightarrow> 'a kdrv_scheme \<Rightarrow> laddr set \<Rightarrow> (laddr \<Rightarrow> laddr list) \<Rightarrow> bool" where
  "can_call name c i d s H L \<longleftrightarrow> name \<in> set memory_devices \<and> hal_inv s H L \<and> running c s H L \<and> waiting i s H L \<and>
     map_of (registry s L) name = Some (word_of_nat i, d) \<and> driver_pid name s = word_of_nat i"

definition good_traps :: "u32 \<times> TrapFrame \<Rightarrow> u32 \<times> TrapFrame \<Rightarrow> bool" where
  "good_traps there back \<longleftrightarrow> irq (snd there) = 0x80 \<and> irq (snd back) = 0x80 \<and> frame_words (fst there) \<inter> frame_words (fst back) = {}"

lemma rest_distinct: "running c s H L \<Longrightarrow> waiting i s H L \<Longrightarrow> c \<noteq> i"
  by (auto simp: running_def waiting_def)

lemma driver_access:
  fixes s :: "'a kdrv_scheme"
  assumes c: "can_call name c i d s H L" and ty: "type = DEV_READ \<or> type = DEV_WRITE" and tr: "good_traps there back"
  obtains fin where "device_access call (driver_of disk name) there back type name rp b off n s = Inr (dev_ret type name n, snd there, fin)"
    and "mem fin = dev_mem disk type name b off n (mem s)" and "kmsg.more fin = kmsg.more s" and "hal_inv fin H L" and "running c fin H L"
    and "\<And>j. waiting j s H L \<Longrightarrow> waiting j fin H L"
    and "undisturbed (frame_words (fst there) \<union> frame_words (fst back)) {c, i} s fin" and "token fin = token s"
proof -
  have s: "hal_inv s H L" "running c s H L" "waiting i s H L" "map_of (registry s L) name = Some (word_of_nat i, d)" using c by (simp_all add: can_call_def)
  note ci = rest_distinct [OF s(2,3)]
  have fg: "irq (snd there) = 0x80" "irq (snd back) = 0x80" and ap: "frame_words (fst there) \<inter> frame_words (fst back) = {}"
    using tr by (simp_all add: good_traps_def)
  note fr = read_frame_below [OF ap, of "snd back" "snd there" "stackmem s"]
  have me: "driver_pid name s = word_of_nat i" using c by (simp add: can_call_def)
  let ?q = "\<lparr>src = word_of_nat c, dest = word_of_nat i, mtype = type, req_pid = rp, dev_id = d, buf = b, offset = off, mlen = n\<rparr>"
  obtain fin where "device_access call (driver_of disk name) there back type name rp b off n s =
      Inr (dev_ret type name n, snd there, fin)" "mem fin = dev_mem disk type name b off n (mem s)" "kmsg.more fin = kmsg.more s"
      "hal_inv fin H L" "running c fin H L" "\<And>j. waiting j s H L \<Longrightarrow> waiting j fin H L"
      "undisturbed (frame_words (fst there) \<union> frame_words (fst back)) {c, i} s fin" "token fin = token s"
    using ty
  proof
    assume t: "type = DEV_READ"
    show thesis
      by (rule reader.access_returns [OF s(1-3) ci s(4) me fg refl, of call disk "fst there" "fst back" rp b off n,
            unfolded fr prod.collapse Msg.simps]) (rule that [unfolded t])
  next
    assume t: "type = DEV_WRITE"
    show thesis
      by (rule writer.access_returns [OF s(1-3) ci s(4) me fg refl, of call disk "fst there" "fst back" rp b off n,
            unfolded fr prod.collapse Msg.simps]) (rule that [unfolded t])
  qed
  then show thesis by (rule that)
qed

lemma can_call_fin:
  assumes c: "can_call name c i d s H L" and m: "kmsg.more fin = kmsg.more s" and f: "hal_inv fin H L" "running c fin H L" "waiting i fin H L"
  shows "can_call name c i d fin H L"
  using c f driver_pid_static [OF m, of name] more_khal [OF m] by (simp add: can_call_def registry_def dev_at_def)

lemma works_mem: "works s (s\<lparr>mem := M\<rparr>)"
  by (simp add: works_def)

lemma can_call_mem:
  assumes "can_call name c i d s H L"
  shows "can_call name c i d (s\<lparr>mem := M\<rparr>) H L"
proof (rule can_call_fin [OF assms])
  have s: "hal_inv s H L" "running c s H L" "waiting i s H L" using assms by (simp_all add: can_call_def)
  show "hal_inv (s\<lparr>mem := M\<rparr>) H L" using s(1) by (simp add: hal_inv_def proc_inv_def dev_at_def comp_def)
  show "running c (s\<lparr>mem := M\<rparr>) H L" "waiting i (s\<lparr>mem := M\<rparr>) H L" using works_rest [OF works_mem] s(2,3) by blast+
qed simp

section \<open>A concrete system\<close>

definition trap_frame :: "u32 \<Rightarrow> TrapFrame" where
  "trap_frame v = \<lparr>edi = 0, esi = 0, ebp = 0, xxx = 0, ebx = v, edx = 0, ecx = 0, eax = 0, gs = 16, fs = 16, es = 16, ds = 16,
     irq = 0x80, error_code = 0, eip = 0xc0100000, cs = 8, eflags = 0x202\<rparr>"

lemma good_trap_frames: "good_traps (0xc0200000, trap_frame 1) (0xc0204000, trap_frame 2)"
  by (simp add: good_traps_def trap_frame_def frame_words_def)

lemma kdrv_more:
  fixes s t :: "'a kdrv_scheme"
  shows "kmsg.more s = kmsg.more t \<Longrightarrow> kdrv.more s = kdrv.more t" and "kcore.more s = kcore.more t \<Longrightarrow> kdrv.more s = kdrv.more t"
  by (cases s, cases t, simp)+

text \<open>Two threads are made, the second registers as the driver of a device and runs to its \<open>receive\<close>.\<close>

lemma demo_call:
  fixes s0 :: "'a kdrv_scheme"
  assumes s0: "current s0 = idle" "lock_count s0 = 0" "p_free s0 = 0" "lock_flag s0 = 0"
    and name: "name \<in> set memory_devices" "driver_pid name s0 = 2"
  obtains s :: "'a kdrv_scheme" and H L where "can_call name 1 2 0 s H L" and "kdrv.more s = kdrv.more s0"
    and "L Free = map PcbList [3..<PCB_POOL_SIZE]" and "linked H L = linked hal_heads hal_lists"
proof -
  obtain s t where t: "two_threads s0 = Inr s" "init_hal s = Inr t" "hal_inv t hal_heads hal_lists"
    "registry t hal_lists = []" "msg_inv t hal_heads hal_lists" "current t = PcbList 1"
    "token t (MsgSem 1) = 0" "token t (MsgSem 2) = 0" "lock_count t = 0" "lock_flag t = lock_flag s0"
    "range MsgNode \<inter> linked hal_heads hal_lists = {}" "kcore.more t = kcore.more s0"
    by (rule hal_boot_from [OF s0(1-3)])
  have f: "hal_lists FreeDev = DevNode 0 # map DevNode [1..<NR_DEV]" by (simp add: hal_lists_def NR_DEV_def upt_rec [of 0])
  let ?L = "moved FreeDev Devices (DevNode 0) hal_lists"
  obtain u where u: "hal_register name 2 0 t = Inr u" "hal_inv u hal_heads ?L" "registry u ?L = [(name, 2, 0)]"
    by (rule hal_register_ok [OF t(3) f, where name = name and p = 2 and d = 0]) (simp_all add: t(4))
  have ueq: "u = t\<lparr>heap := requeue Devices (DevNode 0) (heap t), dev_pool := (dev_pool t)(0 := \<lparr>dname = name, dpid = 2, ddev_id = 0\<rparr>), intr := relock t\<rparr>"
    using u(1) hal_register_eq [OF t(3), of name 2 0] f t(4) by (simp add: dev_idx_def)
  define v where "v = u\<lparr>pcb_pool := (pcb_pool u)(2 := (pcb_pool u 2)\<lparr>locked := 0\<rparr>)\<rparr>"
  have "stat_inv (pcb_pool v) hal_heads ?L" using proc_invD(3) [OF hal_invD(1) [OF u(2)]] by (auto simp: v_def stat_inv_def)
  then have vi: "hal_inv v hal_heads ?L" using u(2) by (simp add: hal_inv_def proc_inv_def v_def dev_at_def comp_def)
  then have mi: "msg_inv v hal_heads ?L" using hal_invD(1) [OF vi] t(5) by (simp add: msg_inv_def moved_def v_def ueq)
  have vf: "current v = PcbList 1" "token v (MsgSem 1) = 0" "token v (MsgSem 2) = 0" "lock_count v = 0" "lock_flag v \<in> {0, 2}" "locked (pcb_pool v 2) = 0"
    using t(6-10) s0(4) by (simp_all add: v_def ueq)
  have l: "?L Ready = [PcbList 1, PcbList 2]" "?L (SemBlock (MsgSem 1)) = []" "?L (SemBlock (MsgSem 2)) = []" "SemBlock (MsgSem 2) \<in> hal_heads"
    by (simp_all add: moved_def hal_lists_def hal_heads_def)
  have lk: "linked hal_heads ?L = linked hal_heads hal_lists"
    by (rule linked_moved [OF proc_invD(1) [OF hal_invD(1) [OF t(3)]]]) (simp_all add: f hal_heads_def)
  have fr: "range MsgNode \<inter> linked hal_heads ?L = {}" using t(11) lk by simp
  obtain w M where w: "running 1 w hal_heads M" "waiting 2 w hal_heads M" "talked v w" "M = moved Ready (SemBlock (MsgSem 2)) (PcbList 2) ?L"
    by (rule first_wait [OF mi vf(1) l(1-3) vf(2-6) fr l(4), of "trap_frame 1" "trap_frame 2"]) (use that in \<open>auto simp: trap_frame_def\<close>)
  have mo: "kmsg.more w = kmsg.more v" using w(3) by (simp add: talked_def)
  have "hal_inv w hal_heads M"
    using vi w(1) more_khal [OF mo] by (auto simp: hal_inv_def running_def msg_inv_def dev_at_def comp_def w(4) moved_def)
  moreover have "registry w M = [(name, 2, 0)]"
    using u(3) more_khal [OF mo] by (simp add: registry_def dev_at_def w(4) moved_def v_def)
  moreover have "driver_pid name w = 2"
  proof -
    have "driver_pid name w = driver_pid name t" using driver_pid_static [OF mo, of name] by (simp add: v_def ueq driver_pid_def)
    also have "\<dots> = driver_pid name s0" using kcore_more_kmsg [OF t(12)] by (intro driver_pid_static) blast
    finally show ?thesis using name(2) by simp
  qed
  ultimately have "can_call name 1 2 0 w hal_heads M" using name(1) w(1,2) by (simp add: can_call_def)
  moreover have "kdrv.more w = kdrv.more s0" using kdrv_more(1) [OF mo] kdrv_more(2) [OF t(12)] by (simp add: v_def ueq)
  moreover have "M Free = map PcbList [3..<PCB_POOL_SIZE]" by (simp add: w(4) moved_def hal_lists_def)
  moreover have "linked hal_heads M = linked hal_heads ?L"
    unfolding w(4) by (rule linked_moved [OF proc_invD(1) [OF msg_invD(1) [OF mi]]]) (use l in \<open>simp_all add: hal_heads_def two_heads_def born_heads_def boot_heads_def\<close>)
  then have "linked hal_heads M = linked hal_heads hal_lists" using lk by simp
  ultimately show thesis by (rule that)
qed

definition demo_kdrv :: kdrv where
  "demo_kdrv = bss_kdrv\<lparr>RAMDISK := 2, MEM := 2\<rparr>"

lemma demo_kdrv_start:
  "current demo_kdrv = idle" "lock_count demo_kdrv = 0" "p_free demo_kdrv = 0" "lock_flag demo_kdrv = 0"
  "driver_pid ''ram'' demo_kdrv = 2" "driver_pid ''mem'' demo_kdrv = 2" "''ram'' \<in> set memory_devices" "''mem'' \<in> set memory_devices"
  by (simp_all add: demo_kdrv_def bss_kdrv_def bss_kide_def bss_ktimer_def kdrv.defs kide.defs ktimer.defs khal.defs bss_khal_def kirq.defs
      bss_kirq_def kmsg.defs bss_kmsg_def kcore.defs bss_kcore_def driver_pid_def memory_devices_def)

section \<open>The memory manager\<close>

text \<open>A request to a server and its answer, from the call of \<open>send\<close> to the return of \<open>receive\<close>.\<close>

definition ask ::
    "(routine \<Rightarrow> 'a kirq_scheme \<Rightarrow> 'a kirq_scheme res) \<Rightarrow> (Msg \<Rightarrow> 'a kirq_scheme \<Rightarrow> 'a kirq_scheme res) \<Rightarrow>
     u32 \<times> TrapFrame \<Rightarrow> u32 \<times> TrapFrame \<Rightarrow> pid_t \<Rightarrow> Msg \<Rightarrow> 'a kirq_scheme \<Rightarrow> (Msg \<times> TrapFrame \<times> 'a kirq_scheme) res" where
  "ask call body there back p m s =
     bindR (send p m s) (\<lambda>(_, s).
     bindR (receive p s) (conversation call body there back p))"

lemma ask_ok:
  fixes s :: "'a kirq_scheme"
  assumes r: "running c s H L" and w: "waiting i s H L" and m: "src m \<noteq> 0" and e: "src e = word_of_nat i" "dest e = word_of_nat c"
    and tr: "good_traps there back"
    and body: "\<And>v. entered c i (fst there) (snd there) s v H L \<Longrightarrow> \<exists>v'. body (m\<lparr>dest := word_of_nat i\<rparr>) v = bindR (send (word_of_nat c) e v') (\<lambda>(_, s). Inr s) \<and>
      running i v' H (changed_over c i M) \<and> waiting c v' H (changed_over c i M) \<and> undisturbed W T v v' \<and> after v v'"
    and W: "frame_words (fst there) \<inter> W = {}" "c \<notin> T"
  obtains v v' fin where "ask call body there back (word_of_nat i) m s = Inr (e, snd there, fin)"
    and "entered c i (fst there) (snd there) s v H L" and "after v v'" and "entered i c (fst back) (snd back) v' fin H (changed_over c i M)"
    and "undisturbed (frame_words (fst there) \<union> frame_words (fst back) \<union> W) ({c, i} \<union> T) s fin"
proof -
  let ?a = "fst there" and ?f = "snd there"
  note n = rest_distinct [OF r w]
  have nz: "(word_of_nat i :: pid_t) \<noteq> 0" using thread_word_nonzero waiting_thread(1,2) [OF _ w] r unfolding running_def by blast
  have tr': "irq ?f = 0x80" "irq (snd back) = 0x80" "frame_words ?a \<inter> frame_words (fst back) = {}" using tr by (simp_all add: good_traps_def)
  have q: "m\<lparr>dest := word_of_nat i\<rparr> = addressed (word_of_nat c) (word_of_nat i) m" using m by (simp add: addressed_def)
  have e': "e = addressed (word_of_nat i) (word_of_nat c) e" "wanted (word_of_nat i) e" using e nz by (simp_all add: addressed_def wanted_def)
  have step: "\<exists>v'. body (m\<lparr>dest := word_of_nat i\<rparr>) v = bindR (send (word_of_nat c) e v') (\<lambda>(_, s). Inr s) \<and> running i v' H (changed_over c i M) \<and>
      waiting c v' H (changed_over c i M) \<and> tf (pcb_pool v' c) = ?a \<and> (undisturbed W T v v' \<and> after v v')" if v: "entered c i ?a ?f s v H L" for v
    using body [OF v] W(2) enteredD(6) [OF v, of c] by (auto simp: undisturbed_def)
  obtain t u v v' fin where x: "send (word_of_nat i) m s = Inr (m\<lparr>dest := word_of_nat i\<rparr>, t)" "receive (word_of_nat i) t = Inr (Waiting u)"
    "conversation call body (?a, ?f) (fst back, snd back) (word_of_nat i) (Waiting u) =
      Inr (e, read_frame (write_frame (fst back) (snd back) (stackmem v')) ?a, fin)"
    "entered c i ?a ?f s v H L" "undisturbed W T v v' \<and> after v v'" "entered i c (fst back) (snd back) v' fin H (changed_over c i M)"
    by (rule conversation_via [where after = "\<lambda>v v'. undisturbed W T v v' \<and> after v v'" and body = body and M = M and call = call and a = ?a
          and b = "fst back", OF r w n tr'(1,2) q step e']) (assumption, rule that)
  note u = entered_undisturbed [OF x(4)] entered_undisturbed [OF x(6)]
  have "read_frame (stackmem fin) ?a = read_frame (stackmem v') ?a" using undisturbed_frame [OF u(2)] tr'(3) by simp
  also have "\<dots> = read_frame (stackmem v) ?a" using undisturbed_frame [OF conjunct1 [OF x(5)]] W(1) by simp
  also have "\<dots> = ?f" using enteredD(5) [OF x(4)] by (simp add: read_write_frame)
  finally have "ask call body there back (word_of_nat i) m s = Inr (e, ?f, fin)"
    using x(1-3) enteredD(5) [OF x(6)] by (simp add: ask_def)
  moreover have "undisturbed (frame_words ?a \<union> frame_words (fst back) \<union> W) ({c, i} \<union> T) s fin"
    by (rule undisturbed_trans [OF undisturbed_trans [OF u(1) conjunct1 [OF x(5)] order_refl order_refl] u(2)]) auto
  ultimately show thesis using that x(4-6) by blast
qed

lemma more_kmm:
  fixes s t :: "'a kmm_scheme"
  shows "kmsg.more s = kmsg.more t \<Longrightarrow> MM s = MM t \<and> PM s = PM t \<and> vmem_free s = vmem_free t \<and> page_mem s = page_mem t"
  by (cases s, cases t) simp

text \<open>The two routines of the memory manager read and write nothing but its own variables and the \<open>cr3\<close> of a process.\<close>

lemma vmem_local:
  fixes s t :: "'a kmm_scheme"
  assumes a: "do_new_proc_vmem vt kpdir s = Inr (r, s')" and t: "vmem_free t = vmem_free s" "page_mem t = page_mem s"
  shows "do_new_proc_vmem vt kpdir t = Inr (r, t\<lparr>vmem_free := vmem_free s', page_mem := page_mem s'\<rparr>)" and "PM s' = PM s" and "MM s' = MM s"
proof -
  have g: "\<not> (vmem_free s < 0 \<or> N_KERNEL_PTE \<le> vmem_free s)"
  proof
    assume "vmem_free s < 0 \<or> N_KERNEL_PTE \<le> vmem_free s"
    then have "do_new_proc_vmem vt kpdir s = Inl (OutOfBounds ''vmem_table'')" unfolding do_new_proc_vmem_def by (rule if_P)
    then show False using a by simp
  qed
  define p where "p = VMemInfo vt (vmem_free s)"
  define cr where "cr = set_page_directory_base (drop_bit 12 (va_to_pa (vm_pdir p))) 0"
  define F where "F ph = fold (copy_pde (va_to_pa (vm_pdir p)) (va_to_pa kpdir)) [0..<16]
    (fold (\<lambda>pdir_idx. make_pde (entry_at (va_to_pa (vm_pdir p)) pdir_idx) (va_to_pa (vm_ptable p))) [0..<NR_PDE] (ph(va_to_pa p := cr)))" for ph
  have e: "do_new_proc_vmem vt kpdir u = Inr (cr, u\<lparr>vmem_free := vmem_free u + 1, page_mem := F (page_mem u)\<rparr>)"
    if "vmem_free u = vmem_free s" for u :: "'a kmm_scheme"
    unfolding do_new_proc_vmem_def that if_not_P [OF g] Let_def F_def cr_def p_def by simp
  have "r = cr" "s' = s\<lparr>vmem_free := vmem_free s + 1, page_mem := F (page_mem s)\<rparr>" using a e [of s] by simp_all
  then show "do_new_proc_vmem vt kpdir t = Inr (r, t\<lparr>vmem_free := vmem_free s', page_mem := page_mem s'\<rparr>)" "PM s' = PM s" "MM s' = MM s"
    using e [OF t(1)] t by simp_all
qed

lemma pages_local:
  fixes s t :: "'a kmm_scheme"
  assumes a: "do_allocate_new_pages p va s = Inr (r, s')" and t: "vmem_free t = vmem_free s" "page_mem t = page_mem s"
    "PCB.cr3 (pcb_pool t (unat p)) = PCB.cr3 (pcb_pool s (unat p))"
  shows "do_allocate_new_pages p va t = Inr (r, t\<lparr>vmem_free := vmem_free s', page_mem := page_mem s'\<rparr>)" and "PM s' = PM s" and "MM s' = MM s"
proof -
  have g: "\<not> PCB_POOL_SIZE \<le> unat p"
  proof
    assume "PCB_POOL_SIZE \<le> unat p"
    then have "do_allocate_new_pages p va s = Inl (OutOfBounds ''pcb_pool'')" unfolding do_allocate_new_pages_def by (rule if_P)
    then show False using a by simp
  qed
  define table where "table = page_mem s ((PCB.cr3 (pcb_pool s (unat p)) AND NOT 0xfff) + 4 * drop_bit 22 va) AND NOT 0xfff"
  define ph where "ph = fold (\<lambda>ptable_idx. make_pte (entry_at table ptable_idx)
    (push_bit 20 (word_of_int (32 + vmem_free s * 4)) + push_bit 12 (word_of_nat ptable_idx))) [0..<NR_PTE] (page_mem s)"
  define pa where "pa = (ph (entry_at table (unat (drop_bit 12 va AND 0x3ff))) AND NOT 0x3ff) + (va AND 0xfff)"
  have e: "do_allocate_new_pages p va u = Inr (pa, u\<lparr>page_mem := ph\<rparr>)"
    if "vmem_free u = vmem_free s" "page_mem u = page_mem s" "PCB.cr3 (pcb_pool u (unat p)) = PCB.cr3 (pcb_pool s (unat p))" for u :: "'a kmm_scheme"
    unfolding do_allocate_new_pages_def that if_not_P [OF g] Let_def pa_def ph_def table_def by (rule refl)
  have "r = pa" "s' = s\<lparr>page_mem := ph\<rparr>" using a e [of s] by simp_all
  then show "do_allocate_new_pages p va t = Inr (r, t\<lparr>vmem_free := vmem_free s', page_mem := page_mem s'\<rparr>)" "PM s' = PM s" "MM s' = MM s"
    using e [OF t] t(1) by simp_all
qed

text \<open>The thread of the memory manager, in the state in which it gets the request, answers what \<open>serve\<close> says.\<close>

lemma mm_thread_serves:
  assumes m: "mtype m = MM_NEW_PROC \<or> mtype m = MM_NEW_PAGE" and sv: "serve disk vt kpdir m s = Inr (e, s')" and t: "talked s t"
  shows "mm_thread vt kpdir (m\<lparr>dest := d\<rparr>) t =
    bindR (send (PM s) e (t\<lparr>vmem_free := vmem_free s', page_mem := page_mem s'\<rparr>)) (\<lambda>(_, s). Inr s) \<and> dest e = PM s \<and> src e = MM s \<and>
    s' = s\<lparr>vmem_free := vmem_free s', page_mem := page_mem s'\<rparr>"
proof -
  have k: "MM t = MM s" "PM t = PM s" "vmem_free t = vmem_free s" "page_mem t = page_mem s" "PCB.cr3 (pcb_pool t j) = PCB.cr3 (pcb_pool s j)" for j
    using t more_kmm [of t s] by (simp_all add: talked_def)
  note ty = MM_NEW_PROC_def MM_NEW_PAGE_def FM_NEW_FILE_def FM_READ_def
  from m show ?thesis
  proof
    assume m: "mtype m = MM_NEW_PROC"
    then obtain r where r: "do_new_proc_vmem vt kpdir s = Inr (r, s')" "e = m\<lparr>mtype := r, dest := PM s', src := MM s'\<rparr>"
      using sv by (auto simp: serve_def ty bindR_Inr_iff)
    then show ?thesis using vmem_local [OF r(1) k(3,4)] vmem_local(1) [OF r(1) refl refl] r(1) m k(1,2) by (simp add: mm_thread_def mm_answer_def)
  next
    assume m: "mtype m = MM_NEW_PAGE"
    then obtain r where r: "do_allocate_new_pages (src m) (req_pid m) s = Inr (r, s')" "e = m\<lparr>mtype := r, dest := PM s', src := MM s'\<rparr>"
      using sv by (auto simp: serve_def ty bindR_Inr_iff)
    then show ?thesis using pages_local [OF r(1) k(3,4,5)] pages_local(1) [OF r(1) refl refl refl] r(1) m k(1,2) by (simp add: mm_thread_def mm_answer_def ty)
  qed
qed

lemma mm_asked:
  fixes s :: "'a kmm_scheme"
  assumes r: "running c s H L" and w: "waiting i s H L" and id: "PM s = word_of_nat c" "MM s = word_of_nat i"
    and m: "mtype m = MM_NEW_PROC \<or> mtype m = MM_NEW_PAGE" "src m \<noteq> 0" and sv: "serve disk vt kpdir m s = Inr (e, s')" and tr: "good_traps there back"
  obtains fin where "ask call (mm_thread vt kpdir) there back (MM s) m s = Inr (e, snd there, fin)"
    and "kmsg.more fin = kmsg.more s'" and "mem fin = mem s'" and "token fin = token s" and "running c fin H L"
    and "\<And>j. waiting j s H L \<Longrightarrow> waiting j fin H L" and "undisturbed (frame_words (fst there) \<union> frame_words (fst back)) {c, i} s fin"
proof -
  let ?w = "\<lambda>t. t\<lparr>vmem_free := vmem_free s', page_mem := page_mem s'\<rparr>"
  note bk = changed_back [OF r w rest_distinct [OF r w]]
  note mm = mm_thread_serves [OF m(1) sv, where d = "word_of_nat i"]
  have "talked s s" by (simp add: talked_def)
  note e = mm [OF this]
  have wk: "works v (?w v)" for v :: "'a kmm_scheme" by (simp add: works_def)
  have step: "\<exists>v'. mm_thread vt kpdir (m\<lparr>dest := word_of_nat i\<rparr>) v = bindR (send (word_of_nat c) e v') (\<lambda>(_, s). Inr s) \<and>
      running i v' H (changed_over c i L) \<and> waiting c v' H (changed_over c i L) \<and> undisturbed {} {} v v' \<and> v' = ?w v"
    if v: "entered c i (fst there) (snd there) s v H L" for v
    using mm [OF enteredD(1) [OF v]] id(1) works_rest [OF wk] enteredD(2,3) [OF v] works_undisturbed [OF wk] by auto
  obtain v v' fin where x: "ask call (mm_thread vt kpdir) there back (word_of_nat i) m s = Inr (e, snd there, fin)"
    "entered c i (fst there) (snd there) s v H L" "v' = ?w v" "entered i c (fst back) (snd back) v' fin H (changed_over c i L)"
    "undisturbed (frame_words (fst there) \<union> frame_words (fst back) \<union> {}) ({c, i} \<union> {}) s fin"
    by (rule ask_ok [where after = "\<lambda>v v'. v' = ?w v" and body = "mm_thread vt kpdir" and M = L and W = "{}" and T = "{}" and e = e and call = call,
          OF r w m(2) _ _ tr step]) (use e id in simp_all)
  note v = enteredD [OF x(2)] and fin = enteredD [OF x(4), unfolded bk x(3)]
  have "waiting j fin H L" if j: "waiting j s H L" for j
    using fin(3,4) works_rest(2) [OF wk v(4) [OF j]] rest_distinct [OF r j] by (cases "j = i") auto
  moreover have "kmsg.more (?w v) = kmsg.more (?w s)" using v(1) by (cases v, cases s) (simp add: talked_def)
  then have "kmsg.more fin = kmsg.more s'" using fin(1) e by (simp add: talked_def)
  moreover have "mem fin = mem s'" "token fin = token s" using fin(1) v(1) arg_cong [OF e [THEN conjunct2, THEN conjunct2, THEN conjunct2], of mem]
    by (simp_all add: talked_def)
  ultimately show thesis using that x(1,5) fin(2) id(2) by simp
qed

section \<open>Properties\<close>

text \<open>
  C18: an access to a device returns.  While the driver of a device in memory waits and nothing else is
  ready, \<open>dev_read\<close> and \<open>dev_write\<close> run through: over the registry, two messages and two context
  switches the caller gets control back with the registers it had at its trap, the value and the change of the
  memory are those of the device, no other variable has changed but those of threads and
  messages, and the next call finds the system as this one did.
\<close>

theorem device_access_returns:
  fixes s :: "'a kdrv_scheme"
  assumes "can_call name c i d s H L" and "type = DEV_READ \<or> type = DEV_WRITE" and "good_traps there back"
  shows "\<exists>fin. device_access call (driver_of disk name) there back type name rp b off n s = Inr (dev_ret type name n, snd there, fin) \<and>
    mem fin = dev_mem disk type name b off n (mem s) \<and> kmsg.more fin = kmsg.more s \<and> can_call name c i d fin H L \<and>
    (\<forall>j. waiting j s H L \<longrightarrow> waiting j fin H L)"
proof -
  have w: "waiting i s H L" using assms(1) by (simp add: can_call_def)
  show ?thesis
    by (rule driver_access [OF assms, of call disk rp b off n]) (use can_call_fin [OF assms(1)] w in blast)
qed

theorem device_access_returns_witness:
  "\<exists>s fin :: kdrv. device_access (\<lambda>_ s. Inr s) (driver_of 0x400000 ''mem'') (0xc0200000, trap_frame 1) (0xc0204000, trap_frame 2)
      DEV_READ ''mem'' 1 0x1000 0x5000 4 s = Inr (4, trap_frame 1, fin) \<and> mem s 0x5002 = 7 \<and> mem fin 0x1002 = 7"
proof -
  obtain s :: kdrv and H L where s: "can_call ''mem'' 1 2 0 s H L" by (rule demo_call [OF demo_kdrv_start(1-4,8,6)])
  let ?s = "s\<lparr>mem := (\<lambda>_. 0)(0x5002 := 7)\<rparr>"
  from device_access_returns [OF can_call_mem [OF s] disjI1 [OF refl] good_trap_frames, of "\<lambda>_ s. Inr s" "0x400000" 1 "0x1000" "0x5000" 4]
  obtain fin where f: "device_access (\<lambda>_ s. Inr s) (driver_of 0x400000 ''mem'') (0xc0200000, trap_frame 1) (0xc0204000, trap_frame 2)
      DEV_READ ''mem'' 1 0x1000 0x5000 4 ?s = Inr (4, trap_frame 1, fin)" "mem fin = memcpy 0x1000 0x5000 4 ((\<lambda>_. 0)(0x5002 := 7))"
    by (auto simp: dev_ret_def dev_mem_def dev_base_def DEV_READ_def DEV_WRITE_def)
  have "unat (4 :: u32) = Suc (Suc (Suc (Suc 0)))" by simp
  then have "mem fin 0x1002 = 7" by (simp only: f(2) memcpy_def rep_movsb.simps) simp
  with f(1) show ?thesis by (intro exI [of _ ?s] exI [of _ fin]) simp
qed

text \<open>
  C20: the RAM disk stores, seen by its users.  What \<open>dev_write\<close> takes from a buffer \<open>dev_read\<close> of the same
  range puts into another buffer, through the same calls; both return the number of bytes.
\<close>

theorem ramdisk_stores:
  fixes s :: "'a kdrv_scheme"
  assumes "can_call ''ram'' c i d s H L" and "good_traps there back" and "apart (disk + off) b n" and "apart b' (disk + off) n"
  shows "\<exists>t u. device_access call (driver_of disk ''ram'') there back DEV_WRITE ''ram'' rp b off n s = Inr (n, snd there, t) \<and>
    device_access call (driver_of disk ''ram'') there back DEV_READ ''ram'' rp b' off n t = Inr (n, snd there, u) \<and>
    same_bytes (mem u) b' (mem s) b n"
proof -
  have ty: "DEV_WRITE \<noteq> DEV_READ" by (simp add: DEV_WRITE_def DEV_READ_def)
  have w: "waiting i s H L" using assms(1) by (simp add: can_call_def)
  obtain t where t: "device_access call (driver_of disk ''ram'') there back DEV_WRITE ''ram'' rp b off n s = Inr (n, snd there, t)"
    "mem t = memcpy (disk + off) b n (mem s)" "can_call ''ram'' c i d t H L"
    by (rule driver_access [OF assms(1) _ assms(2), of DEV_WRITE call disk rp b off n])
      (use can_call_fin [OF assms(1)] w ty in \<open>auto simp: dev_ret_def dev_mem_def dev_base_def\<close>)
  obtain u where u: "device_access call (driver_of disk ''ram'') there back DEV_READ ''ram'' rp b' off n t = Inr (n, snd there, u)"
    "mem u = memcpy b' (disk + off) n (mem t)"
    by (rule driver_access [OF t(3) _ assms(2), of DEV_READ call disk rp b' off n])
      (auto simp: dev_ret_def dev_mem_def dev_base_def)
  have "same_bytes (mem u) b' (mem s) b n"
    using memcpy_apart(1) [OF assms(4), of "mem t"] memcpy_apart(1) [OF assms(3), of "mem s"] by (simp add: same_bytes_def u(2) t(2))
  then show ?thesis using t(1) u(1) by blast
qed

theorem ramdisk_stores_witness:
  "\<exists>s t u :: kdrv. device_access (\<lambda>_ s. Inr s) (driver_of 0x400000 ''ram'') (0xc0200000, trap_frame 1) (0xc0204000, trap_frame 2)
      DEV_WRITE ''ram'' 1 0x1000 64 4 s = Inr (4, trap_frame 1, t) \<and>
    device_access (\<lambda>_ s. Inr s) (driver_of 0x400000 ''ram'') (0xc0200000, trap_frame 1) (0xc0204000, trap_frame 2)
      DEV_READ ''ram'' 1 0x2000 64 4 t = Inr (4, trap_frame 1, u) \<and> same_bytes (mem u) 0x2000 (mem s) 0x1000 4"
proof -
  obtain s :: kdrv and H L where s: "can_call ''ram'' 1 2 0 s H L" by (rule demo_call [OF demo_kdrv_start(1-4,7,5)])
  have a: "apart (0x400000 + 64) 0x1000 4" "apart 0x2000 (0x400000 + 64) 4" by (rule apart_distance; simp)+
  from ramdisk_stores [OF s good_trap_frames a, of "\<lambda>_ s. Inr s" 1] show ?thesis by auto
qed

text \<open>
  the memory manager answers the process manager.  While it waits and nothing else is ready, a request
  of the process manager for an address space or for pages is answered over messages and context switches
  with the message and the page tables that the routine \<open>serve\<close> gives, which the loading of programs
  is proved with; nothing else changes.
\<close>

theorem memory_manager_answers:
  fixes s :: "'a kmm_scheme"
  assumes "running c s H L" and "waiting i s H L" and "PM s = word_of_nat c" and "MM s = word_of_nat i"
    and "mtype m = MM_NEW_PROC \<or> mtype m = MM_NEW_PAGE" and "src m \<noteq> 0" and "serve disk vt kpdir m s = Inr (e, s')" and "good_traps there back"
  shows "\<exists>fin. ask call (mm_thread vt kpdir) there back (MM s) m s = Inr (e, snd there, fin) \<and>
    page_mem fin = page_mem s' \<and> vmem_free fin = vmem_free s' \<and> mem fin = mem s \<and> running c fin H L \<and> waiting i fin H L \<and>
    (\<forall>k. PCB.cr3 (pcb_pool fin k) = PCB.cr3 (pcb_pool s k))"
proof -
  obtain fin where f: "ask call (mm_thread vt kpdir) there back (MM s) m s = Inr (e, snd there, fin)" "kmsg.more fin = kmsg.more s'" "mem fin = mem s'"
    "running c fin H L" "\<And>j. waiting j s H L \<Longrightarrow> waiting j fin H L" "undisturbed (frame_words (fst there) \<union> frame_words (fst back)) {c, i} s fin"
    by (rule mm_asked [OF assms, of call]) (rule that)
  moreover have "talked s s" by (simp add: talked_def)
  from arg_cong [OF mm_thread_serves [OF assms(5,7) this, THEN conjunct2, THEN conjunct2, THEN conjunct2], of mem] have "mem s' = mem s" by simp
  ultimately show ?thesis using more_kmm [of fin s'] assms(2) by (auto simp: undisturbed_def)
qed

definition demo_kmm :: kmm where
  "demo_kmm = bss_kmm\<lparr>MEM := 2, MM := 2, PM := 1\<rparr>"

lemma demo_kmm_start:
  "current demo_kmm = idle" "lock_count demo_kmm = 0" "p_free demo_kmm = 0" "lock_flag demo_kmm = 0" "driver_pid ''mem'' demo_kmm = 2"
  by (simp_all add: demo_kmm_def bss_kmm_def kmm.defs bss_kfm_def kfm.defs bss_ktty_def ktty.defs bss_kdrv_def bss_kide_def bss_ktimer_def kdrv.defs
      kide.defs ktimer.defs khal.defs bss_khal_def kirq.defs bss_kirq_def kmsg.defs bss_kmsg_def kcore.defs bss_kcore_def driver_pid_def)

lemma kmm_of_more:
  fixes s t :: "'a kmm_scheme"
  shows "kdrv.more s = kdrv.more t \<Longrightarrow> MM s = MM t \<and> PM s = PM t \<and> FM s = FM t \<and> fm_empty s = fm_empty t \<and> vmem_free s = vmem_free t \<and>
    page_mem s = page_mem t"
  by (cases s, cases t) simp

theorem memory_manager_answers_witness:
  "\<exists>(s :: kmm) e fin. ask (\<lambda>_ s. Inr s) (mm_thread 0xC0200000 0xC0100000) (0xc0200000, trap_frame 1) (0xc0204000, trap_frame 2) 2
     ((ten_bytes MM_NEW_PROC)\<lparr>src := 1\<rparr>) s = Inr (e, trap_frame 1, fin) \<and> vmem_free s = 0 \<and> vmem_free fin = 1 \<and> src e = 2"
proof -
  let ?m = "(ten_bytes MM_NEW_PROC)\<lparr>src := 1\<rparr>"
  obtain s :: kmm and H L where s: "can_call ''mem'' 1 2 0 s H L" "kdrv.more s = kdrv.more demo_kmm"
    by (rule demo_call [OF demo_kmm_start(1-4) demo_kdrv_start(8) demo_kmm_start(5)])
  have k: "MM s = 2" "PM s = 1" "vmem_free s = vmem_free bss_kmm" "page_mem s = page_mem bss_kmm"
    using kmm_of_more [OF s(2)] by (simp_all add: demo_kmm_def)
  have v0: "vmem_free bss_kmm = 0" by (simp add: bss_kmm_def kfm.defs kmm.defs)
  have "vm_ready 0xC0200000 0xC0100000 0x101000 s" using bss_kmm_ready by (simp add: vm_ready_def k)
  then obtain r s' where n: "do_new_proc_vmem 0xC0200000 0xC0100000 s = Inr (r, s')" "vmem_free s' = vmem_free s + 1"
    by (rule do_new_proc_vmem_ok) (rule that)
  have n': "vmem_free s' = 1" "MM s' = 2" "PM s' = 1" using vmem_local(2,3) [OF n(1) refl refl] n(2) k v0 by simp_all
  have m: "mtype ?m = MM_NEW_PROC \<or> mtype ?m = MM_NEW_PAGE" "src ?m \<noteq> 0" by (simp_all add: ten_bytes_def)
  have sv: "serve 0x400000 0xC0200000 0xC0100000 ?m s = Inr (?m\<lparr>mtype := r, dest := 1, src := 2\<rparr>, s')"
    using n(1) n' by (simp add: serve_def ten_bytes_def MM_NEW_PROC_def FM_NEW_FILE_def FM_READ_def)
  have rw: "running 1 s H L" "waiting 2 s H L" using s(1) by (simp_all add: can_call_def)
  have "\<exists>fin. ask (\<lambda>_ s. Inr s) (mm_thread 0xC0200000 0xC0100000) (0xc0200000, trap_frame 1) (0xc0204000, trap_frame 2) (MM s) ?m s =
      Inr (?m\<lparr>mtype := r, dest := 1, src := 2\<rparr>, trap_frame 1, fin) \<and> vmem_free fin = vmem_free s'"
    using memory_manager_answers [OF rw _ _ m sv good_trap_frames, of "\<lambda>_ s. Inr s"] k(1,2) by auto
  then obtain fin where "ask (\<lambda>_ s. Inr s) (mm_thread 0xC0200000 0xC0100000) (0xc0200000, trap_frame 1) (0xc0204000, trap_frame 2) 2 ?m s =
      Inr (?m\<lparr>mtype := r, dest := 1, src := 2\<rparr>, trap_frame 1, fin)" "vmem_free fin = 1" unfolding n'(1) k(1) by blast
  then show ?thesis using k(3) v0 by (intro exI [of _ s] exI [of _ "?m\<lparr>mtype := r, dest := 1, src := 2\<rparr>"] exI [of _ fin]) simp
qed

end
