(* ===== verification/Tests.thy ===== *)
theory Tests
  imports Init Ring Calls
begin

text \<open>
  The threads that exercise the system: \<open>getty\<close>, which echoes a terminal's lines in capitals,
  and the test threads of \<open>kernel/main.c\<close>.  \<open>dev_read\<close> and \<open>dev_write\<close> up to their return
  are the arguments \<open>dread\<close> and \<open>dwrite\<close>, a \<open>send\<close> and the \<open>receive\<close> of the answer are the
  argument \<open>call\<close>; \<open>printk\<close> writes to the serial port \<open>p\<close>.  Each test thread ends in
  \<open>sleep\<close> and returns the state in which it sleeps.
\<close>

type_synonym 's dev_access = "string \<Rightarrow> pid_t \<Rightarrow> u32 \<Rightarrow> u32 \<Rightarrow> u32 \<Rightarrow> 's \<Rightarrow> (u32 \<times> 's) res"

section \<open>getty.c\<close>

text \<open>One turn of the loop; \<open>nl\<close> is the address of the string with the newline.\<close>

definition getty :: "'a ktty_scheme dev_access \<Rightarrow> 'a ktty_scheme dev_access \<Rightarrow> string \<Rightarrow> u32 \<Rightarrow> u32 \<Rightarrow> 'a ktty_scheme \<Rightarrow> 'a ktty_scheme res" where
  "getty dread dwrite name b nl s =
     bindR (dread name (TTY s) b 0 256 s) (\<lambda>(count, s).
     let s = s\<lparr>mem := upcase_range (nat (sint count)) b (mem s)\<rparr> in
     bindR (dwrite name (TTY s) b 0 count s) (\<lambda>(_, s).
     bindR (dwrite name (TTY s) nl 0 1 s) (\<lambda>(_, s). Inr s)))"

section \<open>main.c: test threads\<close>

definition newline :: string where
  "newline = [CHR 0x0A]"

text \<open>The control string at an address, up to its zero.\<close>

definition ctl_at :: "memory \<Rightarrow> u32 \<Rightarrow> string res" where
  "ctl_at m a =
     (case strlen m a of
        None \<Rightarrow> Inl (NoReturn ''printk'')
      | Some n \<Rightarrow> Inr (map (\<lambda>i. char_of (unat (m (a + word_of_nat i)))) [0..<unat n]))"

definition test_end :: "'a kcore_scheme \<times> 'p \<Rightarrow> ('a kcore_scheme \<times> 'p) res" where
  "test_end = (\<lambda>(s, p). bindR (sleep s) (\<lambda>s. Inr (s, p)))"

definition read_mbr ::
    "'a kmm_scheme dev_access \<Rightarrow> 'p ports \<Rightarrow> (nat \<Rightarrow> u8) \<Rightarrow> u32 \<Rightarrow> 'a kmm_scheme \<times> 'p \<Rightarrow> ('a kmm_scheme \<times> 'p) res" where
  "read_mbr dread io junk mbr =
     (\<lambda>(s, p).
       bindR (dread ''hda'' (IDE_PID s) mbr 0 512 s) (\<lambda>(_, s).
       bindR (printk io (mem s) junk (''======= MBR Data ======'' @ newline) [] p) (\<lambda>p.
       let s = lock s in
       bindR (forR (\<lambda>i. printk io (mem s) junk ''%x '' [ucast (mem s (mbr + word_of_nat i))]) [0..<512] p) (\<lambda>p.
       bindR (printk io (mem s) junk newline [] p) (\<lambda>p.
       test_end (unlock s, p))))))"

definition test_timer ::
    "(pid_t \<Rightarrow> 'a kmm_scheme rpc) \<Rightarrow> 'p ports \<Rightarrow> (nat \<Rightarrow> u8) \<Rightarrow> Msg \<Rightarrow> u32 \<Rightarrow> 'a kmm_scheme \<times> 'p \<Rightarrow> ('a kmm_scheme \<times> 'p) res" where
  "test_timer call io junk m sec =
     (\<lambda>(s, p).
       bindR (printk io (mem s) junk (''Alarm was set at %d sec later.'' @ newline) [sec] p) (\<lambda>p.
       bindR (call (TIMER_PID s) (m\<lparr>mtype := NEW_TIMER, req_pid := sec\<rparr>) s) (\<lambda>(m, s).
       bindR (printk io (mem s) junk (''Time up! (%d sec)'' @ newline) [sec] p) (\<lambda>p.
       test_end (s, p)))))"

text \<open>\<open>b\<close> is the address of the static buffer, \<open>data\<close> that of the text to be read.\<close>

definition test_mem ::
    "'a kmm_scheme dev_access \<Rightarrow> 'p ports \<Rightarrow> (nat \<Rightarrow> u8) \<Rightarrow> u32 \<Rightarrow> u32 \<Rightarrow> 'a kmm_scheme \<times> 'p \<Rightarrow> ('a kmm_scheme \<times> 'p) res" where
  "test_mem dread io junk b data =
     (\<lambda>(s, p).
       bindR (printk io (mem s) junk (''Trying to read data from mem...'' @ newline) [] p) (\<lambda>p.
       bindR (current_pid s) (\<lambda>self.
       bindR (dread ''mem'' self b data 127 s) (\<lambda>(_, s).
       bindR (ctl_at (mem s) b) (\<lambda>ctl.
       bindR (printk io (mem s) junk ctl [] p) (\<lambda>p.
       test_end (s, p)))))))"

definition test_kmem ::
    "'a kmm_scheme dev_access \<Rightarrow> 'p ports \<Rightarrow> (nat \<Rightarrow> u8) \<Rightarrow> u32 \<Rightarrow> u32 \<Rightarrow> 'a kmm_scheme \<times> 'p \<Rightarrow> ('a kmm_scheme \<times> 'p) res" where
  "test_kmem dread io junk b data =
     (\<lambda>(s, p).
       bindR (printk io (mem s) junk (''Trying to read data from kmem...'' @ newline) [] p) (\<lambda>p.
       bindR (current_pid s) (\<lambda>self.
       bindR (dread ''kmem'' self b (data - KOFFSET) 127 s) (\<lambda>(_, s).
       bindR (ctl_at (mem s) b) (\<lambda>ctl.
       bindR (printk io (mem s) junk ctl [] p) (\<lambda>p.
       test_end (s, p)))))))"

definition test_null ::
    "'a kmm_scheme dev_access \<Rightarrow> 'p ports \<Rightarrow> (nat \<Rightarrow> u8) \<Rightarrow> u32 \<Rightarrow> 'a kmm_scheme \<times> 'p \<Rightarrow> ('a kmm_scheme \<times> 'p) res" where
  "test_null dread io junk b =
     (\<lambda>(s, p).
       bindR (current_pid s) (\<lambda>self.
       bindR (dread ''null'' self b 123 123 s) (\<lambda>(ret, s).
       bindR (if ret = 0 then printk io (mem s) junk (''If you see these words, device 'null' works well.^o^'' @ newline) [] p
              else Inr p) (\<lambda>p.
       test_end (s, p)))))"

definition test_zero ::
    "'a kmm_scheme dev_access \<Rightarrow> 'p ports \<Rightarrow> (nat \<Rightarrow> u8) \<Rightarrow> u32 \<Rightarrow> 'a kmm_scheme \<times> 'p \<Rightarrow> ('a kmm_scheme \<times> 'p) res" where
  "test_zero dread io junk b =
     (\<lambda>(s, p).
       let s = s\<lparr>mem := memset b 0xff 128 (mem s)\<rparr> in
       bindR (current_pid s) (\<lambda>self.
       bindR (dread ''zero'' self b 123 120 s) (\<lambda>(_, s).
       bindR (if mem s (b + 119) = 0 then printk io (mem s) junk (''If you see these words, device 'zero' works well.^o^'' @ newline) [] p
              else Inr p) (\<lambda>p.
       test_end (s, p)))))"

text \<open>The four characters are promoted to \<open>int\<close>, with their sign.\<close>

definition test_random ::
    "'a kmm_scheme dev_access \<Rightarrow> 'p ports \<Rightarrow> (nat \<Rightarrow> u8) \<Rightarrow> u32 \<Rightarrow> 'a kmm_scheme \<times> 'p \<Rightarrow> ('a kmm_scheme \<times> 'p) res" where
  "test_random dread io junk b =
     (\<lambda>(s, p).
       let s = s\<lparr>mem := memset b 0xff 4 (mem s)\<rparr> in
       bindR (current_pid s) (\<lambda>self.
       bindR (dread ''random'' self b 0 4 s) (\<lambda>(_, s).
       bindR (printk io (mem s) junk (''device 'random' gives 4 random number (range -128~127): %d %d %d %d'' @ newline)
         (map (\<lambda>i. scast (mem s (b + word_of_nat i))) [0..<4]) p) (\<lambda>p.
       test_end (s, p)))))"

text \<open>\<open>yes\<close> and \<open>no_text\<close> are the addresses of the strings \<open>"(new) "\<close> and \<open>""\<close>.\<close>

definition test_fm ::
    "(pid_t \<Rightarrow> 'a kmm_scheme rpc) \<Rightarrow> 'p ports \<Rightarrow> (nat \<Rightarrow> u8) \<Rightarrow> Msg \<Rightarrow> u32 \<Rightarrow> u32 \<Rightarrow> u32 \<Rightarrow> u32 \<Rightarrow> bool \<Rightarrow>
     'a kmm_scheme \<times> 'p \<Rightarrow> ('a kmm_scheme \<times> 'p) res" where
  "test_fm call io junk m b yes no_text no new_file =
     (\<lambda>(s, p).
       bindR (printk io (mem s) junk (''Trying to read from File %d...'' @ newline) [no] p) (\<lambda>p.
       bindR (if new_file then
                bindR (current_pid s) (\<lambda>self. call (FM s) (m\<lparr>src := self, mtype := FM_NEW_FILE, req_pid := no\<rparr>) s)
              else Inr (m, s)) (\<lambda>(m, s).
       bindR (current_pid s) (\<lambda>self.
       bindR (call (FM s) (m\<lparr>src := self, mtype := FM_READ, req_pid := no, buf := b, offset := 0, mlen := 128\<rparr>) s) (\<lambda>(m, s).
       bindR (printk io (mem s) junk ''%sFile %d: %s'' [if new_file then yes else no_text, no, b] p) (\<lambda>p.
       test_end (s, p)))))))"

section \<open>getty\<close>

lemma upcase_range_eq: "n \<le> 4294967295 \<Longrightarrow> upcase_range n b m x = (if unat (x - b) < n then upcase (m x) else m x)"
proof (induction n arbitrary: b m)
  case (Suc n)
  show ?case
  proof (cases "x = b")
    case True
    then have "unat (x - (b + 1)) = 4294967295" by (simp add: unsigned_minus_1_eq_mask mask_eq_exp_minus_1)
    then show ?thesis using Suc True by simp
  next
    case False
    then have "x - b \<noteq> 0" by simp
    then have "unat (x - b) = Suc (unat (x - b - 1))" by (simp add: unat_minus_one unat_gt_0)
    then have "unat (x - b) = Suc (unat (x - (b + 1)))" by (simp add: diff_diff_eq)
    then show ?thesis using Suc False by simp
  qed
qed simp

text \<open>
  a terminal answers in capitals.  One turn of \<open>getty\<close> writes back to its terminal the
  characters that it has read, with the small letters among them, and nothing else in memory,
  made capital, and a newline after them.
\<close>

theorem getty_echoes_capitals:
  assumes "dread name (TTY s) b 0 256 s = Inr (n, t)"
  shows "getty dread dwrite name b nl s =
    bindR (dwrite name (TTY t) b 0 n (t\<lparr>mem := \<lambda>x. if unat (x - b) < nat (sint n) then upcase (mem t x) else mem t x\<rparr>)) (\<lambda>(_, s).
    bindR (dwrite name (TTY s) nl 0 1 s) (\<lambda>(_, s). Inr s))"
proof -
  have "nat (sint n) \<le> 4294967295" using sint_lt [of n] by simp
  from upcase_range_eq [OF this] have "upcase_range (nat (sint n)) b (mem t) = (\<lambda>x. if unat (x - b) < nat (sint n) then upcase (mem t x) else mem t x)"
    by (intro ext)
  then show ?thesis using assms by (simp add: getty_def Let_def)
qed

theorem getty_echoes_capitals_witness:
  "getty (\<lambda>_ _ b _ _ s. Inr (2, s\<lparr>mem := (mem s)(b := char_byte CHR ''o'', b + 1 := char_byte CHR ''K'')\<rparr>)) (\<lambda>_ _ b _ n s. Inr (n, s)) ''tty1'' 0x1000 0x2000 bss_ktty =
     Inr (bss_ktty\<lparr>mem := (mem bss_ktty)(0x1000 := char_byte CHR ''O'', 0x1001 := char_byte CHR ''K'')\<rparr>)"
proof -
  let ?t = "bss_ktty\<lparr>mem := (mem bss_ktty)(0x1000 := char_byte CHR ''o'', 0x1000 + 1 := char_byte CHR ''K'')\<rparr>"
  have m: "(\<lambda>x. if unat (x - 0x1000) < nat (sint (2 :: u32)) then upcase (mem ?t x) else mem ?t x) =
      (mem bss_ktty)(0x1000 := char_byte CHR ''O'', 0x1001 := char_byte CHR ''K'')" (is "?l = ?r")
  proof
    fix x :: u32
    have "x = 0x1000 \<or> x = 0x1001" if l: "unat (x - 0x1000) < 2"
    proof -
      have "unat (x - 0x1000) = unat (0 :: u32) \<or> unat (x - 0x1000) = unat (1 :: u32)" using l by auto
      then have "x - 0x1000 = 0 \<or> x - 0x1000 = 1" by (simp only: word_unat_eq_iff)
      then show ?thesis by (auto simp: diff_eq_eq)
    qed
    then have "unat (x - 0x1000) < 2 \<longleftrightarrow> x = 0x1000 \<or> x = 0x1001" by auto
    then show "?l x = ?r x" by (auto simp: upcase_def char_byte_def)
  qed
  show ?thesis
    by (subst getty_echoes_capitals [where n = 2 and t = ?t]) (simp_all only: m, simp_all)
qed

section \<open>The device tests\<close>

text \<open>
  \<open>dev_read\<close> with the thread of the driver running while the caller waits, up to its return.
\<close>

definition live_read ::
    "(routine \<Rightarrow> 'a kmm_scheme \<Rightarrow> 'a kmm_scheme res) \<Rightarrow> u32 \<Rightarrow> u32 \<times> TrapFrame \<Rightarrow> u32 \<times> TrapFrame \<Rightarrow> 'a kmm_scheme dev_access" where
  "live_read call disk there back name self b off n s =
     bindR (device_access call (driver_of disk name) there back DEV_READ name self b off n s) (\<lambda>(r, _, s). Inr (r, s))"

lemma live_read_ok:
  fixes s :: "'a kmm_scheme"
  assumes "can_call name c i d s H L" and "good_traps there back"
  obtains fin where "live_read call disk there back name self b off n s = Inr (dev_ret DEV_READ name n, fin)"
    and "mem fin = dev_mem disk DEV_READ name b off n (mem s)" and "running c fin H L"
proof -
  obtain fin where "device_access call (driver_of disk name) there back DEV_READ name self b off n s = Inr (dev_ret DEV_READ name n, snd there, fin)"
    "mem fin = dev_mem disk DEV_READ name b off n (mem s)" "running c fin H L"
    by (rule driver_access [OF assms(1) disjI1 [OF refl] assms(2)]) (rule that)
  then show thesis using that by (simp add: live_read_def)
qed

lemma running_pid: "running c s H L \<Longrightarrow> current_pid s = Inr (word_of_nat c)"
  using running_thread(1,5) [of c s H L] by (simp add: current_pid_def running_def)

lemma test_end_ok: "running c s H L \<Longrightarrow> \<exists>t. test_end (s, p) = Inr (t, p)"
  using running_thread(1) [of c s H L] by (simp add: test_end_def sleep_def sleep_on_eq running_def)

lemma print_plain:
  assumes "\<And>c d. serial_printc io c d = Inr (d @ [c])" and "CHR ''%'' \<notin> set str"
  shows "printk io m junk str [] p = Inr (p @ map char_byte str)"
  unfolding printk_def using assms(2)
proof (induction str arbitrary: p)
  case (Cons c str)
  then have "c \<noteq> CHR ''%''" "CHR ''%'' \<notin> set str" by auto
  then show ?case using Cons.IH by (simp add: vfprintf_lit assms(1))
qed simp

lemma char_byte_of: "char_byte (char_of (unat b)) = (b :: u8)"
  using unsigned_less [where ?'a = nat and w = b] by (simp add: char_byte_def)

lemma ctl_at_text:
  assumes "cstring m a text" and "length text < 4294967296"
  shows "ctl_at m a = Inr (map (\<lambda>b. char_of (unat b)) text)"
proof -
  have "map (\<lambda>i. char_of (unat (m (a + word_of_nat i)))) [0..<length text] = map (\<lambda>b. char_of (unat b)) text"
    using assms(1) by (intro nth_equalityI) (simp_all add: cstring_def)
  then show ?thesis using strlen_cstring [OF assms(1)] assms(2) by (simp add: ctl_at_def)
qed

lemma copied_text:
  assumes "cstring m data text" and "length text < 127" and "apart b data 127"
  shows "cstring (memcpy b data 127 m) b text"
proof -
  have "memcpy b data 127 m (b + word_of_nat k) = m (data + word_of_nat k)" if "k < 127" for k
    using memcpy_apart(1) [OF assms(3), of m] that by (simp add: same_bytes_def)
  then show ?thesis using assms(1,2) by (auto simp: cstring_def)
qed

definition null_text :: "u8 list" where
  "null_text = map char_byte (''If you see these words, device 'null' works well.^o^'' @ newline)"

definition zero_text :: "u8 list" where
  "zero_text = map char_byte (''If you see these words, device 'zero' works well.^o^'' @ newline)"

lemma null_zero_tests:
  fixes s :: "'a kmm_scheme"
  assumes io: "\<And>c d. serial_printc io c d = Inr (d @ [c])" and tr: "good_traps there back"
  shows "can_call ''null'' c i d s H L \<Longrightarrow> \<exists>t. test_null (live_read call disk there back) io junk b (s, p) = Inr (t, p @ null_text)"
    and "can_call ''zero'' c i d s H L \<Longrightarrow> \<exists>t. test_zero (live_read call disk there back) io junk b (s, p) = Inr (t, p @ zero_text)"
proof -
  note pr = print_plain [where io = io, OF io]
  have w: "DEV_READ \<noteq> DEV_WRITE" by (simp add: DEV_READ_def DEV_WRITE_def)
  {
    assume c: "can_call ''null'' c i d s H L"
    obtain fin where "live_read call disk there back ''null'' (word_of_nat c) b 123 123 s = Inr (0, fin)" "running c fin H L"
      by (rule live_read_ok [OF c tr, of call disk "word_of_nat c" b 123 123]) (rule that, simp_all add: dev_ret_def)
    moreover have "current_pid s = Inr (word_of_nat c)" using c running_pid [of c s H L] by (simp add: can_call_def)
    ultimately show "\<exists>t. test_null (live_read call disk there back) io junk b (s, p) = Inr (t, p @ null_text)"
      using test_end_ok by (simp add: test_null_def pr null_text_def newline_def)
  }
  assume c: "can_call ''zero'' c i d s H L"
  let ?s = "s\<lparr>mem := memset b 0xff 128 (mem s)\<rparr>"
  note c' = can_call_mem [OF c, of "memset b 0xff 128 (mem s)"]
  obtain fin where f: "live_read call disk there back ''zero'' (word_of_nat c) b 123 120 ?s = Inr (120, fin)"
    "mem fin = memset b 0 120 (mem ?s)" "running c fin H L"
    by (rule live_read_ok [OF c' tr, of call disk "word_of_nat c" b 123 120]) (rule that, simp_all add: dev_ret_def dev_mem_def w)
  have "mem fin (b + 119) = 0" using rep_stosb_inside [of 119 120 b 0 "mem ?s"] by (simp add: f(2) memset_def)
  moreover have "current_pid ?s = Inr (word_of_nat c)" using c' running_pid [of c ?s H L] by (simp add: can_call_def)
  ultimately show "\<exists>t. test_zero (live_read call disk there back) io junk b (s, p) = Inr (t, p @ zero_text)"
    using f(1) test_end_ok [OF f(3)] by (simp add: test_zero_def pr zero_text_def newline_def Let_def)
qed

lemma mem_tests:
  fixes s :: "'a kmm_scheme"
  assumes io: "\<And>c d. serial_printc io c d = Inr (d @ [c])" and tr: "good_traps there back"
    and tx: "cstring (mem s) data text" "length text < 127" "char_byte CHR ''%'' \<notin> set text" "apart b data 127"
  shows "can_call ''mem'' c i d s H L \<Longrightarrow> \<exists>t. test_mem (live_read call disk there back) io junk b data (s, p) =
      Inr (t, p @ map char_byte (''Trying to read data from mem...'' @ newline) @ text)"
    and "can_call ''kmem'' c i d s H L \<Longrightarrow> \<exists>t. test_kmem (live_read call disk there back) io junk b data (s, p) =
      Inr (t, p @ map char_byte (''Trying to read data from kmem...'' @ newline) @ text)"
proof -
  note pr = print_plain [where io = io, OF io]
  let ?ctl = "map (\<lambda>b. char_of (unat b)) text"
  have "CHR ''%'' \<notin> set ?ctl" using tx(3) char_byte_of by (auto simp: in_set_conv_nth)
  then have pt: "printk io m junk ?ctl [] e = Inr (e @ text)" for m e
    using pr [of ?ctl m junk e] by (simp add: comp_def char_byte_of)
  have ctl: "ctl_at (memcpy b data 127 (mem s)) b = Inr ?ctl" using tx(2) by (intro ctl_at_text copied_text tx(1,4)) simp_all
  have pid: "current_pid s = Inr (word_of_nat c)" if "can_call name c i d s H L" for name
    using that running_pid [of c s H L] by (simp add: can_call_def)
  {
    assume c: "can_call ''mem'' c i d s H L"
    obtain fin where f: "live_read call disk there back ''mem'' (word_of_nat c) b data 127 s = Inr (127, fin)"
      "mem fin = memcpy b data 127 (mem s)" "running c fin H L"
      by (rule live_read_ok [OF c tr, of call disk "word_of_nat c" b data 127]) (rule that, simp_all add: dev_ret_def dev_mem_def dev_base_def)
    then show "\<exists>t. test_mem (live_read call disk there back) io junk b data (s, p) =
        Inr (t, p @ map char_byte (''Trying to read data from mem...'' @ newline) @ text)"
      using pid [OF c] ctl test_end_ok [OF f(3)] by (simp add: test_mem_def pr pt newline_def)
  }
  assume c: "can_call ''kmem'' c i d s H L"
  obtain fin where f: "live_read call disk there back ''kmem'' (word_of_nat c) b (data - KOFFSET) 127 s = Inr (127, fin)"
    "mem fin = memcpy b data 127 (mem s)" "running c fin H L"
    by (rule live_read_ok [OF c tr, of call disk "word_of_nat c" b "data - KOFFSET" 127]) (rule that, simp_all add: dev_ret_def dev_mem_def dev_base_def)
  then show "\<exists>t. test_kmem (live_read call disk there back) io junk b data (s, p) =
      Inr (t, p @ map char_byte (''Trying to read data from kmem...'' @ newline) @ text)"
    using pid [OF c] ctl test_end_ok [OF f(3)] by (simp add: test_kmem_def pr pt newline_def)
qed

text \<open>
  C40: the tests of the devices in memory succeed.  While the driver of the device waits and nothing else is
  ready, the threads that test \<open>null\<close> and \<open>zero\<close> print that the device works, and those that test
  \<open>mem\<close> and \<open>kmem\<close> print the text they were to read, wherever it is, when it has no percent sign and fits
  in the 127 bytes; the calls, the driver and the context switches in between included.
\<close>

theorem device_tests_succeed:
  fixes s :: "'a kmm_scheme"
  assumes "\<And>c d. serial_printc io c d = Inr (d @ [c])" and "good_traps there back"
    and "cstring (mem s) data text" and "length text < 127" and "char_byte CHR ''%'' \<notin> set text" and "apart b data 127"
  shows "(can_call ''null'' c i d s H L \<longrightarrow> (\<exists>t. test_null (live_read call disk there back) io junk b (s, p) = Inr (t, p @ null_text))) \<and>
    (can_call ''zero'' c i d s H L \<longrightarrow> (\<exists>t. test_zero (live_read call disk there back) io junk b (s, p) = Inr (t, p @ zero_text))) \<and>
    (can_call ''mem'' c i d s H L \<longrightarrow> (\<exists>t. test_mem (live_read call disk there back) io junk b data (s, p) =
      Inr (t, p @ map char_byte (''Trying to read data from mem...'' @ newline) @ text))) \<and>
    (can_call ''kmem'' c i d s H L \<longrightarrow> (\<exists>t. test_kmem (live_read call disk there back) io junk b data (s, p) =
      Inr (t, p @ map char_byte (''Trying to read data from kmem...'' @ newline) @ text)))"
  by (intro conjI impI) (erule null_zero_tests [OF assms(1,2)] mem_tests [OF assms])+

theorem device_tests_succeed_witness:
  "\<exists>(s :: kmm) t. test_mem (live_read (\<lambda>_ s. Inr s) 0x400000 (0xc0200000, trap_frame 1) (0xc0204000, trap_frame 2)) demo_serial (\<lambda>_. 0) 0x1000 0x5000 (s, []) =
     Inr (t, map char_byte (''Trying to read data from mem...'' @ newline) @ [72])"
proof -
  obtain s :: kmm and H L where s: "can_call ''mem'' 1 2 0 s H L"
    by (rule demo_call [OF demo_kmm_start(1-4) demo_kdrv_start(8) demo_kmm_start(5)])
  let ?s = "s\<lparr>mem := (\<lambda>_. 0)(0x5000 := 72)\<rparr>"
  have pr: "serial_printc demo_serial c d = Inr (d @ [c])" for c d
    by (simp add: serial_printc_def serial_wait.simps serial_idle_def demo_serial_def)
  have t: "cstring (mem ?s) 0x5000 [72]" "char_byte CHR ''%'' \<notin> set [72]" by (simp_all add: cstring_def char_byte_def)
  have a: "apart 0x1000 0x5000 127" by (rule apart_distance) simp_all
  have "length [72 :: u8] < 127" by simp
  from device_tests_succeed [OF pr good_trap_frames t(1) this t(2) a, of 1 2 0 H L "\<lambda>_ s. Inr s" "0x400000" "\<lambda>_. 0" "[]"] can_call_mem [OF s]
  show ?thesis by auto
qed

end
