(* ===== verification/Files.thy ===== *)
theory Files
  imports Calls
begin

text \<open>
  The requests to the file manager behind complete calls.  Its thread is a server and, for a read,
  a client of the RAM disk: while it serves, it holds a conversation of its own.
\<close>

section \<open>The thread of the file manager\<close>

text \<open>
  The loop body to its end.  The trap in a read is the one in \<open>dev_read\<close>, which the RAM disk's answer ends; \<open>p\<close>
  is its process as the registry has it.  The mutex is free between two requests, so nothing else traps.
\<close>

definition fm_loop ::
    "(routine \<Rightarrow> 'a kfm_scheme \<Rightarrow> 'a kfm_scheme res) \<Rightarrow> u32 \<Rightarrow> u32 \<times> TrapFrame \<Rightarrow> u32 \<times> TrapFrame \<Rightarrow>
     Msg \<Rightarrow> 'a kfm_scheme \<Rightarrow> 'a kfm_scheme res" where
  "fm_loop call disk there back m s =
     bindR (hal_get_id ''ram'' s) (\<lambda>((p, _), _).
     bindR (ramdisk_thread m s) (\<lambda>r. case r of
       Returned s \<Rightarrow> Inr s
     | Trapped s \<Rightarrow>
         bindR (conversation call (ram_driver_thread disk) there back p (Waiting s)) (\<lambda>(_, _, s).
         ramdisk_answer m s)))"

lemma device_accessE:
  assumes "device_access call body there back type name rp b off n s = Inr (x, g, t)" and "hal_inv s H L"
    and "map_of (registry s L) name = Some (p, d)"
  obtains u m where "dev_rw name type rp b off n s = Inr (Waiting u)" and "conversation call body there back p (Waiting u) = Inr (m, g, t)"
proof -
  obtain r m where r: "dev_rw name type rp b off n s = Inr r" "conversation call body there back p r = Inr (m, g, t)"
    using assms(1,3) by (auto simp: device_access_def hal_get_id_eq [OF assms(2)] bindR_Inr_iff)
  then obtain u where "r = Waiting u" by (cases r) (simp_all add: conversation_def pass_on_def)
  with r show thesis by (simp add: that)
qed

lemma more_kfm:
  fixes s t :: "'a kfm_scheme"
  shows "kmsg.more s = kmsg.more t \<Longrightarrow> FM s = FM t \<and> files s = files t \<and> fm_empty s = fm_empty t"
  by (cases s, cases t) simp

lemma file_index_static: "kmsg.more s = kmsg.more t \<Longrightarrow> file_index name s = file_index name t"
  by (drule more_kfm) (simp add: file_index_def)

text \<open>The invariant of the file manager, seen from another thread.\<close>

lemma fm_inv_transfer:
  assumes inv: "fm_inv s H L" and more: "kmsg.more t = kmsg.more s" and tok: "token t FmMutex = token s FmMutex" and pi: "proc_inv t H' M" and H: "H \<subseteq> H'"
    and same: "M (SemBlock FmMutex) = L (SemBlock FmMutex)" "\<And>h. M (HashHead h) = L (HashHead h)"
    and new: "range FileLink \<inter> linked H' M \<subseteq> linked H L"
  shows "fm_inv t H' M"
  using inv H new unfolding fm_inv_def bucket_def same tok more_kfm [OF more, THEN conjunct2, THEN conjunct1]
    more_kfm [OF more, THEN conjunct2, THEN conjunct2] using pi by blast

lemma linked_changed: "range FileLink \<inter> linked H (changed_over c i L) \<subseteq> linked H L"
  by (auto simp: linked_def changed_over_def split: if_splits)

lemma fm_inv_changed:
  assumes "fm_inv s H L" and "kmsg.more t = kmsg.more s" and "token t = token s" and "running i t H (changed_over c i L)"
  shows "fm_inv t H (changed_over c i L)"
proof (rule fm_inv_transfer [OF assms(1,2) _ _ order_refl _ _ linked_changed])
  show "proc_inv t H (changed_over c i L)" using assms(4) msg_invD(1) by (auto simp: running_def)
qed (simp_all add: changed_over_def assms(3))

lemma fm_inv_kept:
  assumes "fm_inv s H L" and "kmsg.more t = kmsg.more s" and "token t = token s" and "running c t H L"
  shows "fm_inv t H L"
proof (rule fm_inv_transfer [OF assms(1,2) _ _ order_refl])
  show "proc_inv t H L" using assms(4) msg_invD(1) by (auto simp: running_def)
qed (simp_all add: assms(3))

lemma can_call_changed:
  assumes c: "can_call name c k d s H L" and v: "entered c i a f s v H L" and n: "k \<noteq> i"
  shows "can_call name i k d v H (changed_over c i L)"
proof -
  have s: "name \<in> set memory_devices" "hal_inv s H L" "waiting k s H L" "map_of (registry s L) name = Some (word_of_nat k, d)" "driver_pid name s = word_of_nat k"
    using c by (simp_all add: can_call_def)
  have more: "kmsg.more v = kmsg.more s" using enteredD(1) [OF v] by (simp add: talked_def)
  note r = enteredD(2) [OF v] and w = enteredD(4) [OF v s(3) n]
  have dv: "changed_over c i L Devices = L Devices" "changed_over c i L FreeDev = L FreeDev" by (simp_all add: changed_over_def)
  have "proc_inv v H (changed_over c i L)" using r msg_invD(1) by (auto simp: running_def)
  then have "hal_inv v H (changed_over c i L)" using s(2) more_khal [OF more] by (simp add: hal_inv_def dev_at_def comp_def dv)
  then show ?thesis using s r w more_khal [OF more] driver_pid_static [OF more, of name] by (simp add: can_call_def registry_def dev_at_def dv)
qed

lemma fm_reads:
  fixes v :: "'a kfm_scheme"
  assumes c: "can_call ''ram'' i k d v H M" and fi: "fm_inv v H M" and tr: "good_traps there back"
    and m: "mtype m = FM_READ" "0 \<le> sint (req_pid m)" "file_index (req_pid m) v = Some j"
  obtains v' where "fm_loop call disk there back m v = ramdisk_answer m v'" and "kmsg.more v' = kmsg.more v" and "token v' = token v"
    and "mem v' = memcpy (buf m) (disk + (word_of_nat j * NR_FILE_SIZE + offset m)) (mlen m) (mem v)"
    and "running i v' H M" and "\<And>l. waiting l v H M \<Longrightarrow> waiting l v' H M"
    and "undisturbed (frame_words (fst there) \<union> frame_words (fst back)) {i, k} v v'"
proof -
  let ?v = "v\<lparr>intr := relock v\<rparr>" and ?off = "word_of_nat j * NR_FILE_SIZE + offset m"
  have s: "hal_inv v H M" "running i v H M" "waiting k v H M" "map_of (registry v M) ''ram'' = Some (word_of_nat k, d)"
    using c by (simp_all add: can_call_def)
  note wv = works_intr [of v "relock v"]
  have hv: "hal_inv ?v H M" using s(1) by (simp add: hal_inv_def proc_inv_def dev_at_def comp_def)
  have c': "can_call ''ram'' i k d ?v H M"
    by (rule can_call_fin [OF c _ hv works_rest(1) [OF wv s(2)] works_rest(2) [OF wv s(3)]]) simp
  have reg: "map_of (registry ?v M) ''ram'' = Some (word_of_nat k, d)" using c' by (simp add: can_call_def)
  obtain v' where v': "device_access call (driver_of disk ''ram'') there back DEV_READ ''ram'' (word_of_nat i) (buf m) ?off (mlen m) ?v =
      Inr (dev_ret DEV_READ ''ram'' (mlen m), snd there, v')" "mem v' = dev_mem disk DEV_READ ''ram'' (buf m) ?off (mlen m) (mem ?v)"
    "kmsg.more v' = kmsg.more ?v" "running i v' H M" "\<And>l. waiting l ?v H M \<Longrightarrow> waiting l v' H M"
    "undisturbed (frame_words (fst there) \<union> frame_words (fst back)) {i, k} ?v v'" "token v' = token ?v"
    by (rule driver_access [OF c' disjI1 [OF refl] tr]) (rule that)
  obtain u r where u: "dev_rw ''ram'' DEV_READ (word_of_nat i) (buf m) ?off (mlen m) ?v = Inr (Waiting u)"
    "conversation call (driver_of disk ''ram'') there back (word_of_nat k) (Waiting u) = Inr (r, snd there, v')"
    by (rule device_accessE [OF v'(1) hv reg])
  have "current_pid v = Inr (word_of_nat i)" using running_thread(1,5) [OF s(2)] s(2) by (simp add: current_pid_def running_def)
  then have "ramdisk_thread m v = Inr (Trapped u)"
    using u(1) m by (simp add: ramdisk_thread_def do_read_eq [OF fi m(2)] dev_read_def FM_READ_def FM_NEW_FILE_def)
  moreover have "driver_of disk ''ram'' = (ram_driver_thread disk :: Msg \<Rightarrow> 'a kfm_scheme \<Rightarrow> 'a kfm_scheme res)" by (simp add: driver_of_def)
  ultimately have "fm_loop call disk there back m v = ramdisk_answer m v'"
    using u(2) by (simp add: fm_loop_def hal_get_id_eq [OF s(1)] s(4))
  moreover have "mem v' = memcpy (buf m) (disk + ?off) (mlen m) (mem v)" using v'(2) by (simp add: dev_mem_def dev_base_def)
  moreover have "waiting l v' H M" if "waiting l v H M" for l using v'(5) works_rest(2) [OF wv that] by blast
  moreover have "undisturbed (frame_words (fst there) \<union> frame_words (fst back)) {i, k} v v'" using v'(6) by (simp add: undisturbed_def)
  ultimately show thesis using v'(3,4,7) by (intro that) simp_all
qed


text \<open>The list that a new file is added to.\<close>

definition filed :: "u32 \<Rightarrow> 'a kfm_scheme \<Rightarrow> (laddr \<Rightarrow> laddr list) \<Rightarrow> laddr \<Rightarrow> laddr list" where
  "filed name s L = L(HashHead (nat (hash_file_name name)) := L (HashHead (nat (hash_file_name name))) @ [FileLink (nat (fm_empty s))])"

lemma fm_creates:
  fixes v :: "'a kfm_scheme"
  assumes r: "running i v H M" and hi: "hal_inv v H M" and reg: "map_of (registry v M) ''ram'' = Some (p, d)" and fi: "fm_inv v H M"
    and m: "mtype m = FM_NEW_FILE" "0 \<le> sint (req_pid m)" and room: "fm_empty v < 8"
  obtains v' where "fm_loop call disk there back m v = answer 0 (FM v) m v'" and "do_new_file (req_pid m) v = Inr (Returned v')"
    and "running i v' H (filed (req_pid m) v M)" and "fm_inv v' H (filed (req_pid m) v M)" and "works v (v'\<lparr>heap := heap v\<rparr>)" and "mem v' = mem v"
    and "\<And>s. kmsg.more v = kmsg.more s \<Longrightarrow> fm_inv s H L \<Longrightarrow> \<exists>s'. do_new_file (req_pid m) s = Inr (Returned s') \<and> kmsg.more v' = kmsg.more s' \<and> mem s' = mem s"
proof -
  let ?M = "filed (req_pid m) v M"
  let ?new = "\<lambda>hp (s :: 'a kfm_scheme). s\<lparr>files := (files s)(nat (fm_empty s) := (files s (nat (fm_empty s)))\<lparr>fname := req_pid m, fpos := word_of_nat (nat (fm_empty s)) * NR_FILE_SIZE\<rparr>),
    heap := hp, intr := relock s, fm_empty := fm_empty s + 1\<rparr>"
  obtain v' hp where v': "do_new_file (req_pid m) v = Inr (Returned v')" "fm_inv v' H ?M" "v' = ?new hp v"
    using do_new_file_ok [OF fi room m(2)] unfolding filed_def by blast
  have lp: "fm_loop call disk there back m v = answer 0 (FM v) m v'"
    using v'(1) m(1) by (simp add: fm_loop_def hal_get_id_eq [OF hi] reg ramdisk_thread_def v'(3) bindR_def split: sum.splits)
  have "?M l = M l" if "\<And>h. l \<noteq> HashHead h" for l using that by (auto simp: filed_def)
  moreover have "linked H ?M \<subseteq> linked H M \<union> range FileLink" by (auto simp: linked_def filed_def split: if_splits)
  then have "range MsgNode \<inter> linked H ?M = {}" using r unfolding running_def by blast
  ultimately have "running i v' H ?M" using r fm_invD(1) [OF v'(2)] by (simp add: running_def msg_inv_def v'(3))
  moreover have "works v (v'\<lparr>heap := heap v\<rparr>)" "mem v' = mem v" by (simp_all add: works_def v'(3))
  moreover have "\<exists>s'. do_new_file (req_pid m) s = Inr (Returned s') \<and> kmsg.more v' = kmsg.more s' \<and> mem s' = mem s" if e: "kmsg.more v = kmsg.more s" and f: "fm_inv s H L" for s
  proof -
    have "fm_empty s < 8" using room more_kfm [OF e] by simp
    from do_new_file_ok [OF f this m(2)] obtain s' hs where s': "do_new_file (req_pid m) s = Inr (Returned s')" "s' = ?new hs s" by blast
    have "kmsg.more (?new hp v) = kmsg.more (?new hs s)" using e by (cases v, cases s) simp
    with s' show ?thesis by (simp add: v'(3))
  qed
  ultimately show thesis using lp v'(1,2) by (intro that)
qed


section \<open>Requests of the process manager\<close>

definition fm_lists_after :: "Msg \<Rightarrow> 'a kfm_scheme \<Rightarrow> (laddr \<Rightarrow> laddr list) \<Rightarrow> laddr \<Rightarrow> laddr list" where
  "fm_lists_after m s L = (if mtype m = FM_NEW_FILE then filed (req_pid m) s L else L)"

lemma fm_lists_after_other [simp]: "(\<And>h. l \<noteq> HashHead h) \<Longrightarrow> fm_lists_after m s L l = L l"
  by (auto simp: fm_lists_after_def filed_def)

lemma fm_lists_changed: "fm_empty v = fm_empty s \<Longrightarrow> changed_over c i (fm_lists_after m s L) = fm_lists_after m v (changed_over c i L)"
  by (auto simp: fm_lists_after_def filed_def changed_over_def fun_eq_iff)

text \<open>What \<open>serve\<close> does to the state and answers, for the two requests to the file manager.\<close>

lemma serve_new_file:
  assumes "mtype m = FM_NEW_FILE" and "serve disk vt kpdir m s = Inr (e, s')"
  shows "do_new_file (req_pid m) s = Inr (Returned s')" and "e = m\<lparr>mtype := 0, dest := src m, src := FM s'\<rparr>"
proof -
  obtain r where r: "do_new_file (req_pid m) s = Inr r"
    "(case r of Trapped s \<Rightarrow> Inl (NoReturn ''P'') | Returned s \<Rightarrow> Inr (m\<lparr>mtype := 0, dest := src m, src := FM s\<rparr>, s)) = Inr (e, s')"
    using assms unfolding serve_def by (simp add: bindR_Inr_iff) blast
  then show "do_new_file (req_pid m) s = Inr (Returned s')" "e = m\<lparr>mtype := 0, dest := src m, src := FM s'\<rparr>" by (cases r; simp)+
qed

lemma serve_file_read:
  assumes "mtype m = FM_READ" and "serve disk vt kpdir m s = Inr (e, s')"
  obtains j where "file_index (req_pid m) s = Some j" and "e = m\<lparr>mtype := mlen m, dest := src m, src := FM s\<rparr>"
    and "s' = s\<lparr>mem := memcpy (buf m) (disk + (word_of_nat j * NR_FILE_SIZE + offset m)) (mlen m) (mem s)\<rparr>"
  using assms by (auto simp: serve_def serve_read_def FM_READ_def FM_NEW_FILE_def bindR_Inr_iff split: option.splits)

lemma new_file_room:
  assumes "fm_inv s H L" and "do_new_file name s = Inr r"
  shows "fm_empty s < 8"
proof (rule ccontr)
  assume "\<not> fm_empty s < 8"
  then have "fm_empty s = 8" using fm_invD(9) [OF assms(1)] by simp
  then show False using assms(2) by (simp add: do_new_file_def NR_MAX_FILE_def)
qed

lemma serve_fm:
  fixes s :: "'a kmm_scheme"
  assumes fi: "fm_inv s H L" and m: "mtype m = FM_NEW_FILE \<or> mtype m = FM_READ" "0 \<le> sint (req_pid m)" and sv: "serve disk vt kpdir m s = Inr (e, s')"
  shows "fm_inv s' H (fm_lists_after m s L)" and "token s' = token s" and "dev_pool s' = dev_pool s" and "RAMDISK s' = RAMDISK s"
    and "src e = FM s" and "dest e = src m" and "undisturbed {} {} s s'" and "PM s' = PM s \<and> FM s' = FM s \<and> MM s' = MM s"
proof -
  have "fm_inv s' H (fm_lists_after m s L) \<and> token s' = token s \<and> dev_pool s' = dev_pool s \<and> RAMDISK s' = RAMDISK s \<and> src e = FM s \<and> dest e = src m \<and>
    undisturbed {} {} s s' \<and> (PM s' = PM s \<and> FM s' = FM s \<and> MM s' = MM s)"
    using m(1)
  proof
    assume n: "mtype m = FM_NEW_FILE"
    note d = serve_new_file [OF n sv]
    obtain t fs hp where t: "do_new_file (req_pid m) s = Inr (Returned t)" "fm_inv t H (filed (req_pid m) s L)"
      "t = s\<lparr>files := fs, heap := hp, intr := relock s, fm_empty := fm_empty s + 1\<rparr>"
      using do_new_file_ok [OF fi new_file_room [OF fi d(1)] m(2)] unfolding filed_def by metis
    have "s' = t" using d(1) t(1) by simp
    then show ?thesis using t(2) d(2) n by (simp add: t(3) fm_lists_after_def undisturbed_def)
  next
    assume n: "mtype m = FM_READ"
    obtain j where "e = m\<lparr>mtype := mlen m, dest := src m, src := FM s\<rparr>"
      "s' = s\<lparr>mem := memcpy (buf m) (disk + (word_of_nat j * NR_FILE_SIZE + offset m)) (mlen m) (mem s)\<rparr>"
      by (rule serve_file_read [OF n sv])
    then show ?thesis using fi n by (simp add: fm_lists_after_def FM_READ_def FM_NEW_FILE_def fm_inv_def proc_inv_def bucket_def undisturbed_def)
  qed
  then show "fm_inv s' H (fm_lists_after m s L)" "token s' = token s" "dev_pool s' = dev_pool s" "RAMDISK s' = RAMDISK s"
    "src e = FM s" "dest e = src m" "undisturbed {} {} s s'" "PM s' = PM s \<and> FM s' = FM s \<and> MM s' = MM s" by blast+
qed

text \<open>The answer depends on the memory and the variables of the components only.\<close>

lemma serve_fm_same:
  fixes s t :: "'a kmm_scheme"
  assumes fi: "fm_inv s H L" "fm_inv t H' L'" and more: "kmsg.more t = kmsg.more s" and mem: "mem t = mem s"
    and m: "mtype m = FM_NEW_FILE \<or> mtype m = FM_READ" "0 \<le> sint (req_pid m)" and sv: "serve disk vt kpdir m s = Inr (e, s')"
  obtains t' where "serve disk vt kpdir m t = Inr (e, t')" and "kmsg.more t' = kmsg.more s'" and "mem t' = mem s'"
proof -
  have FM: "FM t = FM s" "fm_empty t = fm_empty s" using more_kfm [OF more] by simp_all
  from m(1) show thesis
  proof
    assume y: "mtype m = FM_NEW_FILE"
    note d = serve_new_file [OF y sv]
    let ?new = "\<lambda>hp (s :: 'a kmm_scheme). s\<lparr>files := (files s)(nat (fm_empty s) := (files s (nat (fm_empty s)))\<lparr>fname := req_pid m, fpos := word_of_nat (nat (fm_empty s)) * NR_FILE_SIZE\<rparr>),
      heap := hp, intr := relock s, fm_empty := fm_empty s + 1\<rparr>"
    note room = new_file_room [OF fi(1) d(1)]
    obtain hs where hs: "s' = ?new hs s" using do_new_file_ok [OF fi(1) room m(2)] d(1) by auto
    obtain ht t' where ht: "do_new_file (req_pid m) t = Inr (Returned t')" "t' = ?new ht t"
      using do_new_file_ok [OF fi(2) _ m(2)] room FM(2) by auto
    have "kmsg.more (?new ht t) = kmsg.more (?new hs s)" using more by (cases t, cases s) simp
    moreover have "serve disk vt kpdir m t = Inr (e, t')" using ht d(2) y FM(1) hs by (simp add: serve_def)
    ultimately show thesis using that ht(2) hs mem by simp
  next
    assume y: "mtype m = FM_READ"
    obtain j where j: "file_index (req_pid m) s = Some j" "e = m\<lparr>mtype := mlen m, dest := src m, src := FM s\<rparr>"
      "s' = s\<lparr>mem := memcpy (buf m) (disk + (word_of_nat j * NR_FILE_SIZE + offset m)) (mlen m) (mem s)\<rparr>"
      by (rule serve_file_read [OF y sv])
    have "serve disk vt kpdir m t = Inr (e, t\<lparr>mem := mem s'\<rparr>)"
      using j y FM(1) mem file_index_static [OF more] by (simp add: serve_def serve_read_def FM_READ_def FM_NEW_FILE_def)
    then show thesis using that more j(3) by simp
  qed
qed


text \<open>The thread of the file manager, in the state in which it gets the request, answers what \<open>serve\<close> says.\<close>

lemma fm_serves:
  fixes s :: "'a kmm_scheme"
  assumes c: "can_call ''ram'' c k d s H L" and n: "k \<noteq> i" and fi: "fm_inv s H L"
    and m: "mtype m = FM_NEW_FILE \<or> mtype m = FM_READ" "0 \<le> sint (req_pid m)" and sv: "serve disk vt kpdir m s = Inr (e, s')"
    and tr: "good_traps there back" and v: "entered c i a f s v H L"
  defines "M \<equiv> changed_over c i (fm_lists_after m s L)"
  obtains v' where "fm_loop call disk there back (m\<lparr>dest := x\<rparr>) v = bindR (send (src m) e v') (\<lambda>(_, s). Inr s)"
    and "running i v' H M" and "\<And>l. waiting l v H (changed_over c i L) \<Longrightarrow> waiting l v' H M"
    and "undisturbed (frame_words (fst there) \<union> frame_words (fst back)) {i, k} v v'"
    and "kmsg.more v' = kmsg.more s'" and "mem v' = mem s'" and "token v' = token s"
proof -
  let ?m = "m\<lparr>dest := x\<rparr>" and ?L = "changed_over c i L"
  have tv: "mem v = mem s" "token v = token s" "kmsg.more v = kmsg.more s" using enteredD(1) [OF v] by (simp_all add: talked_def)
  have ev: "FM v = FM s" "fm_empty v = fm_empty s" using more_kfm [OF tv(3)] by simp_all
  note cv = can_call_changed [OF c v n] and fv = fm_inv_changed [OF fi tv(3,2) enteredD(2) [OF v]]
  have M: "M = fm_lists_after m v ?L" unfolding M_def by (rule fm_lists_changed [OF ev(2)])
  from m(1) show thesis
  proof
    assume y: "mtype m = FM_READ"
    obtain j where j: "file_index (req_pid m) s = Some j" "e = m\<lparr>mtype := mlen m, dest := src m, src := FM s\<rparr>"
      "s' = s\<lparr>mem := memcpy (buf m) (disk + (word_of_nat j * NR_FILE_SIZE + offset m)) (mlen m) (mem s)\<rparr>"
      by (rule serve_file_read [OF y sv])
    have my: "mtype ?m = FM_READ" "0 \<le> sint (req_pid ?m)" "file_index (req_pid ?m) v = Some j"
      using y m(2) j(1) file_index_static [OF tv(3)] by simp_all
    have Meq: "M = ?L" using y by (simp add: M fm_lists_after_def FM_READ_def FM_NEW_FILE_def)
    obtain v' where w: "fm_loop call disk there back ?m v = ramdisk_answer ?m v'" "kmsg.more v' = kmsg.more v" "token v' = token v"
      "mem v' = memcpy (buf ?m) (disk + (word_of_nat j * NR_FILE_SIZE + offset ?m)) (mlen ?m) (mem v)"
      "running i v' H ?L" "\<And>l. waiting l v H ?L \<Longrightarrow> waiting l v' H ?L"
      "undisturbed (frame_words (fst there) \<union> frame_words (fst back)) {i, k} v v'"
      by (rule fm_reads [OF cv fv tr my, of call disk]) (rule that)
    have "FM v' = FM s" using more_kfm [OF w(2)] ev(1) by simp
    then have "fm_loop call disk there back ?m v = bindR (send (src m) e v') (\<lambda>(_, s). Inr s)"
      by (simp add: w(1) ramdisk_answer_def answer_def j(2) Let_def)
    then show thesis using that [OF _ _ _ w(7)] w tv unfolding Meq by (simp add: j(3))
  next
    assume y: "mtype m = FM_NEW_FILE"
    note d = serve_new_file [OF y sv]
    have my: "mtype ?m = FM_NEW_FILE" "0 \<le> sint (req_pid ?m)" "fm_empty v < 8" using y m(2) ev(2) new_file_room [OF fi d(1)] by simp_all
    have Meq: "M = filed (req_pid ?m) v ?L" using y by (simp add: M fm_lists_after_def)
    have cv': "running i v H ?L" "hal_inv v H ?L" "map_of (registry v ?L) ''ram'' = Some (word_of_nat k, d)" using cv by (simp_all add: can_call_def)
    obtain v' where w: "fm_loop call disk there back ?m v = answer 0 (FM v) ?m v'" "running i v' H M" "works v (v'\<lparr>heap := heap v\<rparr>)" "mem v' = mem v"
      "\<exists>s'. do_new_file (req_pid ?m) s = Inr (Returned s') \<and> kmsg.more v' = kmsg.more s' \<and> mem s' = mem s"
      by (unfold Meq, rule fm_creates [OF cv' fv my, of call disk "there" "back"]) (use that fi tv(3) in blast)
    have s': "kmsg.more v' = kmsg.more s'" "mem s' = mem s" using w(5) d(1) by auto
    have "FM s' = FM s" using serve_fm(5) [OF fi m sv] d(2) by simp
    then have "fm_loop call disk there back ?m v = bindR (send (src m) e v') (\<lambda>(_, s). Inr s)"
      by (simp add: w(1) answer_def d(2) Let_def ev(1))
    moreover have "waiting l v' H M" if "waiting l v H ?L" for l using that w(3) by (auto simp: waiting_def works_def M_def changed_over_def split: if_splits)
    moreover have "undisturbed (frame_words (fst there) \<union> frame_words (fst back)) {i, k} v v'" using w(3) by (simp add: undisturbed_def works_def)
    moreover have "token v' = token s" using w(3) tv(2) by (simp add: works_def)
    ultimately show thesis using that w(2,4) s' tv(1) by simp
  qed
qed


lemma changed_back_after:
  assumes "running c s H L" and "waiting i s H L"
  shows "changed_over i c (changed_over c i (fm_lists_after m s L)) = fm_lists_after m s L"
  using changed_back [OF assms rest_distinct [OF assms]] fm_lists_changed [of s s] by metis

lemma fm_asked:
  fixes s :: "'a kmm_scheme"
  assumes c: "can_call ''ram'' c k d s H L" and w: "waiting i s H L" and n: "k \<noteq> i" and id: "FM s = word_of_nat i" and fi: "fm_inv s H L"
    and m: "mtype m = FM_NEW_FILE \<or> mtype m = FM_READ" "0 \<le> sint (req_pid m)" "src m = word_of_nat c" and sv: "serve disk vt kpdir m s = Inr (e, s')"
    and tr: "good_traps there back" "good_traps there' back'" "frame_words (fst there) \<inter> (frame_words (fst there') \<union> frame_words (fst back')) = {}"
  defines "M \<equiv> fm_lists_after m s L"
  obtains fin where "ask call (fm_loop call disk there' back') there back (FM s) m s = Inr (e, snd there, fin)"
    and "kmsg.more fin = kmsg.more s'" and "mem fin = mem s'" and "can_call ''ram'' c k d fin H M" and "fm_inv fin H M"
    and "\<And>j. waiting j s H L \<Longrightarrow> waiting j fin H M" and "token fin = token s"
    and "undisturbed (frame_words (fst there) \<union> frame_words (fst back) \<union> (frame_words (fst there') \<union> frame_words (fst back'))) {c, i, k} s fin"
proof -
  have r: "running c s H L" and wk: "waiting k s H L" using c by (simp_all add: can_call_def)
  note sf = serve_fm [OF fi m(1,2) sv, folded M_def]
  note bk = changed_back_after [OF r w, of m, folded M_def]
  have nc: "c \<notin> {i, k}" using rest_distinct [OF r w] rest_distinct [OF r wk] by simp
  have nz: "src m \<noteq> 0" using thread_word_nonzero running_thread(1,2) [OF r] m(3) by simp
  let ?after = "\<lambda>v v'. kmsg.more v' = kmsg.more s' \<and> mem v' = mem s' \<and> token v' = token s \<and>
    (\<forall>l. waiting l v H (changed_over c i L) \<longrightarrow> waiting l v' H (changed_over c i M))"
  have step: "\<exists>v'. fm_loop call disk there' back' (m\<lparr>dest := word_of_nat i\<rparr>) v = bindR (send (word_of_nat c) e v') (\<lambda>(_, s). Inr s) \<and>
      running i v' H (changed_over c i M) \<and> waiting c v' H (changed_over c i M) \<and>
      undisturbed (frame_words (fst there') \<union> frame_words (fst back')) {i, k} v v' \<and> ?after v v'"
    if v: "entered c i (fst there) (snd there) s v H L" for v
    by (rule fm_serves [OF c n fi m(1,2) sv tr(2) v, of call "word_of_nat i", folded M_def])
      (use enteredD(3) [OF v] m(3) in \<open>auto simp del: fun_upd_apply\<close>)
  obtain v v' fin where x: "ask call (fm_loop call disk there' back') there back (word_of_nat i) m s = Inr (e, snd there, fin)"
    "entered c i (fst there) (snd there) s v H L" "?after v v'" "entered i c (fst back) (snd back) v' fin H (changed_over c i M)"
    "undisturbed (frame_words (fst there) \<union> frame_words (fst back) \<union> (frame_words (fst there') \<union> frame_words (fst back'))) ({c, i} \<union> {i, k}) s fin"
    by (rule ask_ok [where after = ?after and body = "fm_loop call disk there' back'" and M = M
          and W = "frame_words (fst there') \<union> frame_words (fst back')" and T = "{i, k}" and e = e and call = call,
          OF r w nz _ _ tr(1) step tr(3) nc]) (use sf(5,6) id m(3) in simp_all)
  note v = enteredD [OF x(2)] and fin = enteredD [OF x(4), unfolded bk]
  have ff: "kmsg.more fin = kmsg.more s'" "mem fin = mem s'" "token fin = token s" using fin(1) x(3) by (simp_all add: talked_def)
  have ww: "waiting j fin H M" if j: "waiting j s H L" for j
    using fin(3,4) x(3) v(4) [OF j] rest_distinct [OF r j] by (cases "j = i") auto
  have "fm_inv fin H M" by (rule fm_inv_kept [OF sf(1) ff(1) _ fin(2)]) (simp add: ff(3) sf(2))
  moreover have "can_call ''ram'' c k d fin H M"
  proof -
    have D: "M Devices = L Devices" "M FreeDev = L FreeDev" by (simp_all add: M_def)
    have dp: "dev_pool fin = dev_pool s" "RAMDISK fin = RAMDISK s" using more_khal [OF ff(1)] more_kdrv [OF ff(1)] sf(3,4) by simp_all
    have "proc_inv fin H M" using fin(2) msg_invD(1) by (auto simp: running_def)
    then show ?thesis using c fin(2) ww [OF wk] dp by (simp add: can_call_def hal_inv_def registry_def dev_at_def comp_def D driver_pid_def)
  qed
  moreover have "undisturbed (frame_words (fst there) \<union> frame_words (fst back) \<union> (frame_words (fst there') \<union> frame_words (fst back'))) {c, i, k} s fin"
    using x(5) by (simp add: insert_commute)
  ultimately show thesis using that x(1) ff ww id by simp
qed


section \<open>A concrete system\<close>

text \<open>Starting a further server, and setting up the table of files, while another server waits.\<close>

lemma hal_linked: "linked hal_heads hal_lists \<subseteq> linked two_heads two_lists \<union> {Devices, FreeDev} \<union> range DevNode"
  by (auto simp: linked_def hal_heads_def hal_lists_def split: if_splits)

lemma can_call_transfer:
  assumes c: "can_call name c k d s H L" and more: "kmsg.more t = kmsg.more s" and r: "running c t H' M" and w: "waiting k t H' M"
    and same: "M Devices = L Devices" "M FreeDev = L FreeDev" "H \<subseteq> H'"
  shows "can_call name c k d t H' M"
proof -
  have "proc_inv t H' M" using r msg_invD(1) by (auto simp: running_def)
  then have "hal_inv t H' M" using c same more_khal [OF more] by (auto simp: can_call_def hal_inv_def dev_at_def comp_def)
  then show ?thesis
    using c r w same more_khal [OF more] driver_pid_static [OF more, of name] by (simp add: can_call_def registry_def dev_at_def)
qed

lemma server_added:
  fixes s :: "'a kfm_scheme"
  assumes c: "can_call name c k d s H L" and fi: "fm_inv s H L" and free: "L Free = PcbList i # rest"
  obtains w H' M where "can_call name c k d w H' M" and "fm_inv w H' M" and "waiting i w H' M" and "\<And>j. waiting j s H L \<Longrightarrow> waiting j w H' M"
    and "kmsg.more w = kmsg.more s" and "mem w = mem s" and "M Free = rest"
proof -
  let ?H = "born_heads i H" and ?M = "served_by i rest L"
  have r: "running c s H L" "waiting k s H L" using c by (simp_all add: can_call_def)
  obtain w where w: "running c w ?H ?M" "waiting i w ?H ?M" "\<And>j. waiting j s H L \<Longrightarrow> waiting j w ?H ?M"
    "kmsg.more w = kmsg.more s" "mem w = mem s" "token w = (token s)(MsgSem i := 0)"
    by (rule server_starts [OF r(1) free, of "trap_frame 1" "trap_frame 2"]) (use that in \<open>simp_all add: trap_frame_def\<close>)
  have H: "H \<subseteq> ?H" by (auto simp: born_heads_def)
  have "fm_inv w ?H ?M"
  proof (rule fm_inv_transfer [OF fi w(4) _ _ H])
    show "proc_inv w ?H ?M" using w(1) msg_invD(1) by (auto simp: running_def)
    show "range FileLink \<inter> linked ?H ?M \<subseteq> linked H L" using free by (auto simp: linked_def born_heads_def served_by_def split: if_splits)
  qed (simp_all add: w(6) served_by_def)
  moreover have "can_call name c k d w ?H ?M" by (rule can_call_transfer [OF c w(4,1) w(3) [OF r(2)] _ _ H]) (simp_all add: served_by_def)
  ultimately show thesis using that w(2-5) by (simp add: served_by_def)
qed

lemma table_added:
  fixes s :: "'a kfm_scheme"
  assumes c: "can_call name c k d s H L" and new: "\<And>a. a = SemBlock FmMutex \<or> (\<exists>h. a = HashHead h) \<or> (\<exists>k. a = FileLink k) \<Longrightarrow> a \<notin> linked H L"
    and e: "fm_empty s = 0"
  obtains t where "init_table s = Inr t" and "can_call name c k d t (fm_heads H) (fm_lists L)" and "fm_inv t (fm_heads H) (fm_lists L)"
    and "kmsg.more t = kmsg.more s" and "mem t = mem s"
proof -
  have r: "running c s H L" "waiting k s H L" using c by (simp_all add: can_call_def)
  have pi: "proc_inv s H L" using r(1) msg_invD(1) by (auto simp: running_def)
  obtain t where t: "init_table s = Inr t" "fm_inv t (fm_heads H) (fm_lists L)" "t = s\<lparr>heap := heap t, token := (token s)(FmMutex := 1), intr := relock s\<rparr>"
    by (rule init_table_ok [OF pi new e])
  have eq: "pcb_pool t = pcb_pool s" "current t = current s" "lock_count t = lock_count s" "lock_flag t = lock_flag s" "p_free t = p_free s"
    "token t = (token s)(FmMutex := 1)" "kmsg.more t = kmsg.more s" "mem t = mem s" by (subst t(3), simp)+
  have "range MsgNode \<inter> linked (fm_heads H) (fm_lists L) = {}" using linked_fm [of H L] r(1) unfolding running_def by blast
  then have "running c t (fm_heads H) (fm_lists L)"
    using r(1) fm_invD(1) [OF t(2)] by (auto simp: running_def msg_inv_def eq fm_lists_def fm_heads_def)
  moreover have "waiting k t (fm_heads H) (fm_lists L)" using r(2) by (simp add: waiting_def eq fm_lists_def fm_heads_def)
  ultimately have "can_call name c k d t (fm_heads H) (fm_lists L)"
    by (rule can_call_transfer [OF c eq(7)]) (auto simp: fm_lists_def fm_heads_def)
  then show thesis using that t(1,2) eq(7,8) by blast
qed

text \<open>The process manager 1 runs; the RAM disk 2, the file manager 3 and the memory manager 4 wait.\<close>

definition demo_system :: kmm where
  "demo_system = bss_kmm\<lparr>RAMDISK := 2, FM := 3, MM := 4, PM := 1\<rparr>"

lemma demo_servers:
  obtains s :: kmm and H L where "can_call ''ram'' 1 2 0 s H L" and "fm_inv s H L" and "waiting 3 s H L" and "waiting 4 s H L"
    and "FM s = 3" and "MM s = 4" and "PM s = 1" and "fm_empty s = 0" and "vm_ready 0xC0200000 0xC0100000 0x101000 s"
    and "L Free = PcbList 5 # map PcbList [6..<PCB_POOL_SIZE]"
proof -
  have z: "current demo_system = idle" "lock_count demo_system = 0" "p_free demo_system = 0" "lock_flag demo_system = 0"
    "driver_pid ''ram'' demo_system = 2" "fm_empty bss_kmm = 0"
    by (simp_all add: demo_system_def bss_kmm_def kmm.defs bss_kfm_def kfm.defs bss_ktty_def ktty.defs bss_kdrv_def bss_kide_def bss_ktimer_def kdrv.defs
        kide.defs ktimer.defs khal.defs bss_khal_def kirq.defs bss_kirq_def kmsg.defs bss_kmsg_def kcore.defs bss_kcore_def driver_pid_def)
  obtain s :: kmm and H L where s: "can_call ''ram'' 1 2 0 s H L" "kdrv.more s = kdrv.more demo_system" "L Free = map PcbList [3..<PCB_POOL_SIZE]"
    "linked H L = linked hal_heads hal_lists" by (rule demo_call [OF z(1-4) demo_kdrv_start(7) z(5)])
  have b: "FM demo_system = 3" "MM demo_system = 4" "PM demo_system = 1" "fm_empty demo_system = 0" "vmem_free demo_system = vmem_free bss_kmm"
    "page_mem demo_system = page_mem bss_kmm" using z(6) by (simp_all add: demo_system_def)
  have f: "FM s = 3" "MM s = 4" "PM s = 1" "fm_empty s = 0" "vmem_free s = vmem_free bss_kmm" "page_mem s = page_mem bss_kmm"
    using kmm_of_more [OF s(2)] b by simp_all
  have fl: "map PcbList [3..<PCB_POOL_SIZE] = PcbList 3 # PcbList 4 # PcbList 5 # map PcbList [6..<PCB_POOL_SIZE]"
    by (simp add: PCB_POOL_SIZE_def upt_conv_Cons)
  have new: "a \<notin> linked H L" if "a = SemBlock FmMutex \<or> (\<exists>h. a = HashHead h) \<or> (\<exists>k. a = FileLink k)" for a
    using that hal_linked two_linked unfolding s(4) by (auto simp: two_heads_def born_heads_def boot_heads_def)
  obtain t where t: "can_call ''ram'' 1 2 0 t (fm_heads H) (fm_lists L)" "fm_inv t (fm_heads H) (fm_lists L)" "kmsg.more t = kmsg.more s"
    by (rule table_added [OF s(1) new f(4)]) (assumption, rule that)
  have "fm_lists L Free = PcbList 3 # PcbList 4 # PcbList 5 # map PcbList [6..<PCB_POOL_SIZE]" using s(3) fl by (simp add: fm_lists_def)
  from server_added [OF t(1,2) this] obtain u H1 L1 where u: "can_call ''ram'' 1 2 0 u H1 L1" "fm_inv u H1 L1" "waiting 3 u H1 L1"
    "kmsg.more u = kmsg.more t" "L1 Free = PcbList 4 # PcbList 5 # map PcbList [6..<PCB_POOL_SIZE]" by metis
  from server_added [OF u(1,2,5)] obtain w H2 L2 where w: "can_call ''ram'' 1 2 0 w H2 L2" "fm_inv w H2 L2" "waiting 4 w H2 L2" "waiting 3 w H2 L2"
    "kmsg.more w = kmsg.more u" "L2 Free = PcbList 5 # map PcbList [6..<PCB_POOL_SIZE]" using u(3) by metis
  have more: "kmsg.more w = kmsg.more s" using w(5) u(4) t(3) by simp
  have "FM w = 3" "MM w = 4" "PM w = 1" "fm_empty w = 0" using more_kfm [OF more] more_kmm [OF more] f by simp_all
  moreover have "vm_ready 0xC0200000 0xC0100000 0x101000 w" using bss_kmm_ready more_kmm [OF more] f by (simp add: vm_ready_def)
  ultimately show thesis using that w(1-4,6) by blast
qed


section \<open>Properties\<close>

text \<open>
  C19: the file manager answers the process manager.  While the file manager and the RAM disk wait and nothing
  else is ready, a request to create a file is answered over two messages and one to read a file, for which the
  file manager calls the RAM disk, over four, and the context switches between them, with the message, the memory and the table of files that
  the routine \<open>serve\<close> gives, which the loading of programs is proved with; and the next request finds the
  system as this one did.
\<close>

theorem file_manager_answers:
  fixes s :: "'a kmm_scheme"
  assumes "can_call ''ram'' c k d s H L" and "waiting i s H L" and "k \<noteq> i" and "FM s = word_of_nat i" and "fm_inv s H L"
    and "mtype m = FM_NEW_FILE \<or> mtype m = FM_READ" and "0 \<le> sint (req_pid m)" and "src m = word_of_nat c"
    and "serve disk vt kpdir m s = Inr (e, s')"
    and "good_traps there back" and "good_traps there' back'" and "frame_words (fst there) \<inter> (frame_words (fst there') \<union> frame_words (fst back')) = {}"
  shows "\<exists>fin L'. ask call (fm_loop call disk there' back') there back (FM s) m s = Inr (e, snd there, fin) \<and>
    mem fin = mem s' \<and> file_names fin = file_names s' \<and> kmsg.more fin = kmsg.more s' \<and> fm_inv fin H L' \<and>
    can_call ''ram'' c k d fin H L' \<and> (\<forall>j. waiting j s H L \<longrightarrow> waiting j fin H L')"
proof -
  obtain fin where f: "ask call (fm_loop call disk there' back') there back (FM s) m s = Inr (e, snd there, fin)" "kmsg.more fin = kmsg.more s'"
    "mem fin = mem s'" "can_call ''ram'' c k d fin H (fm_lists_after m s L)" "fm_inv fin H (fm_lists_after m s L)"
    "\<And>j. waiting j s H L \<Longrightarrow> waiting j fin H (fm_lists_after m s L)"
    by (rule fm_asked [OF assms, of call]) (rule that)
  moreover have "file_names fin = file_names s'" using more_kfm [OF f(2)] by (simp add: file_names_def)
  ultimately show ?thesis by blast
qed

lemma demo_frames:
  "good_traps (0xc0208000, trap_frame 3) (0xc020c000, trap_frame 4)"
  "frame_words 0xc0200000 \<inter> (frame_words 0xc0208000 \<union> frame_words 0xc020c000) = {}"
  by (simp_all add: good_traps_def trap_frame_def frame_words_def)

theorem file_manager_answers_witness:
  "\<exists>(s :: kmm) t u e e'. ask (\<lambda>_ s. Inr s) (fm_loop (\<lambda>_ s. Inr s) 0x400000 (0xc0208000, trap_frame 3) (0xc020c000, trap_frame 4))
       (0xc0200000, trap_frame 1) (0xc0204000, trap_frame 2) 3 ((ten_bytes FM_NEW_FILE)\<lparr>src := 1, req_pid := 7\<rparr>) s = Inr (e, trap_frame 1, t) \<and>
     file_names t = [7] \<and>
     ask (\<lambda>_ s. Inr s) (fm_loop (\<lambda>_ s. Inr s) 0x400000 (0xc0208000, trap_frame 3) (0xc020c000, trap_frame 4))
       (0xc0200000, trap_frame 1) (0xc0204000, trap_frame 2) 3 ((ten_bytes FM_READ)\<lparr>src := 1, req_pid := 7\<rparr>) t = Inr (e', trap_frame 1, u) \<and>
     mem u = memcpy 0x1000 (0x400000 + 510) 10 (mem s)"
proof (rule demo_servers)
  fix s :: kmm and H L
  assume s: "can_call ''ram'' 1 2 0 s H L" "fm_inv s H L" "waiting 3 s H L" "FM s = 3" "fm_empty s = 0"
  let ?m = "(ten_bytes FM_NEW_FILE)\<lparr>src := 1, req_pid := 7\<rparr>" and ?r = "(ten_bytes FM_READ)\<lparr>src := 1, req_pid := 7\<rparr>"
  obtain s' where s': "do_new_file 7 s = Inr (Returned s')" "file_names s' = file_names s @ [7]" "mem s' = mem s" "FM s' = FM s"
    using do_new_file_ok [OF s(2), of 7] s(5) by auto
  have ids: "(3 :: nat) \<noteq> 2" "FM s = word_of_nat 3" using s(4) by simp_all
  have m: "mtype ?m = FM_NEW_FILE \<or> mtype ?m = FM_READ" "0 \<le> sint (req_pid ?m)" "src ?m = word_of_nat 1"
    and r: "mtype ?r = FM_NEW_FILE \<or> mtype ?r = FM_READ" "0 \<le> sint (req_pid ?r)" "src ?r = word_of_nat 1" by (simp_all add: ten_bytes_def)
  have sv: "serve 0x400000 0 0 ?m s = Inr (?m\<lparr>mtype := 0, dest := 1, src := 3\<rparr>, s')"
    using s'(1,4) s(4) by (simp add: serve_def ten_bytes_def FM_NEW_FILE_def)
  have fr: "frame_words (fst (0xc0200000, trap_frame 1)) \<inter> (frame_words (fst (0xc0208000, trap_frame 3)) \<union> frame_words (fst (0xc020c000, trap_frame 4))) = {}"
    using demo_frames(2) by simp
  have k: "(2 :: nat) \<noteq> 3" by simp
  from file_manager_answers [OF s(1,3) k ids(2) s(2) m sv good_trap_frames demo_frames(1) fr, of "\<lambda>_ s. Inr s"] s(3)
  obtain t L' where t: "ask (\<lambda>_ s. Inr s) (fm_loop (\<lambda>_ s. Inr s) 0x400000 (0xc0208000, trap_frame 3) (0xc020c000, trap_frame 4))
       (0xc0200000, trap_frame 1) (0xc0204000, trap_frame 2) 3 ?m s = Inr (?m\<lparr>mtype := 0, dest := 1, src := 3\<rparr>, trap_frame 1, t)"
    "mem t = mem s'" "file_names t = file_names s'" "kmsg.more t = kmsg.more s'" "fm_inv t H L'" "can_call ''ram'' 1 2 0 t H L'" "waiting 3 t H L'"
    unfolding s(4) snd_conv by blast
  have ft: "FM t = 3" "file_names t = [7]" using more_kfm [OF t(4)] s'(2,4) s(4,5) t(3) by (simp_all add: file_names_def)
  then have fi: "file_index 7 t = Some 0" by (simp add: file_index_names)
  have sv2: "serve 0x400000 0 0 ?r t = Inr (?r\<lparr>mtype := 10, dest := 1, src := 3\<rparr>, t\<lparr>mem := memcpy 0x1000 (0x400000 + 510) 10 (mem t)\<rparr>)"
    using fi ft(1) by (simp add: serve_def serve_read_def ten_bytes_def FM_NEW_FILE_def FM_READ_def)
  have id: "FM t = word_of_nat 3" using ft(1) by simp
  from file_manager_answers [OF t(6,7) k id t(5) r sv2 good_trap_frames demo_frames(1) fr, of "\<lambda>_ s. Inr s"]
  obtain u where u: "ask (\<lambda>_ s. Inr s) (fm_loop (\<lambda>_ s. Inr s) 0x400000 (0xc0208000, trap_frame 3) (0xc020c000, trap_frame 4))
       (0xc0200000, trap_frame 1) (0xc0204000, trap_frame 2) 3 ?r t = Inr (?r\<lparr>mtype := 10, dest := 1, src := 3\<rparr>, trap_frame 1, u)"
    "mem u = mem (t\<lparr>mem := memcpy 0x1000 (0x400000 + 510) 10 (mem t)\<rparr>)" unfolding ft(1) snd_conv by blast
  then have "mem u = memcpy 0x1000 (0x400000 + 510) 10 (mem s)" using t(2) s'(3) by simp
  with t(1) ft(2) u(1) show ?thesis by blast
qed

end
