(* ===== verification/Load.thy ===== *)
theory Load
  imports Files
begin

text \<open>
  The loading of a program with everything that happens in between: the process manager runs over the complete
  calls of the file manager, the RAM disk and the memory manager.  That it does what it does over
  \<open>serve\<close> is a simulation: the locale \<open>rpc_simulation\<close> carries it through \<open>do_new_proc\<close> for any
  two ways to answer requests, and the interpretation \<open>lv\<close> is for the routines and the threads of the servers.
\<close>

section \<open>Two ways to answer requests\<close>

text \<open>
  \<open>R N s t\<close> relates the states of the two runs; \<open>N\<close> are the threads that have been created and sleep.
\<close>

locale rpc_simulation =
  fixes call call' :: "'a kmm_scheme rpc"
    and R :: "nat set \<Rightarrow> 'a kmm_scheme \<Rightarrow> 'a kmm_scheme \<Rightarrow> bool"
  assumes same: "R N s t \<Longrightarrow> mem t = mem s \<and> PM t = PM s \<and> FM t = FM s \<and> MM t = MM s"
    and pids: "R N s t \<Longrightarrow> n \<in> N \<Longrightarrow> pid (pcb_pool t n) = pid (pcb_pool s n) \<and> pid (pcb_pool s n) \<noteq> 0"
    and file_call: "R N s t \<Longrightarrow> mtype m = FM_NEW_FILE \<or> mtype m = FM_READ \<Longrightarrow> req_pid m = 1 \<Longrightarrow> src m = PM s \<Longrightarrow> dest m = FM s \<Longrightarrow>
      call m s = Inr (e, s') \<Longrightarrow> \<exists>t'. call' m t = Inr (e, t') \<and> R N s' t'"
    and memory_call: "R N s t \<Longrightarrow> mtype m = MM_NEW_PROC \<or> mtype m = MM_NEW_PAGE \<Longrightarrow> src m \<noteq> 0 \<Longrightarrow> dest m = MM s \<Longrightarrow>
      call m s = Inr (e, s') \<Longrightarrow> \<exists>t'. call' m t = Inr (e, t') \<and> R N s' t'"
    and manager: "R N s t \<Longrightarrow> PM s \<noteq> 0"
    and thread: "R {} s t \<Longrightarrow> create_kthread a args s = Inr (n, s') \<Longrightarrow> \<exists>t'. create_kthread a args t = Inr (n, t') \<and> R {n} s' t'"
    and space: "R N s t \<Longrightarrow> R N (upd_pcb n (\<lambda>q. q\<lparr>PCB.cr3 := v\<rparr>) s) (upd_pcb n (\<lambda>q. q\<lparr>PCB.cr3 := v\<rparr>) t)"
    and store: "R N s t \<Longrightarrow> R N (s\<lparr>mem := M\<rparr>) (t\<lparr>mem := M\<rparr>)"
begin

lemma load_segment_sim:
  assumes R: "R N s t" and n: "n \<in> N" and ls: "load_segment call ph n (m, s) = Inr (m', s')"
  obtains t' where "load_segment call' ph n (m, t) = Inr (m', t')" and "R N s' t'"
proof -
  note sm = same [OF R]
  let ?h = "program_header (mem s) ph"
  let ?m1 = "m\<lparr>src := pid (pcb_pool s n), req_pid := p_vaddr ?h, dev_id := p_memsz ?h, dest := MM s, mtype := MM_NEW_PAGE\<rparr>"
  obtain m1 s1 where c1: "call ?m1 s = Inr (m1, s1)" using ls by (auto simp: load_segment_def Let_def bindR_Inr_iff)
  obtain t1 where t1: "call' ?m1 t = Inr (m1, t1)" "R N s1 t1" using memory_call [OF R _ _ _ c1] pids [OF R n] by auto
  note sm1 = same [OF t1(2)]
  let ?h1 = "program_header (mem s1) ph"
  let ?m2 = "m1\<lparr>req_pid := 1, buf := mtype m1, offset := p_off ?h1, mlen := p_filesz ?h1, src := PM s1, dest := FM s1, mtype := FM_READ\<rparr>"
  obtain m2 s2 where c2: "call ?m2 s1 = Inr (m2, s2)" using ls c1 by (auto simp: load_segment_def Let_def bindR_Inr_iff)
  obtain t2 where t2: "call' ?m2 t1 = Inr (m2, t2)" "R N s2 t2" using file_call [OF t1(2) _ _ _ _ c2] by auto
  note sm2 = same [OF t2(2)]
  obtain mm where mm: "clear_rest ph (mtype m1) (mtype m1 + p_filesz (program_header (mem s2) ph)) (mem s2) = Some mm" "m' = m2" "s' = s2\<lparr>mem := mm\<rparr>"
    using ls c1 c2 by (auto simp: load_segment_def Let_def split: option.split_asm)
  have "load_segment call' ph n (m, t) = Inr (m', t2\<lparr>mem := mm\<rparr>)"
    using t1(1) t2(1) mm sm sm1 sm2 pids [OF R n] by (simp add: load_segment_def Let_def)
  then show thesis using that store [OF t2(2)] mm(3) by blast
qed

lemma load_all_sim:
  assumes "R N s t" and "n \<in> N" and "load_all call b ph n e (m, s) = Inr (m', s')"
  shows "\<exists>t'. load_all call' b ph n e (m, t) = Inr (m', t') \<and> R N s' t'"
  using assms
proof (induction "65536 - e" arbitrary: e m s t rule: less_induct)
  case less
  note sm = same [OF less.prems(1)]
  show ?case
  proof (cases "e < unat (e_phnum (elf_header (mem s) b))")
    case True
    then have e: "e < 65536" using unsigned_less [where ?'a = nat and w = "e_phnum (elf_header (mem s) b)"] by simp
    obtain m1 s1 where l: "load_segment call (ph + 32 * word_of_nat e) n (m, s) = Inr (m1, s1)" "load_all call b ph n (e + 1) (m1, s1) = Inr (m', s')"
      using less.prems(3) True by (subst (asm) load_all.simps) (auto simp: bindR_Inr_iff)
    obtain t1 where t1: "load_segment call' (ph + 32 * word_of_nat e) n (m, t) = Inr (m1, t1)" "R N s1 t1"
      by (rule load_segment_sim [OF less.prems(1,2) l(1)])
    have "65536 - (e + 1) < 65536 - e" using e by simp
    from less.hyps [OF this t1(2) less.prems(2) l(2)] obtain t' where "load_all call' b ph n (e + 1) (m1, t1) = Inr (m', t')" "R N s' t'" by blast
    then show ?thesis using True sm t1(1) by (subst load_all.simps) simp
  next
    case False
    then show ?thesis using less.prems sm by (subst (asm) load_all.simps, subst load_all.simps) auto
  qed
qed

lemma do_new_proc_sim:
  assumes R: "R {} s t" and p: "do_new_proc call b args junk filename s = Inr s'"
  obtains n s1 t1 where "R {n} s1 t1" and "wakeup (Some (PcbList n)) s1 = Inr s'"
    and "do_new_proc call' b args junk filename t = wakeup (Some (PcbList n)) t1"
proof -
  let ?m1 = "junk\<lparr>req_pid := 1, src := PM s, dest := FM s, mtype := FM_NEW_FILE\<rparr>"
  obtain m1 s1 where c1: "call ?m1 s = Inr (m1, s1)" using p by (auto simp: do_new_proc_def bindR_Inr_iff)
  obtain t1 where t1: "call' ?m1 t = Inr (m1, t1)" "R {} s1 t1" using file_call [OF R _ _ _ _ c1] by auto
  let ?m2 = "m1\<lparr>req_pid := 1, buf := b, offset := 0, mlen := 512, src := PM s1, dest := FM s1, mtype := FM_READ\<rparr>"
  obtain m2 s2 where c2: "call ?m2 s1 = Inr (m2, s2)" using p c1 by (auto simp: do_new_proc_def bindR_Inr_iff)
  obtain t2 where t2: "call' ?m2 t1 = Inr (m2, t2)" "R {} s2 t2" using file_call [OF t1(2) _ _ _ _ c2] by auto
  have mg: "magic (elf_header (mem s2) b) = 0x464c457f" using p c1 c2 by (auto simp: do_new_proc_def split: if_splits)
  obtain n s3 where c3: "create_kthread (e_entry (elf_header (mem s2) b)) args s2 = Inr (n, s3)"
    using p c1 c2 mg by (auto simp: do_new_proc_def bindR_Inr_iff)
  obtain t3 where t3: "create_kthread (e_entry (elf_header (mem s2) b)) args t2 = Inr (n, t3)" "R {n} s3 t3" using thread [OF t2(2) c3] by blast
  let ?m4 = "m2\<lparr>src := PM s3, dest := MM s3, mtype := MM_NEW_PROC\<rparr>"
  obtain m4 s4 where c4: "call ?m4 s3 = Inr (m4, s4)" using p c1 c2 mg c3 by (auto simp: do_new_proc_def bindR_Inr_iff)
  obtain t4 where t4: "call' ?m4 t3 = Inr (m4, t4)" "R {n} s4 t4" using memory_call [OF t3(2) _ _ _ c4] manager [OF t3(2)] by auto
  define s5 where "s5 = upd_pcb n (\<lambda>q. q\<lparr>PCB.cr3 := mtype m4\<rparr>) s4"
  define t5 where "t5 = upd_pcb n (\<lambda>q. q\<lparr>PCB.cr3 := mtype m4\<rparr>) t4"
  have R5: "R {n} s5 t5" unfolding s5_def t5_def by (rule space [OF t4(2)])
  let ?ph = "b + e_phoff (elf_header (mem s5) b)"
  obtain m6 s6 where l: "load_all call b ?ph n 0 (m4, s5) = Inr (m6, s6)" "wakeup (Some (PcbList n)) s6 = Inr s'"
    using p c1 c2 mg c3 c4 by (auto simp: do_new_proc_def Let_def bindR_Inr_iff s5_def)
  obtain t6 where t6: "load_all call' b ?ph n 0 (m4, t5) = Inr (m6, t6)" "R {n} s6 t6" using load_all_sim [OF R5 _ l(1)] by blast
  have "do_new_proc call' b args junk filename t = wakeup (Some (PcbList n)) t6"
    using t1(1) t2(1) mg t3(1) t4(1) t6(1) same [OF R] same [OF t1(2)] same [OF t2(2)] same [OF t3(2)] same [OF R5]
    by (simp add: do_new_proc_def Let_def t5_def)
  then show thesis using that t6(2) l(2) by blast
qed

end


section \<open>The threads of the servers\<close>

text \<open>
  The frames of the traps: the process manager waiting for an answer, the file manager waiting for a request and for
  the RAM disk, the RAM disk and the memory manager waiting for a request.
\<close>

record trap_frames =
  pm_frame :: "u32 \<times> TrapFrame"
  fm_frame :: "u32 \<times> TrapFrame"
  fm_inner :: "u32 \<times> TrapFrame"
  ram_frame :: "u32 \<times> TrapFrame"
  mm_frame :: "u32 \<times> TrapFrame"

definition all_frames :: "trap_frames \<Rightarrow> u32 set" where
  "all_frames F = frame_words (fst (pm_frame F)) \<union> frame_words (fst (fm_frame F)) \<union> (frame_words (fst (fm_inner F)) \<union> frame_words (fst (ram_frame F))) \<union>
     frame_words (fst (mm_frame F))"

definition frames_ok :: "trap_frames \<Rightarrow> bool" where
  "frames_ok F \<longleftrightarrow> good_traps (pm_frame F) (fm_frame F) \<and> good_traps (pm_frame F) (mm_frame F) \<and> good_traps (fm_inner F) (ram_frame F) \<and>
     frame_words (fst (pm_frame F)) \<inter> (frame_words (fst (fm_inner F)) \<union> frame_words (fst (ram_frame F))) = {}"

text \<open>\<open>send\<close> and \<open>receive\<close> of the process manager with all that happens between them.\<close>

definition live ::
    "(routine \<Rightarrow> 'a kmm_scheme \<Rightarrow> 'a kmm_scheme res) \<Rightarrow> u32 \<Rightarrow> u32 \<Rightarrow> u32 \<Rightarrow> trap_frames \<Rightarrow> 'a kmm_scheme rpc" where
  "live call disk vt kpdir F m s =
     bindR (if dest m = FM s then ask call (fm_loop call disk (fm_inner F) (ram_frame F)) (pm_frame F) (fm_frame F) (FM s) m s
            else ask call (mm_thread vt kpdir) (pm_frame F) (mm_frame F) (MM s) m s)
       (\<lambda>(m, _, s). Inr (m, s))"

text \<open>
  The relation of the two runs: the process manager \<open>c\<close> runs and the RAM disk \<open>k\<close>, the file manager \<open>i\<close> and the memory
  manager \<open>l\<close> wait; memory and variables agree, and so do the stacks but for the frames.  The thread \<open>n\<close> is the next to
  be created or has been; the word of its stack that holds its entry point is in none of the frames.
\<close>

definition entry_slot :: "nat \<Rightarrow> 'a kcore_scheme \<Rightarrow> u32" where
  "entry_slot n s = pcb_addr s n + KSTACK_SIZE - 4 * word_of_nat MAX_NUM_OF_ARGUMENTS - 12"

definition to_start :: "nat \<Rightarrow> trap_frames \<Rightarrow> nat set \<Rightarrow> 'a kcore_scheme \<Rightarrow> (laddr \<Rightarrow> laddr list) \<Rightarrow> bool" where
  "to_start n F N s L \<longleftrightarrow>
     (if N = {} then (\<exists>rest. L Free = PcbList n # rest) \<and> entry_slot n s \<notin> all_frames F
      else N = {n} \<and> PcbList n \<in> set (L Block) \<and> tf (pcb_pool s n) + 56 \<notin> all_frames F)"

lemma to_start_cong:
  "to_start n F N s L \<Longrightarrow> pcb_pool_addr s' = pcb_pool_addr s \<Longrightarrow> tf (pcb_pool s' n) = tf (pcb_pool s n) \<Longrightarrow>
    M Free = L Free \<Longrightarrow> M Block = L Block \<Longrightarrow> to_start n F N s' M"
  by (cases "N = {}") (simp_all add: to_start_def entry_slot_def pcb_addr_def)

definition live_rel ::
    "nat \<Rightarrow> nat \<Rightarrow> nat \<Rightarrow> nat \<Rightarrow> u32 \<Rightarrow> nat \<Rightarrow> trap_frames \<Rightarrow> nat set \<Rightarrow> 'a kmm_scheme \<Rightarrow> 'a kmm_scheme \<Rightarrow> bool" where
  "live_rel c k i l d n F N s t \<longleftrightarrow> frames_ok F \<and> k \<noteq> i \<and> i \<noteq> l \<and> PM s = word_of_nat c \<and> FM s = word_of_nat i \<and> MM s = word_of_nat l \<and>
     mem t = mem s \<and> kmsg.more t = kmsg.more s \<and> undisturbed (all_frames F) {c, k, i, l} s t \<and>
     (\<exists>H L. can_call ''ram'' c k d t H L \<and> fm_inv s H L \<and> fm_inv t H L \<and> waiting i t H L \<and> waiting l t H L \<and> to_start n F N s L)"

lemma live_relI:
  assumes "frames_ok F" and "k \<noteq> i" and "i \<noteq> l" and "PM s = word_of_nat c" and "FM s = word_of_nat i" and "MM s = word_of_nat l"
    and "mem t = mem s" and "kmsg.more t = kmsg.more s" and "undisturbed (all_frames F) {c, k, i, l} s t"
    and "can_call ''ram'' c k d t H L" and "fm_inv s H L" and "fm_inv t H L" and "waiting i t H L" and "waiting l t H L"
    and "to_start n F N s L"
  shows "live_rel c k i l d n F N s t"
  using assms unfolding live_rel_def by blast

lemma live_relE:
  assumes "live_rel c k i l d n F N s t"
  obtains H L where "can_call ''ram'' c k d t H L" and "fm_inv s H L" and "fm_inv t H L" and "waiting i t H L" and "waiting l t H L"
    and "to_start n F N s L"
  using assms unfolding live_rel_def by blast

lemma live_relD:
  assumes "live_rel c k i l d n F N s t"
  shows "frames_ok F" and "k \<noteq> i" and "i \<noteq> l" and "PM s = word_of_nat c" and "FM s = word_of_nat i" and "MM s = word_of_nat l"
    and "mem t = mem s" and "kmsg.more t = kmsg.more s" and "undisturbed (all_frames F) {c, k, i, l} s t"
  using assms by (simp_all add: live_rel_def)

lemma undisturbed_swap: "undisturbed W T s t \<Longrightarrow> undisturbed W T t s"
  by (simp add: undisturbed_def)

lemma live_file:
  assumes R: "live_rel c k i l d n F N s t" and m: "mtype m = FM_NEW_FILE \<or> mtype m = FM_READ" "req_pid m = 1" "src m = PM s" "dest m = FM s"
    and sv: "serve disk vt kpdir m s = Inr (e, s')"
  shows "\<exists>t'. live call disk vt kpdir F m t = Inr (e, t') \<and> live_rel c k i l d n F N s' t'"
proof -
  note r = live_relD [OF R]
  obtain H L where h: "can_call ''ram'' c k d t H L" "fm_inv s H L" "fm_inv t H L" "waiting i t H L" "waiting l t H L" "to_start n F N s L"
    by (rule live_relE [OF R])
  have id: "FM t = FM s" "fm_empty t = fm_empty s" using more_kfm [OF r(8)] by simp_all
  have s1: "0 \<le> sint (req_pid m)" using m(2) by simp
  obtain t' where t': "serve disk vt kpdir m t = Inr (e, t')" "kmsg.more t' = kmsg.more s'" "mem t' = mem s'"
    by (rule serve_fm_same [OF h(2,3) r(8,7) m(1) s1 sv])
  let ?M = "fm_lists_after m t L"
  have M: "?M = fm_lists_after m s L" by (simp add: fm_lists_after_def filed_def id(2))
  have fr: "good_traps (pm_frame F) (fm_frame F)" "good_traps (fm_inner F) (ram_frame F)"
    "frame_words (fst (pm_frame F)) \<inter> (frame_words (fst (fm_inner F)) \<union> frame_words (fst (ram_frame F))) = {}" using r(1) by (simp_all add: frames_ok_def)
  have ids: "FM t = word_of_nat i" "src m = word_of_nat c" using id(1) r(4,5) m(3) by simp_all
  obtain fin where f: "ask call (fm_loop call disk (fm_inner F) (ram_frame F)) (pm_frame F) (fm_frame F) (FM t) m t = Inr (e, snd (pm_frame F), fin)"
    "kmsg.more fin = kmsg.more t'" "mem fin = mem t'" "can_call ''ram'' c k d fin H ?M" "fm_inv fin H ?M" "\<And>j. waiting j t H L \<Longrightarrow> waiting j fin H ?M"
    "undisturbed (frame_words (fst (pm_frame F)) \<union> frame_words (fst (fm_frame F)) \<union> (frame_words (fst (fm_inner F)) \<union> frame_words (fst (ram_frame F)))) {c, i, k} t fin"
    by (rule fm_asked [OF h(1,4) r(2) ids(1) h(3) m(1) s1 ids(2) t'(1) fr, of call]) (rule that)
  note sf = serve_fm [OF h(2) m(1) s1 sv]
  have ts: "to_start n F N s' ?M" by (rule to_start_cong [OF h(6)]) (use sf(7) in \<open>simp_all add: undisturbed_def\<close>)
  have "undisturbed (all_frames F) {c, k, i, l} s' fin"
    by (rule undisturbed_trans [OF undisturbed_trans [OF undisturbed_swap [OF sf(7)] r(9) order_refl order_refl] f(7)]) (auto simp: all_frames_def)
  then have "live_rel c k i l d n F N s' fin"
    using r(1-6) f(2,3) t'(2,3) sf(8) sf(1) [folded M] f(4,5) f(6) [OF h(4)] f(6) [OF h(5)] ts by (intro live_relI [where H = H and L = ?M]) simp_all
  moreover have "live call disk vt kpdir F m t = Inr (e, fin)" using f(1) m(4) id(1) by (simp add: live_def)
  ultimately show ?thesis by blast
qed


text \<open>The memory manager's answer depends on its variables and the page directory of the process.\<close>

lemma serve_mm_same:
  fixes s t :: "'a kmm_scheme"
  assumes m: "mtype m = MM_NEW_PROC \<or> mtype m = MM_NEW_PAGE" and sv: "serve disk vt kpdir m s = Inr (e, s')" and more: "kmsg.more t = kmsg.more s"
    and cr: "\<And>j. PCB.cr3 (pcb_pool t j) = PCB.cr3 (pcb_pool s j)"
  shows "serve disk vt kpdir m t = Inr (e, t\<lparr>vmem_free := vmem_free s', page_mem := page_mem s'\<rparr>)"
    and "s' = s\<lparr>vmem_free := vmem_free s', page_mem := page_mem s'\<rparr>"
proof -
  have k: "MM t = MM s" "PM t = PM s" "vmem_free t = vmem_free s" "page_mem t = page_mem s" using more_kmm [OF more] by simp_all
  note ty = MM_NEW_PROC_def MM_NEW_PAGE_def FM_NEW_FILE_def FM_READ_def
  have "talked s s" by (simp add: talked_def)
  from mm_thread_serves [OF m sv this] show s': "s' = s\<lparr>vmem_free := vmem_free s', page_mem := page_mem s'\<rparr>" by blast
  from m show "serve disk vt kpdir m t = Inr (e, t\<lparr>vmem_free := vmem_free s', page_mem := page_mem s'\<rparr>)"
  proof
    assume y: "mtype m = MM_NEW_PROC"
    then obtain r where r: "do_new_proc_vmem vt kpdir s = Inr (r, s')" "e = m\<lparr>mtype := r, dest := PM s', src := MM s'\<rparr>"
      using sv by (auto simp: serve_def ty bindR_Inr_iff)
    then show ?thesis using vmem_local [OF r(1) k(3,4)] y k(1,2) by (simp add: serve_def ty)
  next
    assume y: "mtype m = MM_NEW_PAGE"
    then obtain r where r: "do_allocate_new_pages (src m) (req_pid m) s = Inr (r, s')" "e = m\<lparr>mtype := r, dest := PM s', src := MM s'\<rparr>"
      using sv by (auto simp: serve_def ty bindR_Inr_iff)
    then show ?thesis using pages_local [OF r(1) k(3,4) cr] y k(1,2) by (simp add: serve_def ty)
  qed
qed

lemma live_memory:
  assumes R: "live_rel c k i l d n F N s t" and m: "mtype m = MM_NEW_PROC \<or> mtype m = MM_NEW_PAGE" "src m \<noteq> 0" "dest m = MM s"
    and sv: "serve disk vt kpdir m s = Inr (e, s')"
  shows "\<exists>t'. live call disk vt kpdir F m t = Inr (e, t') \<and> live_rel c k i l d n F N s' t'"
proof -
  note r = live_relD [OF R]
  obtain H L where h: "can_call ''ram'' c k d t H L" "fm_inv s H L" "fm_inv t H L" "waiting i t H L" "waiting l t H L" "to_start n F N s L"
    by (rule live_relE [OF R])
  have id: "FM t = word_of_nat i" "MM t = word_of_nat l" "PM t = word_of_nat c" using more_kfm [OF r(8)] more_kmm [OF r(8)] r(4-6) by simp_all
  have run: "running c t H L" "waiting k t H L" using h(1) by (simp_all add: can_call_def)
  have mi: "msg_inv t H L" using run(1) by (simp add: running_def)
  have ne: "FM t \<noteq> MM t" using unat_thread [OF waiting_thread(1) [OF mi h(4)]] unat_thread [OF waiting_thread(1) [OF mi h(5)]] r(3) id by metis
  have cr: "PCB.cr3 (pcb_pool t j) = PCB.cr3 (pcb_pool s j)" for j using r(9) by (simp add: undisturbed_def)
  note sm = serve_mm_same [OF m(1) sv r(8) cr]
  have tr: "good_traps (pm_frame F) (mm_frame F)" using r(1) by (simp add: frames_ok_def)
  obtain fin where f: "ask call (mm_thread vt kpdir) (pm_frame F) (mm_frame F) (MM t) m t = Inr (e, snd (pm_frame F), fin)"
    "kmsg.more fin = kmsg.more (t\<lparr>vmem_free := vmem_free s', page_mem := page_mem s'\<rparr>)" "mem fin = mem (t\<lparr>vmem_free := vmem_free s', page_mem := page_mem s'\<rparr>)"
    "token fin = token t" "running c fin H L" "\<And>j. waiting j t H L \<Longrightarrow> waiting j fin H L"
    "undisturbed (frame_words (fst (pm_frame F)) \<union> frame_words (fst (mm_frame F))) {c, l} t fin"
    by (rule mm_asked [OF run(1) h(5) id(3,2) m(1,2) sm(1) tr, of call]) (rule that)
  have more: "kmsg.more fin = kmsg.more s'" using f(2) r(8) by (subst sm(2)) (cases t, cases s, simp)
  let ?t = "t\<lparr>vmem_free := vmem_free s', page_mem := page_mem s'\<rparr>"
  have wt: "works t ?t" by (simp add: works_def)
  have "hal_inv ?t H L" using h(1) by (simp add: can_call_def hal_inv_def proc_inv_def dev_at_def comp_def)
  then have "can_call ''ram'' c k d ?t H L"
    using h(1) works_rest(1) [OF wt run(1)] works_rest(2) [OF wt run(2)] by (simp add: can_call_def registry_def dev_at_def driver_pid_def)
  then have cc: "can_call ''ram'' c k d fin H L" by (rule can_call_transfer [OF _ f(2,5) f(6) [OF run(2)]]) simp_all
  have "fm_inv ?t H L" using h(3) by (simp add: fm_inv_def proc_inv_def bucket_def)
  then have fv: "fm_inv fin H L" by (rule fm_inv_kept [OF _ f(2) _ f(5)]) (simp add: f(4))
  have s': "fm_inv s' H L" "undisturbed {} {} s s'" "PM s' = PM s" "FM s' = FM s" "MM s' = MM s" "mem s' = mem s"
    using h(2) by (subst sm(2), simp add: fm_inv_def proc_inv_def bucket_def undisturbed_def)+
  have ts: "to_start n F N s' L" by (rule to_start_cong [OF h(6)]) (use s'(2) in \<open>simp_all add: undisturbed_def\<close>)
  have "undisturbed (all_frames F) {c, k, i, l} s' fin"
    by (rule undisturbed_trans [OF undisturbed_trans [OF undisturbed_swap [OF s'(2)] r(9) order_refl order_refl] f(7)]) (auto simp: all_frames_def)
  then have "live_rel c k i l d n F N s' fin"
    using r(1-7) f(3) s' more cc fv f(6) [OF h(4)] f(6) [OF h(5)] ts by (intro live_relI [where H = H and L = L]) simp_all
  moreover have "live call disk vt kpdir F m t = Inr (e, fin)" using f(1) m(3) ne id(2) r(6) by (simp add: live_def)
  ultimately show ?thesis by blast
qed

text \<open>A new thread comes to the same place in both runs, with the same words on its stack.\<close>

lemma copy_args_same:
  assumes "\<forall>x. x \<notin> W \<longrightarrow> m' x = m x"
  shows "fst (copy_args n fr p args m') = fst (copy_args n fr p args m)" and "x \<notin> W \<Longrightarrow> snd (copy_args n fr p args m') x = snd (copy_args n fr p args m) x"
proof -
  have "fst (copy_args n fr p args m') = fst (copy_args n fr p args m) \<and> (\<forall>x. x \<notin> W \<longrightarrow> snd (copy_args n fr p args m') x = snd (copy_args n fr p args m) x)"
    using assms
  proof (induction n arbitrary: fr p m m')
    case (Suc n)
    have "\<forall>x. x \<notin> W \<longrightarrow> (m'(fr := args p)) x = (m(fr := args p)) x" using Suc.prems by simp
    from Suc.IH [where m' = "m'(fr := args p)" and m = "m(fr := args p)", OF this] show ?case by (simp del: fun_upd_apply)
  qed simp
  then show "fst (copy_args n fr p args m') = fst (copy_args n fr p args m)" "x \<notin> W \<Longrightarrow> snd (copy_args n fr p args m') x = snd (copy_args n fr p args m) x"
    by blast+
qed

lemma new_stack_same:
  assumes "undisturbed W T s t"
  shows "fst (new_stack n a args t) = fst (new_stack n a args s)" and "x \<notin> W \<Longrightarrow> snd (new_stack n a args t) x = snd (new_stack n a args s) x"
proof -
  have "\<forall>x. x \<notin> W \<longrightarrow> stackmem t x = stackmem s x" using assms by (simp add: undisturbed_def)
  note c = copy_args_same [where W = W and m' = "stackmem t" and m = "stackmem s", OF this, where n = MAX_NUM_OF_ARGUMENTS and p = MAX_NUM_OF_ARGUMENTS and args = args]
  have b: "pcb_addr t n = pcb_addr s n" "segs t = segs s" using assms by (simp_all add: undisturbed_def pcb_addr_def)
  show "fst (new_stack n a args t) = fst (new_stack n a args s)" using c(1) by (simp add: new_stack_def b split_beta)
  show "snd (new_stack n a args t) x = snd (new_stack n a args s) x" if "x \<notin> W" using c(1) c(2) [OF that] by (simp add: new_stack_def b split_beta build_frame_def)
qed

lemma born_eq: "L Free = PcbList n # rest \<Longrightarrow> born n L = L(Free := rest, Block := L Block @ [PcbList n], MsgList n := [], SemBlock (MsgSem n) := [])"
  by (auto simp: born_def moved_def fun_eq_iff)

lemma born_running:
  assumes r: "running c s H L" and free: "L Free = PcbList n # rest" and t: "proc_inv t (born_heads n H) (born n L)"
    and eq: "current t = current s" "lock_count t = lock_count s" "lock_flag t = lock_flag s" "p_free t = p_free s" "token t = (token s)(MsgSem n := 0)"
  shows "running c t (born_heads n H) (born n L)"
proof -
  have rs: "msg_inv s H L" "L Ready = [PcbList c]" "L (SemBlock (MsgSem c)) = []" "token s (MsgSem c) = 0" "range MsgNode \<inter> linked H L = {}"
    using r by (simp_all add: running_def)
  note b = born_eq [of L n rest, OF free]
  have "linked (born_heads n H) (born n L) \<subseteq> linked H L \<union> {PcbList n, MsgList n, SemBlock (MsgSem n)}"
    unfolding b using free by (auto simp: linked_def born_heads_def split: if_splits)
  then have "range MsgNode \<inter> linked (born_heads n H) (born n L) = {}" using rs(5) by blast
  moreover have "msg_inv t (born_heads n H) (born n L)" using t msg_invD(2,3) [OF rs(1)] unfolding msg_inv_def b by (auto simp: eq born_heads_def)
  ultimately show ?thesis using r rs unfolding running_def b by (simp add: eq)
qed

lemma fst_copy_args: "fst (copy_args n fr p args m) = fr - 4 * word_of_nat n"
  by (induction n arbitrary: fr p m) (simp_all add: algebra_simps)

lemma fst_new_stack: "fst (new_stack n a args s) = pcb_addr s n + KSTACK_SIZE - 4 * word_of_nat MAX_NUM_OF_ARGUMENTS"
  unfolding new_stack_def split_beta Let_def fst_conv by (rule fst_copy_args)

lemma live_thread:
  assumes R: "live_rel c k i l d n F {} s t" and ck: "create_kthread a args s = Inr (n', s')"
  shows "\<exists>t'. create_kthread a args t = Inr (n', t') \<and> live_rel c k i l d n F {n'} s' t'"
proof -
  note r = live_relD [OF R]
  obtain H L where h: "can_call ''ram'' c k d t H L" "fm_inv s H L" "fm_inv t H L" "waiting i t H L" "waiting l t H L" "to_start n F {} s L"
    by (rule live_relE [OF R])
  note ps = fm_invD(1) [OF h(2)] and pt = fm_invD(1) [OF h(3)] and u = r(9)
  have run: "running c t H L" "waiting k t H L" using h(1) by (simp_all add: can_call_def)
  obtain rest where free: "L Free = PcbList n # rest" and slot: "entry_slot n s \<notin> all_frames F" using h(6) by (auto simp: to_start_def)
  let ?new = "\<lambda>s :: 'a kmm_scheme. s\<lparr>heap := self_link (SemBlock (MsgSem n)) (self_link (MsgList n) (requeue Block (PcbList n) (heap s))),
      pcb_pool := (pcb_pool s)(n := (pcb_pool s n)\<lparr>tf := fst (new_stack n a args s) - 68, locked := 0,
        stat := STAT_SLEEPING, pid := word_of_nat n, PCB.cr3 := kcr3 s\<rparr>),
      token := (token s)(MsgSem n := 0), stackmem := snd (new_stack n a args s), intr := intr s \<or> relock s\<rparr>"
  let ?H = "born_heads n H" and ?L = "born n L"
  note b = born_eq [of L n rest, OF free]
  obtain z where z: "create_kthread a args s = Inr (n, z)" "proc_inv z ?H ?L" "z = ?new s" by (rule create_kthread_inv [OF ps free])
  have s': "n' = n" "proc_inv s' ?H ?L" "s' = ?new s" using z ck by simp_all
  obtain t' where t': "create_kthread a args t = Inr (n, t')" "proc_inv t' ?H ?L" "t' = ?new t" by (rule create_kthread_inv [OF pt free])
  have H: "H \<subseteq> ?H" by (auto simp: born_heads_def)
  have lk: "range FileLink \<inter> linked ?H ?L \<subseteq> linked H L" unfolding b using free by (auto simp: linked_def born_heads_def split: if_splits)
  have bl: "?L (SemBlock FmMutex) = L (SemBlock FmMutex)" "?L (HashHead j) = L (HashHead j)" "?L Devices = L Devices" "?L FreeDev = L FreeDev" for j
    unfolding b by simp_all
  have fs: "fm_inv s' ?H ?L" by (rule fm_inv_transfer [OF h(2) _ _ s'(2) H bl(1,2) lk]) (simp_all add: s'(3))
  have ft: "fm_inv t' ?H ?L" by (rule fm_inv_transfer [OF h(3) _ _ t'(2) H bl(1,2) lk]) (simp_all add: t'(3))
  have rt: "running c t' ?H ?L" by (rule born_running [OF run(1) free t'(2)]) (simp_all add: t'(3))
  have wt: "waiting j t' ?H ?L" if j: "waiting j t H L" for j
  proof -
    have "PcbList n \<notin> set (L (SemBlock (MsgSem j)))"
      using rep_once [OF proc_invD(1) [OF pt] lists_invD(3) [OF proc_invD(2) [OF pt]], of "SemBlock (MsgSem j)" "PcbList n"] free j by (auto simp: waiting_def)
    then have "j \<noteq> n" using j by (auto simp: waiting_def)
    then show ?thesis using j unfolding waiting_def b by (simp add: t'(3) born_heads_def)
  qed
  have "can_call ''ram'' c k d t' ?H ?L" by (rule can_call_transfer [OF h(1) _ rt wt [OF run(2)] bl(3,4) H]) (simp add: t'(3))
  moreover have "undisturbed (all_frames F) {c, k, i, l} s' t'"
    using u new_stack_same [OF u, where n = n and a = a and args = args] by (simp add: undisturbed_def s'(3) t'(3))
  moreover have "to_start n F {n} s' ?L" unfolding to_start_def b using slot by (simp add: s'(3) fst_new_stack entry_slot_def algebra_simps)
  moreover have "kmsg.more t' = kmsg.more s'" "mem t' = mem s'" "PM s' = PM s" "FM s' = FM s" "MM s' = MM s"
    using r(7,8) by (simp_all add: s'(3) t'(3))
  ultimately have "live_rel c k i l d n F {n} s' t'"
    using r(1-6) fs ft wt [OF h(4)] wt [OF h(5)] by (intro live_relI [where H = ?H and L = ?L]) simp_all
  with t'(1) s'(1) show ?thesis by blast
qed

text \<open>The other steps of the process manager between its requests.\<close>

lemma live_space:
  assumes R: "live_rel c k i l d n F N s t"
  shows "live_rel c k i l d n F N (upd_pcb j (\<lambda>q. q\<lparr>PCB.cr3 := v\<rparr>) s) (upd_pcb j (\<lambda>q. q\<lparr>PCB.cr3 := v\<rparr>) t)"
proof -
  let ?f = "\<lambda>s :: 'a kmm_scheme. upd_pcb j (\<lambda>q. q\<lparr>PCB.cr3 := v\<rparr>) s"
  note r = live_relD [OF R]
  obtain H L where h: "can_call ''ram'' c k d t H L" "fm_inv s H L" "fm_inv t H L" "waiting i t H L" "waiting l t H L" "to_start n F N s L"
    by (rule live_relE [OF R])
  have st: "stat_inv (pcb_pool (?f x)) H L = stat_inv (pcb_pool x) H L" for x by (auto simp: stat_inv_def upd_pcb_def)
  have pi: "proc_inv x H L \<Longrightarrow> proc_inv (?f x) H L" for x using st [of x] by (simp add: proc_inv_def upd_pcb_def)
  have fi: "fm_inv x H L \<Longrightarrow> fm_inv (?f x) H L" for x using pi by (simp add: fm_inv_def bucket_def) (simp add: upd_pcb_def)
  have run: "running c t H L" "waiting k t H L" using h(1) by (simp_all add: can_call_def)
  have "running c (?f t) H L" using run(1) pi [of t] by (simp add: running_def msg_inv_def) (simp add: upd_pcb_def)
  moreover have wt: "waiting x t H L \<Longrightarrow> waiting x (?f t) H L" for x by (auto simp: waiting_def upd_pcb_def)
  ultimately have "can_call ''ram'' c k d (?f t) H L" by (intro can_call_transfer [OF h(1)] wt run(2)) (simp_all add: upd_pcb_def)
  moreover have "undisturbed (all_frames F) {c, k, i, l} (?f s) (?f t)" using r(9) by (simp add: undisturbed_def upd_pcb_def)
  moreover have "to_start n F N (?f s) L" by (rule to_start_cong [OF h(6)]) (simp_all add: upd_pcb_def)
  ultimately show ?thesis
    using r(1-8) fi [OF h(2)] fi [OF h(3)] wt [OF h(4)] wt [OF h(5)] by (intro live_relI [where H = H and L = L]) (simp_all add: upd_pcb_def)
qed

lemma live_store:
  assumes R: "live_rel c k i l d n F N s t"
  shows "live_rel c k i l d n F N (s\<lparr>mem := M\<rparr>) (t\<lparr>mem := M\<rparr>)"
proof -
  note r = live_relD [OF R]
  obtain H L where h: "can_call ''ram'' c k d t H L" "fm_inv s H L" "fm_inv t H L" "waiting i t H L" "waiting l t H L" "to_start n F N s L"
    by (rule live_relE [OF R])
  have "fm_inv (x\<lparr>mem := M\<rparr>) H L = fm_inv x H L" for x :: "'a kmm_scheme" by (simp add: fm_inv_def proc_inv_def bucket_def)
  moreover have "undisturbed (all_frames F) {c, k, i, l} (s\<lparr>mem := M\<rparr>) (t\<lparr>mem := M\<rparr>)" using r(9) by (simp add: undisturbed_def)
  moreover have "to_start n F N (s\<lparr>mem := M\<rparr>) L" by (rule to_start_cong [OF h(6)]) simp_all
  ultimately show ?thesis
    using r(1-8) h can_call_mem [OF h(1), of M] works_rest(2) [OF works_mem] by (intro live_relI [where H = H and L = L]) simp_all
qed

lemma live_pids:
  assumes R: "live_rel c k i l d n F N s t" and j: "j \<in> N"
  shows "pid (pcb_pool t j) = pid (pcb_pool s j) \<and> pid (pcb_pool s j) \<noteq> 0"
proof -
  obtain H L where h: "fm_inv s H L" "to_start n F N s L" by (rule live_relE [OF R]) (rule that)
  have n: "j = n" "PcbList n \<in> set (L Block)" using h(2) j by (auto simp: to_start_def split: if_splits)
  note pi = fm_invD(1) [OF h(1)]
  note li = proc_invD(2) [OF pi]
  have t: "PcbList n \<in> threads" using lists_invD(5) [OF li lists_invD(2) [OF li], of "PcbList n"] n(2) by simp
  have "PcbList n \<notin> set (L Free)" using rep_once [OF proc_invD(1) [OF pi] lists_invD(2,3) [OF li] n(2)] by auto
  then have "pid (pcb_pool s n) = word_of_nat n" using proc_invD(3) [OF pi] t by (simp add: stat_inv_def)
  moreover have "(word_of_nat n :: pid_t) \<noteq> 0" using t by (intro thread_word_nonzero) (auto simp: threads_def)
  ultimately show ?thesis using live_relD(9) [OF R] n(1) by (simp add: undisturbed_def)
qed

lemma live_manager:
  assumes R: "live_rel c k i l d n F N s t"
  shows "PM s \<noteq> 0"
proof -
  obtain H L where "can_call ''ram'' c k d t H L" by (rule live_relE [OF R]) (rule that)
  then have "running c t H L" by (simp add: can_call_def)
  then show ?thesis using thread_word_nonzero running_thread(1,2) live_relD(4) [OF R] by metis
qed

interpretation lv: rpc_simulation "serve disk vt kpdir" "live call disk vt kpdir F" "live_rel c k i l d n F" for disk vt kpdir call F c k i l d n
proof
  show "mem t = mem s \<and> PM t = PM s \<and> FM t = FM s \<and> MM t = MM s" if "live_rel c k i l d n F N s t" for N s t
    using live_relD(7,8) [OF that] more_kfm [OF live_relD(8) [OF that]] more_kmm [OF live_relD(8) [OF that]] by simp
qed (rule live_pids live_file live_memory live_manager live_thread live_space live_store; assumption)+

section \<open>The loading of a program\<close>

text \<open>The new thread is woken: it becomes ready behind the process manager, in both runs.\<close>

lemma live_wakeup:
  assumes R: "live_rel c k i l d n F {n'} s t" and wk: "wakeup (Some (PcbList n')) s = Inr s'"
  obtains t' H L where "n' = n" and "wakeup (Some (PcbList n')) t = Inr t'" and "proc_inv t' H L" and "L Ready = [PcbList c, PcbList n]"
    and "waiting k t' H L" and "waiting i t' H L" and "waiting l t' H L" and "kmsg.more t' = kmsg.more s'" and "mem t' = mem s'"
    and "PCB.cr3 (pcb_pool t' n) = PCB.cr3 (pcb_pool s' n)" and "resumes_at n t' = resumes_at n s'"
proof -
  note r = live_relD [OF R]
  obtain H L where h: "can_call ''ram'' c k d t H L" "fm_inv s H L" "fm_inv t H L" "waiting i t H L" "waiting l t H L" "to_start n F {n'} s L"
    by (rule live_relE [OF R])
  have n: "n' = n" "PcbList n \<in> set (L Block)" "tf (pcb_pool s n) + 56 \<notin> all_frames F" using h(6) by (simp_all add: to_start_def)
  have run: "running c t H L" "waiting k t H L" using h(1) by (simp_all add: can_call_def)
  note ps = fm_invD(1) [OF h(2)] and pt = fm_invD(1) [OF h(3)]
  note B = lists_invD(2) [OF proc_invD(2) [OF pt]]
  let ?up = "\<lambda>s :: 'a kmm_scheme. s\<lparr>heap := requeue Ready (PcbList n) (heap s), pcb_pool := (pcb_pool s)(n := (pcb_pool s n)\<lparr>stat := STAT_READY\<rparr>), intr := relock s\<rparr>"
  obtain z where z: "wakeup (Some (PcbList n)) s = Inr z" "z = ?up s" by (rule wakeup_inv [OF ps B _ n(2)]) (use that in auto)
  obtain t' where t': "wakeup (Some (PcbList n)) t = Inr t'" "t' = ?up t" "proc_inv t' H (moved Block Ready (PcbList n) L)"
    by (rule wakeup_inv [OF pt B _ n(2)]) (use that in auto)
  have s': "s' = ?up s" using z wk n(1) by simp
  let ?L = "moved Block Ready (PcbList n) L"
  have once: "PcbList n \<notin> set (L x)" if "x \<in> H" "x \<noteq> Block" for x using rep_once [OF proc_invD(1) [OF pt] B that(1) n(2)] that(2) by blast
  have wt: "n \<noteq> j \<and> waiting j t' H ?L" if "waiting j t H L" for j
  proof -
    have "n \<noteq> j" using once [of "SemBlock (MsgSem j)"] that by (auto simp: waiting_def)
    then show ?thesis using that by (auto simp: waiting_def moved_def t'(2))
  qed
  have rd: "L Ready = [PcbList c]" using run(1) by (simp add: running_def)
  have "n \<noteq> c" using once [OF lists_invD(1) [OF proc_invD(2) [OF pt]]] rd by auto
  then have "tf (pcb_pool t n) = tf (pcb_pool s n)" using r(9) wt [OF run(2)] wt [OF h(4)] wt [OF h(5)] by (simp add: undisturbed_def)
  then have "resumes_at n t' = resumes_at n s'" using r(9) n(3) by (simp add: resumes_at_def t'(2) s' undisturbed_def)
  moreover have "?L Ready = [PcbList c, PcbList n]" using rd by (simp add: moved_def)
  moreover have "PCB.cr3 (pcb_pool t' n) = PCB.cr3 (pcb_pool s' n)" using r(9) by (simp add: t'(2) s' undisturbed_def)
  moreover have "kmsg.more t' = kmsg.more s'" "mem t' = mem s'" using r(7,8) by (simp_all add: t'(2) s')
  ultimately show thesis using that t'(1,3) n(1) wt [OF run(2)] wt [OF h(4)] wt [OF h(5)] by blast
qed

section \<open>Properties\<close>

text \<open>
  C4: a program is loaded over messages.  The process manager runs, the file manager, the RAM disk and the memory
  manager wait for requests, and nothing else is ready.  Then \<open>do_new_proc\<close>, with every message, context switch
  and turn of a server in between, returns; the new thread is ready behind the process manager, the servers wait again, and
  the new thread resumes at the entry of the program and sees its segments through its page directory.
\<close>

theorem process_loaded_live:
  fixes s :: "'a kmm_scheme"
  assumes "can_call ''ram'' c k d s H L" and "fm_inv s H L" and "waiting i s H L" and "waiting l s H L" and "k \<noteq> i" and "i \<noteq> l"
    and "PM s = word_of_nat c" and "FM s = word_of_nat i" and "MM s = word_of_nat l" and "frames_ok F"
    and "L Free = PcbList n # rest" and "entry_slot n s \<notin> all_frames F" and "vm_ready vt kpdir kpt s" and "fm_empty s < 8"
    and "places b (disk + word_of_nat (file_one s) * NR_FILE_SIZE)"
    and "bytes_at 131072 (disk + word_of_nat (file_one s) * NR_FILE_SIZE) f (mem s)" and "loadable f"
  shows "\<exists>t H' L'. do_new_proc (live call disk vt kpdir F) b args junk filename s = Inr t \<and> proc_inv t H' L' \<and>
    L' Ready = [PcbList c, PcbList n] \<and> waiting k t H' L' \<and> waiting i t H' L' \<and> waiting l t H' L' \<and> resumes_at n t = e_entry (elf_of f) \<and>
    (\<forall>h\<in>set (elf_segments f). \<forall>k<unat (p_memsz h). \<exists>y.
       translate (page_mem t) (PCB.cr3 (pcb_pool t n)) (p_vaddr h + word_of_nat k) = Some y \<and>
       mem t y = (if k < unat (p_filesz h) then f (unat (p_off h) + k) else 0))"
proof -
  obtain s' where s': "do_new_proc (serve disk vt kpdir) b args junk filename s = Inr s'" "resumes_at n s' = e_entry (elf_of f)"
    "\<forall>h\<in>set (elf_segments f). \<forall>k<unat (p_memsz h). \<exists>y. translate (page_mem s') (PCB.cr3 (pcb_pool s' n)) (p_vaddr h + word_of_nat k) = Some y \<and>
       mem s' y = (if k < unat (p_filesz h) then f (unat (p_off h) + k) else 0)"
    using program_loaded [OF assms(2,11,13-17), of args junk filename] by blast
  have "undisturbed (all_frames F) {c, k, i, l} s s" by (simp add: undisturbed_def)
  moreover have "to_start n F {} s L" using assms(11,12) by (simp add: to_start_def)
  ultimately have "live_rel c k i l d n F {} s s" using assms(1-10) by (intro live_relI [where H = H and L = L]) simp_all
  then obtain n' s1 t1 where l: "live_rel c k i l d n F {n'} s1 t1" "wakeup (Some (PcbList n')) s1 = Inr s'"
    "do_new_proc (live call disk vt kpdir F) b args junk filename s = wakeup (Some (PcbList n')) t1"
    by (rule lv.do_new_proc_sim [OF _ s'(1)])
  obtain t H' L' where t: "wakeup (Some (PcbList n')) t1 = Inr t" "proc_inv t H' L'" "L' Ready = [PcbList c, PcbList n]" "waiting k t H' L'" "waiting i t H' L'"
    "waiting l t H' L'" "kmsg.more t = kmsg.more s'" "mem t = mem s'" "PCB.cr3 (pcb_pool t n) = PCB.cr3 (pcb_pool s' n)" "resumes_at n t = resumes_at n s'"
    by (rule live_wakeup [OF l(1,2)])
  have "page_mem t = page_mem s'" using more_kmm [OF t(7)] by simp
  then show ?thesis using l(3) t(1-6,8-10) s'(2,3) by auto
qed

text \<open>Frames on stacks that lie above the word \<open>x\<close>.\<close>

definition demo_traps :: "u32 \<Rightarrow> trap_frames" where
  "demo_traps x = \<lparr>pm_frame = (x + 0x10000, trap_frame 1), fm_frame = (x + 0x14000, trap_frame 2), fm_inner = (x + 0x18000, trap_frame 3),
     ram_frame = (x + 0x1c000, trap_frame 4), mm_frame = (x + 0x20000, trap_frame 5)\<rparr>"

lemma frame_words_shift: "frame_words (x + a) = (+) x ` frame_words a"
  by (simp add: frame_words_def add.assoc)

lemma shifted_apart: "frame_words a \<inter> frame_words b = {} \<Longrightarrow> frame_words (x + a) \<inter> frame_words (x + b) = {}"
  by (auto simp: frame_words_shift)

lemma demo_traps_ok: "frames_ok (demo_traps x)" and demo_traps_above: "x \<notin> all_frames (demo_traps x)"
proof -
  have d: "frame_words 0x10000 \<inter> frame_words 0x14000 = {}" "frame_words 0x10000 \<inter> frame_words 0x18000 = {}" "frame_words 0x10000 \<inter> frame_words 0x1c000 = {}"
    "frame_words 0x10000 \<inter> frame_words 0x20000 = {}" "frame_words 0x18000 \<inter> frame_words 0x1c000 = {}" by (simp_all add: frame_words_def)
  show "frames_ok (demo_traps x)" using d [THEN shifted_apart, of x]
    by (simp add: frames_ok_def good_traps_def demo_traps_def trap_frame_def Int_Un_distrib)
  have "x \<notin> (+) x ` frame_words a" if "0 \<notin> frame_words a" for a using that by auto
  then show "x \<notin> all_frames (demo_traps x)" by (simp add: all_frames_def demo_traps_def frame_words_shift) (simp add: frame_words_def)
qed

theorem process_loaded_live_witness:
  "\<exists>(s :: kmm) F t y y'. do_new_proc (live (\<lambda>_ s. Inr s) 0xC0300000 0xC0200000 0xC0100000 F) 0xC0280000 (\<lambda>_. 0) (ten_bytes 0) 1 s = Inr t \<and>
     resumes_at 5 t = 0x8048000 \<and> translate (page_mem t) (PCB.cr3 (pcb_pool t 5)) 0x8048001 = Some y \<and> mem t y = 9 \<and>
     translate (page_mem t) (PCB.cr3 (pcb_pool t 5)) 0x8048002 = Some y' \<and> mem t y' = 0"
proof (rule demo_servers)
  fix s :: kmm and H L
  assume s: "can_call ''ram'' 1 2 0 s H L" "fm_inv s H L" "waiting 3 s H L" "waiting 4 s H L" "FM s = 3" "MM s = 4" "PM s = 1" "fm_empty s = 0"
    "vm_ready 0xC0200000 0xC0100000 0x101000 s" "L Free = PcbList 5 # map PcbList [6..<PCB_POOL_SIZE]"
  let ?s = "s\<lparr>mem := demo_mem\<rparr>" and ?F = "demo_traps (entry_slot 5 s)"
  have i: "fm_inv ?s H L" "vm_ready 0xC0200000 0xC0100000 0x101000 ?s" "fm_empty ?s = 0"
    using s(2,8,9) by (simp_all add: fm_inv_def proc_inv_def bucket_def vm_ready_def)
  have w: "waiting 3 ?s H L" "waiting 4 ?s H L" using works_rest(2) [OF works_mem] s(3,4) by blast+
  have ids: "PM ?s = word_of_nat 1" "FM ?s = word_of_nat 3" "MM ?s = word_of_nat 4" "(2 :: nat) \<noteq> 3" "(3 :: nat) \<noteq> 4" "fm_empty ?s < 8" using s(5-8) by simp_all
  have sl: "entry_slot 5 ?s \<notin> all_frames ?F" using demo_traps_above [of "entry_slot 5 s"] by (simp add: entry_slot_def pcb_addr_def)
  have ba: "bytes_at 131072 (0xC0300000 + word_of_nat (file_one ?s) * NR_FILE_SIZE) demo_prog (mem ?s)" using demo_disk(2) [OF i(3)] by simp
  from process_loaded_live [OF can_call_mem [OF s(1)] i(1) w ids(4,5,1-3) demo_traps_ok s(10) sl i(2) ids(6) demo_disk(1) [OF i(3)] ba demo_prog_loadable,
      of "\<lambda>_ s. Inr s" "\<lambda>_. 0" "ten_bytes 0" 1]
  obtain t where t: "do_new_proc (live (\<lambda>_ s. Inr s) 0xC0300000 0xC0200000 0xC0100000 ?F) 0xC0280000 (\<lambda>_. 0) (ten_bytes 0) 1 ?s = Inr t"
    "resumes_at 5 t = e_entry (elf_of demo_prog)" "\<forall>h\<in>set (elf_segments demo_prog). \<forall>k<unat (p_memsz h). \<exists>y.
       translate (page_mem t) (PCB.cr3 (pcb_pool t 5)) (p_vaddr h + word_of_nat k) = Some y \<and>
       mem t y = (if k < unat (p_filesz h) then demo_prog (unat (p_off h) + k) else 0)" by auto
  have "demo_prog 4097 = 9" by (simp add: demo_prog_def)
  then show ?thesis using t(1,2) demo_seen [OF t(3), of 1] demo_seen [OF t(3), of 2]
    by (intro exI [of _ ?s] exI [of _ ?F] exI [of _ t]) (auto simp: demo_prog_elf)
qed

end
