(* ===== verification/Spec2Isabelle.thy ===== *)
theory Spec2Isabelle
  imports Ipc Prodcons Boot Tests Load
begin

text \<open>
  \<^bold>\<open>NanoOS.\<close>  A verification development of the teaching operating system in \<open>src/\<close>: a 32-bit
  x86 kernel of kernel threads that pass messages, with drivers and servers as threads.

  \<^bold>\<open>The program and its parts.\<close>  The boot block (\<open>boot/main.c\<close>) reads the kernel from the disk
  and jumps to \<open>os_init\<close> (\<open>kernel/main.c\<close>).  Start-up builds the page tables and segments
  (\<open>memory/\<close>), the interrupt table (\<open>irq/\<close>), the process lists (\<open>process/\<close>), the drivers
  (\<open>drivers/\<close>) and the servers (\<open>service/\<close>), asks for the first user process and becomes the idle
  thread.  Threads run round robin; an interrupt enters through \<open>do_irq.S\<close>, runs the
  registered routines and may switch to another thread.  Everything above that is messages:
  \<open>send\<close> links a slot of a message pool into the mailbox of the receiver and raises its
  semaphore, \<open>receive\<close> lowers it and unlinks.  \<open>dev_read\<close> and \<open>dev_write\<close> look a device up in a
  registry, send its driver a request and wait for the answer; the process manager asks the file
  manager for the contents of a program and the memory manager for an address space.

  \<^bold>\<open>Model.\<close>  Machine words are \<open>word\<close>s; \<open>int\<close> variables are \<open>int\<close> where the code cannot
  overflow and words where it can (the counters of the test threads, which run for ever), with
  \<open>sint\<close> and \<open>unat\<close> as the C types ask; signed overflow wraps around.  The global
  variables are one record that each component extends with its own, in the chain \<open>kcore\<close>,
  \<open>kmsg\<close>, \<open>kirq\<close>, \<open>khal\<close>, \<open>ktimer\<close>, \<open>kide\<close>, \<open>kdrv\<close>, \<open>ktty\<close>, \<open>kfm\<close>, \<open>kmm\<close>, so that
  the routines of a lower component run unchanged on the state of a higher one.  A routine that can
  fail returns \<open>kerror + 'a\<close>: a failed \<open>assert\<close>, a \<open>panic\<close>, a null pointer, an access outside an
  array, or a loop that does not end.  A thread function that loops for ever is the body of its
  loop as a function of the message that it has received.  The bytes of memory (\<open>mem\<close>), the words
  of the kernel stacks (\<open>stackmem\<close>) and the page tables (\<open>page_mem\<close>) are three fields: a write
  through one of them is not seen in the others, nor is a low address the same as the one
  \<open>KOFFSET\<close> above it.

  \<^bold>\<open>Theories.\<close>
  \<^item> \<open>Prelude\<close>: C types, errors and their sequencing, checked arrays, shared lemmas.
  \<^item> \<open>Lists\<close> (\<open>adt/list.h\<close>): the pointer operations on intrusive lists; they implement a family
    of disjoint lists (locale \<open>list_family\<close>, interpreted by \<open>lf\<close>).
  \<^item> \<open>Process\<close> (\<open>process.h\<close>, \<open>util.c\<close>, \<open>lock.c\<close>, \<open>schedule.c\<close>): threads, locks, semaphores, the
    scheduler.  P and V refine a semaphore with a queue, \<open>schedule\<close> is fair, and thread creation
    keeps the invariant of the lists.
  \<^item> \<open>Message\<close> (\<open>message.c\<close>): \<open>send\<close> appends to a queue, \<open>receive\<close> takes the first wanted message.
  \<^item> \<open>Ipc\<close>: the critical sections of these routines as one transition system.  By rule
    induction the tokens of every mailbox match its messages, as long as no slot of the message
    pool is reused while it is in a mailbox, which \<open>send\<close> does not check; the process lists stay
    sound and no routine on them fails even then.
  \<^item> \<open>Irq\<close> (\<open>irq_handle.c\<close>, \<open>do_irq.S\<close>): the context switch saves and restores frame and lock
    count, and a new thread starts at its entry point.
  \<^item> \<open>Idt\<close> (\<open>idt.c\<close>, \<open>do_irq.S\<close>, \<open>i8259.c\<close>): every vector leads to the stub that pushes its number.
  \<^item> \<open>Memory\<close> (\<open>kvm.c\<close>, \<open>memory/util.c\<close>, \<open>x86/memory.h\<close>, \<open>x86/cpu.h\<close>): the page tables make the
    processor map the kernel to \<open>KOFFSET\<close>, and the segments are flat.
  \<^item> \<open>Strings\<close> (\<open>string.c\<close>, \<open>kcpy.c\<close>), \<open>Printk\<close> (\<open>printk.c\<close>, \<open>serial.c\<close>): byte-wise memory
    routines, number printing that reads back, and \<open>vfprintf\<close> against a list of pieces.
  \<^item> \<open>Hal\<close> (\<open>hal.c\<close>): the device registry as a finite map (locale \<open>device_registry\<close>).
  \<^item> \<open>Timer\<close> (\<open>timer.c\<close>): the clock and the alarms.
  \<^item> \<open>Disk\<close> (\<open>disk.c\<close>, \<open>cache.c\<close>): programmed I/O meets the contract of a sector store
    (locales \<open>ata_drive\<close>, \<open>sector_store\<close>), and the sector cache over it is a flat array of bytes.
    \<open>Ide\<close> (\<open>ide.c\<close>) serves ranges of it.
  \<^item> \<open>Drivers\<close> (\<open>others/\<close>, \<open>ram/\<close>): the devices in memory; three of them meet the contract
    \<open>copy_server\<close>.
  \<^item> \<open>Console\<close> and \<open>Tty\<close> (\<open>drivers/tty/\<close>): the screen refines an ideal scrolling terminal, the
    line editor two strings around the cursor, and the cooked ring a queue of lines; the server,
    the keyboard and the status line.
  \<^item> \<open>Fm\<close>, \<open>Mm\<close>, \<open>Pm\<close> (\<open>service/\<close>): files, address spaces and the loading of a program, over
    the ELF structures of \<open>Elf\<close>.  \<open>Ramdisk\<close> is the image that is linked into the kernel, and the first
    process is loaded from it.
  \<^item> \<open>Boot\<close> (\<open>boot/main.c\<close>): the boot loader returns with the kernel in memory.
  \<^item> \<open>Init\<close> (\<open>kernel/main.c\<close>, \<open>drivers.c\<close>): the whole start-up runs through from the kernel as linked,
    as the run in which no interrupt is taken.
  \<^item> \<open>Bounded\<close> and \<open>Prodcons\<close> (\<open>test_setup\<close> and its threads in \<open>util.c\<close>): the first is the
    specification of a bounded buffer; the second models the producers and consumers on the kernel's
    semaphores, scheduler and process switch, in every interleaving of their statements, and
    simulates the first: safety and progress.
  \<^item> \<open>Ring\<close> (threads \<open>A\<close> to \<open>E\<close> of \<open>util.c\<close>): interleavings of the single statements of the five
    message threads, over the mailboxes that \<open>Message\<close> proves of \<open>send\<close> and \<open>receive\<close>: order and
    progress.
  \<^item> \<open>Rpc\<close>: a request and its answer end to end, composed of \<open>send\<close>, \<open>receive\<close>, the trap, the
    scheduler and the loop body of the server, which may hold conversations of its own; the start of
    a server (locale \<open>memory_driver\<close>).  \<open>Calls\<close>: the devices in memory meet it, so that
    \<open>dev_read\<close> and \<open>dev_write\<close> return with what the device does; the memory manager's answers.
    \<open>Files\<close>: the file manager answers, calling the RAM disk in between.
  \<^item> \<open>Load\<close>: the loading of a program over all of these.  The two ways to answer requests, routines
    and threads, are related by a simulation (locale \<open>rpc_simulation\<close>, interpreted by \<open>lv\<close>).
  \<^item> \<open>Tests\<close> (test threads of \<open>kernel/main.c\<close>, \<open>getty.c\<close>).

  \<^bold>\<open>Loops, bounds and fuel.\<close>  Waiting loops on hardware (\<open>waitdisk\<close>, \<open>ide_poll\<close>,
  \<open>serial_wait\<close>) and loops over addresses (\<open>clear_rest\<close>, \<open>readsects\<close>, \<open>strlen\<close>) are partial
  functions into \<open>option\<close>; that they return is part of the theorems that use them.  The other
  loops are recursive with their termination proved.  A walk over a linked list is bounded by
  the size of its pool, which a well-formed list never exceeds; going beyond it is \<open>NoReturn\<close>.

  \<^bold>\<open>Parameters.\<close>  The hardware is a parameter: ports (\<open>'d ports\<close>), the CMOS, the scan codes.  The
  locales \<open>ata_drive\<close> and \<open>polled_drive\<close> state what is relied on of a drive, and a register-level
  model of one satisfies both.  Addresses of functions and of static arrays, and the
  uninitialised contents of local variables, are arguments.  In \<open>Pm\<close> and \<open>Tests\<close> a request and the
  wait for its answer are one argument: in \<open>Pm\<close> the routines of the servers (\<open>serve\<close>), in \<open>Load\<close>
  their threads (\<open>live\<close>), in \<open>Tests\<close> the complete call of a device in memory (\<open>live_read\<close>).
  The complete calls are followed while no other thread is ready and no interrupt comes in;
  \<open>Ipc\<close> covers the interleavings.

  \<^bold>\<open>Not modelled.\<close>  The entry code of the boot block (\<open>boot/start.S\<close>), which is assembly that
  enters protected mode; the logo, which is text that a panic prints; the source of the user
  program, whose compiled bytes are in \<open>Ramdisk\<close>; headers that hold only prototypes; build files.
  The effect of segmentation on addresses and the time that instructions take have no counterpart.
  The text that a panic prints is dropped with the panic itself.  Progress and debugging messages
  (\<open>pm.c\<close> 52 and 106, \<open>console.c\<close> 171, \<open>disk.c\<close> 14) are left out, and \<open>hal_list\<close> returns the devices
  that it prints.  \<open>wait_ready\<close> gets the interrupt messages that it receives from the model of the
  ports.  A control string of \<open>vfprintf\<close> is the list of its characters before the terminating zero.
\<close>

end
